(* ===== verification/Gomoku_Prelude.thy ===== *)
theory Gomoku_Prelude
  imports Complex_Main "HOL-Library.Word" "HOL-Library.Signed_Division"
begin

text \<open>
  Shared material of the development.

  \<^item> The effect of a call. A C++ call returns a value, ends the process
    (\<open>CHECK\<close>, \<open>DCHECK\<close>, \<open>LOG(FATAL)\<close>, undefined behaviour), or never returns.
    The type \<open>'a res\<close> has one shape for each: \<^verbatim>\<open>ret x\<close>, \<^verbatim>\<open>abort e\<close> and
    \<^const>\<open>None\<close>. It is an option over a sum, so that a loop which may run forever is
    a \<^theory_text>\<open>partial_function (option)\<close>.
  \<^item> The macros of \<^verbatim>\<open>tensorflow/core/platform/default/logging.h\<close>: \<open>CHECK\<close> always
    runs; \<open>DCHECK\<close> is \<open>CHECK\<close> unless \<open>NDEBUG\<close> is defined. \<open>DCHECK\<close> is modelled as
    the active check; the component theorems show where it cannot fail, and there the
    \<open>NDEBUG\<close> build behaves the same.
  \<^item> Loops over lists in \<open>'a res\<close>, with the lemmas the components use.
\<close>

named_theorems res_simps \<open>computation rules of the result type\<close>
named_theorems res_dests \<open>what a call that returned must have done\<close>

subsection \<open>Results of calls\<close>

datatype fatal =
    CheckFailed string
  | LogFatal string
  | Undefined string
  | Thrown string

type_synonym 'a res = "(fatal + 'a) option"

definition ret :: "'a \<Rightarrow> 'a res" where
  "ret x = Some (Inr x)"

definition abort :: "fatal \<Rightarrow> 'a res" where
  "abort e = Some (Inl e)"

definition bnd :: "'a res \<Rightarrow> ('a \<Rightarrow> 'b res) \<Rightarrow> 'b res" where
  "bnd m f = Option.bind m (\<lambda>r. case r of Inl e \<Rightarrow> Some (Inl e) | Inr x \<Rightarrow> f x)"

definition CHECK :: "bool \<Rightarrow> string \<Rightarrow> 'a res \<Rightarrow> 'a res" where
  "CHECK c msg k = (if c then k else abort (CheckFailed msg))"

definition DCHECK :: "bool \<Rightarrow> string \<Rightarrow> 'a res \<Rightarrow> 'a res" where
  "DCHECK c msg k = CHECK c msg k"

text \<open>Signed arithmetic whose result leaves the type is undefined.\<close>

definition int32 :: "int \<Rightarrow> int res" where
  "int32 i = (if - (2 ^ 31) \<le> i \<and> i < 2 ^ 31 then ret i else abort (Undefined ''signed overflow''))"

definition int64 :: "int \<Rightarrow> int res" where
  "int64 i = (if - (2 ^ 63) \<le> i \<and> i < 2 ^ 63 then ret i else abort (Undefined ''signed overflow''))"

lemma bnd_ret [simp, res_simps]: "bnd (ret x) f = f x"
  by (simp add: bnd_def ret_def)

lemma bnd_abort [simp, res_simps]: "bnd (abort e) f = abort e"
  by (simp add: bnd_def abort_def)

lemma bnd_None [simp, res_simps]: "bnd None f = None"
  by (simp add: bnd_def)

lemma ret_eq [simp]: "ret x = ret y \<longleftrightarrow> x = y"
  by (simp add: ret_def)

lemma abort_eq [simp]: "abort e = abort e' \<longleftrightarrow> e = e'"
  by (simp add: abort_def)

lemma res_distinct [simp]:
  "ret x \<noteq> abort e" "abort e \<noteq> ret x" "ret x \<noteq> None" "None \<noteq> ret x"
  "abort e \<noteq> None" "None \<noteq> abort e"
  by (simp_all add: ret_def abort_def)

lemma res_cases [case_names Diverges Aborts Returns]:
  obtains "m = None" | e where "m = abort e" | x where "m = ret x"
proof (cases m)
  case (Some r)
  then show ?thesis using that by (cases r) (auto simp: ret_def abort_def)
qed (use that in blast)

lemma bnd_eq_ret [res_dests]:
  "bnd m f = ret y \<longleftrightarrow> (\<exists>x. m = ret x \<and> f x = ret y)"
  by (cases m rule: res_cases) auto

lemma bnd_eq_abort:
  "bnd m f = abort e \<longleftrightarrow> m = abort e \<or> (\<exists>x. m = ret x \<and> f x = abort e)"
  by (cases m rule: res_cases) auto

lemma bnd_eq_None:
  "bnd m f = None \<longleftrightarrow> m = None \<or> (\<exists>x. m = ret x \<and> f x = None)"
  by (cases m rule: res_cases) auto

lemma bnd_ret_right [simp]: "bnd m ret = m"
  by (cases m rule: res_cases) auto

lemma bnd_assoc: "bnd (bnd m f) g = bnd m (\<lambda>x. bnd (f x) g)"
  by (cases m rule: res_cases) auto

lemma bnd_cong [fundef_cong]:
  "m = m' \<Longrightarrow> (\<And>x. m' = ret x \<Longrightarrow> f x = f' x) \<Longrightarrow> bnd m f = bnd m' f'"
  by (cases m' rule: res_cases) auto

lemma CHECK_True [simp, res_simps]: "CHECK True msg k = k"
  by (simp add: CHECK_def)

lemma CHECK_False [simp, res_simps]: "CHECK False msg k = abort (CheckFailed msg)"
  by (simp add: CHECK_def)

lemma DCHECK_simps [simp, res_simps]:
  "DCHECK True msg k = k" "DCHECK False msg k = abort (CheckFailed msg)"
  by (simp_all add: DCHECK_def)

lemma CHECK_eq_ret [res_dests]: "CHECK c msg k = ret x \<longleftrightarrow> c \<and> k = ret x"
  by (simp add: CHECK_def)

lemma DCHECK_eq_ret [res_dests]: "DCHECK c msg k = ret x \<longleftrightarrow> c \<and> k = ret x"
  by (simp add: DCHECK_def CHECK_eq_ret)

text \<open>
  The result type in \<^theory_text>\<open>partial_function (option)\<close>: \<^const>\<open>bnd\<close> is monotone in both
  arguments.
\<close>

lemma bnd_mono [partial_function_mono]:
  assumes "mono_option B" and "\<And>y. mono_option (\<lambda>f. C y f)"
  shows "mono_option (\<lambda>f. bnd (B f) (\<lambda>y. C y f))"
proof -
  have "mono_option (\<lambda>f. case r of Inl e \<Rightarrow> Some (Inl e) | Inr x \<Rightarrow> C x f)" for r
    by (cases r) (auto intro: assms(2) option.const_mono)
  then show ?thesis
    unfolding bnd_def by (intro bind_mono assms(1))
qed

lemma CHECK_mono [partial_function_mono]:
  "mono_option K \<Longrightarrow> mono_option (\<lambda>f. CHECK c msg (K f))"
  by (cases c) (auto intro: option.const_mono)

subsection \<open>Loops over a list\<close>

primrec foldM :: "('a \<Rightarrow> 's \<Rightarrow> 's res) \<Rightarrow> 'a list \<Rightarrow> 's \<Rightarrow> 's res" where
  "foldM f [] s = ret s"
| "foldM f (x # xs) s = bnd (f x s) (foldM f xs)"

primrec mapM :: "('a \<Rightarrow> 'b res) \<Rightarrow> 'a list \<Rightarrow> 'b list res" where
  "mapM f [] = ret []"
| "mapM f (x # xs) = bnd (f x) (\<lambda>y. bnd (mapM f xs) (\<lambda>ys. ret (y # ys)))"

lemma foldM_append: "foldM f (xs @ ys) s = bnd (foldM f xs s) (foldM f ys)"
  by (induction xs arbitrary: s) (auto simp: bnd_assoc intro: bnd_cong)

lemma foldM_cong [fundef_cong]:
  "xs = ys \<Longrightarrow> s = t \<Longrightarrow> (\<And>x s. x \<in> set ys \<Longrightarrow> f x s = g x s) \<Longrightarrow> foldM f xs s = foldM g ys t"
proof (induction ys arbitrary: xs s t)
  case (Cons y ys)
  then show ?case by (auto intro!: bnd_cong)
qed simp

lemma foldM_ret: "(\<And>x s. x \<in> set xs \<Longrightarrow> f x s = ret (g x s)) \<Longrightarrow> foldM f xs s = ret (fold g xs s)"
  by (induction xs arbitrary: s) auto

lemma foldM_inv:
  assumes "foldM f xs s = ret t" "P s"
    "\<And>x s s'. x \<in> set xs \<Longrightarrow> P s \<Longrightarrow> f x s = ret s' \<Longrightarrow> P s'"
  shows "P t"
  using assms
proof (induction xs arbitrary: s)
  case (Cons x xs)
  from Cons.prems(1) obtain s' where s': "f x s = ret s'" "foldM f xs s' = ret t"
    by (auto simp: bnd_eq_ret)
  moreover have "P s'" using Cons.prems(2) s'(1) by (intro Cons.prems(3) [of x s s']) auto
  ultimately show ?case using Cons.IH Cons.prems(3) by auto
qed simp

lemma mapM_ret: "(\<And>x. x \<in> set xs \<Longrightarrow> f x = ret (g x)) \<Longrightarrow> mapM f xs = ret (map g xs)"
  by (induction xs) auto

lemma mapM_length: "mapM f xs = ret ys \<Longrightarrow> length ys = length xs"
  by (induction xs arbitrary: ys) (auto simp: bnd_eq_ret)

subsection \<open>C++ integers\<close>

text \<open>
  C++ \<open>%\<close> on \<open>int\<close> truncates towards zero (\<open>smod\<close>); on the non-negative operands of
  this program it is \<open>mod\<close>.
\<close>

lemma smod_nonneg [simp]: "0 \<le> a \<Longrightarrow> 0 < b \<Longrightarrow> a smod b = a mod (b :: int)"
  by (simp add: signed_modulo_int_def signed_divide_int_def sgn_if minus_div_mult_eq_mod
      modulo_int_unfold abs_of_nonneg)

lemma sdiv_nonneg [simp]: "0 \<le> a \<Longrightarrow> 0 < b \<Longrightarrow> a sdiv b = a div (b :: int)"
  by (cases "a = 0") (simp_all add: signed_divide_int_def sgn_if)

end
