(* ===== verification/Board.thy ===== *)
theory Board
  imports Gomoku_Prelude
begin

text \<open>
  The game rules: \<^verbatim>\<open>gomoku/core/board.h\<close> and \<^verbatim>\<open>gomoku/core/board.cc\<close>.

  The bitset \<open>fields_\<close> is a list of 722 Booleans, two per field; \<open>Eigen::Vector2i\<close> is a
  pair of integers. Every operation is in \<open>'a res\<close>: a failed \<open>CHECK\<close>, an access outside
  the bitset and \<open>LOG(FATAL)\<close> end the process. The ray of \<open>DidWin\<close> is a \<open>while\<close> loop and
  is a \<^theory_text>\<open>partial_function (option)\<close>; that it returns is proved.

  The abstract view of a board is the sequence of moves that led to it
  (\<^verbatim>\<open>legal_history\<close>, \<^verbatim>\<open>stone_after\<close>); \<^verbatim>\<open>board_of\<close> is the concrete board of a
  history, and each operation is shown to implement the operation on histories.
\<close>

section \<open>Players\<close>

datatype player = FIRST | SECOND | NONE

definition kPlayers :: "player list" where
  "kPlayers = [FIRST, SECOND]"

record 'a PlayerMap =
  pm_first :: 'a
  pm_second :: 'a

fun PlayerMap_at :: "'a PlayerMap \<Rightarrow> player \<Rightarrow> 'a res" where
  "PlayerMap_at m FIRST = ret (pm_first m)"
| "PlayerMap_at m SECOND = ret (pm_second m)"
| "PlayerMap_at m NONE = abort (LogFatal ''PlayerMap[Player::NONE] called'')"

fun PlayerMap_set :: "'a PlayerMap \<Rightarrow> player \<Rightarrow> 'a \<Rightarrow> 'a PlayerMap res" where
  "PlayerMap_set m FIRST v = ret (m\<lparr>pm_first := v\<rparr>)"
| "PlayerMap_set m SECOND v = ret (m\<lparr>pm_second := v\<rparr>)"
| "PlayerMap_set m NONE v = abort (LogFatal ''PlayerMap[Player::NONE] called'')"

definition PlayerMap_Map :: "('a \<Rightarrow> 'b res) \<Rightarrow> 'a PlayerMap \<Rightarrow> 'b PlayerMap res" where
  "PlayerMap_Map fn m =
     bnd (fn (pm_first m)) (\<lambda>a. bnd (fn (pm_second m)) (\<lambda>b.
     ret \<lparr>pm_first = a, pm_second = b\<rparr>))"

definition PlayerMap_IndexMap :: "(player \<Rightarrow> 'a \<Rightarrow> 'b res) \<Rightarrow> 'a PlayerMap \<Rightarrow> 'b PlayerMap res" where
  "PlayerMap_IndexMap fn m =
     bnd (fn FIRST (pm_first m)) (\<lambda>a. bnd (fn SECOND (pm_second m)) (\<lambda>b.
     ret \<lparr>pm_first = a, pm_second = b\<rparr>))"

definition kOpponent :: "player PlayerMap" where
  "kOpponent = \<lparr>pm_first = SECOND, pm_second = FIRST\<rparr>"

definition kPlayerOffset :: "int PlayerMap" where
  "kPlayerOffset = \<lparr>pm_first = 0, pm_second = 1\<rparr>"

section \<open>The board\<close>

type_synonym vector2i = "int \<times> int"

definition kWidth :: int where "kWidth = 19"

definition kHeight :: int where "kHeight = 19"

record board =
  field_bits :: "bool list"
  current_player :: player
  moves_made :: int

text \<open>The fields of the board in the order of the nested loops of \<open>Board::Iter\<close>.\<close>

definition all_fields :: "vector2i list" where
  "all_fields = concat (map (\<lambda>x. map (\<lambda>y. (x, y)) [0..kHeight - 1]) [0..kWidth - 1])"

definition Iter :: "(int \<Rightarrow> int \<Rightarrow> 's \<Rightarrow> 's res) \<Rightarrow> 's \<Rightarrow> 's res" where
  "Iter function = foldM (\<lambda>(x, y). function x y) all_fields"

text \<open>\<open>std::bitset\<close>: access outside the bitset is undefined behaviour.\<close>

definition bitset_at :: "bool list \<Rightarrow> int \<Rightarrow> bool res" where
  "bitset_at bs i =
     (if 0 \<le> i \<and> i < int (length bs) then ret (bs ! nat i)
      else abort (Undefined ''bitset index''))"

definition bitset_set :: "bool list \<Rightarrow> int \<Rightarrow> bool \<Rightarrow> bool list res" where
  "bitset_set bs i v =
     (if 0 \<le> i \<and> i < int (length bs) then ret (bs[nat i := v])
      else abort (Undefined ''bitset index''))"

definition Inside :: "vector2i \<Rightarrow> bool" where
  "Inside position \<longleftrightarrow> fst position \<ge> 0 \<and> fst position < kWidth \<and>
     snd position \<ge> 0 \<and> snd position < kHeight"

definition Reset :: "board \<Rightarrow> board" where
  "Reset b = b\<lparr>field_bits := replicate (nat (kWidth * kHeight * 2)) False,
     current_player := FIRST, moves_made := 0\<rparr>"

definition new_board :: board where
  "new_board = Reset \<lparr>field_bits = [], current_player = NONE, moves_made = 0\<rparr>"

definition board_equal :: "board \<Rightarrow> board \<Rightarrow> bool" where
  "board_equal a b \<longleftrightarrow> field_bits a = field_bits b \<and> current_player a = current_player b \<and>
     moves_made a = moves_made b"

definition MovesMade :: "board \<Rightarrow> int" where
  "MovesMade b = moves_made b"

definition CurrentPlayer :: "board \<Rightarrow> player" where
  "CurrentPlayer b = current_player b"

definition StoneAt :: "board \<Rightarrow> vector2i \<Rightarrow> player res" where
  "StoneAt b position = DCHECK (Inside position) ''Inside(position)''
     (let index = (fst position * kHeight + snd position) * 2 in
      bnd (bitset_at (field_bits b) index) (\<lambda>f. if f then ret FIRST else
      bnd (bitset_at (field_bits b) (index + 1)) (\<lambda>s. if s then ret SECOND else
      ret NONE)))"

definition StoneAtPadded :: "board \<Rightarrow> vector2i \<Rightarrow> player res" where
  "StoneAtPadded b position =
     (if \<not> Inside position then ret NONE else StoneAt b position)"

definition ApplyMove :: "board \<Rightarrow> vector2i \<Rightarrow> board res" where
  "ApplyMove b move = DCHECK (Inside move) ''Inside(move)''
     (let index = (fst move * kHeight + snd move) * 2 in
      bnd (bitset_at (field_bits b) index) (\<lambda>f. CHECK (\<not> f) ''!fields_[index]'' (
      bnd (bitset_at (field_bits b) (index + 1)) (\<lambda>s. CHECK (\<not> s) ''!fields_[index + 1]'' (
      bnd (PlayerMap_at kPlayerOffset (current_player b)) (\<lambda>offset.
      bnd (bitset_set (field_bits b) (index + offset) True) (\<lambda>bits.
      bnd (PlayerMap_at kOpponent (current_player b)) (\<lambda>opponent.
      ret (b\<lparr>field_bits := bits, current_player := opponent,
             moves_made := moves_made b + 1\<rparr>)))))))))"

definition RevertMove :: "board \<Rightarrow> vector2i \<Rightarrow> board res" where
  "RevertMove b move = DCHECK (Inside move) ''Inside(move)''
     (let index = (fst move * kHeight + snd move) * 2 in
      bnd (PlayerMap_at kOpponent (current_player b)) (\<lambda>player.
      bnd (PlayerMap_at kPlayerOffset player) (\<lambda>offset.
      bnd (bitset_at (field_bits b) (index + offset)) (\<lambda>f.
      CHECK f ''fields_[index + kPlayerOffset[current_player_]]'' (
      bnd (bitset_set (field_bits b) (index + offset) False) (\<lambda>bits.
      ret (b\<lparr>field_bits := bits, current_player := player,
             moves_made := moves_made b - 1\<rparr>)))))))"

definition NoMovePossible :: "board \<Rightarrow> bool" where
  "NoMovePossible b \<longleftrightarrow> moves_made b = kWidth * kHeight"

definition directions :: "vector2i list" where
  "directions = [(0, 1), (1, 0), (1, 1), (1, -1)]"

definition step_from :: "vector2i \<Rightarrow> int \<Rightarrow> vector2i \<Rightarrow> vector2i" where
  "step_from p k d = (fst p + k * fst d, snd p + k * snd d)"

definition vneg :: "vector2i \<Rightarrow> vector2i" where
  "vneg d = (- fst d, - snd d)"

text \<open>The \<open>while\<close> loop of the lambda \<open>CastRay\<close>, from the current \<open>count\<close>.\<close>

partial_function (option) CastRay_loop ::
  "board \<Rightarrow> vector2i \<Rightarrow> vector2i \<Rightarrow> player \<Rightarrow> int \<Rightarrow> (fatal + int) option" where
  "CastRay_loop b last_move direction player count =
     bnd (StoneAtPadded b (step_from last_move (count + 1) direction)) (\<lambda>stone.
     if stone = player then CastRay_loop b last_move direction player (count + 1)
     else ret count)"

definition CastRay :: "board \<Rightarrow> vector2i \<Rightarrow> vector2i \<Rightarrow> player \<Rightarrow> int res" where
  "CastRay b last_move direction player = CastRay_loop b last_move direction player 0"

fun DidWin_loop :: "board \<Rightarrow> vector2i \<Rightarrow> vector2i list \<Rightarrow> bool res" where
  "DidWin_loop b last_move [] = ret False"
| "DidWin_loop b last_move (direction # rest) =
     bnd (PlayerMap_at kOpponent (current_player b)) (\<lambda>player.
     bnd (CastRay b last_move (vneg direction) player) (\<lambda>negative_count.
     bnd (CastRay b last_move direction player) (\<lambda>positive_count.
     if positive_count + negative_count \<ge> 4 then ret True
     else DidWin_loop b last_move rest)))"

definition DidWin :: "board \<Rightarrow> vector2i \<Rightarrow> bool res" where
  "DidWin b last_move = DCHECK (Inside last_move) ''Inside(last_move)''
     (DidWin_loop b last_move directions)"

text \<open>
  \<open>std::uniform_int_distribution<int>(a, b)\<close> applied to an engine: which number is drawn
  is up to the library, so it is a parameter over an engine state \<open>'g\<close>. The standard
  promises a value between \<open>a\<close> and \<open>b\<close> when \<open>a \<le> b\<close>.
\<close>

type_synonym 'g uniform_int = "int \<Rightarrow> int \<Rightarrow> 'g \<Rightarrow> int \<times> 'g"

definition uniform_int_ok :: "'g uniform_int \<Rightarrow> bool" where
  "uniform_int_ok draw \<longleftrightarrow>
     (\<forall>a b g. a \<le> b \<longrightarrow> a \<le> fst (draw a b g) \<and> fst (draw a b g) \<le> b)"

fun sample_scan :: "board \<Rightarrow> int \<Rightarrow> int \<Rightarrow> vector2i list \<Rightarrow> vector2i res" where
  "sample_scan b x_offset y_offset [] = abort (LogFatal ''All legal moves exhausted'')"
| "sample_scan b x_offset y_offset ((x, y) # rest) =
     (let move = ((x + x_offset) smod kWidth, (y + y_offset) smod kHeight) in
      bnd (StoneAt b move) (\<lambda>stone.
      if stone = NONE then ret move else sample_scan b x_offset y_offset rest))"

definition UniformlySampleLegalMove ::
  "'g uniform_int \<Rightarrow> board \<Rightarrow> 'g \<Rightarrow> (vector2i \<times> 'g) res" where
  "UniformlySampleLegalMove draw b rng =
     (let (x_offset, rng1) = draw 0 (kWidth - 1) rng;
          (y_offset, rng2) = draw 0 (kHeight - 1) rng1 in
      bnd (sample_scan b x_offset y_offset all_fields) (\<lambda>move. ret (move, rng2)))"

section \<open>Histories: the abstract view\<close>

definition mover :: "nat \<Rightarrow> player" where
  "mover n = (if even n then FIRST else SECOND)"

definition opponent :: "player \<Rightarrow> player" where
  "opponent p = (case p of FIRST \<Rightarrow> SECOND | SECOND \<Rightarrow> FIRST | NONE \<Rightarrow> NONE)"

definition legal_history :: "vector2i list \<Rightarrow> bool" where
  "legal_history ms \<longleftrightarrow> distinct ms \<and> list_all Inside ms"

definition owners :: "vector2i list \<Rightarrow> (vector2i \<times> player) list" where
  "owners ms = zip ms (map mover [0..<length ms])"

definition stone_after :: "vector2i list \<Rightarrow> vector2i \<Rightarrow> player" where
  "stone_after ms p = (case map_of (owners ms) p of None \<Rightarrow> NONE | Some pl \<Rightarrow> pl)"

definition field_index :: "vector2i \<Rightarrow> nat" where
  "field_index p = nat (fst p * kHeight + snd p) * 2"

definition index_field :: "nat \<Rightarrow> vector2i" where
  "index_field i = (int (i div 2) div kHeight, int (i div 2) mod kHeight)"

definition bits_of :: "(vector2i \<Rightarrow> player) \<Rightarrow> bool list" where
  "bits_of s = map (\<lambda>i. s (index_field i) = mover i) [0..<722]"

definition board_of :: "vector2i list \<Rightarrow> board" where
  "board_of ms = \<lparr>field_bits = bits_of (stone_after ms),
     current_player = mover (length ms), moves_made = int (length ms)\<rparr>"

lemmas board_dims [simp] = kWidth_def kHeight_def

subsection \<open>Fields and indices\<close>

lemma InsideI: "0 \<le> x \<Longrightarrow> x < 19 \<Longrightarrow> 0 \<le> y \<Longrightarrow> y < 19 \<Longrightarrow> Inside (x, y)"
  by (simp add: Inside_def)

lemma all_fields_product: "all_fields = List.product [0..18] [0..18]"
  by (simp add: all_fields_def product_concat_map)

lemma set_all_fields: "set all_fields = {p. Inside p}"
  by (auto simp: all_fields_product Inside_def)

lemma distinct_all_fields: "distinct all_fields"
  unfolding all_fields_product by (rule distinct_product) simp_all

lemma length_all_fields: "length all_fields = 361"
  by (simp add: all_fields_product)

lemma finite_Inside [simp]: "finite {p. Inside p}"
  by (metis List.finite_set set_all_fields)

lemma card_Inside: "card {p. Inside p} = 361"
  by (metis distinct_card distinct_all_fields length_all_fields set_all_fields)

lemma field_index_bound: "Inside p \<Longrightarrow> Suc (field_index p) < 722"
  by (auto simp: Inside_def field_index_def)

lemma source_index:
  assumes "Inside p"
  shows "(fst p * kHeight + snd p) * 2 = int (field_index p)"
  using assms by (auto simp: Inside_def field_index_def)

lemma index_field_inverse:
  assumes "Inside p"
  shows "index_field (field_index p) = p" "index_field (Suc (field_index p)) = p"
proof -
  obtain x y where p: "p = (x, y)" by (cases p)
  with assms have xy: "0 \<le> x" "x < 19" "0 \<le> y" "y < 19" by (auto simp: Inside_def)
  have "(x * 19 + y) div 19 = x" "(x * 19 + y) mod 19 = y" using xy by auto
  then show "index_field (field_index p) = p" "index_field (Suc (field_index p)) = p"
    using xy by (simp_all add: p field_index_def index_field_def)
qed

lemma field_index_inverse:
  assumes "i < 722"
  shows "i = field_index (index_field i) + i mod 2" "Inside (index_field i)"
proof -
  have "i div 2 < 361" using assms by simp
  then show "Inside (index_field i)"
    by (auto simp: Inside_def index_field_def)
  have "nat (int (i div 2) div 19 * 19 + int (i div 2) mod 19) = i div 2" by simp
  then show "i = field_index (index_field i) + i mod 2"
    by (simp add: field_index_def index_field_def)
qed

lemma bits_of_nth:
  assumes "Inside p"
  shows "bits_of s ! field_index p = (s p = FIRST)"
    "bits_of s ! Suc (field_index p) = (s p = SECOND)"
proof -
  have "even (field_index p)" by (simp add: field_index_def)
  then show "bits_of s ! field_index p = (s p = FIRST)"
    "bits_of s ! Suc (field_index p) = (s p = SECOND)"
    using field_index_bound [OF assms] index_field_inverse [OF assms]
    by (simp_all add: bits_of_def mover_def)
qed

lemma length_bits_of [simp]: "length (bits_of s) = 722"
  by (simp add: bits_of_def)

text \<open>Writing one bit of the bitset writes one field of the position.\<close>

lemma bits_of_update:
  assumes p: "Inside p" and s: "s p = NONE"
  shows "(bits_of s)[field_index p + (if even n then 0 else 1) := True] =
         bits_of (s(p := mover n))"
proof (rule nth_equalityI)
  fix i assume "i < length ((bits_of s)[field_index p + (if even n then 0 else 1) := True])"
  then have i: "i < 722" by simp
  note fi = field_index_inverse [OF i]
  have ev: "even (field_index q)" for q by (simp add: field_index_def)
  show "(bits_of s)[field_index p + (if even n then 0 else 1) := True] ! i =
        bits_of (s(p := mover n)) ! i"
  proof (cases "index_field i = p")
    case True
    with fi(1) have "i = field_index p + i mod 2" by simp
    then show ?thesis using i True s ev [of p] field_index_bound [OF p]
      by (cases "even i"; cases "even n")
        (auto simp: bits_of_def mover_def nth_list_update even_iff_mod_2_eq_zero odd_iff_mod_2_eq_one)
  next
    case False
    then have "i \<noteq> field_index p" "i \<noteq> Suc (field_index p)"
      using index_field_inverse [OF p] by auto
    then show ?thesis using i False by (auto simp: bits_of_def nth_list_update)
  qed
qed simp

lemma bits_of_reset:
  assumes p: "Inside p" and s: "s p = mover n"
  shows "(bits_of s)[field_index p + (if even n then 0 else 1) := False] =
         bits_of (s(p := NONE))"
proof -
  have "bits_of s = (bits_of (s(p := NONE)))[field_index p + (if even n then 0 else 1) := True]"
    using bits_of_update [OF p, of "s(p := NONE)" n] s by (simp add: fun_upd_idem)
  moreover have "bits_of (s(p := NONE)) ! (field_index p + (if even n then 0 else 1)) = False"
    using bits_of_nth [OF p] by simp
  ultimately show ?thesis by (metis list_update_id list_update_overwrite)
qed

subsection \<open>Stones of a history\<close>

lemma mover_not_NONE [simp]: "mover n \<noteq> NONE" "NONE \<noteq> mover n"
  by (simp_all add: mover_def)

lemma mover_Suc: "mover (Suc n) = opponent (mover n)"
  by (simp add: mover_def opponent_def)

lemma opponent_opponent [simp]: "opponent (opponent p) = p"
  by (cases p) (simp_all add: opponent_def)

lemma opponent_eq [simp]: "opponent (mover n) \<noteq> NONE" "opponent (mover n) \<noteq> mover n"
  by (simp_all add: mover_def opponent_def)

lemma PlayerMap_at_mover:
  "PlayerMap_at kOpponent (mover n) = ret (opponent (mover n))"
  "PlayerMap_at kOpponent (opponent (mover n)) = ret (mover n)"
  "PlayerMap_at kPlayerOffset (mover n) = ret (if even n then 0 else 1)"
  by (simp_all add: mover_def opponent_def kOpponent_def kPlayerOffset_def)

lemma owners_snoc: "owners (ms @ [m]) = owners ms @ [(m, mover (length ms))]"
  by (simp add: owners_def)

lemma dom_owners: "dom (map_of (owners ms)) = set ms"
  by (simp add: owners_def dom_map_of_zip)

lemma stone_after_Nil [simp]: "stone_after [] = (\<lambda>_. NONE)"
  by (simp add: stone_after_def owners_def fun_eq_iff)

lemma stone_after_snoc:
  assumes "m \<notin> set ms"
  shows "stone_after (ms @ [m]) = (stone_after ms)(m := mover (length ms))"
proof -
  have "map_of (owners ms) m = None" using assms dom_owners [of ms] by blast
  then show ?thesis
    by (auto simp: fun_eq_iff stone_after_def owners_snoc map_add_def split: option.splits)
qed

lemma stone_after_range: "stone_after ms p = NONE \<longleftrightarrow> p \<notin> set ms"
proof -
  have "\<exists>n. pl = mover n" if "map_of (owners ms) p = Some pl" for pl
    using map_of_SomeD [OF that] by (auto simp: owners_def in_set_zip)
  then show ?thesis using dom_owners [of ms]
    by (auto simp: stone_after_def split: option.splits)
qed

lemma stone_after_last: "m \<notin> set ms \<Longrightarrow> stone_after (ms @ [m]) m = mover (length ms)"
  by (simp add: stone_after_snoc)

lemma legal_history_Nil [simp]: "legal_history []"
  by (simp add: legal_history_def)

lemma legal_history_snoc:
  "legal_history (ms @ [m]) \<longleftrightarrow> legal_history ms \<and> Inside m \<and> m \<notin> set ms"
  by (auto simp: legal_history_def)

lemma legal_history_Inside: "legal_history ms \<Longrightarrow> p \<in> set ms \<Longrightarrow> Inside p"
  by (simp add: legal_history_def list_all_iff)

lemma legal_history_length:
  assumes "legal_history ms"
  shows "length ms \<le> 361" "length ms = 361 \<longleftrightarrow> set ms = {p. Inside p}"
proof -
  have sub: "set ms \<subseteq> {p. Inside p}" using assms legal_history_Inside by blast
  have len: "length ms = card (set ms)"
    using assms by (simp add: legal_history_def distinct_card)
  show "length ms \<le> 361" using card_mono [OF finite_Inside sub] len card_Inside by simp
  show "length ms = 361 \<longleftrightarrow> set ms = {p. Inside p}"
    using card_subset_eq [OF finite_Inside sub] len card_Inside by auto
qed

subsection \<open>The operations on the board of a history\<close>

lemma bits_of_NONE: "bits_of (\<lambda>_. NONE) = replicate 722 False"
  by (simp add: bits_of_def map_replicate_const)

lemma Reset_eq: "Reset b = board_of []"
  by (simp add: Reset_def board_of_def bits_of_NONE mover_def)

lemma new_board_eq: "new_board = board_of []"
  by (simp add: new_board_def Reset_eq)

lemma board_of_sel [simp]:
  "field_bits (board_of ms) = bits_of (stone_after ms)"
  "current_player (board_of ms) = mover (length ms)"
  "moves_made (board_of ms) = int (length ms)"
  by (simp_all add: board_of_def)

lemma bitset_at_field:
  assumes "Inside p"
  shows "bitset_at (bits_of s) (int (field_index p)) = ret (s p = FIRST)"
    "bitset_at (bits_of s) (int (field_index p) + 1) = ret (s p = SECOND)"
    "bitset_at (bits_of s) (1 + int (field_index p)) = ret (s p = SECOND)"
  using field_index_bound [OF assms] bits_of_nth [OF assms, of s]
  by (simp_all add: bitset_at_def nat_add_distrib)

lemma bitset_set_field:
  assumes "Inside p"
  shows "bitset_set (bits_of s) (int (field_index p) + (if even n then 0 else 1)) v =
         ret ((bits_of s)[field_index p + (if even n then 0 else 1) := v])"
  using field_index_bound [OF assms] by (simp add: bitset_set_def nat_add_distrib)

lemma StoneAt_board_of: "Inside p \<Longrightarrow> StoneAt (board_of ms) p = ret (stone_after ms p)"
  unfolding StoneAt_def Let_def by (simp only: source_index) (cases "stone_after ms p"; simp add: bitset_at_field)

lemma StoneAtPadded_board_of:
  "legal_history ms \<Longrightarrow> StoneAtPadded (board_of ms) p = ret (stone_after ms p)"
  by (metis StoneAtPadded_def StoneAt_board_of legal_history_Inside stone_after_range)

lemma ApplyMove_board_of:
  "ApplyMove (board_of ms) m =
     (if \<not> Inside m then abort (CheckFailed ''Inside(move)'')
      else case stone_after ms m of
        FIRST \<Rightarrow> abort (CheckFailed ''!fields_[index]'')
      | SECOND \<Rightarrow> abort (CheckFailed ''!fields_[index + 1]'')
      | NONE \<Rightarrow> ret (board_of (ms @ [m])))"
proof (cases "Inside m \<and> stone_after ms m = NONE")
  case True
  then have "m \<notin> set ms" by (simp add: stone_after_range)
  with True show ?thesis
    unfolding ApplyMove_def Let_def source_index [OF conjunct1 [OF True]]
    by (simp add: bitset_at_field bitset_set_field PlayerMap_at_mover bits_of_update
        stone_after_snoc mover_Suc board_of_def)
next
  case False
  then show ?thesis
    unfolding ApplyMove_def Let_def
    by (cases "Inside m"; cases "stone_after ms m")
      (simp_all only: source_index, simp_all add: bitset_at_field)
qed

lemma ApplyMove_legal:
  "Inside m \<Longrightarrow> m \<notin> set ms \<Longrightarrow> ApplyMove (board_of ms) m = ret (board_of (ms @ [m]))"
  by (metis ApplyMove_board_of player.case(3) stone_after_range)

lemma ApplyMove_ret:
  "ApplyMove (board_of ms) m = ret b \<longleftrightarrow> Inside m \<and> m \<notin> set ms \<and> b = board_of (ms @ [m])"
  unfolding ApplyMove_board_of
  using stone_after_range [of ms m] by (auto split: player.splits)

lemma RevertMove_board_of:
  assumes "legal_history (ms @ [m])"
  shows "RevertMove (board_of (ms @ [m])) m = ret (board_of ms)"
proof -
  from assms have m: "Inside m" "m \<notin> set ms" by (simp_all add: legal_history_snoc)
  let ?s = "stone_after (ms @ [m])"
  have s: "?s m = mover (length ms)" using m by (simp add: stone_after_last)
  have "?s(m := NONE) = stone_after ms"
    using m stone_after_range [of ms m] by (auto simp: stone_after_snoc)
  moreover have "bitset_at (bits_of ?s) (int (field_index m) + (if even (length ms) then 0 else 1)) = ret True"
    using s bitset_at_field [OF m(1), of ?s] by (simp add: mover_def)
  ultimately show ?thesis using m s
    unfolding RevertMove_def Let_def source_index [OF m(1)]
    by (simp add: bitset_set_field PlayerMap_at_mover bits_of_reset mover_Suc board_of_def)
qed

lemma NoMovePossible_board_of:
  "legal_history ms \<Longrightarrow> NoMovePossible (board_of ms) \<longleftrightarrow> set ms = {p. Inside p}"
  using legal_history_length [of ms] by (simp add: NoMovePossible_def)

text \<open>A sequence of calls of \<^const>\<open>ApplyMove\<close>, as the tests and the replay reader make them.\<close>

definition ApplyMoves :: "vector2i list \<Rightarrow> board \<Rightarrow> board res" where
  "ApplyMoves = foldM (\<lambda>m b. ApplyMove b m)"

definition RevertMoves :: "vector2i list \<Rightarrow> board \<Rightarrow> board res" where
  "RevertMoves = foldM (\<lambda>m b. RevertMove b m)"

lemma ApplyMoves_board_of:
  "legal_history hs \<Longrightarrow>
   ApplyMoves ms (board_of hs) = ret b \<longleftrightarrow> legal_history (hs @ ms) \<and> b = board_of (hs @ ms)"
proof (induction ms arbitrary: hs)
  case Nil
  then show ?case by (auto simp: ApplyMoves_def)
next
  case (Cons m ms)
  have "ApplyMoves (m # ms) (board_of hs) = bnd (ApplyMove (board_of hs) m) (ApplyMoves ms)"
    by (simp add: ApplyMoves_def)
  moreover have "legal_history (hs @ m # ms) \<Longrightarrow> Inside m \<and> m \<notin> set hs"
    by (auto simp: legal_history_def)
  ultimately show ?case
    using Cons.prems Cons.IH [of "hs @ [m]"]
    by (auto simp: bnd_eq_ret ApplyMove_ret legal_history_snoc)
qed

lemma RevertMoves_board_of:
  "legal_history (hs @ ms) \<Longrightarrow> RevertMoves (rev ms) (board_of (hs @ ms)) = ret (board_of hs)"
proof (induction ms rule: rev_induct)
  case (snoc m ms)
  then have "legal_history ((hs @ ms) @ [m])" by simp
  then show ?case
    using snoc.IH RevertMove_board_of [of "hs @ ms" m]
    by (simp add: RevertMoves_def legal_history_snoc del: append_assoc flip: append_assoc)
qed (simp add: RevertMoves_def)

subsection \<open>Five in a row\<close>

text \<open>
  The rule of the game, in coordinates and without reference to the code: five consecutive stones horizontally,
  vertically or diagonally, that is from some field of the board in one of the eight directions in which a king moves.
\<close>

definition five_in_a_row :: "(vector2i \<Rightarrow> player) \<Rightarrow> player \<Rightarrow> bool" where
  "five_in_a_row s pl \<longleftrightarrow>
     list_ex (\<lambda>(x, y). list_ex (\<lambda>(dx, dy). (dx, dy) \<noteq> (0, 0) \<and> list_all (\<lambda>j. s (x + j * dx, y + j * dy) = pl) [0, 1, 2, 3, 4])
       (List.product [-1, 0, 1] [-1, 0, 1])) (List.product [0..18] [0..18])"

text \<open>The lines of the code: \<open>five_from\<close> starts at a given field, \<open>five_through\<close> contains it.\<close>

definition five_from :: "(vector2i \<Rightarrow> player) \<Rightarrow> player \<Rightarrow> vector2i \<Rightarrow> vector2i \<Rightarrow> bool" where
  "five_from s pl p d \<longleftrightarrow> list_all (\<lambda>j. s (step_from p j d) = pl) [0..4]"

definition five_through :: "(vector2i \<Rightarrow> player) \<Rightarrow> player \<Rightarrow> vector2i \<Rightarrow> vector2i \<Rightarrow> bool" where
  "five_through s pl p d \<longleftrightarrow> list_ex (\<lambda>k. five_from s pl (step_from p (- k) d) d) [0..4]"

definition ray_length :: "(vector2i \<Rightarrow> player) \<Rightarrow> vector2i \<Rightarrow> vector2i \<Rightarrow> player \<Rightarrow> nat" where
  "ray_length s p d pl = (LEAST n. s (step_from p (int n + 1) d) \<noteq> pl)"

lemma step_from_step: "step_from (step_from p j d) k d = step_from p (j + k) d"
  by (simp add: step_from_def algebra_simps)

lemma step_from_vneg: "step_from p k (vneg d) = step_from p (- k) d"
  by (simp add: step_from_def vneg_def)

lemma step_from_0 [simp]: "step_from p 0 d = p"
  by (simp add: step_from_def)

lemma five_from_iff: "five_from s pl p d \<longleftrightarrow> (\<forall>j. 0 \<le> j \<and> j \<le> 4 \<longrightarrow> s (step_from p j d) = pl)"
  by (auto simp: five_from_def list_all_iff)

lemma five_through_iff:
  "five_through s pl p d \<longleftrightarrow>
   (\<exists>k. 0 \<le> k \<and> k \<le> 4 \<and> (\<forall>i. - k \<le> i \<and> i \<le> 4 - k \<longrightarrow> s (step_from p i d) = pl))"
proof -
  have "five_from s pl (step_from p (- k) d) d \<longleftrightarrow>
        (\<forall>i. - k \<le> i \<and> i \<le> 4 - k \<longrightarrow> s (step_from p i d) = pl)" for k
  proof
    assume F: "five_from s pl (step_from p (- k) d) d"
    show "\<forall>i. - k \<le> i \<and> i \<le> 4 - k \<longrightarrow> s (step_from p i d) = pl"
    proof (intro allI impI)
      fix i assume "- k \<le> i \<and> i \<le> 4 - k"
      then show "s (step_from p i d) = pl"
        using F [unfolded five_from_iff step_from_step, rule_format, of "i + k"] by simp
    qed
  qed (simp add: five_from_iff step_from_step)
  then show ?thesis by (auto simp: five_through_def list_ex_iff)
qed

text \<open>Positions whose stones are all on the board.\<close>

definition on_board :: "(vector2i \<Rightarrow> player) \<Rightarrow> bool" where
  "on_board s \<longleftrightarrow> (\<forall>q. s q \<noteq> NONE \<longrightarrow> Inside q)"

lemma on_board_stone_after: "legal_history ms \<Longrightarrow> on_board (stone_after ms)"
  unfolding on_board_def using legal_history_Inside stone_after_range by blast

text \<open>A ray leaves the board after at most nineteen steps.\<close>

lemma ray_leaves_board:
  assumes "d \<noteq> (0, 0)"
  shows "\<exists>n \<le> 19. \<not> Inside (step_from p (int n + 1) d)"
proof (rule ccontr)
  assume "\<not> ?thesis"
  then have "Inside (step_from p 1 d)" "Inside (step_from p 20 d)"
    by (force dest: spec [of _ 0], force dest: spec [of _ 19])
  moreover have "19 \<le> \<bar>19 * fst d\<bar> \<or> 19 \<le> \<bar>19 * snd d\<bar>"
    using assms by (cases d) (auto simp: abs_mult)
  ultimately show False by (auto simp: Inside_def step_from_def)
qed

lemma ray_length_props:
  assumes "on_board s" "pl \<noteq> NONE" "d \<noteq> (0, 0)"
  shows "s (step_from p (int (ray_length s p d pl) + 1) d) \<noteq> pl"
    "ray_length s p d pl \<le> 19"
    "m \<le> ray_length s p d pl \<longleftrightarrow> (\<forall>i. 1 \<le> i \<and> i \<le> int m \<longrightarrow> s (step_from p i d) = pl)"
proof -
  obtain n where n: "n \<le> 19" "s (step_from p (int n + 1) d) \<noteq> pl"
    using ray_leaves_board [OF assms(3)] assms(1,2) unfolding on_board_def by metis
  from LeastI [of "\<lambda>n. s (step_from p (int n + 1) d) \<noteq> pl", OF n(2)]
  show end_ray: "s (step_from p (int (ray_length s p d pl) + 1) d) \<noteq> pl"
    by (simp add: ray_length_def)
  have "ray_length s p d pl \<le> n"
    unfolding ray_length_def using n(2) by (rule Least_le)
  then show "ray_length s p d pl \<le> 19" using n(1) by simp
  have before: "s (step_from p (int k + 1) d) = pl" if "k < ray_length s p d pl" for k
    using not_less_Least [of k "\<lambda>n. s (step_from p (int n + 1) d) \<noteq> pl"] that
    by (simp add: ray_length_def)
  show "m \<le> ray_length s p d pl \<longleftrightarrow> (\<forall>i. 1 \<le> i \<and> i \<le> int m \<longrightarrow> s (step_from p i d) = pl)"
  proof
    assume m: "m \<le> ray_length s p d pl"
    show "\<forall>i. 1 \<le> i \<and> i \<le> int m \<longrightarrow> s (step_from p i d) = pl"
    proof (intro allI impI)
      fix i assume i: "1 \<le> i \<and> i \<le> int m"
      then have "nat (i - 1) < ray_length s p d pl" using m by linarith
      from before [OF this] i show "s (step_from p i d) = pl" by simp
    qed
  next
    assume all: "\<forall>i. 1 \<le> i \<and> i \<le> int m \<longrightarrow> s (step_from p i d) = pl"
    have "\<not> (1 \<le> int (ray_length s p d pl) + 1 \<and> int (ray_length s p d pl) + 1 \<le> int m)"
      using all end_ray by blast
    then show "m \<le> ray_length s p d pl" by linarith
  qed
qed

lemma five_through_ray:
  assumes s: "on_board s" and pl: "pl \<noteq> NONE" and d: "d \<noteq> (0, 0)"
    and p: "s p = pl"
  shows "4 \<le> ray_length s p d pl + ray_length s p (vneg d) pl \<longleftrightarrow> five_through s pl p d"
proof -
  let ?a = "ray_length s p (vneg d) pl" and ?b = "ray_length s p d pl"
  have d': "vneg d \<noteq> (0, 0)" using d by (cases d) (simp add: vneg_def)
  have fwd: "m \<le> ?b \<longleftrightarrow> (\<forall>i. 1 \<le> i \<and> i \<le> int m \<longrightarrow> s (step_from p i d) = pl)" for m
    by (rule ray_length_props(3) [OF s pl d])
  have "m \<le> ?a \<longleftrightarrow> (\<forall>i. 1 \<le> i \<and> i \<le> int m \<longrightarrow> s (step_from p (- i) d) = pl)" for m
    using ray_length_props(3) [OF s pl d', where p = p] by (simp add: step_from_vneg)
  then have bwd: "m \<le> ?a \<longleftrightarrow> (\<forall>i. - int m \<le> i \<and> i \<le> - 1 \<longrightarrow> s (step_from p i d) = pl)" for m
    by auto (metis add.inverse_inverse neg_le_iff_le minus_le_iff)
  show ?thesis
  proof
    assume ab: "4 \<le> ?b + ?a"
    have "\<forall>i. - int (min ?a 4) \<le> i \<and> i \<le> 4 - int (min ?a 4) \<longrightarrow> s (step_from p i d) = pl"
    proof (intro allI impI)
      fix i assume i: "- int (min ?a 4) \<le> i \<and> i \<le> 4 - int (min ?a 4)"
      consider "i < 0" | "i = 0" | "0 < i" by linarith
      then show "s (step_from p i d) = pl"
      proof cases
        case 1 then show ?thesis using bwd [of ?a] i by auto
      next
        case 2 then show ?thesis using p by simp
      next
        case 3 then show ?thesis using fwd [of ?b] i ab by auto
      qed
    qed
    then show "five_through s pl p d"
      unfolding five_through_iff by (intro exI [of _ "int (min ?a 4)"]) auto
  next
    assume "five_through s pl p d"
    then obtain k where k: "0 \<le> k" "k \<le> 4"
      "\<forall>i. - k \<le> i \<and> i \<le> 4 - k \<longrightarrow> s (step_from p i d) = pl"
      unfolding five_through_iff by blast
    have "nat k \<le> ?a" unfolding bwd using k by auto
    moreover have "nat (4 - k) \<le> ?b" unfolding fwd using k by auto
    ultimately show "4 \<le> ?b + ?a" using k by linarith
  qed
qed

subsection \<open>The ray of \<open>DidWin\<close>\<close>

lemma CastRay_loop_ret:
  assumes "legal_history ms" "c \<le> n"
    "\<And>k. c \<le> k \<Longrightarrow> k < n \<Longrightarrow> stone_after ms (step_from p (k + 1) d) = pl"
    "stone_after ms (step_from p (n + 1) d) \<noteq> pl"
  shows "CastRay_loop (board_of ms) p d pl c = ret n"
  using assms(2-4)
proof (induction "nat (n - c)" arbitrary: c)
  case 0
  then show ?case
    by (subst CastRay_loop.simps) (simp add: StoneAtPadded_board_of [OF assms(1)])
next
  case (Suc k)
  then have "CastRay_loop (board_of ms) p d pl (c + 1) = ret n"
    by (intro Suc.hyps(1)) auto
  moreover have "stone_after ms (step_from p (c + 1) d) = pl"
    using Suc by auto
  ultimately show ?case
    by (subst CastRay_loop.simps) (simp add: StoneAtPadded_board_of [OF assms(1)])
qed

lemma CastRay_board_of:
  assumes "legal_history ms" "pl \<noteq> NONE" "d \<noteq> (0, 0)"
  shows "CastRay (board_of ms) p d pl = ret (int (ray_length (stone_after ms) p d pl))"
  unfolding CastRay_def
proof (rule CastRay_loop_ret [OF assms(1)])
  let ?r = "ray_length (stone_after ms) p d pl"
  note props = ray_length_props [where s = "stone_after ms" and p = p,
      OF on_board_stone_after [OF assms(1)] assms(2,3)]
  show "0 \<le> int ?r" by simp
  show "stone_after ms (step_from p (k + 1) d) = pl" if "0 \<le> k" "k < int ?r" for k
    using props(3) [where m = ?r, THEN iffD1, OF order_refl] that by auto
  show "stone_after ms (step_from p (int ?r + 1) d) \<noteq> pl" by (rule props(1))
qed

lemma directions_nonzero: "d \<in> set directions \<Longrightarrow> d \<noteq> (0, 0) \<and> vneg d \<noteq> (0, 0)"
  by (auto simp: directions_def vneg_def)

lemma DidWin_loop_board_of:
  assumes "legal_history (ms @ [m])" "set ds \<subseteq> set directions"
  shows "DidWin_loop (board_of (ms @ [m])) m ds =
         ret (list_ex (five_through (stone_after (ms @ [m])) (mover (length ms)) m) ds)"
  using assms(2)
proof (induction ds)
  case (Cons d ds)
  let ?s = "stone_after (ms @ [m])" and ?pl = "mover (length ms)"
  have d: "d \<noteq> (0, 0)" "vneg d \<noteq> (0, 0)" using Cons.prems directions_nonzero by auto
  have m: "?s m = ?pl" using assms(1) by (simp add: legal_history_snoc stone_after_last)
  have ray: "CastRay (board_of (ms @ [m])) m d' ?pl = ret (int (ray_length ?s m d' ?pl))"
    if "d' \<noteq> (0, 0)" for d'
    using CastRay_board_of [OF assms(1) _ that] by simp
  have "4 \<le> ray_length ?s m d ?pl + ray_length ?s m (vneg d) ?pl \<longleftrightarrow> five_through ?s ?pl m d"
    using five_through_ray [where s = ?s and pl = ?pl, OF on_board_stone_after [OF assms(1)] _ d(1) m]
    by simp
  then have "4 \<le> int (ray_length ?s m d ?pl) + int (ray_length ?s m (vneg d) ?pl) \<longleftrightarrow>
             five_through ?s ?pl m d"
    by linarith
  then show ?case using Cons
    by (simp add: mover_Suc PlayerMap_at_mover ray [OF d(1)] ray [OF d(2)])
qed simp

lemma DidWin_board_of:
  assumes "legal_history (ms @ [m])"
  shows "DidWin (board_of (ms @ [m])) m =
         ret (list_ex (five_through (stone_after (ms @ [m])) (mover (length ms)) m) directions)"
proof -
  have "Inside m" using assms by (simp add: legal_history_snoc)
  then show ?thesis by (simp add: DidWin_def DidWin_loop_board_of [OF assms])
qed

text \<open>Half of the king's directions are enough: a line can be read from its other end.\<close>

lemma five_from_back: "five_from s pl p (vneg d) \<Longrightarrow> five_from s pl (step_from p (- 4) d) d"
  unfolding five_from_iff step_from_step step_from_vneg
proof (intro allI impI)
  fix j :: int assume F: "\<forall>j. 0 \<le> j \<and> j \<le> 4 \<longrightarrow> s (step_from p (- j) d) = pl" and "0 \<le> j \<and> j \<le> 4"
  then show "s (step_from p (- 4 + j) d) = pl" using F [rule_format, of "4 - j"] by simp
qed

lemma king_line:
  "list_all (\<lambda>j. s (x + j * dx, y + j * dy) = pl) [0, 1, 2, 3, 4] \<longleftrightarrow> five_from s pl (x, y) (dx, dy)"
proof -
  have "[0..4] = [0, 1, 2, 3, 4 :: int]" by (simp add: upto.simps)
  then show ?thesis by (simp add: five_from_def step_from_def)
qed

lemma king_directions:
  assumes "d \<in> set (List.product [-1, 0, 1] [-1, 0, 1])" "d \<noteq> (0, 0)"
  shows "d \<in> set directions \<or> (\<exists>e \<in> set directions. d = vneg e)"
  using assms by (auto simp: directions_def vneg_def)

lemma five_in_a_row_iff:
  assumes "on_board s" "pl \<noteq> NONE"
  shows "five_in_a_row s pl \<longleftrightarrow> (\<exists>p. \<exists>d \<in> set directions. five_from s pl p d)"
proof
  assume "five_in_a_row s pl"
  then obtain p d where l: "d \<in> set (List.product [-1, 0, 1] [-1, 0, 1])" "d \<noteq> (0, 0)" "five_from s pl p d"
    unfolding five_in_a_row_def king_line list_ex_iff by (simp only: case_prod_unfold prod.collapse) blast
  from king_directions [OF l(1,2)] l(3) show "\<exists>p. \<exists>d \<in> set directions. five_from s pl p d" by (metis five_from_back)
next
  assume "\<exists>p. \<exists>d \<in> set directions. five_from s pl p d"
  then obtain x y dx dy where f: "(dx, dy) \<in> set directions" "five_from s pl (x, y) (dx, dy)" by auto
  have "s (x, y) = pl" using f(2) [unfolded five_from_iff, rule_format, of 0] by simp
  then have "Inside (x, y)" using assms unfolding on_board_def by metis
  then have "(x, y) \<in> set (List.product [0..18] [0..18])" by (simp add: Inside_def)
  moreover have "(dx, dy) \<in> set (List.product [-1, 0, 1] [-1, 0, 1])" "(dx, dy) \<noteq> (0, 0)" using f(1) by (auto simp: directions_def)
  ultimately show "five_in_a_row s pl"
    unfolding five_in_a_row_def king_line list_ex_iff using f(2) by (intro bexI [of _ "(x, y)"]) auto
qed

text \<open>A line through the last stone is a line of the position, and the only new ones are those.\<close>

lemma five_through_imp_row:
  assumes "on_board s" "pl \<noteq> NONE" "d \<in> set directions" "five_through s pl p d"
  shows "five_in_a_row s pl"
  using assms(3,4) unfolding five_in_a_row_iff [OF assms(1,2)] five_through_def list_ex_iff by blast

lemma five_in_a_row_update:
  assumes "on_board s" "Inside m" "pl' \<noteq> NONE" "five_in_a_row (s(m := pl)) pl'" "\<not> five_in_a_row s pl'"
  shows "pl' = pl \<and> list_ex (five_through (s(m := pl)) pl m) directions"
proof -
  have on: "on_board (s(m := pl))" using assms(1,2) by (simp add: on_board_def)
  from assms(4) obtain p d where pd: "d \<in> set directions" "five_from (s(m := pl)) pl' p d"
    unfolding five_in_a_row_iff [OF on assms(3)] by blast
  then have "\<not> five_from s pl' p d" using assms(5) unfolding five_in_a_row_iff [OF assms(1,3)] by blast
  then obtain j where j: "0 \<le> j" "j \<le> 4" "s (step_from p j d) \<noteq> pl'"
    by (auto simp: five_from_iff)
  with pd(2) have m: "m = step_from p j d" "pl = pl'"
    by (auto simp: five_from_iff split: if_splits)
  then have "five_from (s(m := pl)) pl (step_from m (- j) d) d"
    using pd(2) by (simp add: step_from_step)
  then have "five_through (s(m := pl)) pl m d"
    using j by (auto simp: five_through_def list_ex_iff)
  then show ?thesis using pd(1) m(2) by (auto simp: list_ex_iff)
qed

lemma DidWin_iff_row:
  assumes "legal_history (ms @ [m])" "\<not> five_in_a_row (stone_after ms) (mover (length ms))"
  shows "DidWin (board_of (ms @ [m])) m =
         ret (five_in_a_row (stone_after (ms @ [m])) (mover (length ms)))"
proof -
  let ?s = "stone_after (ms @ [m])" and ?pl = "mover (length ms)"
  have snoc: "?s = (stone_after ms)(m := ?pl)"
    using assms(1) by (simp add: legal_history_snoc stone_after_snoc)
  have "list_ex (five_through ?s ?pl m) directions \<longleftrightarrow> five_in_a_row ?s ?pl"
  proof
    assume "list_ex (five_through ?s ?pl m) directions"
    then obtain d where "d \<in> set directions" "five_through ?s ?pl m d" by (auto simp: list_ex_iff)
    then show "five_in_a_row ?s ?pl"
      using five_through_imp_row [where s = ?s, OF on_board_stone_after [OF assms(1)]] by simp
  next
    assume "five_in_a_row ?s ?pl"
    moreover have "on_board (stone_after ms)" "Inside m"
      using assms(1) by (auto simp: legal_history_snoc intro: on_board_stone_after)
    ultimately show "list_ex (five_through ?s ?pl m) directions"
      using five_in_a_row_update [of "stone_after ms" m ?pl ?pl] assms(2) unfolding snoc by (simp add: mover_not_NONE)
  qed
  then show ?thesis by (simp add: DidWin_board_of [OF assms(1)])
qed

subsection \<open>Sampling\<close>

definition shift_field :: "int \<Rightarrow> int \<Rightarrow> vector2i \<Rightarrow> vector2i" where
  "shift_field xo yo p = ((fst p + xo) mod 19, (snd p + yo) mod 19)"

lemma shift_field_Inside: "Inside (shift_field xo yo p)"
  by (simp add: shift_field_def Inside_def)

lemma shift_field_surj:
  assumes "Inside q"
  shows "\<exists>p. Inside p \<and> shift_field xo yo p = q"
proof -
  have "shift_field xo yo (shift_field (- xo) (- yo) q) = q"
    using assms by (cases q) (simp add: shift_field_def Inside_def mod_simps)
  then show ?thesis using shift_field_Inside by blast
qed

lemma sample_scan_board_of:
  assumes "0 \<le> xo" "0 \<le> yo" "list_all Inside ps"
  shows "sample_scan (board_of ms) xo yo ps =
    (case List.find (\<lambda>p. shift_field xo yo p \<notin> set ms) ps of
       None \<Rightarrow> abort (LogFatal ''All legal moves exhausted'')
     | Some p \<Rightarrow> ret (shift_field xo yo p))"
  using assms(3)
proof (induction ps)
  case (Cons p ps)
  obtain x y where p: "p = (x, y)" by (cases p)
  have "0 \<le> x + xo" "0 \<le> y + yo" using Cons.prems assms(1,2) by (auto simp: p Inside_def)
  then have move: "((x + xo) smod kWidth, (y + yo) smod kHeight) = shift_field xo yo p"
    by (simp add: p shift_field_def)
  show ?case unfolding p sample_scan.simps Let_def move
    using Cons shift_field_Inside [of xo yo p] stone_after_range [of ms "shift_field xo yo p"]
    by (simp add: p StoneAt_board_of)
qed simp

lemma sample_scan_all:
  assumes "0 \<le> xo" "0 \<le> yo" "legal_history ms"
  shows "set ms \<noteq> {p. Inside p} \<Longrightarrow>
      \<exists>m. sample_scan (board_of ms) xo yo all_fields = ret m \<and> Inside m \<and> m \<notin> set ms"
    and "set ms = {p. Inside p} \<Longrightarrow> sample_scan (board_of ms) xo yo all_fields =
      abort (LogFatal ''All legal moves exhausted'')"
proof -
  let ?P = "\<lambda>p. shift_field xo yo p \<notin> set ms"
  have "list_all Inside all_fields" by (simp add: list_all_iff set_all_fields)
  note scan = sample_scan_board_of [OF assms(1,2) this]
  { assume "set ms \<noteq> {p. Inside p}"
    then obtain q where "Inside q" "q \<notin> set ms"
      using assms(3) legal_history_Inside by blast
    then obtain p where "p \<in> set all_fields" "?P p"
      using shift_field_surj [of q xo yo] by (auto simp: set_all_fields)
    then obtain r where r: "List.find ?P all_fields = Some r"
      by (metis find_None_iff not_None_eq)
    then have "?P r" by (metis find_Some_iff)
    with r show "\<exists>m. sample_scan (board_of ms) xo yo all_fields = ret m \<and> Inside m \<and> m \<notin> set ms"
      by (auto simp: scan shift_field_Inside) }
  { assume "set ms = {p. Inside p}"
    then have "List.find ?P all_fields = None"
      by (auto simp: find_None_iff shift_field_Inside)
    then show "sample_scan (board_of ms) xo yo all_fields =
      abort (LogFatal ''All legal moves exhausted'')" by (simp add: scan) }
qed

lemma UniformlySampleLegalMove_board_of:
  assumes "uniform_int_ok draw" "legal_history ms"
  shows "set ms \<noteq> {p. Inside p} \<Longrightarrow>
      \<exists>m g'. UniformlySampleLegalMove draw (board_of ms) g = ret (m, g') \<and> Inside m \<and> m \<notin> set ms"
    and "set ms = {p. Inside p} \<Longrightarrow> UniformlySampleLegalMove draw (board_of ms) g =
      abort (LogFatal ''All legal moves exhausted'')"
proof -
  obtain xo g1 yo g2 where draws: "draw 0 18 g = (xo, g1)" "draw 0 18 g1 = (yo, g2)"
    by (metis surj_pair)
  have "0 \<le> xo" "0 \<le> yo"
    using assms(1) [unfolded uniform_int_ok_def, rule_format, of 0 18 g]
      assms(1) [unfolded uniform_int_ok_def, rule_format, of 0 18 g1] draws by auto
  note all = sample_scan_all [OF this assms(2)]
  { assume "set ms \<noteq> {p. Inside p}"
    with all(1) show "\<exists>m g'. UniformlySampleLegalMove draw (board_of ms) g = ret (m, g') \<and>
        Inside m \<and> m \<notin> set ms"
      by (auto simp: UniformlySampleLegalMove_def draws) }
  { assume "set ms = {p. Inside p}"
    with all(2) show "UniformlySampleLegalMove draw (board_of ms) g =
        abort (LogFatal ''All legal moves exhausted'')"
      by (auto simp: UniformlySampleLegalMove_def draws) }
qed

section \<open>Properties\<close>

text \<open>
  C1. The bitset board implements histories: a sequence of calls of
  \<open>ApplyMove\<close> on a new board returns exactly if the moves are inside the board and
  different from each other, and then the board is the one that holds the stones of that
  history, with the player to move and the number of moves of that history.
\<close>

theorem ApplyMoves_refines:
  "ApplyMoves ms new_board = ret b \<longleftrightarrow> legal_history ms \<and> b = board_of ms"
  using ApplyMoves_board_of [of "[]" ms b] by (simp add: new_board_eq)

text \<open>
  One call of \<open>ApplyMove\<close> on every branch: outside the board, on a stone of
  either player (each its own failed check), and on a free field.
\<close>

theorem ApplyMove_cases:
  "ApplyMove (board_of ms) m =
     (if \<not> Inside m then abort (CheckFailed ''Inside(move)'')
      else case stone_after ms m of
        FIRST \<Rightarrow> abort (CheckFailed ''!fields_[index]'')
      | SECOND \<Rightarrow> abort (CheckFailed ''!fields_[index + 1]'')
      | NONE \<Rightarrow> ret (board_of (ms @ [m])))"
  by (rule ApplyMove_board_of)

text \<open>
  C17. Reverting moves in the opposite order gives back the board they
  were applied to, bit for bit.
\<close>

theorem RevertMoves_undoes:
  assumes "legal_history (hs @ ms)"
  shows "bnd (ApplyMoves ms (board_of hs)) (RevertMoves (rev ms)) = ret (board_of hs)"
proof -
  have "legal_history hs" using assms by (simp add: legal_history_def)
  with ApplyMoves_board_of [of hs ms] assms have "ApplyMoves ms (board_of hs) = ret (board_of (hs @ ms))"
    by simp
  with RevertMoves_board_of [OF assms] show ?thesis by simp
qed

theorem RevertMoves_undoes_witness:
  "bnd (ApplyMoves [(3, 4), (5, 6)] (board_of [(0, 18)])) (RevertMoves (rev [(3, 4), (5, 6)])) =
   ret (board_of [(0, 18)])"
  by (rule RevertMoves_undoes) (simp add: legal_history_def Inside_def)

text \<open>
  Sampling from a board returns a free field of the board if
  there is one, whatever the distributions draw, and otherwise ends the process.
\<close>

theorem UniformlySampleLegalMove_safe:
  assumes "uniform_int_ok draw" "legal_history ms"
  shows "if length ms < 361
    then \<exists>m g'. UniformlySampleLegalMove draw (board_of ms) g = ret (m, g') \<and> Inside m \<and> m \<notin> set ms
    else UniformlySampleLegalMove draw (board_of ms) g = abort (LogFatal ''All legal moves exhausted'')"
  using UniformlySampleLegalMove_board_of [OF assms] legal_history_length [OF assms(2)] by auto

theorem UniformlySampleLegalMove_safe_witness:
  "\<exists>m g'. UniformlySampleLegalMove (\<lambda>a b g. (b, Suc g)) (board_of [(0, 0)]) (7 :: nat) = ret (m, g') \<and>
     Inside m \<and> m \<notin> {(0, 0)}"
  using UniformlySampleLegalMove_safe [of "\<lambda>a b g. (b, Suc g)" "[(0, 0)]" 7]
  by (simp add: uniform_int_ok_def legal_history_def Inside_def)

end
