(* ===== verification/Float32.thy ===== *)
theory Float32
  imports Gomoku_Prelude "HOL-Library.Log_Nat"
begin

text \<open>
  The C++ types \<open>float\<close> and \<open>double\<close> (IEEE 754 binary32 and binary64, rounding to nearest,
  ties to even), as far as the program uses them.

  A finite value is a rational number; the infinities and NaN are constructors. Every
  operation computes the exact rational result and rounds it to the format, so overflow,
  gradual underflow and rounding are those of the hardware. The sign of a zero is not
  represented: a division by zero gives the infinity with the sign of the dividend.
\<close>

datatype fp = Fin rat | PInf | NInf | NaN

record fp_format =
  prec :: nat
  emin :: int
  emax :: int

definition float32 :: fp_format where
  "float32 = \<lparr>prec = 24, emin = -126, emax = 127\<rparr>"

definition float64 :: fp_format where
  "float64 = \<lparr>prec = 53, emin = -1022, emax = 1023\<rparr>"

definition pow2 :: "int \<Rightarrow> rat" where
  "pow2 e = (if 0 \<le> e then 2 ^ nat e else 1 / 2 ^ nat (- e))"

text \<open>The exponent of the binade of a positive rational.\<close>

definition binade :: "rat \<Rightarrow> int" where
  "binade x = (let (p, q) = quotient_of x; e = bitlen p - bitlen q in
     if x < pow2 e then e - 1 else e)"

definition round_even :: "rat \<Rightarrow> int" where
  "round_even y = (let f = \<lfloor>y\<rfloor>; d = y - of_int f in
     if d < 1 / 2 then f else if 1 / 2 < d then f + 1
     else if even f then f else f + 1)"

text \<open>The distance of neighbouring values of the format around \<open>x\<close>.\<close>

definition ulp :: "fp_format \<Rightarrow> rat \<Rightarrow> rat" where
  "ulp fmt x = pow2 (max (binade \<bar>x\<bar>) (emin fmt) - int (prec fmt) + 1)"

definition rnd :: "fp_format \<Rightarrow> rat \<Rightarrow> rat" where
  "rnd fmt x = (if x = 0 then 0 else of_int (round_even (x / ulp fmt x)) * ulp fmt x)"

definition to_fp :: "fp_format \<Rightarrow> rat \<Rightarrow> fp" where
  "to_fp fmt x = (let r = rnd fmt x in
     if pow2 (emax fmt + 1) \<le> r then PInf
     else if r \<le> - pow2 (emax fmt + 1) then NInf else Fin r)"

fun fp_neg :: "fp \<Rightarrow> fp" where
  "fp_neg (Fin a) = Fin (- a)"
| "fp_neg PInf = NInf"
| "fp_neg NInf = PInf"
| "fp_neg NaN = NaN"

fun fp_add :: "fp_format \<Rightarrow> fp \<Rightarrow> fp \<Rightarrow> fp" where
  "fp_add fmt (Fin a) (Fin b) = to_fp fmt (a + b)"
| "fp_add fmt NaN b = NaN"
| "fp_add fmt a NaN = NaN"
| "fp_add fmt PInf NInf = NaN"
| "fp_add fmt NInf PInf = NaN"
| "fp_add fmt PInf b = PInf"
| "fp_add fmt NInf b = NInf"
| "fp_add fmt (Fin a) PInf = PInf"
| "fp_add fmt (Fin a) NInf = NInf"

definition fp_sub :: "fp_format \<Rightarrow> fp \<Rightarrow> fp \<Rightarrow> fp" where
  "fp_sub fmt a b = fp_add fmt a (fp_neg b)"

definition inf_times :: "fp \<Rightarrow> rat \<Rightarrow> fp" where
  "inf_times i a = (if a = 0 then NaN else if 0 < a then i else fp_neg i)"

fun fp_mul :: "fp_format \<Rightarrow> fp \<Rightarrow> fp \<Rightarrow> fp" where
  "fp_mul fmt (Fin a) (Fin b) = to_fp fmt (a * b)"
| "fp_mul fmt NaN b = NaN"
| "fp_mul fmt a NaN = NaN"
| "fp_mul fmt (Fin a) i = inf_times i a"
| "fp_mul fmt i (Fin b) = inf_times i b"
| "fp_mul fmt PInf i = i"
| "fp_mul fmt NInf i = fp_neg i"

fun fp_div :: "fp_format \<Rightarrow> fp \<Rightarrow> fp \<Rightarrow> fp" where
  "fp_div fmt (Fin a) (Fin b) =
     (if b = 0 then (if a = 0 then NaN else if 0 < a then PInf else NInf) else to_fp fmt (a / b))"
| "fp_div fmt NaN b = NaN"
| "fp_div fmt a NaN = NaN"
| "fp_div fmt (Fin a) i = Fin 0"
| "fp_div fmt i (Fin b) = (if b < 0 then fp_neg i else i)"
| "fp_div fmt i j = NaN"

fun fp_less :: "fp \<Rightarrow> fp \<Rightarrow> bool" where
  "fp_less (Fin a) (Fin b) = (a < b)"
| "fp_less NaN b = False"
| "fp_less a NaN = False"
| "fp_less NInf b = (b \<noteq> NInf)"
| "fp_less a PInf = (a \<noteq> PInf)"
| "fp_less a b = False"

fun fp_eq :: "fp \<Rightarrow> fp \<Rightarrow> bool" where
  "fp_eq NaN b = False"
| "fp_eq a NaN = False"
| "fp_eq a b = (a = b)"

definition fp_ge :: "fp \<Rightarrow> fp \<Rightarrow> bool" where
  "fp_ge a b \<longleftrightarrow> fp_less b a \<or> fp_eq a b"

fun fp_convert :: "fp_format \<Rightarrow> fp \<Rightarrow> fp" where
  "fp_convert fmt (Fin a) = to_fp fmt a"
| "fp_convert fmt a = a"

definition fp_of_int :: "fp_format \<Rightarrow> int \<Rightarrow> fp" where
  "fp_of_int fmt n = to_fp fmt (of_int n)"

definition f32 :: "rat \<Rightarrow> fp" where
  "f32 x = to_fp float32 x"

section \<open>Powers of two and binades\<close>

lemma pow2_powi: "pow2 e = 2 powi e"
  by (auto simp: pow2_def power_int_def field_simps power_inverse)

lemma pow2_pos [simp]: "0 < pow2 e"
  by (simp add: pow2_def)

lemma pow2_nonneg [simp]: "0 \<le> pow2 e"
  by (rule less_imp_le) simp

lemma pow2_nonzero [simp]: "pow2 e \<noteq> 0"
  by (simp add: pow2_def)

lemma pow2_add: "pow2 (a + b) = pow2 a * pow2 b"
  by (simp add: pow2_powi power_int_add)

lemma pow2_diff: "pow2 (a - b) = pow2 a / pow2 b"
  by (simp add: pow2_powi power_int_diff)

lemma pow2_strict_mono: "strict_mono pow2"
  by (intro strict_monoI) (simp add: pow2_powi power_int_strict_increasing)

lemma pow2_le_iff: "pow2 a \<le> pow2 b \<longleftrightarrow> a \<le> b"
  using pow2_strict_mono by (rule strict_mono_less_eq)

lemma pow2_less_iff: "pow2 a < pow2 b \<longleftrightarrow> a < b"
  using pow2_strict_mono by (rule strict_mono_less)

lemma pow2_of_nat: "0 \<le> e \<Longrightarrow> pow2 e = of_int (2 ^ nat e)"
  by (simp add: pow2_def)

lemma pow2_Ints: "0 \<le> e \<Longrightarrow> pow2 e \<in> \<int>"
  by (simp add: pow2_of_nat)

lemma pow2_1 [simp]: "pow2 0 = 1" "pow2 1 = 2"
  by (simp_all add: pow2_def)

lemma bitlen_pow2_bounds:
  assumes "0 < p"
  shows "pow2 (bitlen p - 1) \<le> of_int p" "of_int p < pow2 (bitlen p)"
proof -
  have b: "2 ^ nat (bitlen p - 1) \<le> p" "p < 2 ^ nat (bitlen p)"
    using bitlen_bounds [OF assms] by auto
  have "0 < bitlen p"
    using assms bitlen_nonneg [of p] bitlen_eq_zero_iff [of p] by linarith
  then have "pow2 (bitlen p - 1) = of_int (2 ^ nat (bitlen p - 1))"
    "pow2 (bitlen p) = of_int (2 ^ nat (bitlen p))"
    by (simp_all add: pow2_of_nat)
  with b show "pow2 (bitlen p - 1) \<le> of_int p" "of_int p < pow2 (bitlen p)"
    by (simp_all only: of_int_le_iff of_int_less_iff)
qed

lemma binade_bounds:
  assumes "0 < x"
  shows "pow2 (binade x) \<le> x" "x < pow2 (binade x + 1)"
proof -
  obtain p q where pq: "quotient_of x = (p, q)" by (cases "quotient_of x")
  then have q: "0 < q" and x: "x = of_int p / of_int q"
    by (simp_all add: quotient_of_denom_pos quotient_of_div)
  from assms x q have p: "0 < p" by (simp add: zero_less_divide_iff)
  let ?e = "bitlen p - bitlen q"
  have q': "0 < (of_int q :: rat)" using q by simp
  have "x < pow2 (bitlen p) / of_int q"
    unfolding x by (intro divide_strict_right_mono bitlen_pow2_bounds(2) p q')
  also have "\<dots> \<le> pow2 (bitlen p) / pow2 (bitlen q - 1)"
    using bitlen_pow2_bounds(1) [OF q] q' by (intro divide_left_mono mult_pos_pos) auto
  also have "\<dots> = pow2 (?e + 1)" by (simp add: algebra_simps flip: pow2_diff)
  finally have up: "x < pow2 (?e + 1)" .
  have "pow2 (?e - 1) = pow2 (bitlen p - 1) / pow2 (bitlen q)"
    by (simp add: algebra_simps flip: pow2_diff)
  also have "\<dots> \<le> pow2 (bitlen p - 1) / of_int q"
    using bitlen_pow2_bounds(2) [OF q] q' by (intro divide_left_mono mult_pos_pos) auto
  also have "\<dots> \<le> x"
    unfolding x using bitlen_pow2_bounds(1) [OF p] q' by (intro divide_right_mono) auto
  finally have lo: "pow2 (?e - 1) \<le> x" .
  show "pow2 (binade x) \<le> x" "x < pow2 (binade x + 1)"
    using up lo by (auto simp: binade_def pq Let_def)
qed

lemma binade_unique:
  assumes "pow2 e \<le> x" "x < pow2 (e + 1)"
  shows "binade x = e"
proof -
  have "0 < x" using assms(1) pow2_pos [of e] by linarith
  note b = binade_bounds [OF this]
  have "pow2 e < pow2 (binade x + 1)" "pow2 (binade x) < pow2 (e + 1)"
    using b assms by linarith+
  then show ?thesis by (simp add: pow2_less_iff)
qed

lemma binade_mono:
  assumes "0 < x" "x \<le> y"
  shows "binade x \<le> binade y"
proof -
  have "pow2 (binade x) < pow2 (binade y + 1)"
    using binade_bounds(1) [of x] binade_bounds(2) [of y] assms by linarith
  then show ?thesis by (simp add: pow2_less_iff)
qed

section \<open>Rounding to an integer\<close>

lemma round_even_cases:
  obtains "round_even y = \<lfloor>y\<rfloor>" "y - of_int \<lfloor>y\<rfloor> \<le> 1 / 2"
  | "round_even y = \<lfloor>y\<rfloor> + 1" "1 / 2 \<le> y - of_int \<lfloor>y\<rfloor>"
proof -
  consider "y - of_int \<lfloor>y\<rfloor> < 1 / 2" | "1 / 2 < y - of_int \<lfloor>y\<rfloor>" | "y - of_int \<lfloor>y\<rfloor> = 1 / 2"
    by linarith
  then show thesis
  proof cases
    case 1 then show thesis using that(1) by (simp add: round_even_def)
  next
    case 2 then show thesis using that(2) by (simp add: round_even_def)
  next
    case 3 then show thesis using that by (cases "even \<lfloor>y\<rfloor>") (simp_all add: round_even_def)
  qed
qed

lemma round_even_near: "of_int (round_even y) \<le> y + 1 / 2" "y - 1 / 2 \<le> of_int (round_even y)"
  by (cases y rule: round_even_cases; linarith)+

lemma round_even_of_int [simp]: "round_even (of_int n) = n"
  by (simp add: round_even_def)

lemma round_even_0 [simp]: "round_even 0 = 0"
  by (simp add: round_even_def)

lemma round_even_mono:
  assumes "x \<le> y" shows "round_even x \<le> round_even y"
proof (cases "\<lfloor>x\<rfloor> = \<lfloor>y\<rfloor>")
  case True
  with assms show ?thesis by (auto simp: round_even_def Let_def)
next
  case False
  then have "\<lfloor>x\<rfloor> + 1 \<le> \<lfloor>y\<rfloor>" using floor_mono [OF assms] by linarith
  moreover have "round_even x \<le> \<lfloor>x\<rfloor> + 1" "\<lfloor>y\<rfloor> \<le> round_even y"
    by (auto simp: round_even_def Let_def)
  ultimately show ?thesis by linarith
qed

lemma round_even_minus: "round_even (- y) = - round_even y"
proof (cases "y \<in> \<int>")
  case True
  then obtain n where "y = of_int n" by (elim Ints_cases)
  then show ?thesis by (metis of_int_minus round_even_of_int)
next
  case False
  then have ne: "of_int \<lfloor>y\<rfloor> \<noteq> y" by (metis Ints_of_int)
  have "\<lfloor>- y\<rfloor> = - \<lfloor>y\<rfloor> - 1"
  proof (rule floor_unique)
    show "of_int (- \<lfloor>y\<rfloor> - 1) \<le> - y" by simp linarith
    show "- y < of_int (- \<lfloor>y\<rfloor> - 1) + 1"
      using le_neq_trans [OF of_int_floor_le ne] by simp
  qed
  then show ?thesis by (auto simp: round_even_def Let_def)
qed

text \<open>Rounding a non-negative number at most doubles it: below one half it gives zero.\<close>

lemma round_even_double:
  assumes "0 \<le> y" shows "of_int (round_even y) \<le> 2 * y"
proof (cases "y \<le> 1 / 2")
  case True
  then have "round_even y \<le> round_even (1 / 2)" by (rule round_even_mono)
  moreover have "\<lfloor>1 / 2 :: rat\<rfloor> = 0" by (simp add: floor_eq_iff)
  then have "round_even (1 / 2) = 0" by (simp add: round_even_def)
  ultimately show ?thesis using assms by (simp add: order_trans [of _ 0])
next
  case False
  then show ?thesis using round_even_near(1) [of y] by linarith
qed

lemma round_even_nonneg: "0 \<le> y \<Longrightarrow> 0 \<le> round_even y"
  using round_even_mono [of 0 y] by simp

section \<open>Rounding to a format\<close>

lemma ulp_pos [simp]: "0 < ulp fmt x"
  by (simp add: ulp_def)

lemma ulp_nonneg [simp]: "0 \<le> ulp fmt x"
  by (simp add: ulp_def)

lemma ulp_nonzero [simp]: "ulp fmt x \<noteq> 0"
  by (simp add: ulp_def)

lemma ulp_minus [simp]: "ulp fmt (- x) = ulp fmt x"
  by (simp add: ulp_def)

lemma rnd_0 [simp]: "rnd fmt 0 = 0"
  by (simp add: rnd_def)

lemma rnd_minus: "rnd fmt (- x) = - rnd fmt x"
  by (simp add: rnd_def round_even_minus)

lemma rnd_nonneg: "0 \<le> x \<Longrightarrow> 0 \<le> rnd fmt x"
  by (simp add: rnd_def round_even_nonneg)

lemma rnd_double:
  assumes "0 \<le> x" shows "rnd fmt x \<le> 2 * x"
proof -
  have "of_int (round_even (x / ulp fmt x)) \<le> 2 * (x / ulp fmt x)"
    using assms by (intro round_even_double) simp
  then have "of_int (round_even (x / ulp fmt x)) * ulp fmt x \<le> 2 * (x / ulp fmt x) * ulp fmt x"
    by (rule mult_right_mono) simp
  then show ?thesis using assms by (simp add: rnd_def)
qed

lemma rnd_exact:
  assumes "x / ulp fmt x \<in> \<int>" shows "rnd fmt x = x"
proof -
  from assms obtain n where n: "x / ulp fmt x = of_int n" by (elim Ints_cases)
  then have "x = of_int n * ulp fmt x" by (simp add: field_simps)
  with n show ?thesis by (simp add: rnd_def)
qed

lemma round_scaled_le:
  assumes "0 < u" "x \<le> of_int n * u"
  shows "of_int (round_even (x / u)) * u \<le> of_int n * u"
proof -
  have "x / u \<le> of_int n" using assms by (simp add: field_simps)
  then have "round_even (x / u) \<le> n" using round_even_mono by fastforce
  then show ?thesis using assms(1) by simp
qed

lemma round_scaled_ge:
  assumes "0 < u" "of_int n * u \<le> x"
  shows "of_int n * u \<le> of_int (round_even (x / u)) * u"
proof -
  have "of_int n \<le> x / u" using assms by (simp add: field_simps)
  then have "n \<le> round_even (x / u)" using round_even_mono by fastforce
  then show ?thesis using assms(1) by simp
qed

lemma pow2_multiple:
  assumes "k \<le> e"
  shows "pow2 e = of_int (2 ^ nat (e - k)) * pow2 k"
  using assms pow2_add [of "e - k" k] by (simp add: pow2_of_nat)

lemma rnd_binade_upper:
  assumes "0 < x" "1 \<le> prec fmt" "max (binade x) (emin fmt) < e"
  shows "rnd fmt x \<le> pow2 e"
proof -
  let ?k = "max (binade x) (emin fmt) - int (prec fmt) + 1"
  have u: "ulp fmt x = pow2 ?k" using assms(1) by (simp add: ulp_def)
  have k: "?k \<le> e" using assms(2,3) by linarith
  have "x < pow2 (binade x + 1)" using binade_bounds(2) [OF assms(1)] .
  also have "\<dots> \<le> pow2 e" using assms(3) by (simp add: pow2_le_iff)
  finally have "x \<le> of_int (2 ^ nat (e - ?k)) * pow2 ?k"
    using pow2_multiple [OF k] by simp
  from round_scaled_le [OF pow2_pos this] show ?thesis
    using assms(1) pow2_multiple [OF k] by (simp add: rnd_def u)
qed

lemma rnd_binade_lower:
  assumes "1 \<le> prec fmt" "emin fmt - int (prec fmt) + 1 \<le> e" "pow2 e \<le> x"
  shows "pow2 e \<le> rnd fmt x"
proof -
  have x: "0 < x" using assms(3) pow2_pos [of e] by linarith
  define k where "k = max (binade x) (emin fmt) - int (prec fmt) + 1"
  have u: "ulp fmt x = pow2 k" using x by (simp add: ulp_def k_def)
  show ?thesis
  proof (cases "k \<le> e")
    case True
    have "of_int (2 ^ nat (e - k)) * pow2 k \<le> x" using pow2_multiple [OF True] assms(3) by simp
    from round_scaled_ge [OF pow2_pos this] show ?thesis
      using x pow2_multiple [OF True] by (simp add: rnd_def u)
  next
    case False
    then have b: "k \<le> binade x" "e \<le> binade x" using assms(1,2) by (auto simp: k_def)
    have "of_int (2 ^ nat (binade x - k)) * pow2 k \<le> x"
      using pow2_multiple [OF b(1)] binade_bounds(1) [OF x] by simp
    from round_scaled_ge [OF pow2_pos this] have "pow2 (binade x) \<le> rnd fmt x"
      using x pow2_multiple [OF b(1)] by (simp add: rnd_def u)
    then show ?thesis using b(2) pow2_le_iff [of e "binade x"] by linarith
  qed
qed

lemma rnd_mono_pos:
  assumes "1 \<le> prec fmt" "0 < x" "x \<le> y"
  shows "rnd fmt x \<le> rnd fmt y"
proof -
  let ?E = "\<lambda>z. max (binade z) (emin fmt)"
  have y: "0 < y" using assms by linarith
  have E: "?E x \<le> ?E y" using binade_mono [OF assms(2,3)] by auto
  show ?thesis
  proof (cases "?E x = ?E y")
    case True
    then have "ulp fmt x = ulp fmt y" using assms(2) y by (simp add: ulp_def)
    then show ?thesis using assms y
      by (simp add: rnd_def divide_right_mono round_even_mono less_imp_le)
  next
    case False
    then have lt: "?E x < binade y" "emin fmt \<le> binade y" using E by auto
    have "rnd fmt x \<le> pow2 (binade y)" by (rule rnd_binade_upper [OF assms(2,1) lt(1)])
    also have "\<dots> \<le> rnd fmt y"
      using assms(1) lt(2) binade_bounds(1) [OF y] by (intro rnd_binade_lower) auto
    finally show ?thesis .
  qed
qed

lemma rnd_mono:
  assumes "1 \<le> prec fmt" "x \<le> y"
  shows "rnd fmt x \<le> rnd fmt y"
proof -
  consider "0 < x" | "y < 0" | "x \<le> 0" "0 \<le> y" by linarith
  then show ?thesis
  proof cases
    case 1 then show ?thesis using assms rnd_mono_pos by blast
  next
    case 2
    then have "rnd fmt (- y) \<le> rnd fmt (- x)" using assms by (intro rnd_mono_pos) auto
    then show ?thesis by (simp add: rnd_minus)
  next
    case 3
    then have "0 \<le> rnd fmt (- x)" "0 \<le> rnd fmt y" by (auto intro: rnd_nonneg)
    then show ?thesis by (simp add: rnd_minus)
  qed
qed

text \<open>Powers of two down to the smallest subnormal, and the integers up to \<open>2 ^ prec\<close>, are exact.\<close>

lemma rnd_pow2:
  assumes "1 \<le> prec fmt" "emin fmt - int (prec fmt) + 1 \<le> e"
  shows "rnd fmt (pow2 e) = pow2 e"
proof -
  have "binade (pow2 e) = e" by (rule binade_unique) (simp_all add: pow2_less_iff)
  then have "pow2 e / ulp fmt (pow2 e) = pow2 (e - (max e (emin fmt) - int (prec fmt) + 1))"
    by (simp add: ulp_def pow2_diff)
  moreover have "pow2 (e - (max e (emin fmt) - int (prec fmt) + 1)) \<in> \<int>"
    using assms by (intro pow2_Ints) linarith
  ultimately show ?thesis by (intro rnd_exact) simp
qed

lemma rnd_of_int:
  assumes "emin fmt \<le> 0" "1 \<le> prec fmt" "\<bar>n\<bar> \<le> 2 ^ prec fmt"
  shows "rnd fmt (of_int n) = of_int n"
proof -
  have pos: "rnd fmt (of_int n) = of_int n" if n: "0 < n" "n \<le> 2 ^ prec fmt" for n
  proof (cases "n = 2 ^ prec fmt")
    case True
    then have "(of_int n :: rat) = pow2 (int (prec fmt))" by (simp add: pow2_def)
    moreover have "rnd fmt (pow2 (int (prec fmt))) = pow2 (int (prec fmt))"
      using assms(1,2) by (intro rnd_pow2) linarith+
    ultimately show ?thesis by simp
  next
    case False
    then have lt: "(of_int n :: rat) < pow2 (int (prec fmt))"
      using n by (simp add: pow2_of_nat del: of_int_power)
    let ?b = "binade (of_int n)"
    have "pow2 ?b < pow2 (int (prec fmt))"
      using binade_bounds(1) [of "of_int n"] n lt by simp
    then have b: "?b < int (prec fmt)" by (simp add: pow2_less_iff)
    let ?k = "max ?b (emin fmt) - int (prec fmt) + 1"
    have "pow2 (- ?k) \<in> \<int>" using b assms(1,2) by (intro pow2_Ints) linarith
    then have "of_int n * pow2 (- ?k) \<in> \<int>" by (intro Ints_mult) auto
    moreover have "of_int n / ulp fmt (of_int n) = of_int n * pow2 (- ?k)"
      using n pow2_diff [of 0 ?k] by (simp add: ulp_def)
    ultimately show ?thesis by (intro rnd_exact) simp
  qed
  consider "n = 0" | "0 < n" | "0 < - n" by linarith
  then show ?thesis
  proof cases
    case 2 then show ?thesis using assms(3) by (intro pos) auto
  next
    case 3
    then have "rnd fmt (of_int (- n)) = of_int (- n)" using assms(3) by (intro pos) auto
    then show ?thesis by (simp add: rnd_minus)
  qed simp
qed

section \<open>Finite results\<close>

text \<open>The formats the lemmas below apply to; \<^const>\<open>float32\<close> and \<^const>\<open>float64\<close> are two.\<close>

definition wf_format :: "fp_format \<Rightarrow> bool" where
  "wf_format fmt \<longleftrightarrow> 1 \<le> prec fmt \<and> emin fmt \<le> 0 \<and> 0 \<le> emax fmt"

definition min_pos :: "fp_format \<Rightarrow> rat" where
  "min_pos fmt = pow2 (emin fmt - int (prec fmt) + 1)"

lemma wf_formats [simp]: "wf_format float32" "wf_format float64"
  by (simp_all add: wf_format_def float32_def float64_def)

lemma min_pos_pos [simp]: "0 < min_pos fmt" "0 \<le> min_pos fmt"
  by (simp_all add: min_pos_def)

lemma min_pos_le_1: "wf_format fmt \<Longrightarrow> min_pos fmt \<le> 1"
  using pow2_le_iff [of "emin fmt - int (prec fmt) + 1" 0] by (simp add: min_pos_def wf_format_def)

lemma rnd_1 [simp]: "wf_format fmt \<Longrightarrow> rnd fmt 1 = 1"
  using rnd_of_int [of fmt 1] by (simp add: wf_format_def)

lemma rnd_min_pos: "wf_format fmt \<Longrightarrow> rnd fmt (min_pos fmt) = min_pos fmt"
  unfolding min_pos_def by (rule rnd_pow2) (simp_all add: wf_format_def)

lemma to_fp_Fin:
  assumes "wf_format fmt" "\<bar>x\<bar> \<le> pow2 (emax fmt)"
  shows "to_fp fmt x = Fin (rnd fmt x)"
proof -
  have p: "1 \<le> prec fmt" and e: "rnd fmt (pow2 (emax fmt)) = pow2 (emax fmt)"
    using assms(1) by (auto simp: wf_format_def intro: rnd_pow2)
  have "rnd fmt x \<le> pow2 (emax fmt)" "- pow2 (emax fmt) \<le> rnd fmt x"
    using rnd_mono [OF p, of x "pow2 (emax fmt)"] rnd_mono [OF p, of "- pow2 (emax fmt)" x]
      assms(2) e by (simp_all add: rnd_minus abs_le_iff)
  moreover have "pow2 (emax fmt) < pow2 (emax fmt + 1)" by (simp add: pow2_less_iff)
  ultimately show ?thesis by (simp add: to_fp_def)
qed

lemma to_fp_unit:
  assumes "wf_format fmt" "\<bar>x\<bar> \<le> 1"
  shows "to_fp fmt x = Fin (rnd fmt x)"
proof (rule to_fp_Fin [OF assms(1)])
  have "1 \<le> pow2 (emax fmt)"
    using assms(1) pow2_le_iff [of 0 "emax fmt"] by (simp add: wf_format_def)
  with assms(2) show "\<bar>x\<bar> \<le> pow2 (emax fmt)" by simp
qed

lemma rnd_range:
  assumes "wf_format fmt" "0 \<le> x" "x \<le> 1"
  shows "0 \<le> rnd fmt x" "rnd fmt x \<le> 1"
  using assms rnd_nonneg [of x fmt] rnd_mono [of fmt x 1] by (simp_all add: wf_format_def)

text \<open>At least three quarters of the smallest positive value rounds to a positive value.\<close>

lemma rnd_ge_min_pos:
  assumes "wf_format fmt" "3 / 4 * min_pos fmt \<le> x"
  shows "min_pos fmt \<le> rnd fmt x"
proof -
  let ?m = "min_pos fmt" and ?e = "emin fmt - int (prec fmt) + 1"
  have wf: "1 \<le> prec fmt" using assms(1) by (simp add: wf_format_def)
  have le: "3 / 4 * ?m < pow2 (emin fmt)"
  proof -
    have "?m \<le> pow2 (emin fmt)" unfolding min_pos_def pow2_le_iff using wf by linarith
    then show ?thesis using min_pos_pos(1) [of fmt] by linarith
  qed
  have "binade (3 / 4 * ?m) \<le> emin fmt"
  proof -
    have "pow2 (binade (3 / 4 * ?m)) < pow2 (emin fmt)"
      using binade_bounds(1) [of "3 / 4 * ?m"] le by simp
    then show ?thesis by (simp add: pow2_less_iff)
  qed
  then have "ulp fmt (3 / 4 * ?m) = ?m"
    by (simp add: ulp_def min_pos_def abs_mult max_absorb2)
  then have "rnd fmt (3 / 4 * ?m) = of_int (round_even (3 / 4)) * ?m"
    by (simp add: rnd_def min_pos_def)
  moreover have "\<lfloor>3 / 4 :: rat\<rfloor> = 0" by (simp add: floor_eq_iff)
  then have "round_even (3 / 4) = 1" by (simp add: round_even_def)
  ultimately show ?thesis using rnd_mono [OF wf assms(2)] by simp
qed

end
