(* ===== verification/Feature.thy ===== *)
theory Feature
  imports Board Float32
begin

text \<open>
  Features of a board: \<^verbatim>\<open>gomoku/core/feature.h\<close>, \<^verbatim>\<open>gomoku/core/feature.cc\<close> and
  \<^verbatim>\<open>gomoku/networks/default_features.cc\<close>.

  A \<open>FeatureMatrix\<close> is an \<open>Eigen::Matrix<float, 19, 19, ColMajor>\<close>: a list of 361 floats,
  in which row \<open>x\<close>, column \<open>y\<close> is stored at \<open>y * 19 + x\<close>. \<open>SampleWeightMatrix\<close> depends on
  that layout. \<open>std::discrete_distribution\<close> is a parameter: which index it draws is up to
  the library, which promises never to draw an index of weight zero.
\<close>

type_synonym feature_matrix = "fp list"

definition mat_index :: "int \<Rightarrow> int \<Rightarrow> nat" where
  "mat_index x y = nat (y * kWidth + x)"

definition mat_at :: "feature_matrix \<Rightarrow> int \<Rightarrow> int \<Rightarrow> fp res" where
  "mat_at m x y =
     (if Inside (x, y) \<and> mat_index x y < length m then ret (m ! mat_index x y)
      else abort (Undefined ''matrix index''))"

definition mat_set :: "feature_matrix \<Rightarrow> int \<Rightarrow> int \<Rightarrow> fp \<Rightarrow> feature_matrix res" where
  "mat_set m x y v =
     (if Inside (x, y) \<and> mat_index x y < length m then ret (m[mat_index x y := v])
      else abort (Undefined ''matrix index''))"

definition mat_constant :: "fp \<Rightarrow> feature_matrix" where
  "mat_constant v = replicate (nat (kWidth * kHeight)) v"

text \<open>
  The loop of \<open>StoneMatrix\<close> over a matrix with arbitrary contents: the local \<open>matrix\<close> of the
  source is not initialised. \<open>StoneMatrix\<close> runs it on a zero matrix; the contents do not
  matter (\<open>StoneMatrix_from_any\<close> below).
\<close>

definition StoneMatrix_from :: "feature_matrix \<Rightarrow> board \<Rightarrow> player \<Rightarrow> feature_matrix res" where
  "StoneMatrix_from matrix b player =
     Iter (\<lambda>x y m. bnd (StoneAt b (x, y)) (\<lambda>stone.
       if stone = player then mat_set m x y (Fin 1) else mat_set m x y (Fin 0))) matrix"

definition StoneMatrix :: "board \<Rightarrow> player \<Rightarrow> feature_matrix res" where
  "StoneMatrix b player = StoneMatrix_from (mat_constant (Fin 0)) b player"

type_synonym 'g discrete = "fp list \<Rightarrow> 'g \<Rightarrow> int \<times> 'g"

definition valid_weights :: "fp list \<Rightarrow> bool" where
  "valid_weights ws \<longleftrightarrow>
     list_all (\<lambda>w. case w of Fin r \<Rightarrow> 0 \<le> r | _ \<Rightarrow> False) ws \<and>
     list_ex (\<lambda>w. case w of Fin r \<Rightarrow> 0 < r | _ \<Rightarrow> False) ws"

definition discrete_ok :: "'g discrete \<Rightarrow> bool" where
  "discrete_ok draw \<longleftrightarrow> (\<forall>ws g. valid_weights ws \<longrightarrow>
     0 \<le> fst (draw ws g) \<and> fst (draw ws g) < int (length ws) \<and>
     ws ! nat (fst (draw ws g)) \<noteq> Fin 0)"

definition SampleWeightMatrix :: "'g discrete \<Rightarrow> feature_matrix \<Rightarrow> 'g \<Rightarrow> vector2i \<times> 'g" where
  "SampleWeightMatrix draw weights rng =
     (let (index, rng') = draw weights rng in
      ((index smod kWidth, index sdiv kWidth), rng'))"

text \<open>\<open>DefaultFeatures\<close>: a \<open>std::map\<close> of named functions, iterated in the order of its keys.\<close>

definition DefaultFeatures :: "(string \<times> (board \<Rightarrow> feature_matrix res)) list" where
  "DefaultFeatures =
     [(''stone_me'', \<lambda>b. StoneMatrix b (CurrentPlayer b)),
      (''stone_none'', \<lambda>b. StoneMatrix b NONE),
      (''stone_opp'', \<lambda>b. bnd (PlayerMap_at kOpponent (CurrentPlayer b)) (StoneMatrix b))]"

section \<open>The layout of a matrix\<close>

lemma mat_index_bound: "Inside (x, y) \<Longrightarrow> mat_index x y < 361"
  by (auto simp: mat_index_def Inside_def)

lemma mat_index_inj:
  assumes "Inside (x, y)" "Inside (x', y')" "mat_index x y = mat_index x' y'"
  shows "x = x'" "y = y'"
proof -
  have eq: "y * 19 + x = y' * 19 + x'" and b: "0 \<le> x" "x < 19" "0 \<le> x'" "x' < 19"
    using assms by (auto simp: mat_index_def Inside_def)
  have "(y * 19 + x) mod 19 = x" "(y' * 19 + x') mod 19 = x'" using b by simp_all
  then show "x = x'" unfolding eq by simp
  then show "y = y'" using eq by simp
qed

lemma mat_index_inverse:
  assumes "i < 361"
  shows "Inside (int i mod 19, int i div 19)" "mat_index (int i mod 19) (int i div 19) = i"
  using assms by (auto simp: Inside_def mat_index_def)

lemma length_mat_constant [simp]: "length (mat_constant v) = 361"
  by (simp add: mat_constant_def)

lemma mat_constant_nth [simp]: "i < 361 \<Longrightarrow> mat_constant v ! i = v"
  by (simp add: mat_constant_def)

lemma mat_at_ret: "length m = 361 \<Longrightarrow> Inside (x, y) \<Longrightarrow> mat_at m x y = ret (m ! mat_index x y)"
  using mat_index_bound by (simp add: mat_at_def)

lemma mat_set_ret:
  "length m = 361 \<Longrightarrow> Inside (x, y) \<Longrightarrow> mat_set m x y v = ret (m[mat_index x y := v])"
  using mat_index_bound by (simp add: mat_set_def)

definition mat_of :: "(vector2i \<Rightarrow> fp) \<Rightarrow> feature_matrix" where
  "mat_of f = map (\<lambda>i. f (int i mod 19, int i div 19)) [0..<361]"

lemma length_mat_of [simp]: "length (mat_of f) = 361"
  by (simp add: mat_of_def)

lemma mat_of_nth: "Inside (x, y) \<Longrightarrow> mat_of f ! mat_index x y = f (x, y)"
proof -
  assume i: "Inside (x, y)"
  then have "int (mat_index x y) mod 19 = x" "int (mat_index x y) div 19 = y"
    by (auto simp: mat_index_def Inside_def)
  then show ?thesis using mat_index_bound [OF i] by (simp add: mat_of_def)
qed

lemma mat_of_nth': "i < 361 \<Longrightarrow> mat_of f ! i = f (int i mod 19, int i div 19)"
  by (simp add: mat_of_def)

lemma mat_eqI:
  assumes "length m = 361" "length m' = 361"
    "\<And>x y. Inside (x, y) \<Longrightarrow> m ! mat_index x y = m' ! mat_index x y"
  shows "m = m'"
proof (rule nth_equalityI)
  fix i assume "i < length m"
  then have i: "i < 361" using assms(1) by simp
  then show "m ! i = m' ! i"
    using assms(3) [OF mat_index_inverse(1) [OF i]] mat_index_inverse(2) [OF i] by simp
qed (simp add: assms)

text \<open>A loop that writes every field gives the matrix of what it writes.\<close>

lemma Iter_mat_set:
  assumes "length m = 361" "\<And>x y m. Inside (x, y) \<Longrightarrow> f x y m = mat_set m x y (g (x, y))"
  shows "Iter f m = ret (mat_of g)"
proof -
  have step: "length m = 361 \<Longrightarrow> set ps \<subseteq> {p. Inside p} \<Longrightarrow>
      \<exists>m'. foldM (\<lambda>(x, y). f x y) ps m = ret m' \<and> length m' = 361 \<and>
        (\<forall>x y. Inside (x, y) \<longrightarrow> m' ! mat_index x y =
           (if (x, y) \<in> set ps then g (x, y) else m ! mat_index x y))" for ps m
  proof (induction ps arbitrary: m)
    case (Cons p ps)
    obtain a b where p: "p = (a, b)" by (cases p)
    with Cons.prems have ab: "Inside (a, b)" by simp
    let ?m = "m[mat_index a b := g (a, b)]"
    have fm: "f a b m = ret ?m"
      using assms(2) [OF ab] mat_set_ret [OF Cons.prems(1) ab] by simp
    from Cons.IH [of ?m] Cons.prems obtain m' where
      m': "foldM (\<lambda>(x, y). f x y) ps ?m = ret m'" "length m' = 361"
        "\<forall>x y. Inside (x, y) \<longrightarrow> m' ! mat_index x y =
           (if (x, y) \<in> set ps then g (x, y) else ?m ! mat_index x y)"
      by auto
    have "?m ! mat_index x y = (if (x, y) = p then g (x, y) else m ! mat_index x y)"
      if "Inside (x, y)" for x y
      using mat_index_inj [OF that ab] mat_index_bound [OF ab] Cons.prems(1) p
      by (auto simp: nth_list_update)
    with m' show ?case by (auto simp: p fm)
  qed simp
  from step [OF assms(1), of all_fields] obtain m' where
    m': "Iter f m = ret m'" "length m' = 361"
      "\<forall>x y. Inside (x, y) \<longrightarrow> m' ! mat_index x y = g (x, y)"
    by (auto simp: set_all_fields Iter_def)
  have "m' = mat_of g" using m' by (intro mat_eqI) (auto simp: mat_of_nth)
  with m'(1) show ?thesis by simp
qed

section \<open>Stone matrices\<close>

definition indicator :: "bool \<Rightarrow> fp" where
  "indicator c = (if c then Fin 1 else Fin 0)"

lemma StoneMatrix_from_any:
  assumes "length m = 361"
  shows "StoneMatrix_from m (board_of ms) pl = ret (mat_of (\<lambda>p. indicator (stone_after ms p = pl)))"
  unfolding StoneMatrix_from_def
  by (rule Iter_mat_set [OF assms]) (simp add: StoneAt_board_of indicator_def)

lemma StoneMatrix_board_of:
  "StoneMatrix (board_of ms) pl = ret (mat_of (\<lambda>p. indicator (stone_after ms p = pl)))"
  by (simp add: StoneMatrix_def StoneMatrix_from_any)

lemma DefaultFeatures_board_of:
  "mapM (\<lambda>(name, feature). feature (board_of ms)) DefaultFeatures =
   ret [mat_of (\<lambda>p. indicator (stone_after ms p = mover (length ms))),
        mat_of (\<lambda>p. indicator (stone_after ms p = NONE)),
        mat_of (\<lambda>p. indicator (stone_after ms p = opponent (mover (length ms))))]"
  by (simp add: DefaultFeatures_def StoneMatrix_board_of CurrentPlayer_def PlayerMap_at_mover)

section \<open>Sampling\<close>

lemma SampleWeightMatrix_weight:
  assumes "discrete_ok draw" "length ws = 361" "valid_weights ws"
  shows "Inside (fst (SampleWeightMatrix draw ws g))"
    "ws ! mat_index (fst (fst (SampleWeightMatrix draw ws g)))
       (snd (fst (SampleWeightMatrix draw ws g))) \<noteq> Fin 0"
proof -
  obtain i g' where d: "draw ws g = (i, g')" by (cases "draw ws g")
  have i: "0 \<le> i" "i < 361" "ws ! nat i \<noteq> Fin 0"
    using assms(1) [unfolded discrete_ok_def, rule_format, OF assms(3), of g] assms(2)
    by (simp_all add: d)
  have "i smod 19 = i mod 19" "i sdiv 19 = i div 19" using i(1) by simp_all
  with mat_index_inverse [of "nat i"] i
  show "Inside (fst (SampleWeightMatrix draw ws g))"
    "ws ! mat_index (fst (fst (SampleWeightMatrix draw ws g)))
       (snd (fst (SampleWeightMatrix draw ws g))) \<noteq> Fin 0"
    by (simp_all add: SampleWeightMatrix_def d)
qed

text \<open>A distribution that keeps the promise: the first index of a weight other than zero.\<close>

definition ref_discrete :: "nat discrete" where
  "ref_discrete ws g =
     (case filter (\<lambda>i. ws ! i \<noteq> Fin 0) [0..<length ws] of [] \<Rightarrow> 0 | i # _ \<Rightarrow> int i, Suc g)"

lemma ref_discrete_ok: "discrete_ok ref_discrete"
proof -
  have "0 \<le> fst (ref_discrete ws g) \<and> fst (ref_discrete ws g) < int (length ws) \<and>
     ws ! nat (fst (ref_discrete ws g)) \<noteq> Fin 0" if v: "valid_weights ws" for ws g
  proof (cases "filter (\<lambda>i. ws ! i \<noteq> Fin 0) [0..<length ws]")
    case Nil
    then have "\<forall>i < length ws. ws ! i = Fin 0" by (auto simp: filter_empty_conv)
    then have "\<not> list_ex (\<lambda>w. case w of Fin r \<Rightarrow> 0 < r | _ \<Rightarrow> False) ws"
      by (auto simp: list_ex_iff in_set_conv_nth)
    with v show ?thesis by (simp add: valid_weights_def)
  next
    case (Cons i js)
    then have "i \<in> set (filter (\<lambda>i. ws ! i \<noteq> Fin 0) [0..<length ws])" by simp
    then have "i < length ws" "ws ! i \<noteq> Fin 0" by auto
    with Cons show ?thesis by (simp add: ref_discrete_def)
  qed
  then show ?thesis by (simp add: discrete_ok_def)
qed

section \<open>Properties\<close>

text \<open>
  The default features of a position, in the order of their names:
  the stones of the player to move, the free fields and the stones of the opponent, each as
  a matrix of zeros and ones that is written completely.
\<close>

theorem DefaultFeatures_right:
  "mapM (\<lambda>(name, feature). feature (board_of ms)) DefaultFeatures =
   ret [mat_of (\<lambda>p. indicator (stone_after ms p = mover (length ms))),
        mat_of (\<lambda>p. indicator (stone_after ms p = NONE)),
        mat_of (\<lambda>p. indicator (stone_after ms p = opponent (mover (length ms))))]"
  by (rule DefaultFeatures_board_of)

text \<open>
  Sampling from a weight matrix gives a field of the board
  whose weight is not zero: the flat index and the column-major layout agree.
\<close>

theorem SampleWeightMatrix_support:
  assumes "discrete_ok draw" "length weights = 361" "valid_weights weights"
  shows "case SampleWeightMatrix draw weights g of ((x, y), g') \<Rightarrow>
    \<exists>w. mat_at weights x y = ret w \<and> w \<noteq> Fin 0"
  using SampleWeightMatrix_weight [OF assms, of g] mat_at_ret [OF assms(2)]
  by (cases "SampleWeightMatrix draw weights g") auto

theorem SampleWeightMatrix_support_witness:
  "case SampleWeightMatrix ref_discrete (Fin 0 # replicate 360 (Fin 1)) 5 of ((x, y), g') \<Rightarrow>
    \<exists>w. mat_at (Fin 0 # replicate 360 (Fin 1)) x y = ret w \<and> w \<noteq> Fin 0"
  by (rule SampleWeightMatrix_support [OF ref_discrete_ok])
    (simp_all add: valid_weights_def list_ex_iff list_all_iff)

end
