(* ===== verification/Mc_Cell.thy ===== *)
theory Mc_Cell
  imports Feature
begin

text \<open>
  Value estimates of the moves: \<^verbatim>\<open>gomoku/actors/mc_cell.cc\<close>.

  The matrix operations of Eigen are parameters (\<open>eigen_lib\<close>); \<open>eigen_ok\<close> states what its
  documentation says of them: products and quotients are coefficient-wise, \<open>maxCoeff\<close>
  reports the place of a greatest coefficient, \<open>exp\<close> and \<open>sum\<close> are accurate to a factor of
  two on the ranges the program uses. The contract of a cell that a caller can rely on is
  the locale \<open>mc_cell\<close>; the linear cell fulfils it.
\<close>

record eigen_lib =
  cwiseProduct :: "feature_matrix \<Rightarrow> feature_matrix \<Rightarrow> feature_matrix"
  divScalar :: "feature_matrix \<Rightarrow> fp \<Rightarrow> feature_matrix"
  array_exp :: "feature_matrix \<Rightarrow> feature_matrix"
  mat_sum :: "feature_matrix \<Rightarrow> fp"
  maxCoeff :: "feature_matrix \<Rightarrow> int \<times> int"

datatype cell_kind = Linear | Logistic

record cell =
  win_prob :: feature_matrix
  learning_rate :: fp

definition McLinearCell :: "feature_matrix \<Rightarrow> fp \<Rightarrow> cell" where
  "McLinearCell prob rate = \<lparr>win_prob = prob, learning_rate = rate\<rparr>"

definition McLinearCell_Update :: "cell \<Rightarrow> vector2i \<Rightarrow> fp \<Rightarrow> cell res" where
  "McLinearCell_Update c move score =
     bnd (mat_at (win_prob c) (fst move) (snd move)) (\<lambda>value.
     let value' = fp_add float32 value (fp_mul float32 (learning_rate c) (fp_sub float32 score value)) in
     bnd (mat_set (win_prob c) (fst move) (snd move) value') (\<lambda>m.
     ret (c\<lparr>win_prob := m\<rparr>)))"

definition McLogisticCell :: "feature_matrix \<Rightarrow> fp \<Rightarrow> cell" where
  "McLogisticCell prob rate = \<lparr>win_prob = prob, learning_rate = rate\<rparr>"

text \<open>\<open>1.0 - value\<close> and everything computed from it is in \<open>double\<close>, as the literal is one.\<close>

definition logistic_gradient :: "fp \<Rightarrow> fp \<Rightarrow> fp" where
  "logistic_gradient score value =
     (let won = fp_mul float32 score (fp_div float32 (Fin 1) value);
          lost = fp_mul float64 (fp_sub float32 (Fin 1) score)
                   (fp_div float64 (Fin 1) (fp_sub float64 (Fin 1) value)) in
      fp_convert float32 (fp_sub float64 won lost))"

definition McLogisticCell_Update :: "cell \<Rightarrow> vector2i \<Rightarrow> fp \<Rightarrow> cell res" where
  "McLogisticCell_Update c move score =
     bnd (mat_at (win_prob c) (fst move) (snd move)) (\<lambda>value.
     let gradient = logistic_gradient score value;
         value' = fp_add float32 value (fp_mul float32 (learning_rate c) gradient) in
     bnd (mat_set (win_prob c) (fst move) (snd move) value') (\<lambda>m.
     ret (c\<lparr>win_prob := m\<rparr>)))"

text \<open>The template parameter \<open>Cell\<close> of \<open>MonteCarloActor\<close> selects one of the two classes.\<close>

fun new_cell :: "cell_kind \<Rightarrow> feature_matrix \<Rightarrow> fp \<Rightarrow> cell" where
  "new_cell Linear = McLinearCell"
| "new_cell Logistic = McLogisticCell"

fun Cell_Update :: "cell_kind \<Rightarrow> cell \<Rightarrow> vector2i \<Rightarrow> fp \<Rightarrow> cell res" where
  "Cell_Update Linear = McLinearCell_Update"
| "Cell_Update Logistic = McLogisticCell_Update"

definition SampleGreedy :: "eigen_lib \<Rightarrow> feature_matrix \<Rightarrow> feature_matrix \<Rightarrow> vector2i" where
  "SampleGreedy E prob legal_moves = maxCoeff E (cwiseProduct E prob legal_moves)"

definition SampleSoftmax ::
  "eigen_lib \<Rightarrow> 'g discrete \<Rightarrow> feature_matrix \<Rightarrow> feature_matrix \<Rightarrow> fp \<Rightarrow> 'g \<Rightarrow> vector2i \<times> 'g" where
  "SampleSoftmax E draw prob legal_moves temperature rng =
     (let matrix = cwiseProduct E (array_exp E (divScalar E prob temperature)) legal_moves;
          weights = divScalar E matrix (mat_sum E matrix) in
      SampleWeightMatrix draw weights rng)"

section \<open>What Eigen promises\<close>

fun fp_in :: "rat \<Rightarrow> rat \<Rightarrow> fp \<Rightarrow> bool" where
  "fp_in lo hi (Fin r) = (lo \<le> r \<and> r \<le> hi)"
| "fp_in lo hi _ = False"

fun fp_val :: "fp \<Rightarrow> rat" where
  "fp_val (Fin r) = r"
| "fp_val _ = 0"

definition eigen_ok :: "eigen_lib \<Rightarrow> bool" where
  "eigen_ok E \<longleftrightarrow>
     (\<forall>a b. length a = 361 \<and> length b = 361 \<longrightarrow> cwiseProduct E a b = map2 (fp_mul float32) a b) \<and>
     (\<forall>a s. divScalar E a s = map (\<lambda>x. fp_div float32 x s) a) \<and>
     (\<forall>a. length a = 361 \<and> list_all (fp_in 0 1) a \<longrightarrow>
        length (array_exp E a) = 361 \<and> list_all (fp_in (1 / 2) 4) (array_exp E a)) \<and>
     (\<forall>a. length a = 361 \<and> list_all (fp_in 0 4) a \<longrightarrow>
        fp_in (sum_list (map fp_val a) / 2) (2 * sum_list (map fp_val a)) (mat_sum E a)) \<and>
     (\<forall>a. length a = 361 \<and> list_all (fp_in 0 4) a \<longrightarrow>
        (let (x, y) = maxCoeff E a in Inside (x, y) \<and>
           (\<forall>i < 361. \<not> fp_less (a ! mat_index x y) (a ! i))))"

lemma fp_in_iff: "fp_in lo hi x \<longleftrightarrow> (\<exists>r. x = Fin r \<and> lo \<le> r \<and> r \<le> hi)"
  by (cases x) auto

section \<open>Float arithmetic of the cells\<close>

lemma rnd_abs_double: "\<bar>rnd fmt x\<bar> \<le> 2 * \<bar>x\<bar>"
proof (cases "0 \<le> x")
  case True
  then show ?thesis using rnd_double [OF True, of fmt] rnd_nonneg [OF True, of fmt] by simp
next
  case False
  then show ?thesis using rnd_double [of "- x" fmt] rnd_nonneg [of "- x" fmt] by (simp add: rnd_minus)
qed

lemma rnd_le_pow2:
  assumes "wf_format fmt" "x \<le> pow2 e" "emin fmt - int (prec fmt) + 1 \<le> e"
  shows "rnd fmt x \<le> pow2 e"
  using rnd_mono [of fmt x "pow2 e"] rnd_pow2 [of fmt e] assms by (simp add: wf_format_def)

lemma rnd_ge_pow2:
  assumes "wf_format fmt" "pow2 e \<le> x" "emin fmt - int (prec fmt) + 1 \<le> e"
  shows "pow2 e \<le> rnd fmt x"
  using rnd_mono [of fmt "pow2 e" x] rnd_pow2 [of fmt e] assms by (simp add: wf_format_def)

lemma float32_simps [simp]: "prec float32 = 24" "emin float32 = - 126" "emax float32 = 127"
  by (simp_all add: float32_def)

lemma to_fp_float32:
  assumes "\<bar>x\<bar> \<le> 65536" shows "to_fp float32 x = Fin (rnd float32 x)"
proof (rule to_fp_Fin)
  have "(65536 :: rat) \<le> pow2 127" by (simp add: pow2_def)
  with assms show "\<bar>x\<bar> \<le> pow2 (emax float32)" by simp
qed simp

lemma linear_step:
  assumes v: "min_pos float32 \<le> v" "v \<le> 1" and l: "0 \<le> l" "l \<le> 1 / 16" and s: "0 \<le> s" "s \<le> 1"
  shows "fp_in (min_pos float32) 1
    (fp_add float32 (Fin v) (fp_mul float32 (Fin l) (fp_sub float32 (Fin s) (Fin v))))"
proof -
  define d where "d = rnd float32 (s - v)"
  define t where "t = rnd float32 (l * d)"
  have v0: "0 < v" using v(1) min_pos_pos(1) [of float32] by linarith
  have dd: "\<bar>d\<bar> \<le> 2 * \<bar>s - v\<bar>" unfolding d_def by (rule rnd_abs_double)
  have "\<bar>l * d\<bar> \<le> 1 / 16 * (2 * \<bar>s - v\<bar>)"
    unfolding abs_mult using l dd by (intro mult_mono) auto
  then have ld: "\<bar>l * d\<bar> \<le> \<bar>s - v\<bar> / 8" by simp
  have tt: "\<bar>t\<bar> \<le> \<bar>s - v\<bar> / 4" using rnd_abs_double [of float32 "l * d"] ld unfolding t_def by linarith
  have sv: "\<bar>s - v\<bar> \<le> 1" using v0 v(2) s by linarith
  have fin: "fp_sub float32 (Fin s) (Fin v) = Fin d" "fp_mul float32 (Fin l) (Fin d) = Fin t"
    using sv ld by (simp_all add: fp_sub_def to_fp_float32 d_def t_def)
  have up: "v + t \<le> 1"
  proof (cases "v \<le> s")
    case True
    then have "t \<le> s - v" using tt by (simp add: abs_le_iff)
    then show ?thesis using s True by linarith
  next
    case False
    then have "0 \<le> rnd float32 (v - s)" by (intro rnd_nonneg) simp
    then have "d \<le> 0" using rnd_minus [of float32 "v - s"] by (simp add: d_def)
    then have "0 \<le> rnd float32 (- (l * d))" using l by (intro rnd_nonneg) (simp add: mult_nonneg_nonpos)
    then have "t \<le> 0" by (simp add: rnd_minus t_def)
    then show ?thesis using v by linarith
  qed
  have lo: "3 / 4 * min_pos float32 \<le> v + t"
  proof (cases "v \<le> s")
    case True
    then have "0 \<le> d" unfolding d_def by (intro rnd_nonneg) simp
    then have "0 \<le> t" unfolding t_def using l by (intro rnd_nonneg) simp
    then show ?thesis using v min_pos_pos(1) [of float32] by linarith
  next
    case False
    then have "\<bar>s - v\<bar> \<le> v" using s by linarith
    moreover have "4 * \<bar>t\<bar> \<le> \<bar>s - v\<bar>" using tt by simp
    ultimately have "4 * \<bar>t\<bar> \<le> v" by (rule order_trans [rotated])
    then have "- (4 * t) \<le> v" using abs_ge_minus_self [of "4 * t"] by (simp add: abs_mult)
    then have "3 * min_pos float32 \<le> 4 * (v + t)" using v(1) by (simp add: distrib_left)
    then show ?thesis by simp
  qed
  have "min_pos float32 \<le> rnd float32 (v + t)" by (rule rnd_ge_min_pos [OF _ lo]) simp
  moreover have "rnd float32 (v + t) \<le> 1" using rnd_le_pow2 [of float32 "v + t" 0] up by simp
  moreover have "\<bar>v + t\<bar> \<le> 65536" using up lo min_pos_pos(2) [of float32] by linarith
  ultimately show ?thesis unfolding fin by (simp add: to_fp_float32)
qed

text \<open>The weights of \<open>SampleSoftmax\<close>: positive at the masked fields, zero elsewhere.\<close>

lemma div_one_unit:
  assumes "min_pos float32 \<le> v" "v \<le> 1"
  shows "\<exists>r. fp_div float32 (Fin v) (Fin 1) = Fin r \<and> 0 \<le> r \<and> r \<le> 1"
proof -
  have v: "0 < v" using assms(1) min_pos_pos(1) [of float32] by linarith
  then have "0 \<le> rnd float32 v" "rnd float32 v \<le> 1"
    using rnd_range [of float32 v] assms(2) by simp_all
  with v assms(2) show ?thesis by (simp add: to_fp_float32)
qed

lemma mul_mask:
  assumes "1 / 2 \<le> e" "e \<le> 4"
  shows "\<exists>r. fp_mul float32 (Fin e) (indicator c) = Fin r \<and> r \<le> 4 \<and> (if c then 1 / 2 \<le> r else r = 0)"
proof (cases c)
  case True
  have "pow2 (- 1) = 1 / 2" "pow2 2 = 4" by (simp_all add: pow2_def)
  then have "1 / 2 \<le> rnd float32 e" "rnd float32 e \<le> 4"
    using rnd_ge_pow2 [of float32 "- 1" e] rnd_le_pow2 [of float32 e 2] assms by simp_all
  then show ?thesis using True assms by (simp add: indicator_def to_fp_float32)
next
  case False
  then show ?thesis by (simp add: indicator_def to_fp_float32)
qed

lemma div_weight:
  assumes "1 / 2 \<le> w" "w \<le> 4" "1 / 4 \<le> t" "t \<le> 4096"
  shows "\<exists>r. fp_div float32 (Fin w) (Fin t) = Fin r \<and> 0 < r"
proof -
  have t: "0 < t" using assms(3) by (rule less_le_trans [rotated]) simp
  have "1 / 8192 \<le> w / t" "w / t \<le> 16" "0 \<le> w / t" using assms t by (simp_all add: field_simps)
  then have ab: "\<bar>w / t\<bar> \<le> 65536" by (simp only: abs_of_nonneg)
  have "pow2 (- 13) \<le> w / t" using \<open>1 / 8192 \<le> w / t\<close> by (simp add: pow2_def)
  then have "pow2 (- 13) \<le> rnd float32 (w / t)" by (intro rnd_ge_pow2) simp_all
  then have "0 < rnd float32 (w / t)" using pow2_pos [of "- 13"] by linarith
  then show ?thesis using t to_fp_float32 [OF ab] by simp
qed

lemma masked_weights:
  assumes "eigen_ok E" "length ex = 361" "list_all (fp_in (1 / 2) 4) ex" "Inside q" "P q"
  defines "prods \<equiv> map2 (fp_mul float32) ex (mat_of (\<lambda>p. indicator (P p)))"
  defines "ws \<equiv> divScalar E prods (mat_sum E prods)"
  shows "valid_weights ws" "length ws = 361"
    "\<forall>x y. Inside (x, y) \<and> \<not> P (x, y) \<longrightarrow> ws ! mat_index x y = Fin 0"
proof -
  have len: "length prods = 361" by (simp add: prods_def assms(2))
  have nth: "\<exists>r. prods ! i = Fin r \<and> r \<le> 4 \<and> (if P (int i mod 19, int i div 19) then 1 / 2 \<le> r else r = 0)"
    if i: "i < 361" for i
  proof -
    obtain e where "ex ! i = Fin e" "1 / 2 \<le> e" "e \<le> 4"
      using assms(2,3) i unfolding list_all_length fp_in_iff by metis
    then show ?thesis
      using mul_mask [of e "P (int i mod 19, int i div 19)"] assms(2) i
      by (simp add: prods_def mat_of_nth' del: fp_mul.simps)
  qed
  have bnds: "\<forall>x \<in> set prods. \<exists>r. x = Fin r \<and> 0 \<le> r \<and> r \<le> 4"
  proof
    fix x assume "x \<in> set prods"
    then obtain i where "i < 361" "x = prods ! i" using len by (auto simp: in_set_conv_nth)
    with nth [of i] show "\<exists>r. x = Fin r \<and> 0 \<le> r \<and> r \<le> 4" by (force split: if_splits)
  qed
  let ?q = "mat_index (fst q) (snd q)"
  have q: "?q < 361" "int ?q mod 19 = fst q" "int ?q div 19 = snd q"
    using assms(4) by (auto simp: mat_index_def Inside_def)
  then obtain wq where wq: "prods ! ?q = Fin wq" "1 / 2 \<le> wq" using nth [of ?q] assms(5) by auto
  have total: "1 / 2 \<le> sum_list (map fp_val prods)" "sum_list (map fp_val prods) \<le> 1444"
  proof -
    have "fp_val (prods ! ?q) \<le> sum_list (map fp_val prods)"
      using bnds q(1) len by (intro member_le_sum_list) (auto intro!: imageI nth_mem)
    then show "1 / 2 \<le> sum_list (map fp_val prods)" using wq by simp
    have "sum_list (map fp_val prods) \<le> sum_list (map (\<lambda>_. 4) prods)"
      using bnds by (intro sum_list_mono) auto
    then show "sum_list (map fp_val prods) \<le> 1444" by (simp add: sum_list_triv len)
  qed
  have "fp_in (sum_list (map fp_val prods) / 2) (2 * sum_list (map fp_val prods)) (mat_sum E prods)"
    using assms(1) len bnds by (auto simp: eigen_ok_def list_all_iff fp_in_iff)
  then obtain t where t: "mat_sum E prods = Fin t" "1 / 4 \<le> t" "t \<le> 4096"
    using total by (auto simp: fp_in_iff)
  have t0: "t \<noteq> 0" using t(2) by auto
  have ws: "ws = map (\<lambda>x. fp_div float32 x (Fin t)) prods"
    using assms(1) t(1) by (simp add: ws_def eigen_ok_def)
  show "length ws = 361" by (simp add: ws len)
  have zero: "fp_div float32 (Fin 0) (Fin t) = Fin 0" using t0 by (simp add: to_fp_float32)
  have wsn: "\<exists>r. ws ! i = Fin r \<and> 0 \<le> r \<and> (0 < r \<longleftrightarrow> P (int i mod 19, int i div 19))" if i: "i < 361" for i
    using nth [OF i] div_weight [OF _ _ t(2,3)] zero i len
    by (cases "P (int i mod 19, int i div 19)") (force simp: ws)+
  show "valid_weights ws"
    unfolding valid_weights_def list_all_length list_ex_length
    using wsn wsn [OF q(1)] q assms(5) by (force simp: ws len)
  show "\<forall>x y. Inside (x, y) \<and> \<not> P (x, y) \<longrightarrow> ws ! mat_index x y = Fin 0"
  proof (intro allI impI)
    fix x y assume xy: "Inside (x, y) \<and> \<not> P (x, y)"
    then have "mat_index x y < 361" "int (mat_index x y) mod 19 = x" "int (mat_index x y) div 19 = y"
      by (auto simp: mat_index_def Inside_def)
    with wsn [of "mat_index x y"] xy show "ws ! mat_index x y = Fin 0" by force
  qed
qed

section \<open>The contract of a cell\<close>

definition probs_ok :: "feature_matrix \<Rightarrow> bool" where
  "probs_ok m \<longleftrightarrow> length m = 361 \<and> list_all (fp_in (min_pos float32) 1) m"

locale mc_cell =
  fixes update :: "'c \<Rightarrow> vector2i \<Rightarrow> fp \<Rightarrow> 'c res"
    and probs :: "'c \<Rightarrow> feature_matrix"
    and invar :: "'c \<Rightarrow> bool"
  assumes probs_positive: "invar c \<Longrightarrow> probs_ok (probs c)"
    and update_returns: "invar c \<Longrightarrow> Inside move \<Longrightarrow> fp_in 0 1 score \<Longrightarrow>
      \<exists>c'. update c move score = ret c' \<and> invar c'"

begin

text \<open>
  A mask of ones at the fields with property \<open>P\<close> and zeros elsewhere: the best and the
  sampled move of a cell both have the property, if any field has.
\<close>

lemma greedy_masked:
  assumes "eigen_ok E" "invar c" "Inside q" "P q"
  shows "Inside (SampleGreedy E (probs c) (mat_of (\<lambda>p. indicator (P p))))"
    "P (SampleGreedy E (probs c) (mat_of (\<lambda>p. indicator (P p))))"
proof -
  let ?mask = "mat_of (\<lambda>p. indicator (P p))"
  have ok: "length (probs c) = 361" "list_all (fp_in (min_pos float32) 1) (probs c)"
    using probs_positive [OF assms(2)] by (simp_all add: probs_ok_def)
  define prods where "prods = map2 (fp_mul float32) (probs c) ?mask"
  have eq: "cwiseProduct E (probs c) ?mask = prods"
    using assms(1) ok(1) by (simp add: eigen_ok_def prods_def)
  have nth: "\<exists>r. prods ! mat_index x y = Fin r \<and> 0 \<le> r \<and> r \<le> 1 \<and> (0 < r \<longleftrightarrow> P (x, y))"
    if xy: "Inside (x, y)" for x y
  proof -
    obtain v where v: "probs c ! mat_index x y = Fin v" "min_pos float32 \<le> v" "v \<le> 1"
      using ok mat_index_bound [OF xy] by (auto simp: list_all_length fp_in_iff)
    have "3 / 4 * min_pos float32 \<le> v" using v min_pos_pos(1) [of float32] by linarith
    then have "min_pos float32 \<le> rnd float32 v" by (intro rnd_ge_min_pos) auto
    moreover have "rnd float32 v \<le> 1" using rnd_le_pow2 [of float32 v 0] v(3) by simp
    moreover have "\<bar>v\<bar> \<le> 65536" using v min_pos_pos(1) [of float32] by linarith
    then have "to_fp float32 v = Fin (rnd float32 v)" by (rule to_fp_float32)
    moreover have "to_fp float32 0 = Fin 0" by (simp add: to_fp_float32)
    moreover have "0 < rnd float32 v"
      using \<open>min_pos float32 \<le> rnd float32 v\<close> min_pos_pos(1) [of float32] by linarith
    ultimately show ?thesis using ok(1) mat_index_bound [OF xy] v(1)
      by (auto simp: prods_def mat_of_nth [OF xy] indicator_def)
  qed
  have all: "list_all (fp_in 0 4) prods"
    unfolding list_all_length
  proof (intro allI impI)
    fix i assume "i < length prods"
    then have i: "i < 361" by (simp add: prods_def ok(1))
    show "fp_in 0 4 (prods ! i)"
      using nth [OF mat_index_inverse(1) [OF i]] mat_index_inverse(2) [OF i] by auto
  qed
  obtain x y where xy: "maxCoeff E prods = (x, y)" by (cases "maxCoeff E prods")
  have len: "length prods = 361" using ok(1) by (simp add: prods_def)
  have best: "Inside (x, y)" "\<forall>i < 361. \<not> fp_less (prods ! mat_index x y) (prods ! i)"
    using assms(1) len all xy unfolding eigen_ok_def by (metis (no_types, lifting) case_prod_conv)+
  have "P (x, y)"
  proof (rule ccontr)
    assume "\<not> P (x, y)"
    then have "prods ! mat_index x y = Fin 0" using nth [OF best(1)] by force
    moreover obtain r where "prods ! mat_index (fst q) (snd q) = Fin r" "0 < r"
      using nth [of "fst q" "snd q"] assms(3,4) by auto
    moreover have "mat_index (fst q) (snd q) < 361" using assms(3) mat_index_bound by simp
    ultimately show False using best(2) by fastforce
  qed
  then show "Inside (SampleGreedy E (probs c) ?mask)" "P (SampleGreedy E (probs c) ?mask)"
    using best(1) by (simp_all add: SampleGreedy_def eq xy)
qed

lemma softmax_masked:
  assumes "eigen_ok E" "discrete_ok draw" "invar c" "Inside q" "P q"
  shows "Inside (fst (SampleSoftmax E draw (probs c) (mat_of (\<lambda>p. indicator (P p))) (Fin 1) g))"
    "P (fst (SampleSoftmax E draw (probs c) (mat_of (\<lambda>p. indicator (P p))) (Fin 1) g))"
proof -
  let ?mask = "mat_of (\<lambda>p. indicator (P p))"
  have ok: "length (probs c) = 361" "list_all (fp_in (min_pos float32) 1) (probs c)"
    using probs_positive [OF assms(3)] by (simp_all add: probs_ok_def)
  define scaled where "scaled = divScalar E (probs c) (Fin 1)"
  have "scaled = map (\<lambda>x. fp_div float32 x (Fin 1)) (probs c)"
    using assms(1) by (simp add: eigen_ok_def scaled_def)
  then have sc: "length scaled = 361" "list_all (fp_in 0 1) scaled"
    using ok by (auto simp: list_all_iff fp_in_iff intro!: div_one_unit)
  define ex where "ex = array_exp E scaled"
  have ex: "length ex = 361" "list_all (fp_in (1 / 2) 4) ex"
    using assms(1) sc by (simp_all add: eigen_ok_def ex_def)
  define prods where "prods = map2 (fp_mul float32) ex ?mask"
  have prods_eq: "cwiseProduct E ex ?mask = prods"
    using assms(1) ex(1) by (simp add: eigen_ok_def prods_def)
  have weights: "valid_weights (divScalar E prods (mat_sum E prods))"
    "length (divScalar E prods (mat_sum E prods)) = 361"
    "\<forall>x y. Inside (x, y) \<and> \<not> P (x, y) \<longrightarrow>
       divScalar E prods (mat_sum E prods) ! mat_index x y = Fin 0"
    using masked_weights [where P = P, OF assms(1) ex assms(4,5)] by (simp_all add: prods_def)
  let ?r = "fst (SampleWeightMatrix draw (divScalar E prods (mat_sum E prods)) g)"
  note sampled = SampleWeightMatrix_weight [OF assms(2) weights(2,1), of g]
  have eq: "fst (SampleSoftmax E draw (probs c) ?mask (Fin 1) g) = ?r"
    by (simp add: SampleSoftmax_def prods_eq flip: ex_def scaled_def)
  show "Inside (fst (SampleSoftmax E draw (probs c) ?mask (Fin 1) g))"
    using sampled(1) by (simp add: eq)
  show "P (fst (SampleSoftmax E draw (probs c) ?mask (Fin 1) g))"
    using sampled weights(3) unfolding eq by (metis prod.collapse)
qed

end

section \<open>The linear cell fulfils the contract\<close>

definition linear_ok :: "cell \<Rightarrow> bool" where
  "linear_ok c \<longleftrightarrow> probs_ok (win_prob c) \<and> fp_in 0 (1 / 16) (learning_rate c)"

lemma McLinearCell_Update_ok:
  assumes "linear_ok c" "Inside move" "fp_in 0 1 score"
  shows "\<exists>c'. McLinearCell_Update c move score = ret c' \<and> linear_ok c'"
proof -
  obtain x y where move: "move = (x, y)" by (cases move)
  obtain l s where l: "learning_rate c = Fin l" "0 \<le> l" "l \<le> 1 / 16"
    and s: "score = Fin s" "0 \<le> s" "s \<le> 1"
    using assms by (auto simp: linear_ok_def fp_in_iff)
  have m: "length (win_prob c) = 361" "list_all (fp_in (min_pos float32) 1) (win_prob c)"
    using assms(1) by (simp_all add: linear_ok_def probs_ok_def)
  have i: "mat_index x y < 361" "Inside (x, y)" using assms(2) mat_index_bound by (simp_all add: move)
  obtain v where v: "win_prob c ! mat_index x y = Fin v" "min_pos float32 \<le> v" "v \<le> 1"
    using m i(1) by (auto simp: list_all_length fp_in_iff)
  let ?v = "fp_add float32 (Fin v) (fp_mul float32 (Fin l) (fp_sub float32 (Fin s) (Fin v)))"
  have "McLinearCell_Update c move score = ret (c\<lparr>win_prob := (win_prob c)[mat_index x y := ?v]\<rparr>)"
    using m(1) i(2) v(1) by (simp add: McLinearCell_Update_def move mat_at_ret mat_set_ret l(1) s(1)
        del: fp_mul.simps fp_add.simps)
  moreover have "list_all (fp_in (min_pos float32) 1) ((win_prob c)[mat_index x y := ?v])"
    using m(2) linear_step [OF v(2,3) l(2,3) s(2,3)] set_update_subset_insert
    unfolding list_all_iff by (metis insert_iff subsetD)
  ultimately show ?thesis using m(1) l by (simp add: linear_ok_def probs_ok_def)
qed

interpretation linear: mc_cell McLinearCell_Update win_prob linear_ok
  by unfold_locales (simp add: linear_ok_def, rule McLinearCell_Update_ok)

section \<open>Properties\<close>

text \<open>
  C24. For a learning rate from 0 to 1/16 (the actor uses one thousandth) and 361 estimates that are positive floats
  of at least the smallest subnormal number and at most 1, an update of a linear cell by a score between 0 and 1 returns, keeps the learning rate and all other entries, and
  sets the entry of the move to the \<open>float\<close> result of \<open>value + rate * (score - value)\<close>, which is in the same interval again:
  no rounding of the subtraction, the multiplication and the addition leaves it. The actor starts with such a cell.
\<close>

theorem LinearCell_bounds:
  assumes "length (win_prob c) = 361" "list_all (fp_in (min_pos float32) 1) (win_prob c)" "fp_in 0 (1 / 16) (learning_rate c)"
    "Inside move" "fp_in 0 1 score"
  shows "let i = mat_index (fst move) (snd move); v = win_prob c ! i;
        v' = fp_add float32 v (fp_mul float32 (learning_rate c) (fp_sub float32 score v)) in
    McLinearCell_Update c move score = ret (c\<lparr>win_prob := (win_prob c)[i := v']\<rparr>) \<and> fp_in (min_pos float32) 1 v' \<and>
    list_all (fp_in (min_pos float32) 1) ((win_prob c)[i := v'])"
proof -
  define i where "i = mat_index (fst move) (snd move)"
  define v' where "v' = fp_add float32 (win_prob c ! i) (fp_mul float32 (learning_rate c) (fp_sub float32 score (win_prob c ! i)))"
  have ok: "linear_ok c" using assms(1-3) by (simp add: linear_ok_def probs_ok_def)
  have i: "i < 361" using mat_index_bound assms(4) by (simp add: i_def)
  have upd: "McLinearCell_Update c move score = ret (c\<lparr>win_prob := (win_prob c)[i := v']\<rparr>)"
    using assms(1,4) by (simp add: McLinearCell_Update_def mat_at_ret mat_set_ret i_def v'_def case_prod_unfold)
  obtain c' where c': "McLinearCell_Update c move score = ret c'" "linear_ok c'"
    using McLinearCell_Update_ok [OF ok assms(4,5)] by blast
  then have all: "list_all (fp_in (min_pos float32) 1) ((win_prob c)[i := v'])"
    using upd by (auto simp: linear_ok_def probs_ok_def)
  then have "fp_in (min_pos float32) 1 ((win_prob c)[i := v'] ! i)" using i assms(1) by (metis length_list_update list_all_length)
  with upd all show ?thesis using i assms(1) unfolding Let_def i_def [symmetric] v'_def [symmetric] by simp
qed

theorem LinearCell_bounds_witness:
  "McLinearCell_Update (McLinearCell (mat_constant (Fin (1 / 2))) (Fin (1 / 1024))) (3, 4) (Fin 1) =
     ret \<lparr>win_prob = (mat_constant (Fin (1 / 2)))[mat_index 3 4 := Fin (1025 / 2048)], learning_rate = Fin (1 / 1024)\<rparr>"
proof -
  have "min_pos float32 \<le> pow2 (- 1)" unfolding min_pos_def pow2_le_iff by simp
  then have "min_pos float32 \<le> 1 / 2" by (simp add: pow2_def)
  then have "linear_ok (McLinearCell (mat_constant (Fin (1 / 2))) (Fin (1 / 1024)))"
    by (simp add: linear_ok_def probs_ok_def McLinearCell_def mat_constant_def list_all_iff)
  then have ok: "length (win_prob (McLinearCell (mat_constant (Fin (1 / 2))) (Fin (1 / 1024)))) = 361"
    "list_all (fp_in (min_pos float32) 1) (win_prob (McLinearCell (mat_constant (Fin (1 / 2))) (Fin (1 / 1024))))"
    "fp_in 0 (1 / 16) (learning_rate (McLinearCell (mat_constant (Fin (1 / 2))) (Fin (1 / 1024))))"
    by (simp_all add: linear_ok_def probs_ok_def)
  have v: "fp_add float32 (Fin (1 / 2)) (fp_mul float32 (Fin (1 / 1024)) (fp_sub float32 (Fin 1) (Fin (1 / 2)))) = Fin (1025 / 2048)"
    by code_simp
  have "mat_constant (Fin (1 / 2)) ! mat_index 3 4 = Fin (1 / 2)" by (simp add: mat_constant_def mat_index_def)
  with LinearCell_bounds [OF ok, of "(3, 4)" "Fin 1", unfolded Let_def] v show ?thesis
    by (simp add: Inside_def McLinearCell_def del: fp_add.simps fp_mul.simps)
qed

end
