(* ===== verification/Numbers.thy ===== *)
theory Numbers
  imports Gomoku_Prelude
begin

text \<open>
  Decimal and hexadecimal text: \<^verbatim>\<open>tensorflow/core/lib/strings/numbers.cc\<close> and
  \<^verbatim>\<open>tensorflow/core/lib/strings/strcat.cc\<close>, the part the metrics of the program and its
  file names go through.

  A character buffer is the string written to it. \<open>int32\<close> and \<open>int64\<close> arguments are
  words read as two's complement; the accumulator of the parsers is an \<open>int\<close>, and the
  lemmas show that it stays in the range of the C++ type, so that no signed overflow
  happens. The round-trip lemmas say that the parsers read back what the printers write.
\<close>

type_synonym u32 = "32 word"
type_synonym u64 = "64 word"

unbundle bit_operations_syntax

section \<open>Printing\<close>

definition digit_char :: "nat \<Rightarrow> char" where
  "digit_char d = char_of (d + of_char CHR ''0'')"

text \<open>The \<open>do\<close>-\<open>while\<close> loop: the digits from the last to the first.\<close>

function digit_loop :: "'a::len word \<Rightarrow> string" where
  "digit_loop i = digit_char (unat i mod 10) #
     (if 0 < unat i div 10 then digit_loop (of_nat (unat i div 10)) else [])"
  by pat_completeness auto
termination
proof (relation "measure unat")
  fix i :: "'a word"
  assume "0 < unat i div 10"
  moreover have "unat (of_nat (unat i div 10) :: 'a word) \<le> unat i div 10"
    by (metis mod_less_eq_dividend unat_of_nat)
  ultimately show "(of_nat (unat i div 10), i) \<in> measure unat" by simp
qed simp

declare digit_loop.simps [simp del]

definition FastUInt32ToBufferLeft :: "u32 \<Rightarrow> string" where
  "FastUInt32ToBufferLeft i = rev (digit_loop i)"

definition FastUInt64ToBufferLeft :: "u64 \<Rightarrow> string" where
  "FastUInt64ToBufferLeft i = rev (digit_loop i)"

definition FastInt32ToBufferLeft :: "u32 \<Rightarrow> string" where
  "FastInt32ToBufferLeft i =
     (if sint i < 0 then ''-'' @ FastUInt32ToBufferLeft (0 - i) else FastUInt32ToBufferLeft i)"

definition FastInt64ToBufferLeft :: "u64 \<Rightarrow> string" where
  "FastInt64ToBufferLeft i =
     (if sint i < 0 then ''-'' @ FastUInt64ToBufferLeft (0 - i) else FastUInt64ToBufferLeft i)"

section \<open>Parsing\<close>

abbreviation ord_of :: "char \<Rightarrow> nat" where
  "ord_of c \<equiv> of_char c"

definition isspace :: "char \<Rightarrow> bool" where
  "isspace c \<longleftrightarrow> ord_of c = 32 \<or> 9 \<le> ord_of c \<and> ord_of c \<le> 13"

definition isdigit :: "char \<Rightarrow> bool" where
  "isdigit c \<longleftrightarrow> 48 \<le> ord_of c \<and> ord_of c \<le> 57"

definition digit_value :: "char \<Rightarrow> int" where
  "digit_value c = int (ord_of c) - int (ord_of CHR ''0'')"

definition SafeFirstChar :: "string \<Rightarrow> char" where
  "SafeFirstChar str = (case str of [] \<Rightarrow> CHR 0x00 | c # _ \<Rightarrow> c)"

definition SkipSpaces :: "string \<Rightarrow> string" where
  "SkipSpaces str = dropWhile isspace str"

definition Consume_minus :: "string \<Rightarrow> string option" where
  "Consume_minus str = (case str of c # cs \<Rightarrow> if c = CHR ''-'' then Some cs else None | [] \<Rightarrow> None)"

text \<open>
  The \<open>do\<close>-\<open>while\<close> loop of the four parsers, from the current digit \<open>c\<close> with \<open>cs\<close> behind it:
  \<open>step\<close> is the body, \<^const>\<open>None\<close> its \<open>return false\<close>.
\<close>

fun parse_digits ::
  "(int \<Rightarrow> int \<Rightarrow> int option) \<Rightarrow> char \<Rightarrow> string \<Rightarrow> int \<Rightarrow> (int \<times> string) option" where
  "parse_digits step c cs result =
     (case step result (digit_value c) of
        None \<Rightarrow> None
      | Some result' \<Rightarrow>
          (case cs of
             [] \<Rightarrow> Some (result', [])
           | c' # cs' \<Rightarrow> if isdigit c' then parse_digits step c' cs' result'
                        else Some (result', cs)))"

declare parse_digits.simps [simp del]

definition parse_tail :: "(int \<times> string) option \<Rightarrow> int option" where
  "parse_tail r = (case r of
     None \<Rightarrow> None
   | Some (result, rest) \<Rightarrow> if SkipSpaces rest \<noteq> [] then None else Some result)"

definition parse_number :: "(int \<Rightarrow> int \<Rightarrow> int option) \<Rightarrow> string \<Rightarrow> int option" where
  "parse_number step str =
     (case str of
        [] \<Rightarrow> None
      | c # cs \<Rightarrow> if \<not> isdigit c then None else parse_tail (parse_digits step c cs 0))"

definition kint64max :: int where "kint64max = 2 ^ 63 - 1"
definition kint64min :: int where "kint64min = - (2 ^ 63)"
definition kuint64max :: int where "kuint64max = 2 ^ 64 - 1"
definition kint32max :: int where "kint32max = 2 ^ 31 - 1"
definition kuint32max :: int where "kuint32max = 2 ^ 32 - 1"

definition step_up :: "int \<Rightarrow> int \<Rightarrow> int \<Rightarrow> int option" where
  "step_up vlimit result digit =
     (if (vlimit - digit) sdiv 10 < result then None else Some (result * 10 + digit))"

definition step_down :: "int \<Rightarrow> int \<Rightarrow> int \<Rightarrow> int option" where
  "step_down vlimit result digit =
     (if (vlimit + digit) sdiv 10 > result then None else Some (result * 10 - digit))"

definition step_check :: "int \<Rightarrow> int \<Rightarrow> int \<Rightarrow> int option" where
  "step_check vmax result digit =
     (let r = result * 10 + digit in if r > vmax then None else Some r)"

definition safe_strto64 :: "string \<Rightarrow> int option" where
  "safe_strto64 str0 = (let str = SkipSpaces str0 in
     case Consume_minus str of
       None \<Rightarrow> parse_number (step_up kint64max) str
     | Some rest \<Rightarrow> parse_number (step_down kint64min) rest)"

definition safe_strtou64 :: "string \<Rightarrow> int option" where
  "safe_strtou64 str = parse_number (step_up kuint64max) (SkipSpaces str)"

definition safe_strto32 :: "string \<Rightarrow> int option" where
  "safe_strto32 str0 = (let str = SkipSpaces str0 in
     case Consume_minus str of
       None \<Rightarrow> map_option (\<lambda>result. result * 1) (parse_number (step_check kint32max) str)
     | Some rest \<Rightarrow> map_option (\<lambda>result. result * - 1) (parse_number (step_check (kint32max + 1)) rest))"

definition safe_strtou32 :: "string \<Rightarrow> int option" where
  "safe_strtou32 str = parse_number (step_check kuint32max) (SkipSpaces str)"

section \<open>Hexadecimal\<close>

definition hexdigits :: string where
  "hexdigits = ''0123456789abcdef''"

primrec hex_loop :: "nat \<Rightarrow> u64 \<Rightarrow> string" where
  "hex_loop 0 v = []"
| "hex_loop (Suc i) v = hex_loop i (drop_bit 4 v) @ [hexdigits ! unat (v AND 15)]"

definition Uint64ToHexString :: "u64 \<Rightarrow> string" where
  "Uint64ToHexString v = hex_loop 16 v"

fun hex_parse :: "string \<Rightarrow> u64 \<Rightarrow> u64 option" where
  "hex_parse [] v = Some v"
| "hex_parse (c # cs) v =
     (let n = of_char c :: nat in
      if 48 \<le> n \<and> n \<le> 57 then hex_parse cs (push_bit 4 v + of_nat (n - 48))
      else if 97 \<le> n \<and> n \<le> 102 then hex_parse cs (push_bit 4 v + 10 + of_nat (n - 97))
      else if 65 \<le> n \<and> n \<le> 70 then hex_parse cs (push_bit 4 v + 10 + of_nat (n - 65))
      else None)"

definition HexStringToUint64 :: "string \<Rightarrow> u64 option" where
  "HexStringToUint64 s = (if s = [] then None else hex_parse s 0)"

section \<open>\<open>StrCat\<close>\<close>

text \<open>
  \<open>AlphaNum\<close> is the text of its argument. \<open>StrCat\<close> allocates the result (its bytes are not
  initialised, here NUL), copies the pieces one behind the other and checks that they fill
  the result.
\<close>

definition memcpy :: "string \<Rightarrow> nat \<Rightarrow> string \<Rightarrow> string" where
  "memcpy dst out src = take out dst @ src @ drop (out + length src) dst"

definition uninitialized :: "nat \<Rightarrow> string" where
  "uninitialized n = replicate n (CHR 0x00)"

definition Append1 :: "string \<Rightarrow> nat \<Rightarrow> string \<Rightarrow> string \<times> nat" where
  "Append1 buf out x = (memcpy buf out x, out + length x)"

definition Append2 :: "string \<Rightarrow> nat \<Rightarrow> string \<Rightarrow> string \<Rightarrow> string \<times> nat" where
  "Append2 buf out x1 x2 =
     (let buf1 = memcpy buf out x1; out1 = out + length x1 in
      (memcpy buf1 out1 x2, out1 + length x2))"

definition Append4 ::
  "string \<Rightarrow> nat \<Rightarrow> string \<Rightarrow> string \<Rightarrow> string \<Rightarrow> string \<Rightarrow> string \<times> nat" where
  "Append4 buf out x1 x2 x3 x4 =
     (let buf1 = memcpy buf out x1; out1 = out + length x1;
          buf2 = memcpy buf1 out1 x2; out2 = out1 + length x2;
          buf3 = memcpy buf2 out2 x3; out3 = out2 + length x3 in
      (memcpy buf3 out3 x4, out3 + length x4))"

definition StrCat1 :: "string \<Rightarrow> string" where
  "StrCat1 a = a"

definition StrCat2 :: "string \<Rightarrow> string \<Rightarrow> string res" where
  "StrCat2 a b =
     (let result = uninitialized (length a + length b);
          (result, out) = Append2 result 0 a b in
      DCHECK (out = length result) ''out == begin + result.size()'' (ret result))"

definition StrCat3 :: "string \<Rightarrow> string \<Rightarrow> string \<Rightarrow> string res" where
  "StrCat3 a b c =
     (let result = uninitialized (length a + length b + length c);
          (result, out) = Append2 result 0 a b;
          (result, out) = Append1 result out c in
      DCHECK (out = length result) ''out == begin + result.size()'' (ret result))"

definition StrCat4 :: "string \<Rightarrow> string \<Rightarrow> string \<Rightarrow> string \<Rightarrow> string res" where
  "StrCat4 a b c d =
     (let result = uninitialized (length a + length b + length c + length d);
          (result, out) = Append4 result 0 a b c d in
      DCHECK (out = length result) ''out == begin + result.size()'' (ret result))"

definition CatPieces :: "string list \<Rightarrow> string res" where
  "CatPieces pieces =
     (let result = uninitialized (sum_list (map length pieces));
          (result, out) = fold (\<lambda>piece (buf, out). (memcpy buf out piece, out + length piece))
                            pieces (result, 0) in
      DCHECK (out = length result) ''out == begin + result.size()'' (ret result))"

definition AppendPieces :: "string \<Rightarrow> string list \<Rightarrow> string res" where
  "AppendPieces dest pieces =
     (let old_size = length dest;
          result = dest @ uninitialized (sum_list (map length pieces));
          (result, out) = fold (\<lambda>piece (buf, out). (memcpy buf out piece, out + length piece))
                            pieces (result, old_size) in
      DCHECK (out = length result) ''out == begin + result->size()'' (ret result))"

definition StrAppend1 :: "string \<Rightarrow> string \<Rightarrow> string" where
  "StrAppend1 result a = result @ a"

definition StrAppend2 :: "string \<Rightarrow> string \<Rightarrow> string \<Rightarrow> string res" where
  "StrAppend2 dest a b =
     (let old_size = length dest;
          result = dest @ uninitialized (length a + length b);
          (result, out) = Append2 result old_size a b in
      DCHECK (out = length result) ''out == begin + result->size()'' (ret result))"

definition StrAppend3 :: "string \<Rightarrow> string \<Rightarrow> string \<Rightarrow> string \<Rightarrow> string res" where
  "StrAppend3 dest a b c =
     (let old_size = length dest;
          result = dest @ uninitialized (length a + length b + length c);
          (result, out) = Append2 result old_size a b;
          (result, out) = Append1 result out c in
      DCHECK (out = length result) ''out == begin + result->size()'' (ret result))"

definition StrAppend4 :: "string \<Rightarrow> string \<Rightarrow> string \<Rightarrow> string \<Rightarrow> string \<Rightarrow> string res" where
  "StrAppend4 dest a b c d =
     (let old_size = length dest;
          result = dest @ uninitialized (length a + length b + length c + length d);
          (result, out) = Append4 result old_size a b c d in
      DCHECK (out = length result) ''out == begin + result->size()'' (ret result))"

section \<open>Lemmas: the digits of a number\<close>

definition dec_value :: "string \<Rightarrow> nat" where
  "dec_value = foldl (\<lambda>n c. n * 10 + (ord_of c - 48)) 0"

lemma ord_digit_char [simp]: "d < 10 \<Longrightarrow> ord_of (digit_char d) = d + 48"
  by (simp add: digit_char_def)

lemma isdigit_digit_char [simp]: "d < 10 \<Longrightarrow> isdigit (digit_char d)"
  by (simp add: isdigit_def)

lemma unat_of_nat_div10: "unat (of_nat (unat i div 10) :: 'a::len word) = unat (i :: 'a word) div 10"
proof -
  have "unat i div 10 \<le> unat i" by simp
  also have "unat i < 2 ^ LENGTH('a)" by (rule unsigned_less)
  finally show ?thesis by (simp add: unat_of_nat)
qed

lemma digit_loop_props:
  fixes i :: "'a::len word"
  shows "list_all isdigit (digit_loop i) \<and> digit_loop i \<noteq> [] \<and> dec_value (rev (digit_loop i)) = unat i \<and>
   (hd (rev (digit_loop i)) = digit_char 0 \<longrightarrow> unat i = 0)"
proof (induction i rule: digit_loop.induct)
  case (1 i)
  show ?case
  proof (cases "0 < unat i div 10")
    case True
    let ?j = "of_nat (unat i div 10) :: 'a word"
    have j: "unat ?j = unat i div 10" by (rule unat_of_nat_div10)
    from 1 [OF True] True have ih: "list_all isdigit (digit_loop ?j)" "digit_loop ?j \<noteq> []"
      "dec_value (rev (digit_loop ?j)) = unat i div 10" "hd (rev (digit_loop ?j)) \<noteq> digit_char 0"
      by (auto simp: j)
    moreover have "digit_loop i = digit_char (unat i mod 10) # digit_loop ?j"
      by (subst digit_loop.simps) (simp add: True)
    ultimately show ?thesis by (simp add: dec_value_def hd_append)
  next
    case False
    then have i: "unat i < 10" by (simp add: div_eq_0_iff)
    then have "digit_loop i = [digit_char (unat i)]" by (subst digit_loop.simps) simp
    moreover have "digit_char (unat i) = digit_char 0 \<Longrightarrow> unat i = 0"
      using ord_digit_char [OF i] ord_digit_char [of 0] by simp
    ultimately show ?thesis using i by (simp add: dec_value_def)
  qed
qed

lemma parse_digits_dec:
  assumes "list_all isdigit (c # cs)"
    "\<And>r d :: int. 0 \<le> r \<Longrightarrow> 0 \<le> d \<Longrightarrow> d \<le> 9 \<Longrightarrow> r * 10 + d \<le> bound \<Longrightarrow> step (f r) d = Some (f (r * 10 + d))"
    "0 \<le> r" "foldl (\<lambda>n c. n * 10 + int (ord_of c - 48)) r (c # cs) \<le> bound"
    "rest = [] \<or> \<not> isdigit (hd rest)"
  shows "parse_digits step c (cs @ rest) (f r) =
         Some (f (foldl (\<lambda>n c. n * 10 + int (ord_of c - 48)) r (c # cs)), rest)"
  using assms(1,3,4)
proof (induction cs arbitrary: c r)
  case Nil
  then have "step (f r) (digit_value c) = Some (f (r * 10 + int (ord_of c - 48)))"
    using assms(2) [of r "digit_value c"] by (simp add: digit_value_def isdigit_def)
  then show ?case using assms(5)
    by (subst parse_digits.simps) (auto split: list.splits)
next
  case (Cons c' cs)
  let ?F = "foldl (\<lambda>n c. n * 10 + int (ord_of c - 48))"
  have mono: "x \<le> ?F x ys" if "0 \<le> x" for x ys
    using that
  proof (induction ys arbitrary: x)
    case (Cons y ys)
    have "x * 10 + int (ord_of y - 48) \<le> ?F (x * 10 + int (ord_of y - 48)) ys"
      using Cons.prems by (intro Cons.IH) simp
    then show ?case using Cons.prems by simp
  qed simp
  let ?r = "r * 10 + int (ord_of c - 48)"
  have r: "0 \<le> ?r" "?r \<le> bound"
    using Cons.prems mono [of ?r "c' # cs"] by auto
  then have "step (f r) (digit_value c) = Some (f ?r)"
    using assms(2) [of r "digit_value c"] Cons.prems by (simp add: digit_value_def isdigit_def)
  moreover have "parse_digits step c' (cs @ rest) (f ?r) = Some (f (?F ?r (c' # cs)), rest)"
    using Cons.prems r by (intro Cons.IH) auto
  ultimately show ?case using Cons.prems
    by (subst parse_digits.simps) simp
qed

text \<open>Only the digits of the number and trailing blanks: the parser returns the number.\<close>

lemma foldl_dec_value: "foldl (\<lambda>n c. n * 10 + int (ord_of c - 48)) (int m) cs =
    int (foldl (\<lambda>n c. n * 10 + (ord_of c - 48)) m cs)"
proof (induction cs arbitrary: m)
  case (Cons c cs)
  then show ?case using Cons.IH [of "m * 10 + (ord_of c - 48)"] by simp
qed simp

lemma isspace_not_isdigit: "isspace c \<Longrightarrow> \<not> isdigit c"
  by (auto simp: isspace_def isdigit_def)

lemma SkipSpaces_blank: "list_all isspace rest \<Longrightarrow> SkipSpaces rest = []"
  by (simp add: SkipSpaces_def dropWhile_eq_Nil_conv list_all_iff)

lemma SkipSpaces_front: "list_all isspace front \<Longrightarrow> SkipSpaces (front @ s) = SkipSpaces s"
  by (simp add: SkipSpaces_def dropWhile_append3 dropWhile_append list_all_iff)

lemma SkipSpaces_nonblank: "s \<noteq> [] \<Longrightarrow> \<not> isspace (hd s) \<Longrightarrow> SkipSpaces s = s"
  by (cases s) (simp_all add: SkipSpaces_def)

lemma parse_number_dec:
  assumes "list_all isdigit s" "s \<noteq> []" "list_all isspace rest" "int (dec_value s) \<le> bound"
    "\<And>r d :: int. 0 \<le> r \<Longrightarrow> 0 \<le> d \<Longrightarrow> d \<le> 9 \<Longrightarrow> r * 10 + d \<le> bound \<Longrightarrow>
       step (f r) d = Some (f (r * 10 + d))"
    "f 0 = 0"
  shows "parse_number step (s @ rest) = Some (f (int (dec_value s)))"
proof -
  obtain c cs where s: "s = c # cs" using assms(2) by (cases s) auto
  have val: "foldl (\<lambda>n c. n * 10 + int (ord_of c - 48)) 0 (c # cs) = int (dec_value s)"
    using foldl_dec_value [of 0 s] by (simp add: s dec_value_def)
  have rest: "rest = [] \<or> \<not> isdigit (hd rest)"
    using assms(3) isspace_not_isdigit by (cases rest) auto
  have "parse_digits step c (cs @ rest) (f 0) = Some (f (int (dec_value s)), rest)"
    using parse_digits_dec [where f = f and step = step and bound = bound and r = 0, OF _ assms(5) _ _ rest]
      assms(1,4) val s by simp
  then show ?thesis using assms(1,6) s SkipSpaces_blank [OF assms(3)]
    by (simp add: parse_number_def parse_tail_def)
qed

lemma step_up_ok:
  assumes "9 \<le> limit" "0 \<le> r" "0 \<le> d" "d \<le> 9" "r * 10 + d \<le> (limit :: int)"
  shows "step_up limit r d = Some (r * 10 + d)"
proof -
  have "(limit - d) sdiv 10 = (limit - d) div 10" using assms by (intro sdiv_nonneg) auto
  moreover have "r \<le> (limit - d) div 10" using assms by linarith
  ultimately show ?thesis by (simp add: step_up_def)
qed

lemma step_down_ok:
  assumes "9 \<le> limit" "0 \<le> r" "0 \<le> d" "d \<le> 9" "r * 10 + d \<le> (limit :: int)"
  shows "step_down (- limit) (- r) d = Some (- (r * 10 + d))"
proof -
  have "(- limit + d) sdiv 10 = - ((limit - d) div 10)"
    using assms sdiv_nonneg [of "limit - d" 10] by (simp add: signed_divide_int_def sgn_if abs_if)
  moreover have "r \<le> (limit - d) div 10" using assms by linarith
  ultimately show ?thesis by (simp add: step_down_def)
qed

lemma step_check_ok: "r * 10 + d \<le> limit \<Longrightarrow> step_check limit r d = Some (r * 10 + d)"
  by (simp add: step_check_def)

section \<open>Lemmas: round trips\<close>

lemma printed_uint:
  fixes i :: "'a::len word"
  shows "list_all isdigit (rev (digit_loop i))" "rev (digit_loop i) \<noteq> []"
    "dec_value (rev (digit_loop i)) = unat i" "\<not> isspace (hd (rev (digit_loop i)))"
    "hd (rev (digit_loop i)) \<noteq> CHR ''-''"
proof -
  show a: "list_all isdigit (rev (digit_loop i))" "rev (digit_loop i) \<noteq> []"
    "dec_value (rev (digit_loop i)) = unat i"
    using digit_loop_props [of i] by auto
  then have h: "isdigit (hd (rev (digit_loop i)))" by (metis hd_in_set list_all_iff)
  then show "\<not> isspace (hd (rev (digit_loop i)))" using isspace_not_isdigit by blast
  have "\<not> isdigit CHR ''-''" by (simp add: isdigit_def)
  with h show "hd (rev (digit_loop i)) \<noteq> CHR ''-''" by metis
qed

lemma safe_strtou_print:
  fixes i :: "'a::len word"
  assumes "list_all isspace front" "list_all isspace rest" "int (unat i) \<le> limit"
    "\<And>r d :: int. 0 \<le> r \<Longrightarrow> 0 \<le> d \<Longrightarrow> d \<le> 9 \<Longrightarrow> r * 10 + d \<le> limit \<Longrightarrow>
       step r d = Some (r * 10 + d)"
  shows "parse_number step (SkipSpaces (front @ rev (digit_loop i) @ rest)) = Some (int (unat i))"
    "Consume_minus (SkipSpaces (front @ rev (digit_loop i) @ rest)) = None"
proof -
  note p = printed_uint [of i]
  have sk: "SkipSpaces (front @ rev (digit_loop i) @ rest) = rev (digit_loop i) @ rest"
    using p assms(1) by (simp add: SkipSpaces_front SkipSpaces_nonblank hd_append)
  show "parse_number step (SkipSpaces (front @ rev (digit_loop i) @ rest)) = Some (int (unat i))"
    unfolding sk
    using parse_number_dec [where f = "\<lambda>r. r" and step = step, OF p(1,2) assms(2) _ assms(4)] assms(3) p(3)
    by simp
  show "Consume_minus (SkipSpaces (front @ rev (digit_loop i) @ rest)) = None"
    unfolding sk using p(2,5) by (cases "rev (digit_loop i)") (auto simp: Consume_minus_def)
qed

lemma parse_negative:
  fixes i :: "'a::len word"
  assumes "list_all isspace front" "list_all isspace rest"
  shows "Consume_minus (SkipSpaces (front @ ''-'' @ rev (digit_loop i) @ rest)) =
         Some (rev (digit_loop i) @ rest)"
proof -
  have "\<not> isspace CHR ''-''" by (simp add: isspace_def)
  then show ?thesis
    using assms(1) by (simp add: SkipSpaces_front SkipSpaces_nonblank Consume_minus_def)
qed

lemma sint_negative:
  fixes i :: "'a::len word"
  assumes "sint i < 0"
  shows "int (unat (0 - i)) = - sint i" "int (unat (0 - i)) \<le> 2 ^ (LENGTH('a) - 1)"
proof -
  have "- sint i \<le> 2 ^ (LENGTH('a) - 1)"
    using sint_greater_eq [of i] by simp
  moreover have "(2::int) ^ (LENGTH('a) - 1) < 2 ^ LENGTH('a)" by simp
  ultimately have "take_bit LENGTH('a) (- sint i) = - sint i"
    using assms by (intro take_bit_int_eq_self) linarith+
  moreover have "uint (0 - i) = take_bit LENGTH('a) (- sint i)"
  proof -
    have "0 - i = word_of_int (- sint i)" by simp
    then show ?thesis by (simp only: unsigned_of_int) simp
  qed
  ultimately show "int (unat (0 - i)) = - sint i" by simp
  then show "int (unat (0 - i)) \<le> 2 ^ (LENGTH('a) - 1)"
    using sint_greater_eq [of i] by simp
qed

lemma sint_nonnegative:
  fixes i :: "'a::len word"
  assumes "\<not> sint i < 0"
  shows "int (unat i) = sint i"
proof -
  have "sint i < 2 ^ (LENGTH('a) - 1)" using sint_less [of i] by simp
  moreover have "(2::int) ^ (LENGTH('a) - 1) < 2 ^ LENGTH('a)" by simp
  ultimately have "take_bit LENGTH('a) (sint i) = sint i"
    using assms by (intro take_bit_int_eq_self) linarith+
  then show ?thesis using uint_sint [of i] by simp
qed

text \<open>Hexadecimal digits: sixteen nibbles, most significant first.\<close>

lemma nibble_less: "unat ((v :: u64) AND 15) < 16"
proof -
  have "v AND 15 = take_bit 4 v" by (simp add: take_bit_eq_mask mask_eq_exp_minus_1)
  moreover have "unat (take_bit 4 v) = take_bit 4 (unat v)" by (rule unsigned_take_bit_eq)
  ultimately show ?thesis by (simp add: take_bit_nat_def)
qed

lemma hex_parse_digit:
  assumes "n < 16"
  shows "hex_parse (hexdigits ! n # cs) v = hex_parse cs (push_bit 4 v + of_nat n)"
proof -
  have "n \<in> set [0..<16]" using assms by simp
  then show ?thesis
    unfolding hexdigits_def by (simp add: upt_rec) (elim disjE; simp add: add.assoc)
qed

lemma hex_parse_append: "hex_parse (xs @ ys) v = Option.bind (hex_parse xs v) (hex_parse ys)"
  by (induction xs v rule: hex_parse.induct) (simp_all add: Let_def)

lemma push_nibble:
  "push_bit 4 (drop_bit 4 v) + (v AND 15) = (v :: u64)"
proof -
  have "v AND 15 = take_bit 4 v" by (simp add: take_bit_eq_mask mask_eq_exp_minus_1)
  then show ?thesis using bits_ident [of 4 v] by simp
qed

lemma hex_loop_parse:
  "hex_parse (hex_loop n v) 0 = Some (take_bit (4 * n) v)"
proof (induction n arbitrary: v)
  case (Suc n)
  have "hex_parse (hex_loop (Suc n) v) 0 =
        Some (push_bit 4 (take_bit (4 * n) (drop_bit 4 v)) + (v AND 15))"
    using Suc.IH [of "drop_bit 4 v"]
    by (simp add: hex_parse_append hex_parse_digit nibble_less del: hex_parse.simps(2))
  moreover have "push_bit 4 (take_bit (4 * n) (drop_bit 4 v)) + take_bit 4 v = take_bit (4 * Suc n) v"
  proof -
    have "take_bit (4 * n + 4) v = push_bit 4 (take_bit (4 * n) (drop_bit 4 v)) + take_bit 4 v"
      using bits_ident [of 4 "take_bit (4 * n + 4) v"]
      by (simp add: drop_bit_take_bit min_def)
    then show ?thesis by (simp add: algebra_simps)
  qed
  moreover have "v AND 15 = take_bit 4 v" by (simp add: take_bit_eq_mask mask_eq_exp_minus_1)
  ultimately show ?case by simp
qed simp

lemma length_hex_loop: "length (hex_loop n v) = n"
  by (induction n arbitrary: v) simp_all

lemma take_bit_64: "take_bit 64 (v :: u64) = v"
  using take_bit_word_eq_self [of 64 v] by simp

text \<open>Copying pieces one behind the other.\<close>

lemma memcpy_end: "length junk = length src + k \<Longrightarrow>
    memcpy (done @ junk) (length done) src = done @ src @ drop (length src) junk"
  by (simp add: memcpy_def)

lemma length_uninitialized [simp]: "length (uninitialized n) = n"
  by (simp add: uninitialized_def)

lemma drop_uninitialized [simp]: "drop m (uninitialized n) = uninitialized (n - m)"
  by (simp add: uninitialized_def)

lemma uninitialized_0 [simp]: "uninitialized 0 = []"
  by (simp add: uninitialized_def)

lemma memcpy_next [simp]:
  "memcpy (done @ uninitialized n) (length done) src = done @ src @ uninitialized (n - length src)"
  "memcpy (uninitialized n) 0 src = src @ uninitialized (n - length src)"
  by (simp_all add: memcpy_def)

lemma fold_memcpy:
  "n = sum_list (map length pieces) \<Longrightarrow>
   fold (\<lambda>piece (buf, out). (memcpy buf out piece, out + length piece)) pieces
     (done @ uninitialized n, length done) =
   (done @ concat pieces, length done + n)"
proof (induction pieces arbitrary: "done" n)
  case (Cons p ps)
  from Cons.IH [of "n - length p" "done @ p"] Cons.prems show ?case by simp
qed simp

lemma memcpy_next2 [simp]:
  "memcpy (a @ b @ uninitialized n) (length a + length b) src =
     a @ b @ src @ uninitialized (n - length src)"
  "memcpy (a @ b @ c @ uninitialized n) (length a + length b + length c) src =
     a @ b @ c @ src @ uninitialized (n - length src)"
  "memcpy (a @ b @ c @ d @ uninitialized n) (length a + length b + length c + length d) src =
     a @ b @ c @ d @ src @ uninitialized (n - length src)"
  by (simp_all add: memcpy_def)

lemma StrCat_ret [simp]:
  "StrCat1 a = a" "StrCat2 a b = ret (a @ b)" "StrCat3 a b c = ret (a @ b @ c)"
  "StrCat4 a b c d = ret (a @ b @ c @ d)"
  by (simp_all add: StrCat1_def StrCat2_def StrCat3_def StrCat4_def Append1_def Append2_def
      Append4_def Let_def)

lemma StrAppend_ret [simp]:
  "StrAppend2 r a b = ret (r @ a @ b)" "StrAppend3 r a b c = ret (r @ a @ b @ c)"
  "StrAppend4 r a b c d = ret (r @ a @ b @ c @ d)"
  by (simp_all add: StrAppend2_def StrAppend3_def StrAppend4_def Append1_def Append2_def
      Append4_def Let_def)

lemma CatPieces_ret [simp]: "CatPieces pieces = ret (concat pieces)"
  using fold_memcpy [of _ pieces "[]"]
  by (simp add: CatPieces_def length_concat Let_def)

lemma AppendPieces_ret [simp]: "AppendPieces r pieces = ret (r @ concat pieces)"
  by (simp add: AppendPieces_def fold_memcpy length_concat Let_def)

section \<open>Round trips\<close>

text \<open>The three bodies of the digit loops, on the text of a value within their limit.\<close>

lemma parse_printed:
  fixes i :: "'a::len word"
  assumes "list_all isspace front" "list_all isspace rest" "int (unat i) \<le> limit" "9 \<le> limit"
  shows "parse_number (step_check limit) (SkipSpaces (front @ rev (digit_loop i) @ rest)) = Some (int (unat i))"
    "parse_number (step_up limit) (SkipSpaces (front @ rev (digit_loop i) @ rest)) = Some (int (unat i))"
    "parse_number (step_check limit) (rev (digit_loop i) @ rest) = Some (int (unat i))"
    "parse_number (step_down (- limit)) (rev (digit_loop i) @ rest) = Some (- int (unat i))"
proof -
  note p = printed_uint [of i]
  show "parse_number (step_check limit) (SkipSpaces (front @ rev (digit_loop i) @ rest)) = Some (int (unat i))"
    by (rule safe_strtou_print(1) [where limit = limit, OF assms(1-3)]) (rule step_check_ok)
  show "parse_number (step_up limit) (SkipSpaces (front @ rev (digit_loop i) @ rest)) = Some (int (unat i))"
    by (rule safe_strtou_print(1) [where limit = limit, OF assms(1-3)]) (rule step_up_ok [OF assms(4)])
  show "parse_number (step_check limit) (rev (digit_loop i) @ rest) = Some (int (unat i))"
    using parse_number_dec [where f = "\<lambda>r. r" and step = "step_check limit" and bound = limit, OF p(1,2) assms(2)]
      assms(3) p(3) step_check_ok by simp
  show "parse_number (step_down (- limit)) (rev (digit_loop i) @ rest) = Some (- int (unat i))"
    using parse_number_dec [where f = uminus and step = "step_down (- limit)" and bound = limit, OF p(1,2) assms(2)]
      assms(3) p(3) step_down_ok [OF assms(4)] by simp
qed

lemma printed_no_minus:
  fixes i :: "'a::len word"
  assumes "list_all isspace front"
  shows "Consume_minus (SkipSpaces (front @ rev (digit_loop i) @ rest)) = None"
  using printed_uint [of i] assms
  by (cases "rev (digit_loop i)") (auto simp: SkipSpaces_front SkipSpaces_nonblank Consume_minus_def)

lemma unsigned_roundtrip:
  assumes "list_all isspace front" "list_all isspace rest"
  shows "safe_strtou32 (front @ FastUInt32ToBufferLeft i32 @ rest) = Some (uint i32)"
    "safe_strtou64 (front @ FastUInt64ToBufferLeft i64 @ rest) = Some (uint i64)"
proof -
  have "int (unat i32) \<le> kuint32max" using unsigned_less [of i32, where 'a = int] by (simp add: kuint32max_def)
  from parse_printed(1) [OF assms this]
  show "safe_strtou32 (front @ FastUInt32ToBufferLeft i32 @ rest) = Some (uint i32)"
    by (simp add: safe_strtou32_def FastUInt32ToBufferLeft_def kuint32max_def)
  have "int (unat i64) \<le> kuint64max" using unsigned_less [of i64, where 'a = int] by (simp add: kuint64max_def)
  from parse_printed(2) [OF assms this]
  show "safe_strtou64 (front @ FastUInt64ToBufferLeft i64 @ rest) = Some (uint i64)"
    by (simp add: safe_strtou64_def FastUInt64ToBufferLeft_def kuint64max_def)
qed

lemma signed32_roundtrip:
  assumes "list_all isspace front" "list_all isspace rest"
  shows "safe_strto32 (front @ FastInt32ToBufferLeft i @ rest) = Some (sint i)"
proof (cases "sint i < 0")
  case True
  note n = sint_negative [OF True]
  have "parse_number (step_check (kint32max + 1)) (rev (digit_loop (0 - i)) @ rest) = Some (int (unat (0 - i)))"
    by (rule parse_printed(3) [OF assms]) (use n(2) in \<open>simp_all add: kint32max_def\<close>)
  with True n(1) parse_negative [OF assms, of "0 - i"] show ?thesis
    by (simp add: safe_strto32_def FastInt32ToBufferLeft_def FastUInt32ToBufferLeft_def)
next
  case False
  note n = sint_nonnegative [OF False]
  have "int (unat i) \<le> kint32max" using n sint_less [of i] by (simp add: kint32max_def)
  from parse_printed(1) [OF assms this] n printed_no_minus [OF assms(1), of i rest]
  have "safe_strto32 (front @ rev (digit_loop i) @ rest) = Some (sint i)"
    by (simp add: safe_strto32_def kint32max_def)
  with False show ?thesis by (simp add: FastInt32ToBufferLeft_def FastUInt32ToBufferLeft_def)
qed

lemma signed64_roundtrip:
  assumes "list_all isspace front" "list_all isspace rest"
  shows "safe_strto64 (front @ FastInt64ToBufferLeft i @ rest) = Some (sint i)"
proof (cases "sint i < 0")
  case True
  note n = sint_negative [OF True]
  have "parse_number (step_down (- (2 ^ 63))) (rev (digit_loop (0 - i)) @ rest) = Some (- int (unat (0 - i)))"
    by (rule parse_printed(4) [OF assms]) (use n(2) in simp_all)
  with True n(1) parse_negative [OF assms, of "0 - i"] show ?thesis
    by (simp add: safe_strto64_def FastInt64ToBufferLeft_def FastUInt64ToBufferLeft_def kint64min_def)
next
  case False
  note n = sint_nonnegative [OF False]
  have "int (unat i) \<le> kint64max" using n sint_less [of i] by (simp add: kint64max_def)
  from parse_printed(2) [OF assms this] n printed_no_minus [OF assms(1), of i rest]
  have "safe_strto64 (front @ rev (digit_loop i) @ rest) = Some (sint i)"
    by (simp add: safe_strto64_def kint64max_def)
  with False show ?thesis by (simp add: FastInt64ToBufferLeft_def FastUInt64ToBufferLeft_def)
qed

section \<open>Properties\<close>

text \<open>
  C19. What the four integer printers write, the four parsers read back, for
  every value of the type (the least ones included), with any white space around it; and
  \<open>HexStringToUint64\<close> reads back \<open>Uint64ToHexString\<close>.
\<close>

theorem numbers_roundtrip:
  assumes "list_all isspace front" "list_all isspace rest"
  shows "safe_strtou32 (front @ FastUInt32ToBufferLeft i32 @ rest) = Some (uint i32) \<and>
    safe_strtou64 (front @ FastUInt64ToBufferLeft i64 @ rest) = Some (uint i64) \<and>
    safe_strto32 (front @ FastInt32ToBufferLeft i32 @ rest) = Some (sint i32) \<and>
    safe_strto64 (front @ FastInt64ToBufferLeft i64 @ rest) = Some (sint i64) \<and>
    HexStringToUint64 (Uint64ToHexString i64) = Some i64"
proof -
  have "hex_loop 16 i64 \<noteq> []" using length_hex_loop [of 16 i64] by auto
  then have "HexStringToUint64 (Uint64ToHexString i64) = Some i64"
    using hex_loop_parse [of 16 i64] by (simp add: HexStringToUint64_def Uint64ToHexString_def take_bit_64)
  then show ?thesis
    using unsigned_roundtrip [OF assms] signed32_roundtrip [OF assms] signed64_roundtrip [OF assms] by simp
qed

theorem numbers_roundtrip_witness:
  "safe_strto32 ('' '' @ FastInt32ToBufferLeft (- 2147483648) @ '' '') = Some (sint (- 2147483648 :: u32))"
  using numbers_roundtrip [of "'' ''" "'' ''" "- 2147483648" 0] by (simp add: isspace_def)

text \<open>
  The buffer arithmetic of \<open>StrCat\<close> and \<open>StrAppend\<close> is right: the copies
  fill the allocated string exactly, so the \<open>DCHECK\<close>s never fail and the result is the
  concatenation of the pieces, for the fixed arities and for the list versions.
\<close>

theorem StrCat_concatenates:
  "StrCat2 a b = ret (a @ b) \<and> StrCat3 a b c = ret (a @ b @ c) \<and> StrCat4 a b c d = ret (a @ b @ c @ d) \<and>
   CatPieces pieces = ret (concat pieces) \<and>
   StrAppend2 r a b = ret (r @ a @ b) \<and> StrAppend3 r a b c = ret (r @ a @ b @ c) \<and>
   StrAppend4 r a b c d = ret (r @ a @ b @ c @ d) \<and> AppendPieces r pieces = ret (r @ concat pieces)"
  by simp

end
