(* ===== verification/Std_Map.thy ===== *)
theory Std_Map
  imports Gomoku_Prelude "HOL-Library.Char_ord" "HOL-Library.List_Lexorder"
begin

text \<open>
  \<open>std::map\<close> and \<open>std::unordered_map\<close> as the program uses them, with the helpers of
  \<^verbatim>\<open>tensorflow/core/lib/gtl/map_util.h\<close>.

  A map is an association list in the order of its keys, the order in which \<open>std::map\<close> is
  iterated (strings compare bytewise, as \<open>std::string\<close> does). The locale \<open>std_map\<close> is what
  the clients rely on: what a lookup gives after an assignment, and that the
  representation invariant is kept. Its lemma about accumulating a list of updates is the
  one the metric collector and the ladder statistics rest on.
\<close>

type_synonym ('k, 'v) smap = "('k \<times> 'v) list"

definition smap_empty :: "('k, 'v) smap" where
  "smap_empty = []"

primrec smap_find :: "('k, 'v) smap \<Rightarrow> 'k \<Rightarrow> 'v option" where
  "smap_find [] k = None"
| "smap_find (kv # m) k = (if fst kv = k then Some (snd kv) else smap_find m k)"

text \<open>\<open>m[k] = v\<close>: insert at the place of the key, or replace.\<close>

primrec smap_assign :: "'k::linorder \<Rightarrow> 'v \<Rightarrow> ('k, 'v) smap \<Rightarrow> ('k, 'v) smap" where
  "smap_assign k v [] = [(k, v)]"
| "smap_assign k v (kv # m) =
     (if k < fst kv then (k, v) # kv # m
      else if k = fst kv then (k, v) # m
      else kv # smap_assign k v m)"

definition smap_wf :: "('k::linorder, 'v) smap \<Rightarrow> bool" where
  "smap_wf m \<longleftrightarrow> sorted_wrt (<) (map fst m)"

text \<open>\<open>m.insert(\<dots>)\<close>: nothing happens when the key is present; the flag says whether it was new.\<close>

definition smap_insert :: "'k::linorder \<Rightarrow> 'v \<Rightarrow> ('k, 'v) smap \<Rightarrow> bool \<times> ('k, 'v) smap" where
  "smap_insert k v m =
     (case smap_find m k of None \<Rightarrow> (True, smap_assign k v m) | Some _ \<Rightarrow> (False, m))"

subsection \<open>\<open>map_util.h\<close>\<close>

definition FindOrNull :: "('k, 'v) smap \<Rightarrow> 'k \<Rightarrow> 'v option" where
  "FindOrNull collection key = smap_find collection key"

definition FindWithDefault :: "('k, 'v) smap \<Rightarrow> 'k \<Rightarrow> 'v \<Rightarrow> 'v" where
  "FindWithDefault collection key value =
     (case smap_find collection key of None \<Rightarrow> value | Some v \<Rightarrow> v)"

definition FindPtrOrNull :: "('k, 'v option) smap \<Rightarrow> 'k \<Rightarrow> 'v option" where
  "FindPtrOrNull collection key =
     (case smap_find collection key of None \<Rightarrow> None | Some p \<Rightarrow> p)"

definition InsertOrUpdate :: "('k::linorder, 'v) smap \<Rightarrow> 'k \<Rightarrow> 'v \<Rightarrow> bool \<times> ('k, 'v) smap" where
  "InsertOrUpdate collection key value =
     (let (inserted, m) = smap_insert key value collection in
      if \<not> inserted then (False, smap_assign key value m) else (True, m))"

definition InsertIfNotPresent :: "('k::linorder, 'v) smap \<Rightarrow> 'k \<Rightarrow> 'v \<Rightarrow> bool \<times> ('k, 'v) smap" where
  "InsertIfNotPresent collection key value = smap_insert key value collection"

definition LookupOrInsert :: "('k::linorder, 'v) smap \<Rightarrow> 'k \<Rightarrow> 'v \<Rightarrow> ('v \<times> ('k, 'v) smap) res" where
  "LookupOrInsert collection key value =
     (let (_, m) = smap_insert key value collection in
      case smap_find m key of None \<Rightarrow> abort (Undefined ''end iterator'') | Some v \<Rightarrow> ret (v, m))"

section \<open>The contract of a map\<close>

locale std_map =
  fixes empty :: 'm
    and find :: "'m \<Rightarrow> 'k \<Rightarrow> 'v option"
    and assign :: "'k \<Rightarrow> 'v \<Rightarrow> 'm \<Rightarrow> 'm"
    and invar :: "'m \<Rightarrow> bool"
  assumes find_empty: "find empty k = None"
    and invar_empty: "invar empty"
    and find_assign: "invar m \<Longrightarrow> find (assign k v m) k' = (if k' = k then Some v else find m k')"
    and invar_assign: "invar m \<Longrightarrow> invar (assign k v m)"
begin

lemma assign_other: "invar m \<Longrightarrow> k' \<noteq> k \<Longrightarrow> find (assign k v m) k' = find m k'"
  by (simp add: find_assign)

text \<open>
  Accumulating a list of keyed values into a map, where \<open>new\<close> stores the first value of a
  key and \<open>old\<close> combines a further one: a key ends with its own values accumulated in order.
\<close>

lemma accumulate:
  assumes "invar m"
  shows "invar (fold (\<lambda>(k, x) m. assign k (case find m k of None \<Rightarrow> new x | Some v \<Rightarrow> old v x) m) kvs m) \<and>
    find (fold (\<lambda>(k, x) m. assign k (case find m k of None \<Rightarrow> new x | Some v \<Rightarrow> old v x) m) kvs m) k =
    fold (\<lambda>x a. Some (case a of None \<Rightarrow> new x | Some v \<Rightarrow> old v x))
      (map snd (filter (\<lambda>kx. fst kx = k) kvs)) (find m k)"
  using assms
proof (induction kvs arbitrary: m)
  case (Cons kx kvs)
  obtain k0 x0 where kx: "kx = (k0, x0)" by (cases kx)
  let ?m = "assign k0 (case find m k0 of None \<Rightarrow> new x0 | Some v \<Rightarrow> old v x0) m"
  have "invar ?m" using Cons.prems by (rule invar_assign)
  from Cons.IH [OF this] Cons.prems show ?case
    by (cases "k0 = k") (simp_all add: kx find_assign)
qed simp

end

section \<open>The sorted association list keeps the contract\<close>

lemma smap_find_assign:
  assumes "smap_wf m"
  shows "smap_find (smap_assign k v m) k' = (if k' = k then Some v else smap_find m k')"
  using assms
proof (induction m)
  case (Cons kv m)
  then have "smap_wf m" by (simp add: smap_wf_def)
  with Cons.IH show ?case by auto
qed auto

lemma set_smap_assign: "fst ` set (smap_assign k v m) = insert k (fst ` set m)"
  by (induction m) auto

lemma smap_wf_assign:
  assumes "smap_wf m" shows "smap_wf (smap_assign k v m)"
  using assms
proof (induction m)
  case (Cons kv m)
  then have hd: "\<forall>x \<in> fst ` set m. fst kv < x" and wf: "smap_wf m" by (simp_all add: smap_wf_def)
  from Cons.IH [OF wf] have IH: "smap_wf (smap_assign k v m)" .
  have "\<forall>x \<in> fst ` set (smap_assign k v m). fst kv < x" if "\<not> k < fst kv" "k \<noteq> fst kv"
    using hd that by (auto simp: set_smap_assign)
  with IH Cons.prems show ?case
    by (cases "k < fst kv"; cases "k = fst kv") (auto simp: smap_wf_def)
qed (simp add: smap_wf_def)

lemma smap_wf_empty [simp]: "smap_wf smap_empty"
  by (simp add: smap_wf_def smap_empty_def)

lemma smap_find_empty [simp]: "smap_find smap_empty k = None"
  by (simp add: smap_empty_def)

interpretation smap: std_map smap_empty smap_find smap_assign smap_wf
  by unfold_locales (simp_all add: smap_find_assign smap_wf_assign)

lemma smap_find_iff: "smap_wf m \<Longrightarrow> smap_find m k = Some v \<longleftrightarrow> (k, v) \<in> set m"
proof (induction m)
  case (Cons kv m)
  then have "smap_wf m" "\<forall>x \<in> fst ` set m. fst kv < x" by (simp_all add: smap_wf_def)
  with Cons.IH show ?case by (cases kv) (auto simp: image_iff)
qed simp

lemma smap_find_None: "k \<notin> fst ` set m \<Longrightarrow> smap_find m k = None"
  by (induction m) auto

lemma InsertOrUpdate_eq:
  "snd (InsertOrUpdate m k v) = smap_assign k v m"
  "fst (InsertOrUpdate m k v) \<longleftrightarrow> smap_find m k = None"
  by (auto simp: InsertOrUpdate_def smap_insert_def split: option.splits)

lemma InsertIfNotPresent_find:
  "smap_wf m \<Longrightarrow> smap_find (snd (InsertIfNotPresent m k v)) k' =
     (if k' = k \<and> smap_find m k = None then Some v else smap_find m k')"
  by (auto simp: InsertIfNotPresent_def smap_insert_def smap_find_assign split: option.splits)

end
