(* ===== verification/Metrics.thy ===== *)
theory Metrics
  imports Float32 Numbers Std_Map
begin

text \<open>
  Metrics: \<^verbatim>\<open>gomoku/core/metrics.cc\<close>, on the messages of \<^verbatim>\<open>gomoku/core/metrics.proto\<close>.

  A \<open>Metrics\<close> message is a list of metrics, a metric a name with an optional mean or group.
  A \<open>Metrics*\<close> into a group is the index of that group in the message it points into:
  \<open>AddMetricGroup\<close> returns it, \<open>group_at\<close> and \<open>group_update\<close> follow it.
\<close>

datatype metric = Metric (metric_name: string) (metric_value: metric_value)
  and metric_value = VALUE_NOT_SET | Mean fp u64 | Group "metric list"

type_synonym metrics = "metric list"

definition AddMetricMean :: "metrics \<Rightarrow> string \<Rightarrow> fp \<Rightarrow> metrics" where
  "AddMetricMean metrics name value = metrics @ [Metric name (Mean value 1)]"

definition AddMetricMean_key :: "metrics \<Rightarrow> string \<Rightarrow> int \<Rightarrow> fp \<Rightarrow> metrics res" where
  "AddMetricMean_key metrics name key value =
     bnd (StrCat3 name ''/'' (FastInt32ToBufferLeft (word_of_int key))) (\<lambda>full_name.
     ret (AddMetricMean metrics full_name value))"

definition AddMetricGroup :: "metrics \<Rightarrow> string \<Rightarrow> metrics \<times> nat" where
  "AddMetricGroup metrics name = (metrics @ [Metric name (Group [])], length metrics)"

definition group_at :: "metrics \<Rightarrow> nat \<Rightarrow> metrics res" where
  "group_at metrics ptr =
     (if ptr < length metrics then
        (case metric_value (metrics ! ptr) of Group g \<Rightarrow> ret g
         | _ \<Rightarrow> abort (Undefined ''metrics pointer''))
      else abort (Undefined ''metrics pointer''))"

definition group_update :: "metrics \<Rightarrow> nat \<Rightarrow> metrics \<Rightarrow> metrics res" where
  "group_update metrics ptr g =
     bnd (group_at metrics ptr) (\<lambda>_.
     ret (metrics[ptr := Metric (metric_name (metrics ! ptr)) (Group g)]))"

fun FlattenMetrics :: "metrics \<Rightarrow> metrics" where
  "FlattenMetrics [] = []"
| "FlattenMetrics (Metric name (Group g) # rest) = FlattenMetrics g @ FlattenMetrics rest"
| "FlattenMetrics (metric # rest) = metric # FlattenMetrics rest"

fun IterateFlatMetrics_path ::
  "metrics \<Rightarrow> string \<Rightarrow> (string \<Rightarrow> metric \<Rightarrow> 's \<Rightarrow> 's res) \<Rightarrow> 's \<Rightarrow> 's res" where
  "IterateFlatMetrics_path [] path visitor s = ret s"
| "IterateFlatMetrics_path (Metric name (Group g) # rest) path visitor s =
     bnd (StrCat3 path ''/'' name) (\<lambda>child_path.
     bnd (IterateFlatMetrics_path g child_path visitor s)
       (IterateFlatMetrics_path rest path visitor))"
| "IterateFlatMetrics_path (metric # rest) path visitor s =
     bnd (StrCat3 path ''/'' (metric_name metric)) (\<lambda>child_path.
     bnd (visitor child_path metric s)
       (IterateFlatMetrics_path rest path visitor))"

definition IterateFlatMetrics :: "metrics \<Rightarrow> (string \<Rightarrow> metric \<Rightarrow> 's \<Rightarrow> 's res) \<Rightarrow> 's \<Rightarrow> 's res" where
  "IterateFlatMetrics metrics visitor = IterateFlatMetrics_path metrics '''' visitor"

fun ConcatMetrics :: "metric \<Rightarrow> metric \<Rightarrow> metric" where
  "ConcatMetrics (Metric lname (Mean lvalue lcount)) (Metric rname (Mean rvalue rcount)) =
     (let count = lcount + rcount;
          total_count = fp_of_int float32 (uint count);
          left_coeff = fp_div float32 (fp_of_int float32 (uint lcount)) total_count;
          right_coeff = fp_div float32 (fp_of_int float32 (uint rcount)) total_count in
      Metric '''' (Mean (fp_add float32 (fp_mul float32 left_coeff lvalue)
                                        (fp_mul float32 right_coeff rvalue)) count))"
| "ConcatMetrics left right = Metric '''' VALUE_NOT_SET"

type_synonym metric_collector = "(string, metric) smap"

definition Append_visitor :: "string \<Rightarrow> metric \<Rightarrow> metric_collector \<Rightarrow> metric_collector" where
  "Append_visitor path metric m =
     (case smap_find m path of
        None \<Rightarrow> smap_assign path metric m
      | Some old \<Rightarrow> smap_assign path (ConcatMetrics old metric) m)"

definition MetricCollector_Append :: "metric_collector \<Rightarrow> metrics \<Rightarrow> metric_collector res" where
  "MetricCollector_Append m metrics =
     IterateFlatMetrics metrics (\<lambda>path metric m. ret (Append_visitor path metric m)) m"

text \<open>
  \<open>LogMetrics\<close> builds the text it logs; how \<open>operator<<\<close> prints a float is up to the C++
  library and is a parameter.
\<close>

definition LogMetrics_line :: "(fp \<Rightarrow> string) \<Rightarrow> string \<times> metric \<Rightarrow> string" where
  "LogMetrics_line show_float item =
     ''  '' @ fst item @ '' = '' @
     (case metric_value (snd item) of
        Mean value count \<Rightarrow> show_float value
      | _ \<Rightarrow> ''UNKOWN METRIC TYPE!'') @ [CHR 0x0A]"

definition LogMetrics :: "(fp \<Rightarrow> string) \<Rightarrow> metric_collector \<Rightarrow> string" where
  "LogMetrics show_float m = ''Metrics:'' @ [CHR 0x0A] @ concat (map (LogMetrics_line show_float) m)"

section \<open>The flat view of a message\<close>

text \<open>The leaves of a message with their paths, in order.\<close>

fun leaves :: "string \<Rightarrow> metrics \<Rightarrow> (string \<times> metric) list" where
  "leaves path [] = []"
| "leaves path (Metric name (Group g) # rest) = leaves (path @ ''/'' @ name) g @ leaves path rest"
| "leaves path (metric # rest) = (path @ ''/'' @ metric_name metric, metric) # leaves path rest"

lemma FlattenMetrics_leaves: "FlattenMetrics ms = map snd (leaves path ms)"
proof (induction ms arbitrary: path rule: FlattenMetrics.induct)
  case (2 name g rest)
  then show ?case by (metis FlattenMetrics.simps(2) leaves.simps(2) map_append)
qed simp_all

lemma IterateFlatMetrics_leaves:
  "IterateFlatMetrics_path ms path visitor s =
   foldM (\<lambda>(p, m). visitor p m) (leaves path ms) s"
proof (induction path ms arbitrary: s rule: leaves.induct)
  case (2 path name g rest)
  then show ?case by (auto simp: foldM_append intro!: bnd_cong)
qed (auto intro!: bnd_cong)

lemma FlattenMetrics_no_group:
  "Metric name (Group g) \<notin> set (FlattenMetrics ms)"
  by (induction ms rule: FlattenMetrics.induct) auto

lemma MetricCollector_Append_leaves:
  "MetricCollector_Append m ms = ret (fold (\<lambda>(p, x). Append_visitor p x) (leaves '''' ms) m)"
  unfolding MetricCollector_Append_def IterateFlatMetrics_def IterateFlatMetrics_leaves
  by (rule foldM_ret) auto

lemma Append_visitor_alt:
  "Append_visitor = (\<lambda>p x m.
     smap_assign p (case smap_find m p of None \<Rightarrow> x | Some v \<Rightarrow> ConcatMetrics v x) m)"
  by (intro ext) (simp add: Append_visitor_def split: option.splits)

lemma MetricCollector_Append_find:
  assumes "smap_wf m" "MetricCollector_Append m ms = ret m'"
  shows "smap_wf m'"
    "smap_find m' p =
       fold (\<lambda>x a. Some (case a of None \<Rightarrow> x | Some v \<Rightarrow> ConcatMetrics v x))
         (map snd (filter (\<lambda>kx. fst kx = p) (leaves '''' ms))) (smap_find m p)"
proof -
  have "m' = fold (\<lambda>(p, x) m. smap_assign p (case smap_find m p of None \<Rightarrow> x | Some v \<Rightarrow> ConcatMetrics v x) m)
      (leaves '''' ms) m"
    using assms(2) by (simp add: MetricCollector_Append_leaves Append_visitor_alt)
  with smap.accumulate [OF assms(1), of "\<lambda>x. x" ConcatMetrics "leaves '''' ms" p]
  show "smap_wf m'"
    "smap_find m' p =
       fold (\<lambda>x a. Some (case a of None \<Rightarrow> x | Some v \<Rightarrow> ConcatMetrics v x))
         (map snd (filter (\<lambda>kx. fst kx = p) (leaves '''' ms))) (smap_find m p)"
    by simp_all
qed

section \<open>Sample counts\<close>

fun mean_count :: "metric \<Rightarrow> u64" where
  "mean_count (Metric name (Mean value count)) = count"
| "mean_count _ = 0"

definition is_mean :: "metric \<Rightarrow> bool" where
  "is_mean m \<longleftrightarrow> (case metric_value m of Mean v c \<Rightarrow> True | _ \<Rightarrow> False)"

lemma ConcatMetrics_mean:
  assumes "is_mean a" "is_mean b"
  shows "is_mean (ConcatMetrics a b)" "mean_count (ConcatMetrics a b) = mean_count a + mean_count b"
  using assms
  by (cases a; cases b; auto simp: is_mean_def Let_def split: metric_value.splits)+

lemma ConcatMetrics_not_mean:
  assumes "\<not> (is_mean a \<and> is_mean b)"
  shows "ConcatMetrics a b = Metric '''' VALUE_NOT_SET"
  using assms
  by (cases "(a, b)" rule: ConcatMetrics.cases) (auto simp: is_mean_def)

lemma fold_ConcatMetrics:
  assumes "\<forall>x \<in> set xs. is_mean x" "is_mean a"
  shows "\<exists>b. fold (\<lambda>x a. Some (case a of None \<Rightarrow> x | Some v \<Rightarrow> ConcatMetrics v x)) xs (Some a) = Some b \<and>
     is_mean b \<and> mean_count b = mean_count a + sum_list (map mean_count xs)"
  using assms
proof (induction xs arbitrary: a)
  case (Cons x xs)
  have "is_mean (ConcatMetrics a x)" "mean_count (ConcatMetrics a x) = mean_count a + mean_count x"
    using Cons.prems by (auto intro: ConcatMetrics_mean)
  with Cons.IH [of "ConcatMetrics a x"] Cons.prems show ?case by (auto simp: add.assoc)
qed simp

section \<open>Group pointers\<close>

lemma group_at_new: "group_at (fst (AddMetricGroup ms name)) (snd (AddMetricGroup ms name)) = ret []"
  by (simp add: AddMetricGroup_def group_at_def)

lemma group_at_append: "group_at ms ptr = ret g \<Longrightarrow> group_at (ms @ ns) ptr = ret g"
  by (auto simp: group_at_def nth_append split: if_splits metric_value.splits)

lemma group_update_ret:
  assumes "group_at ms ptr = ret g"
  shows "\<exists>ms'. group_update ms ptr h = ret ms' \<and> length ms' = length ms \<and> group_at ms' ptr = ret h \<and>
     (\<forall>q. q \<noteq> ptr \<longrightarrow> group_at ms' q = group_at ms q)"
proof -
  have "ptr < length ms" using assms by (auto simp: group_at_def split: if_splits)
  then show ?thesis using assms by (simp add: group_update_def) (auto simp: group_at_def nth_list_update)
qed

section \<open>Properties\<close>

text \<open>
  Collecting the metrics of a game: \<open>Append\<close> always returns, and for
  every path the number of samples behind the collected mean grows by the samples of the
  message under that path, modulo \<open>2 ^ 64\<close>, whatever the grouping of the message.
\<close>

theorem Append_conserves:
  assumes "smap_wf m" "\<forall>x \<in> set (leaves '''' ms). fst x = p \<longrightarrow> is_mean (snd x)"
    "smap_find m p = Some old" "is_mean old"
  shows "\<exists>m' new. MetricCollector_Append m ms = ret m' \<and> smap_wf m' \<and> smap_find m' p = Some new \<and>
    is_mean new \<and>
    mean_count new = mean_count old +
      sum_list (map (\<lambda>x. mean_count (snd x)) (filter (\<lambda>x. fst x = p) (leaves '''' ms)))"
proof -
  obtain m' where m': "MetricCollector_Append m ms = ret m'" by (simp add: MetricCollector_Append_leaves)
  note found = MetricCollector_Append_find [OF assms(1) m']
  have "\<forall>x \<in> set (map snd (filter (\<lambda>kx. fst kx = p) (leaves '''' ms))). is_mean x" using assms(2) by auto
  from fold_ConcatMetrics [OF this assms(4)] found(1) found(2) [of p] m' show ?thesis
    by (simp add: assms(3) comp_def)
qed

theorem Append_conserves_witness:
  "\<exists>m' new. MetricCollector_Append [(''/a/x'', Metric ''x'' (Mean (Fin 1) 2))]
       [Metric ''a'' (Group [Metric ''x'' (Mean (Fin 3) 5), Metric ''x'' (Mean (Fin 3) 1)])] = ret m' \<and>
     smap_wf m' \<and> smap_find m' ''/a/x'' = Some new \<and> is_mean new \<and> mean_count new = 8"
  using Append_conserves [of "[(''/a/x'', Metric ''x'' (Mean (Fin 1) 2))]"
      "[Metric ''a'' (Group [Metric ''x'' (Mean (Fin 3) 5), Metric ''x'' (Mean (Fin 3) 1)])]" "''/a/x''"
      "Metric ''x'' (Mean (Fin 1) 2)"]
  by (simp add: smap_wf_def is_mean_def)

end
