(* ===== verification/Actor_Config.thy ===== *)
theory Actor_Config
  imports Float32
begin

text \<open>
  Actor specifications: \<^verbatim>\<open>gomoku/actors/actor_config.cc\<close> on the messages of
  \<^verbatim>\<open>gomoku/actors/actor_spec.proto\<close>. A getter returns whether it found the key, and the
  contents of its out-parameter afterwards.
\<close>

record config_item =
  item_key :: string
  item_string :: string
  item_floating :: fp
  item_integer :: int

type_synonym actor_config = "config_item list"

record actor_spec =
  spec_name :: string
  spec_type :: string
  spec_config :: actor_config

text \<open>A new message has the proto3 defaults.\<close>

definition new_item :: config_item where
  "new_item = \<lparr>item_key = '''', item_string = '''', item_floating = Fin 0, item_integer = 0\<rparr>"

fun GetConfigString :: "actor_config \<Rightarrow> string \<Rightarrow> string \<Rightarrow> bool \<times> string" where
  "GetConfigString [] key value = (False, value)"
| "GetConfigString (item # config) key value =
     (if item_key item = key then (True, item_string item) else GetConfigString config key value)"

fun GetConfigFloat :: "actor_config \<Rightarrow> string \<Rightarrow> fp \<Rightarrow> bool \<times> fp" where
  "GetConfigFloat [] key value = (False, value)"
| "GetConfigFloat (item # config) key value =
     (if item_key item = key then (True, item_floating item) else GetConfigFloat config key value)"

fun GetConfigInt :: "actor_config \<Rightarrow> string \<Rightarrow> int \<Rightarrow> bool \<times> int" where
  "GetConfigInt [] key value = (False, value)"
| "GetConfigInt (item # config) key value =
     (if item_key item = key then (True, item_integer item) else GetConfigInt config key value)"

definition AddConfigItem_string :: "actor_config \<Rightarrow> string \<Rightarrow> string \<Rightarrow> actor_config" where
  "AddConfigItem_string config key value =
     config @ [new_item\<lparr>item_key := key, item_string := value\<rparr>]"

definition AddConfigItem_float :: "actor_config \<Rightarrow> string \<Rightarrow> fp \<Rightarrow> actor_config" where
  "AddConfigItem_float config key value =
     config @ [new_item\<lparr>item_key := key, item_floating := value\<rparr>]"

definition AddConfigItem_int :: "actor_config \<Rightarrow> string \<Rightarrow> int \<Rightarrow> actor_config" where
  "AddConfigItem_int config key value =
     config @ [new_item\<lparr>item_key := key, item_integer := value\<rparr>]"

section \<open>Adding and finding\<close>

text \<open>
  The three getters are one search, read at three fields; the first item with the key wins,
  so an item added later under an existing key is never seen.
\<close>

lemma Get_find:
  "GetConfigString config key v =
     (case List.find (\<lambda>i. item_key i = key) config of None \<Rightarrow> (False, v) | Some i \<Rightarrow> (True, item_string i))"
  "GetConfigFloat config key f =
     (case List.find (\<lambda>i. item_key i = key) config of None \<Rightarrow> (False, f) | Some i \<Rightarrow> (True, item_floating i))"
  "GetConfigInt config key n =
     (case List.find (\<lambda>i. item_key i = key) config of None \<Rightarrow> (False, n) | Some i \<Rightarrow> (True, item_integer i))"
  by (induction config) auto

lemma find_append:
  "List.find P (xs @ ys) = (case List.find P xs of None \<Rightarrow> List.find P ys | Some x \<Rightarrow> Some x)"
  by (induction xs) auto

lemma Get_after_Add:
  "GetConfigString (AddConfigItem_string config key value) k v =
     (if fst (GetConfigString config k v) \<or> k \<noteq> key then GetConfigString config k v else (True, value))"
  "GetConfigFloat (AddConfigItem_float config key value') k v' =
     (if fst (GetConfigFloat config k v') \<or> k \<noteq> key then GetConfigFloat config k v' else (True, value'))"
  "GetConfigInt (AddConfigItem_int config key value'') k v'' =
     (if fst (GetConfigInt config k v'') \<or> k \<noteq> key then GetConfigInt config k v'' else (True, value''))"
  by (auto simp: Get_find find_append AddConfigItem_string_def AddConfigItem_float_def
      AddConfigItem_int_def new_item_def split: option.splits)

section \<open>Properties\<close>

text \<open>
  A getter after adding an item: an item that was found before stays, the new
  item is found under its key otherwise, and other keys are not affected; the default is
  left in place when nothing is found.
\<close>

theorem config_lookup:
  "GetConfigString (AddConfigItem_string config key value) k v =
     (if k = key \<and> \<not> fst (GetConfigString config k v) then (True, value) else GetConfigString config k v) \<and>
   GetConfigFloat (AddConfigItem_float config key value') k v' =
     (if k = key \<and> \<not> fst (GetConfigFloat config k v') then (True, value') else GetConfigFloat config k v') \<and>
   GetConfigInt (AddConfigItem_int config key value'') k v'' =
     (if k = key \<and> \<not> fst (GetConfigInt config k v'') then (True, value'') else GetConfigInt config k v'')"
  by (auto simp: Get_after_Add)

end
