(* ===== verification/Actors.thy ===== *)
theory Actors
  imports Mc_Cell Metrics Actor_Config
begin

text \<open>
  The players: the interface \<^verbatim>\<open>gomoku/core/actor.h\<close>, its implementations
  \<^verbatim>\<open>gomoku/actors/random_actor.cc\<close> and \<^verbatim>\<open>gomoku/actors/monte_carlo_actor.cc\<close>, and the
  registry \<^verbatim>\<open>gomoku/actors/actor_registry.cc\<close>.

  A \<open>StopSignal\<close> is a function of the state \<open>'w\<close> of the environment (the clock), which it
  may change. The C++ library's random engine and distributions, and Eigen, are the
  parameter \<open>actor_lib\<close>. An actor's \<open>Metrics*\<close> is an index into the metrics of the response
  under construction, which \<open>ChooseMove\<close> takes and returns.

  The simulation loops of \<open>MonteCarloActor::ChooseMove\<close> are \<^theory_text>\<open>partial_function (option)\<close>:
  \<^const>\<open>None\<close> is a loop that never ends.
\<close>

type_synonym 'w stop_signal = "'w \<Rightarrow> bool \<times> 'w"

record 'g actor_lib =
  uniform_int :: "'g uniform_int"
  discrete :: "'g discrete"
  seed_engine :: "int \<Rightarrow> 'g"
  engine_next :: "'g \<Rightarrow> u64 \<times> 'g"
  eigen :: eigen_lib

definition lib_ok :: "'g actor_lib \<Rightarrow> bool" where
  "lib_ok L \<longleftrightarrow> uniform_int_ok (uniform_int L) \<and> discrete_ok (discrete L) \<and> eigen_ok (eigen L)"

section \<open>The random actor\<close>

record 'g random_actor =
  ra_board :: board
  ra_rng :: 'g

definition RandomActor_GameStarted ::
  "'g actor_lib \<Rightarrow> player \<Rightarrow> int \<Rightarrow> nat \<Rightarrow> 'g random_actor \<Rightarrow> 'g random_actor" where
  "RandomActor_GameStarted L me seed metrics a =
     a\<lparr>ra_board := Reset (ra_board a), ra_rng := seed_engine L seed\<rparr>"

definition RandomActor_ObserveMove :: "vector2i \<Rightarrow> 'g random_actor \<Rightarrow> 'g random_actor res" where
  "RandomActor_ObserveMove move a =
     bnd (ApplyMove (ra_board a) move) (\<lambda>b. ret (a\<lparr>ra_board := b\<rparr>))"

definition RandomActor_ChooseMove ::
  "'g actor_lib \<Rightarrow> 'w stop_signal \<Rightarrow> 'g random_actor \<Rightarrow> metrics \<Rightarrow> 'w \<Rightarrow>
   (vector2i \<times> 'g random_actor \<times> metrics \<times> 'w) res" where
  "RandomActor_ChooseMove L stop_signal a ms w =
     bnd (UniformlySampleLegalMove (uniform_int L) (ra_board a) (ra_rng a)) (\<lambda>(move, rng).
     ret (move, a\<lparr>ra_rng := rng\<rparr>, ms, w))"

section \<open>The Monte Carlo actor\<close>

record 'g mc_actor =
  mc_board :: board
  mc_rng :: 'g
  mc_metrics :: nat

definition MonteCarloActor_GameStarted ::
  "'g actor_lib \<Rightarrow> player \<Rightarrow> int \<Rightarrow> nat \<Rightarrow> 'g mc_actor \<Rightarrow> 'g mc_actor" where
  "MonteCarloActor_GameStarted L me seed metrics a =
     a\<lparr>mc_board := Reset (mc_board a), mc_rng := seed_engine L seed, mc_metrics := metrics\<rparr>"

definition MonteCarloActor_ObserveMove :: "vector2i \<Rightarrow> 'g mc_actor \<Rightarrow> 'g mc_actor res" where
  "MonteCarloActor_ObserveMove move a =
     bnd (ApplyMove (mc_board a) move) (\<lambda>b. ret (a\<lparr>mc_board := b\<rparr>))"

text \<open>One simulated game: random moves until somebody wins.\<close>

partial_function (option) mc_playout ::
  "'g uniform_int \<Rightarrow> board \<Rightarrow> vector2i \<Rightarrow> 'g \<Rightarrow> (fatal + board \<times> 'g) option" where
  "mc_playout draw b move rng =
     bnd (DidWin b move) (\<lambda>won. if won then ret (b, rng) else
     bnd (UniformlySampleLegalMove draw b rng) (\<lambda>(move', rng').
     bnd (ApplyMove b move') (\<lambda>b'. mc_playout draw b' move' rng')))"

text \<open>The body of the loop over simulated games.\<close>

definition mc_iteration ::
  "'g actor_lib \<Rightarrow> cell_kind \<Rightarrow> board \<Rightarrow> cell \<Rightarrow> 'g \<Rightarrow> (cell \<times> 'g) res" where
  "mc_iteration L kind b0 c rng =
     bnd (StoneMatrix b0 NONE) (\<lambda>legal_moves.
     let (exploring_move, rng1) =
       SampleSoftmax (eigen L) (discrete L) (win_prob c) legal_moves (Fin 1) rng in
     bnd (ApplyMove b0 exploring_move) (\<lambda>b1.
     bnd (mc_playout (uniform_int L) b1 exploring_move rng1) (\<lambda>(b2, rng2).
     bnd (PlayerMap_at kOpponent (CurrentPlayer b2)) (\<lambda>winner.
     let score = (if winner = CurrentPlayer b0 then Fin 1 else Fin 0) in
     bnd (Cell_Update kind c exploring_move score) (\<lambda>c'.
     ret (c', rng2))))))"

partial_function (option) mc_loop ::
  "'g actor_lib \<Rightarrow> cell_kind \<Rightarrow> 'w stop_signal \<Rightarrow> board \<Rightarrow> cell \<Rightarrow> 'g \<Rightarrow> int \<Rightarrow> 'w \<Rightarrow>
   (fatal + cell \<times> 'g \<times> int \<times> 'w) option" where
  "mc_loop L kind stop_signal b0 c rng iterations w =
     (case stop_signal w of (stop, w') \<Rightarrow>
      if stop then ret (c, rng, iterations, w') else
      bnd (mc_iteration L kind b0 c rng) (\<lambda>(c', rng').
      bnd (int32 (iterations + 1)) (\<lambda>iterations'.
      mc_loop L kind stop_signal b0 c' rng' iterations' w')))"

text \<open>\<open>AddMetricMean(metrics_, \<dots>)\<close> through the pointer.\<close>

definition add_metric_at ::
  "metrics \<Rightarrow> nat \<Rightarrow> string \<Rightarrow> int \<Rightarrow> fp \<Rightarrow> metrics res" where
  "add_metric_at ms ptr name key value =
     bnd (group_at ms ptr) (\<lambda>g. bnd (AddMetricMean_key g name key value) (group_update ms ptr))"

definition kLearningRate :: fp where
  "kLearningRate = f32 (1 / 1000)"

definition MonteCarloActor_ChooseMove ::
  "'g actor_lib \<Rightarrow> cell_kind \<Rightarrow> 'w stop_signal \<Rightarrow> 'g mc_actor \<Rightarrow> metrics \<Rightarrow> 'w \<Rightarrow>
   (vector2i \<times> 'g mc_actor \<times> metrics \<times> 'w) res" where
  "MonteCarloActor_ChooseMove L kind stop_signal a ms w =
     (let c0 = new_cell kind (mat_constant (Fin (1 / 2))) kLearningRate in
      bnd (mc_loop L kind stop_signal (mc_board a) c0 (mc_rng a) 0 w) (\<lambda>(c, rng, iterations, w').
      bnd (add_metric_at ms (mc_metrics a) ''iterations'' (MovesMade (mc_board a))
             (fp_of_int float32 iterations)) (\<lambda>ms1.
      bnd (StoneMatrix (mc_board a) NONE) (\<lambda>legal_moves.
      let move = SampleGreedy (eigen L) (win_prob c) legal_moves in
      bnd (mat_at (win_prob c) (fst move) (snd move)) (\<lambda>expected.
      bnd (add_metric_at ms1 (mc_metrics a) ''expected_score'' (MovesMade (mc_board a)) expected) (\<lambda>ms2.
      ret (move, a\<lparr>mc_rng := rng\<rparr>, ms2, w')))))))"

section \<open>The \<open>Actor\<close> interface and its dispatch\<close>

datatype 'g actor = RandomA "'g random_actor" | MonteCarloA cell_kind "'g mc_actor"

fun GameStarted :: "'g actor_lib \<Rightarrow> player \<Rightarrow> int \<Rightarrow> nat \<Rightarrow> 'g actor \<Rightarrow> 'g actor" where
  "GameStarted L me seed metrics (RandomA a) = RandomA (RandomActor_GameStarted L me seed metrics a)"
| "GameStarted L me seed metrics (MonteCarloA k a) =
     MonteCarloA k (MonteCarloActor_GameStarted L me seed metrics a)"

fun ObserveMove :: "vector2i \<Rightarrow> 'g actor \<Rightarrow> 'g actor res" where
  "ObserveMove move (RandomA a) = bnd (RandomActor_ObserveMove move a) (\<lambda>a'. ret (RandomA a'))"
| "ObserveMove move (MonteCarloA k a) =
     bnd (MonteCarloActor_ObserveMove move a) (\<lambda>a'. ret (MonteCarloA k a'))"

fun ChooseMove ::
  "'g actor_lib \<Rightarrow> 'w stop_signal \<Rightarrow> 'g actor \<Rightarrow> metrics \<Rightarrow> 'w \<Rightarrow>
   (vector2i \<times> 'g actor \<times> metrics \<times> 'w) res" where
  "ChooseMove L stop_signal (RandomA a) ms w =
     bnd (RandomActor_ChooseMove L stop_signal a ms w) (\<lambda>(move, a', ms', w').
     ret (move, RandomA a', ms', w'))"
| "ChooseMove L stop_signal (MonteCarloA k a) ms w =
     bnd (MonteCarloActor_ChooseMove L k stop_signal a ms w) (\<lambda>(move, a', ms', w').
     ret (move, MonteCarloA k a', ms', w'))"

section \<open>The registry\<close>

type_synonym 'a actor_factory = "actor_config \<Rightarrow> 'a res"
type_synonym 'a actor_registry = "(string, 'a actor_factory) smap"

definition ActorRegistry_Create ::
  "'a actor_registry \<Rightarrow> string \<Rightarrow> actor_config \<Rightarrow> 'a res" where
  "ActorRegistry_Create registry type config =
     (case smap_find registry type of
        None \<Rightarrow> abort (CheckFailed (''Unknown actor type '' @ type))
      | Some factory \<Rightarrow> factory config)"

definition ActorRegistry_Register ::
  "string \<Rightarrow> 'a actor_factory \<Rightarrow> 'a actor_registry \<Rightarrow> bool \<times> 'a actor_registry" where
  "ActorRegistry_Register type factory registry = smap_insert type factory registry"

definition ActorRegistry_Actors :: "'a actor_registry \<Rightarrow> 'a actor_registry" where
  "ActorRegistry_Actors registry = registry"

definition ActorRegistrar ::
  "string \<Rightarrow> 'a actor_factory \<Rightarrow> 'a actor_registry \<Rightarrow> 'a actor_registry res" where
  "ActorRegistrar type factory registry =
     (let (inserted, registry') = ActorRegistry_Register type factory registry in
      CHECK inserted ''ActorRegistry::Global()->Register(type, std::move(factory))'' (ret registry'))"

text \<open>
  The two registered factories. A new actor has a starting board and the engine's default
  state \<open>g0\<close>; its metrics pointer is set by \<open>GameStarted\<close>.
\<close>

definition RandomActor_factory :: "'g \<Rightarrow> 'g actor actor_factory" where
  "RandomActor_factory g0 config = ret (RandomA \<lparr>ra_board = new_board, ra_rng = g0\<rparr>)"

definition MonteCarloActor_factory :: "'g \<Rightarrow> 'g actor actor_factory" where
  "MonteCarloActor_factory g0 config =
     (let (found, cell) = GetConfigString config ''cell'' '''' in
      CHECK found ''GetConfigString(config, \"cell\", &cell)'' (
      if cell = ''linear'' then
        ret (MonteCarloA Linear \<lparr>mc_board = new_board, mc_rng = g0, mc_metrics = 0\<rparr>)
      else if cell = ''logistic'' then
        ret (MonteCarloA Logistic \<lparr>mc_board = new_board, mc_rng = g0, mc_metrics = 0\<rparr>)
      else abort (LogFatal (''Unknown cell '' @ cell))))"

text \<open>The static initialisers of the two files fill the empty global registry.\<close>

definition global_registry :: "'g \<Rightarrow> 'g actor actor_registry res" where
  "global_registry g0 =
     bnd (ActorRegistrar ''RandomActor'' (RandomActor_factory g0) smap_empty)
       (ActorRegistrar ''MonteCarloActor'' (MonteCarloActor_factory g0))"

section \<open>Simulated games\<close>

text \<open>The only way a simulated game ends the process.\<close>

abbreviation moves_exhausted :: fatal where
  "moves_exhausted \<equiv> LogFatal ''All legal moves exhausted''"

lemma mc_playout_total:
  assumes "uniform_int_ok draw" "legal_history (hs @ [m])"
  shows "(\<exists>rest g'. mc_playout draw (board_of (hs @ [m])) m g = ret (board_of (hs @ m # rest), g') \<and>
            legal_history (hs @ m # rest)) \<or>
         mc_playout draw (board_of (hs @ [m])) m g = abort moves_exhausted"
  using assms(2)
proof (induction "361 - length hs" arbitrary: hs m g rule: less_induct)
  case less
  let ?h = "hs @ [m]"
  note unfolded = mc_playout.simps [of draw "board_of ?h" m g] DidWin_board_of [OF less.prems]
  show ?case
  proof (cases "list_ex (five_through (stone_after ?h) (mover (length hs)) m) directions")
    case True
    with less.prems unfolded show ?thesis by auto
  next
    case False
    show ?thesis
    proof (cases "set ?h = {p. Inside p}")
      case True
      with False unfolded UniformlySampleLegalMove_board_of(2) [OF assms(1) less.prems True, of g]
      show ?thesis by simp
    next
      case not_full: False
      then obtain m' g' where m': "UniformlySampleLegalMove draw (board_of ?h) g = ret (m', g')"
        "Inside m'" "m' \<notin> set ?h"
        using UniformlySampleLegalMove_board_of(1) [OF assms(1) less.prems] by blast
      have legal: "legal_history (?h @ [m'])" using less.prems m' legal_history_snoc by blast
      have "length ?h \<le> 361" using less.prems legal_history_length(1) by blast
      then have "361 - length ?h < 361 - length hs" by simp
      from less.hyps [OF this legal, of g'] show ?thesis
        using False unfolded m' ApplyMove_legal [of m' ?h] by auto
    qed
  qed
qed

lemma mc_iteration_linear:
  assumes "lib_ok L" "legal_history hs" "set hs \<noteq> {p. Inside p}" "linear_ok c"
  shows "(\<exists>c' g'. mc_iteration L Linear (board_of hs) c g = ret (c', g') \<and> linear_ok c') \<or>
         mc_iteration L Linear (board_of hs) c g = abort moves_exhausted"
proof -
  obtain q where q: "Inside q" "stone_after hs q = NONE"
    using assms(2,3) legal_history_Inside stone_after_range by blast
  have L: "uniform_int_ok (uniform_int L)" "discrete_ok (discrete L)" "eigen_ok (eigen L)"
    using assms(1) by (simp_all add: lib_ok_def)
  obtain m g1 where sm: "SampleSoftmax (eigen L) (discrete L) (win_prob c)
      (mat_of (\<lambda>p. indicator (stone_after hs p = NONE))) (Fin 1) g = (m, g1)"
    by (metis surj_pair)
  have m: "Inside m" "m \<notin> set hs"
    using linear.softmax_masked [where P = "\<lambda>p. stone_after hs p = NONE",
        OF L(3,2) assms(4) q, of g] unfolding sm by (simp_all add: stone_after_range)
  then have legal: "legal_history (hs @ [m])" using assms(2) legal_history_snoc by blast
  from mc_playout_total [OF L(1) legal, of g1] show ?thesis
  proof (elim disjE exE conjE)
    fix rest g2
    assume po: "mc_playout (uniform_int L) (board_of (hs @ [m])) m g1 = ret (board_of (hs @ m # rest), g2)"
    let ?score = "if opponent (mover (length (hs @ m # rest))) = mover (length hs) then Fin 1 else Fin 0"
    have "fp_in 0 1 ?score" by simp
    from McLinearCell_Update_ok [OF assms(4) m(1) this]
    obtain c' where "McLinearCell_Update c m ?score = ret c'" "linear_ok c'" by blast
    with po m show ?thesis
      by (simp add: mc_iteration_def StoneMatrix_board_of sm ApplyMove_legal CurrentPlayer_def
          PlayerMap_at_mover)
  next
    assume "mc_playout (uniform_int L) (board_of (hs @ [m])) m g1 = abort moves_exhausted"
    with m show ?thesis
      by (simp add: mc_iteration_def StoneMatrix_board_of sm ApplyMove_legal)
  qed
qed

text \<open>A stop signal that fires at call \<open>n\<close> after the first, and one that fires within that many calls.\<close>

primrec stops_at :: "nat \<Rightarrow> 'w stop_signal \<Rightarrow> 'w \<Rightarrow> 'w \<Rightarrow> bool" where
  "stops_at 0 stop w w' \<longleftrightarrow> stop w = (True, w')"
| "stops_at (Suc n) stop w w' \<longleftrightarrow> \<not> fst (stop w) \<and> stops_at n stop (snd (stop w)) w'"

primrec stops_within :: "nat \<Rightarrow> 'w stop_signal \<Rightarrow> 'w \<Rightarrow> bool" where
  "stops_within 0 stop w = fst (stop w)"
| "stops_within (Suc n) stop w = (fst (stop w) \<or> stops_within n stop (snd (stop w)))"

lemma stops_at_within: "stops_at n stop w w' \<Longrightarrow> stops_within k stop w \<Longrightarrow> n \<le> k"
proof (induction n arbitrary: k w)
  case (Suc n)
  then show ?case by (cases k) auto
qed simp

abbreviation counter_overflow :: fatal where
  "counter_overflow \<equiv> Undefined ''signed overflow''"

text \<open>
  How the loop over simulated games can end, given that it ends: a simulated game fills the board, the counter
  overflows (then the stop signal did not fire in time), or the loop has counted the games up to the stop signal.
\<close>

lemma mc_loop_linear:
  assumes "lib_ok L" "legal_history hs" "set hs \<noteq> {p. Inside p}" "linear_ok c" "0 \<le> n" "n < 2 ^ 31"
    "mc_loop L Linear stop (board_of hs) c g n w = Some r"
  shows "r = Inl moves_exhausted \<or> r = Inl counter_overflow \<and> (\<forall>k. stops_within k stop w \<longrightarrow> 2 ^ 31 \<le> n + int k) \<or>
    (\<exists>c' g' k w'. r = Inr (c', g', n + int k, w') \<and> linear_ok c' \<and> stops_at k stop w w')"
proof -
  let ?Q = "\<lambda>st n w r. r = Inl moves_exhausted \<or> r = Inl counter_overflow \<and> (\<forall>k. stops_within k st w \<longrightarrow> 2 ^ 31 \<le> n + int k) \<or>
    (\<exists>c' g' k w'. r = Inr (c', g', n + int k, w') \<and> linear_ok c' \<and> stops_at k st w w')"
  let ?P = "\<lambda>L' kind st b c g n w r. L' = L \<and> kind = Linear \<and> b = board_of hs \<and> linear_ok c \<and> 0 \<le> n \<and> n < 2 ^ 31 \<longrightarrow> ?Q st n w r"
  have "?P L Linear stop (board_of hs) c g n w r"
  proof (rule mc_loop.raw_induct [where P = ?P, OF _ assms(7)], intro impI, elim conjE)
    fix f L' kind and st :: "'b stop_signal" and b c g n w r
    assume IH: "\<And>L kind st b c g n w r. f L kind st b c g n w = Some r \<Longrightarrow> ?P L kind st b c g n w r"
      and eq: "(case st w of (stop, w') \<Rightarrow> if stop then ret (c, g, n, w') else
        bnd (mc_iteration L' kind b c g) (\<lambda>(c', g'). bnd (int32 (n + 1)) (\<lambda>n'. f L' kind st b c' g' n' w'))) = Some r"
      and args: "L' = L" "kind = Linear" "b = board_of hs" "linear_ok c" and n: "0 \<le> n" "n < 2 ^ 31"
    obtain stop w' where sw: "st w = (stop, w')" by (cases "st w")
    show "?Q st n w r"
    proof (cases stop)
      case True
      with eq sw args(4) have "r = Inr (c, g, n + int 0, w') \<and> linear_ok c \<and> stops_at 0 st w w'" by (simp add: ret_def)
      then show ?thesis by blast
    next
      case False
      from mc_iteration_linear [OF assms(1-3) args(4), of g] show ?thesis
      proof (elim disjE exE conjE)
        fix c1 g1 assume it: "mc_iteration L Linear (board_of hs) c g = ret (c1, g1)" "linear_ok c1"
        with eq sw False args have next1: "bnd (int32 (n + 1)) (\<lambda>n'. f L Linear st (board_of hs) c1 g1 n' w') = Some r" by simp
        have later: "stops_within k st w \<longleftrightarrow> (\<exists>j. k = Suc j \<and> stops_within j st w')" for k
          using sw False by (cases k) simp_all
        show ?thesis
        proof (cases "n + 1 < 2 ^ 31")
          case True
          then have "f L Linear st (board_of hs) c1 g1 (n + 1) w' = Some r" using next1 n by (simp add: int32_def)
          from IH [OF this] it(2) n True have "?Q st (n + 1) w' r" by simp
          then show ?thesis
          proof (elim disjE exE conjE)
            fix c' g' k w'' assume "r = Inr (c', g', n + 1 + int k, w'')" "linear_ok c'" "stops_at k st w' w''"
            then have "r = Inr (c', g', n + int (Suc k), w'') \<and> linear_ok c' \<and> stops_at (Suc k) st w w''" using sw False by simp
            then show ?thesis by blast
          qed (auto simp: later)
        next
          case False
          then have "r = Inl counter_overflow" using next1 n by (simp add: int32_def abort_def bnd_def)
          moreover have "2 ^ 31 \<le> n + int k" if "stops_within k st w" for k using that False by (auto simp: later)
          ultimately show ?thesis by blast
        qed
      next
        assume "mc_iteration L Linear (board_of hs) c g = abort moves_exhausted"
        with eq sw False args have "abort moves_exhausted = Some r" by simp
        then show ?thesis by (simp add: abort_def)
      qed
    qed
  qed
  then show ?thesis using assms(4-6) by simp
qed

lemma mc_loop_returns:
  assumes "lib_ok L" "legal_history hs" "set hs \<noteq> {p. Inside p}"
  shows "linear_ok c \<Longrightarrow> stops_within k stop w \<Longrightarrow>
    mc_loop L Linear stop (board_of hs) c g n w \<noteq> None"
proof (induction k arbitrary: c g n w)
  case 0
  then show ?case by (subst mc_loop.simps) (simp add: case_prod_unfold)
next
  case (Suc k)
  show ?case
  proof (cases "fst (stop w)")
    case True
    then show ?thesis by (subst mc_loop.simps) (simp add: case_prod_unfold)
  next
    case False
    with Suc.prems have k: "stops_within k stop (snd (stop w))" by simp
    from mc_iteration_linear [OF assms Suc.prems(1), of g] show ?thesis
    proof (elim disjE exE conjE)
      fix c1 g1 assume it: "mc_iteration L Linear (board_of hs) c g = ret (c1, g1)" "linear_ok c1"
      with False Suc.IH [OF it(2) k, of g1] show ?thesis
        by (subst mc_loop.simps) (simp add: case_prod_unfold int32_def, simp add: abort_def)
    next
      assume "mc_iteration L Linear (board_of hs) c g = abort moves_exhausted"
      with False show ?thesis by (subst mc_loop.simps) (simp add: case_prod_unfold)
    qed
  qed
qed

lemma initial_cell: "linear_ok (new_cell Linear (mat_constant (Fin (1 / 2))) kLearningRate)"
proof -
  have rate: "kLearningRate = Fin (8589935 / 8589934592)" unfolding kLearningRate_def by code_simp
  have "min_pos float32 \<le> pow2 (- 1)"
    unfolding min_pos_def pow2_le_iff by simp
  then have "min_pos float32 \<le> 1 / 2" by (simp add: pow2_def)
  then have "fp_in (min_pos float32) 1 (Fin (1 / 2))" by simp
  then show ?thesis
    by (simp add: linear_ok_def probs_ok_def McLinearCell_def rate mat_constant_def list_all_iff)
qed

text \<open>A chosen move is legal after \<open>hs\<close>, and no metrics group got lost.\<close>

definition groups_kept :: "metrics \<Rightarrow> metrics \<Rightarrow> bool" where
  "groups_kept ms ms' \<longleftrightarrow> (\<forall>q h. group_at ms q = ret h \<longrightarrow> (\<exists>h'. group_at ms' q = ret h'))"

definition legal_choice :: "vector2i list \<Rightarrow> metrics \<Rightarrow> vector2i \<Rightarrow> metrics \<Rightarrow> bool" where
  "legal_choice hs ms m ms' \<longleftrightarrow> Inside m \<and> m \<notin> set hs \<and> groups_kept ms ms'"

lemma groups_kept_refl [simp]: "groups_kept ms ms"
  by (simp add: groups_kept_def)

lemma groups_kept_trans: "groups_kept a b \<Longrightarrow> groups_kept b c \<Longrightarrow> groups_kept a c"
  unfolding groups_kept_def by metis

text \<open>The metrics of one choice: two means behind the ones in the actor's group.\<close>

definition choice_metrics :: "nat \<Rightarrow> nat \<Rightarrow> fp \<Rightarrow> metrics" where
  "choice_metrics moves games expected =
     [Metric (''iterations/'' @ FastInt32ToBufferLeft (word_of_int (int moves))) (Mean (fp_of_int float32 (int games)) 1),
      Metric (''expected_score/'' @ FastInt32ToBufferLeft (word_of_int (int moves))) (Mean expected 1)]"

lemma add_two_metrics:
  assumes "group_at ms ptr = ret gr"
  shows "\<exists>ms1. add_metric_at ms ptr ''iterations'' (int n) (fp_of_int float32 (int k)) = ret ms1 \<and>
    add_metric_at ms1 ptr ''expected_score'' (int n) e =
      ret (ms[ptr := Metric (metric_name (ms ! ptr)) (Group (gr @ choice_metrics n k e))])"
proof -
  have "ptr < length ms" using assms by (auto simp: group_at_def split: if_splits)
  then show ?thesis using assms
    by (simp add: add_metric_at_def AddMetricMean_key_def AddMetricMean_def group_update_def choice_metrics_def)
      (simp add: group_at_def)
qed

text \<open>What follows the loop of simulated games.\<close>

lemma MonteCarlo_after_loop:
  assumes L: "lib_ok L" and hs: "legal_history hs" "set hs \<noteq> {p. Inside p}"
    and a: "mc_board a = board_of hs" "group_at ms (mc_metrics a) = ret gr"
    and loop: "mc_loop L Linear stop (board_of hs)
      (new_cell Linear (mat_constant (Fin (1 / 2))) kLearningRate) (mc_rng a) 0 w = ret (c, g', int k, w')"
    and c: "linear_ok c"
  shows "\<exists>m e. MonteCarloActor_ChooseMove L Linear stop a ms w = ret (m, a\<lparr>mc_rng := g'\<rparr>,
      ms[mc_metrics a := Metric (metric_name (ms ! mc_metrics a)) (Group (gr @ choice_metrics (length hs) k e))], w') \<and>
    Inside m \<and> m \<notin> set hs \<and> fp_in (min_pos float32) 1 e"
proof -
  obtain q where q: "Inside q" "stone_after hs q = NONE"
    using hs legal_history_Inside stone_after_range by blast
  define m where "m = SampleGreedy (eigen L) (win_prob c) (mat_of (\<lambda>p. indicator (stone_after hs p = NONE)))"
  have m: "Inside m" "stone_after hs m = NONE"
    using linear.greedy_masked [where P = "\<lambda>p. stone_after hs p = NONE", OF _ c q, of "eigen L"] L
    by (simp_all add: m_def lib_ok_def)
  let ?e = "win_prob c ! mat_index (fst m) (snd m)"
  obtain ms1 where ms1: "add_metric_at ms (mc_metrics a) ''iterations'' (int (length hs)) (fp_of_int float32 (int k)) = ret ms1"
    "add_metric_at ms1 (mc_metrics a) ''expected_score'' (int (length hs)) ?e =
      ret (ms[mc_metrics a := Metric (metric_name (ms ! mc_metrics a)) (Group (gr @ choice_metrics (length hs) k ?e))])"
    using add_two_metrics [OF a(2)] by blast
  have ok: "length (win_prob c) = 361" "list_all (fp_in (min_pos float32) 1) (win_prob c)"
    using c by (simp_all add: linear_ok_def probs_ok_def)
  have "mat_at (win_prob c) (fst m) (snd m) = ret ?e" using ok(1) m(1) by (intro mat_at_ret) simp_all
  then have "MonteCarloActor_ChooseMove L Linear stop a ms w = ret (m, a\<lparr>mc_rng := g'\<rparr>,
      ms[mc_metrics a := Metric (metric_name (ms ! mc_metrics a)) (Group (gr @ choice_metrics (length hs) k ?e))], w')"
    using loop ms1 by (simp add: MonteCarloActor_ChooseMove_def a(1) StoneMatrix_board_of MovesMade_def flip: m_def)
  moreover have "fp_in (min_pos float32) 1 ?e"
    using ok mat_index_bound [of "fst m" "snd m"] m(1) by (simp add: list_all_length)
  ultimately show ?thesis using m by (auto simp: stone_after_range)
qed

text \<open>
  The Monte Carlo actor with linear cells on the board of a history that is not full: it
  never returns, overflows its counter, ends with \<^const>\<open>moves_exhausted\<close> in a simulated game, or picks a legal move.
\<close>

lemma MonteCarlo_linear_cases:
  assumes L: "lib_ok L" and hs: "legal_history hs" "set hs \<noteq> {p. Inside p}"
    and a: "mc_board a = board_of hs" "group_at ms (mc_metrics a) = ret gr"
  obtains (Diverges) "MonteCarloActor_ChooseMove L Linear stop a ms w = None"
      "\<And>k. \<not> stops_within k stop w"
  | (Late) "MonteCarloActor_ChooseMove L Linear stop a ms w = abort counter_overflow"
      "\<And>k. stops_within k stop w \<Longrightarrow> 2 ^ 31 \<le> k"
  | (Aborts) "MonteCarloActor_ChooseMove L Linear stop a ms w = abort moves_exhausted"
  | (Returns) m g' k e w' where
      "MonteCarloActor_ChooseMove L Linear stop a ms w = ret (m, a\<lparr>mc_rng := g'\<rparr>,
        ms[mc_metrics a := Metric (metric_name (ms ! mc_metrics a)) (Group (gr @ choice_metrics (length hs) k e))], w')"
      "Inside m" "m \<notin> set hs" "fp_in (min_pos float32) 1 e" "stops_at k stop w w'"
proof (cases "mc_loop L Linear stop (board_of hs)
    (new_cell Linear (mat_constant (Fin (1 / 2))) kLearningRate) (mc_rng a) 0 w")
  case None
  have "MonteCarloActor_ChooseMove L Linear stop a ms w = None"
    using None by (simp add: MonteCarloActor_ChooseMove_def a(1))
  moreover have "\<not> stops_within k stop w" for k
    using mc_loop_returns [OF L hs initial_cell, of k stop w] None by blast
  ultimately show ?thesis by (rule Diverges)
next
  case (Some r)
  have range: "(0 :: int) \<le> 0" "(0 :: int) < 2 ^ 31" by simp_all
  from mc_loop_linear [OF L hs initial_cell range Some] show ?thesis
  proof (elim disjE exE conjE)
    assume r: "r = Inl moves_exhausted"
    with Some show ?thesis
      by (intro Aborts) (simp add: MonteCarloActor_ChooseMove_def a(1) flip: abort_def)
  next
    assume "r = Inl counter_overflow" and late: "\<forall>k. stops_within k stop w \<longrightarrow> 2 ^ 31 \<le> 0 + int k"
    then have "MonteCarloActor_ChooseMove L Linear stop a ms w = abort counter_overflow"
      using Some by (simp add: MonteCarloActor_ChooseMove_def a(1) flip: abort_def)
    moreover have "2 ^ 31 \<le> k" if "stops_within k stop w" for k
      using late that by fastforce
    ultimately show ?thesis by (rule Late)
  next
    fix c g' k w' assume "r = Inr (c, g', 0 + int k, w')" and c: "linear_ok c" "stops_at k stop w w'"
    with Some have "mc_loop L Linear stop (board_of hs)
      (new_cell Linear (mat_constant (Fin (1 / 2))) kLearningRate) (mc_rng a) 0 w = ret (c, g', int k, w')"
      by (simp add: ret_def)
    from MonteCarlo_after_loop [OF L hs a this c(1)] c(2) show ?thesis using Returns by blast
  qed
qed

lemma choice_metrics_kept:
  assumes "group_at ms ptr = ret gr"
  shows "groups_kept ms (ms[ptr := Metric name (Group h)])"
  using assms by (auto simp: groups_kept_def group_at_def nth_list_update split: if_splits)

section \<open>The contract of an actor\<close>

text \<open>
  What a game loop relies on: an actor keeps the board of the game, follows a legal move,
  and picks only legal moves while there are any. \<open>env\<close> is the assumption on the libraries,
  \<open>usable\<close> what the actor needs (a valid metrics pointer, where it writes metrics).
  A \<open>total_actor\<close> always returns a move.
\<close>

locale actor_contract =
  fixes env :: bool
    and started :: "player \<Rightarrow> int \<Rightarrow> nat \<Rightarrow> 'a \<Rightarrow> 'a"
    and observe :: "vector2i \<Rightarrow> 'a \<Rightarrow> 'a res"
    and pick :: "'w stop_signal \<Rightarrow> 'a \<Rightarrow> metrics \<Rightarrow> 'w \<Rightarrow> (vector2i \<times> 'a \<times> metrics \<times> 'w) res"
    and view :: "'a \<Rightarrow> board"
    and usable :: "metrics \<Rightarrow> 'a \<Rightarrow> bool"
  assumes started_view: "view (started me seed ptr a) = board_of []"
    and observe_returns: "view a = board_of hs \<Longrightarrow> Inside m \<Longrightarrow> m \<notin> set hs \<Longrightarrow>
      \<exists>a'. observe m a = ret a' \<and> view a' = board_of (hs @ [m]) \<and> (\<forall>ms. usable ms a \<longrightarrow> usable ms a')"
    and choose_legal: "env \<Longrightarrow> legal_history hs \<Longrightarrow> set hs \<noteq> {p. Inside p} \<Longrightarrow>
      view a = board_of hs \<Longrightarrow> usable ms a \<Longrightarrow> pick stop a ms w = ret (m, a', ms', w') \<Longrightarrow>
      legal_choice hs ms m ms' \<and> view a' = board_of hs \<and> usable ms' a'"
    and choose_aborts: "env \<Longrightarrow> legal_history hs \<Longrightarrow> set hs \<noteq> {p. Inside p} \<Longrightarrow>
      view a = board_of hs \<Longrightarrow> usable ms a \<Longrightarrow> pick stop a ms w = abort e \<Longrightarrow>
      e = moves_exhausted \<or> (\<forall>k. stops_within k stop w \<longrightarrow> 2 ^ 31 \<le> k)"
    and usable_kept: "usable ms a \<Longrightarrow> groups_kept ms ms' \<Longrightarrow> usable ms' a"
    and choose_diverges: "env \<Longrightarrow> legal_history hs \<Longrightarrow> set hs \<noteq> {p. Inside p} \<Longrightarrow>
      view a = board_of hs \<Longrightarrow> usable ms a \<Longrightarrow> pick stop a ms w = None \<Longrightarrow> \<not> stops_within k stop w"

locale total_actor = actor_contract +
  assumes choose_returns: "env \<Longrightarrow> legal_history hs \<Longrightarrow> set hs \<noteq> {p. Inside p} \<Longrightarrow>
      view a = board_of hs \<Longrightarrow> usable ms a \<Longrightarrow> \<exists>r. pick stop a ms w = ret r"

subsection \<open>The actors fulfil it\<close>

lemma RandomActor_choose:
  assumes "lib_ok L" "legal_history hs" "set hs \<noteq> {p. Inside p}" "ra_board a = board_of hs"
  shows "\<exists>m g'. RandomActor_ChooseMove L stop a ms w = ret (m, a\<lparr>ra_rng := g'\<rparr>, ms, w) \<and>
    Inside m \<and> m \<notin> set hs"
  using UniformlySampleLegalMove_board_of(1) [OF _ assms(2,3), of "uniform_int L" "ra_rng a"] assms(1,4)
  by (auto simp: RandomActor_ChooseMove_def lib_ok_def)

interpretation random_actor: total_actor "lib_ok L" "RandomActor_GameStarted L" RandomActor_ObserveMove
    "RandomActor_ChooseMove L" ra_board "\<lambda>_ _. True" for L
proof (unfold_locales, goal_cases)
  case (1 me seed ptr a)
  show ?case by (simp add: RandomActor_GameStarted_def Reset_eq)
next
  case (2 a hs m)
  then show ?case by (simp add: RandomActor_ObserveMove_def ApplyMove_legal)
next
  case (3 hs a ms stop w m a' ms' w')
  from RandomActor_choose [OF 3(1-4), of stop ms w] 3(4,6) show ?case by (auto simp: legal_choice_def)
next
  case (4 hs a ms stop w e)
  from RandomActor_choose [OF 4(1-4), of stop ms w] 4(6) show ?case by auto
next
  case (6 hs a ms stop w)
  from RandomActor_choose [OF 6(1-4), of stop ms w] 6(6) show ?case by auto
next
  case (7 hs a ms stop w)
  from RandomActor_choose [OF 7(1-4), of stop ms w] show ?case by blast
qed simp

definition mc_usable :: "metrics \<Rightarrow> 'g mc_actor \<Rightarrow> bool" where
  "mc_usable ms a \<longleftrightarrow> (\<exists>g. group_at ms (mc_metrics a) = ret g)"

interpretation mc_linear_actor: actor_contract "lib_ok L" "MonteCarloActor_GameStarted L"
    MonteCarloActor_ObserveMove "MonteCarloActor_ChooseMove L Linear" mc_board mc_usable for L
proof (unfold_locales, goal_cases)
  case (1 me seed ptr a)
  show ?case by (simp add: MonteCarloActor_GameStarted_def Reset_eq)
next
  case (2 a hs m)
  then show ?case by (simp add: MonteCarloActor_ObserveMove_def ApplyMove_legal mc_usable_def)
next
  case (3 hs a ms stop w m a' ms' w')
  then obtain g where "group_at ms (mc_metrics a) = ret g" by (auto simp: mc_usable_def)
  note 0 = this
  from 3 0 show ?case
    by (elim MonteCarlo_linear_cases [of L hs a ms g stop w])
      (use choice_metrics_kept [OF 0] in \<open>auto simp: mc_usable_def legal_choice_def groups_kept_def\<close>)
next
  case (4 hs a ms stop w e)
  then obtain g where "group_at ms (mc_metrics a) = ret g" by (auto simp: mc_usable_def)
  with 4 show ?case by (elim MonteCarlo_linear_cases [of L hs a ms g stop w]) auto
next
  case (5 ms a ms')
  then show ?case by (auto simp: mc_usable_def groups_kept_def)
next
  case (6 hs a ms stop w k)
  then obtain g where "group_at ms (mc_metrics a) = ret g" by (auto simp: mc_usable_def)
  with 6 show ?case by (elim MonteCarlo_linear_cases [of L hs a ms g stop w]) auto
qed

fun actor_board :: "'g actor \<Rightarrow> board" where
  "actor_board (RandomA a) = ra_board a"
| "actor_board (MonteCarloA k a) = mc_board a"

fun actor_usable :: "metrics \<Rightarrow> 'g actor \<Rightarrow> bool" where
  "actor_usable ms (RandomA a) = True"
| "actor_usable ms (MonteCarloA k a) = (k = Linear \<and> mc_usable ms a)"

interpretation actors: actor_contract "lib_ok L" "GameStarted L" ObserveMove "ChooseMove L"
    actor_board actor_usable for L
proof (unfold_locales, goal_cases)
  case (1 me seed ptr a)
  show ?case by (cases a) (simp_all add: random_actor.started_view mc_linear_actor.started_view)
next
  case (2 a hs m)
  show ?case
  proof (cases a)
    case (RandomA b)
    with random_actor.observe_returns [of b hs m] 2 show ?thesis by auto
  next
    case (MonteCarloA k b)
    with mc_linear_actor.observe_returns [of b hs m] 2 show ?thesis by auto
  qed
next
  case (3 hs a ms stop w m a' ms' w')
  show ?case
  proof (cases a)
    case (RandomA b)
    with 3 obtain b' where "RandomActor_ChooseMove L stop b ms w = ret (m, b', ms', w')" "a' = RandomA b'"
      by (auto simp: bnd_eq_ret)
    with random_actor.choose_legal [OF 3(1-3)] 3(4) RandomA show ?thesis by simp
  next
    case (MonteCarloA k b)
    with 3 obtain b' where "MonteCarloActor_ChooseMove L k stop b ms w = ret (m, b', ms', w')"
      "a' = MonteCarloA k b'" "k = Linear" "mc_usable ms b"
      by (auto simp: bnd_eq_ret)
    with mc_linear_actor.choose_legal [OF 3(1-3)] 3(4) MonteCarloA show ?thesis by simp
  qed
next
  case (4 hs a ms stop w e)
  show ?case
  proof (cases a)
    case (RandomA b)
    with 4 have "RandomActor_ChooseMove L stop b ms w = abort e" by (auto simp: bnd_eq_abort)
    with random_actor.choose_aborts [OF 4(1-3)] 4(4) RandomA show ?thesis by (metis actor_board.simps(1))
  next
    case (MonteCarloA k b)
    with 4 have "MonteCarloActor_ChooseMove L Linear stop b ms w = abort e" "mc_usable ms b"
      by (auto simp: bnd_eq_abort)
    with mc_linear_actor.choose_aborts [OF 4(1-3)] 4(4) MonteCarloA show ?thesis by (metis actor_board.simps(2))
  qed
next
  case (5 ms a ms')
  then show ?case by (cases a) (auto intro: mc_linear_actor.usable_kept)
next
  case (6 hs a ms stop w k)
  show ?case
  proof (cases a)
    case (RandomA b)
    with 6 have "RandomActor_ChooseMove L stop b ms w = None" by (auto simp: bnd_eq_None)
    with random_actor.choose_diverges [OF 6(1-3)] 6(4) RandomA show ?thesis by simp
  next
    case (MonteCarloA k b)
    with 6 have "MonteCarloActor_ChooseMove L Linear stop b ms w = None" "mc_usable ms b"
      by (auto simp: bnd_eq_None)
    with mc_linear_actor.choose_diverges [OF 6(1-3)] 6(4) MonteCarloA show ?thesis by simp
  qed
qed

text \<open>The random actor as a value of the dispatch type is total, too.\<close>

definition is_random :: "metrics \<Rightarrow> 'g actor \<Rightarrow> bool" where
  "is_random ms a \<longleftrightarrow> (case a of RandomA _ \<Rightarrow> True | _ \<Rightarrow> False)"

interpretation random_dispatch: total_actor "lib_ok L" "GameStarted L" ObserveMove "ChooseMove L"
    actor_board is_random for L
proof (unfold_locales, goal_cases)
  case (1 me seed ptr a)
  show ?case by (rule actors.started_view)
next
  case (2 a hs m)
  then show ?case
    using random_actor.observe_returns [of _ hs m] mc_linear_actor.observe_returns [of _ hs m]
    by (cases a) (fastforce simp: is_random_def)+
next
  case (3 hs a ms stop w m a' ms' w')
  then show ?case using actors.choose_legal [OF 3(1-4) _ 3(6)]
    by (cases a) (auto simp: is_random_def bnd_eq_ret)
next
  case (4 hs a ms stop w e)
  then show ?case using actors.choose_aborts [OF 4(1-4) _ 4(6)] by (cases a) (auto simp: is_random_def)
next
  case (6 hs a ms stop w k)
  then show ?case using actors.choose_diverges [OF 6(1-4) _ 6(6)] by (cases a) (auto simp: is_random_def)
next
  case (7 hs a ms stop w)
  then obtain b where "a = RandomA b" "ra_board b = board_of hs"
    by (cases a) (auto simp: is_random_def)
  with RandomActor_choose [OF 7(1-3), of b stop ms w] show ?case by auto
qed (simp add: is_random_def)

end
