(* ===== verification/Game_Rules.thy ===== *)
theory Game_Rules
  imports Board
begin

text \<open>
  The rules of a whole game on histories, independent of the code that plays it: which
  histories are still being played, which are finished games, and who won. The game loops
  of the worker and of self-play are proved against these definitions.
\<close>

definition winner_of :: "vector2i list \<Rightarrow> player" where
  "winner_of hs =
     (if five_in_a_row (stone_after hs) FIRST then FIRST
      else if five_in_a_row (stone_after hs) SECOND then SECOND else NONE)"

definition ongoing :: "vector2i list \<Rightarrow> bool" where
  "ongoing hs \<longleftrightarrow> legal_history hs \<and> length hs < 361 \<and> winner_of hs = NONE"

definition finished :: "vector2i list \<Rightarrow> bool" where
  "finished hs \<longleftrightarrow> hs \<noteq> [] \<and> legal_history hs \<and> ongoing (butlast hs) \<and>
     (winner_of hs \<noteq> NONE \<or> length hs = 361)"

lemma ongoing_Nil [simp]: "ongoing []"
proof -
  have "\<not> five_in_a_row (\<lambda>_. NONE) pl" if "pl \<noteq> NONE" for pl
    using that by (auto simp: five_in_a_row_def list_ex_iff)
  then show ?thesis by (simp add: ongoing_def winner_of_def)
qed

lemma winner_of_NONE:
  "winner_of hs = NONE \<longleftrightarrow>
   \<not> five_in_a_row (stone_after hs) FIRST \<and> \<not> five_in_a_row (stone_after hs) SECOND"
  by (simp add: winner_of_def)

lemma ongoing_not_full: "ongoing hs \<Longrightarrow> set hs \<noteq> {p. Inside p}"
  using legal_history_length [of hs] by (auto simp: ongoing_def)

text \<open>After a move in an ongoing game, only the player who moved can have five in a row.\<close>

lemma winner_of_snoc:
  assumes "ongoing hs" "Inside m" "m \<notin> set hs"
  shows "winner_of (hs @ [m]) =
    (if five_in_a_row (stone_after (hs @ [m])) (mover (length hs)) then mover (length hs) else NONE)"
proof -
  have no: "\<not> five_in_a_row (stone_after hs) pl" if "pl \<noteq> NONE" for pl
    using assms(1) that by (cases pl) (auto simp: ongoing_def winner_of_NONE)
  have "\<not> five_in_a_row (stone_after (hs @ [m])) pl" if "pl \<noteq> NONE" "pl \<noteq> mover (length hs)" for pl
    using five_in_a_row_update [of "stone_after hs" m pl "mover (length hs)"] no that assms(1,2) on_board_stone_after [of hs]
    unfolding stone_after_snoc [OF assms(3)] by (auto simp: ongoing_def)
  then show ?thesis by (cases "even (length hs)") (auto simp: winner_of_def mover_def)
qed

text \<open>\<^const>\<open>DidWin\<close> after a move in an ongoing game is the rule of the game.\<close>

lemma DidWin_winner_of:
  assumes "ongoing hs" "Inside m" "m \<notin> set hs"
  shows "DidWin (board_of (hs @ [m])) m = ret (winner_of (hs @ [m]) \<noteq> NONE)"
proof -
  have legal: "legal_history (hs @ [m])" using assms by (simp add: ongoing_def legal_history_snoc)
  have "\<not> five_in_a_row (stone_after hs) (mover (length hs))"
    using assms(1) by (cases "even (length hs)") (auto simp: ongoing_def winner_of_NONE mover_def)
  with DidWin_iff_row [OF legal] winner_of_snoc [OF assms] show ?thesis by simp
qed

text \<open>One more legal move either finishes the game or leaves it ongoing.\<close>

lemma next_position:
  assumes "ongoing hs" "Inside m" "m \<notin> set hs"
  shows "if winner_of (hs @ [m]) = NONE \<and> \<not> NoMovePossible (board_of (hs @ [m]))
    then ongoing (hs @ [m]) else finished (hs @ [m])"
proof -
  have legal: "legal_history (hs @ [m])" using assms by (simp add: ongoing_def legal_history_snoc)
  then show ?thesis using assms(1) legal_history_length [OF legal]
    by (auto simp: NoMovePossible_board_of ongoing_def finished_def)
qed

text \<open>The winner of a finished game made the last move.\<close>

lemma finished_winner:
  assumes "finished hs" "winner_of hs \<noteq> NONE"
  shows "winner_of hs = mover (length hs - 1)"
proof -
  obtain h m where hs: "hs = h @ [m]" using assms(1) by (metis finished_def rev_exhaust)
  with assms(1) have "ongoing h" "Inside m" "m \<notin> set h"
    by (auto simp: finished_def legal_history_snoc)
  from winner_of_snoc [OF this] assms(2) show ?thesis by (simp add: hs split: if_splits)
qed

section \<open>Properties\<close>

text \<open>
  C2. After a move in a game that nobody had won, \<open>DidWin\<close> terminates and
  answers whether the player who moved now has five stones in a row anywhere on the board,
  although it only looks along four directions through the last move. Five in a row is the rule in
  coordinates, in any of the eight directions of a king, and shares no definition with the code.
\<close>

theorem DidWin_decides:
  assumes "ongoing hs" "Inside m" "m \<notin> set hs"
  shows "DidWin (board_of (hs @ [m])) m =
    ret (five_in_a_row (stone_after (hs @ [m])) (mover (length hs)))"
  using DidWin_winner_of [OF assms] winner_of_snoc [OF assms] by simp

theorem DidWin_decides_witness:
  "DidWin (board_of [(9, 9)]) (9, 9) = ret (five_in_a_row (stone_after [(9, 9)]) (mover 0))"
  using DidWin_decides [of "[]" "(9, 9)"] by (simp add: Inside_def)

end
