(* ===== verification/Draw_Game.thy ===== *)
theory Draw_Game
  imports Actors Game_Rules
begin

text \<open>
  A game that fills the board without five in a row. Field \<open>(x, y)\<close> belongs to the first
  player if \<open>x div 2 + y\<close> is even: in every direction the colour changes within three fields.
  A simulated game of the Monte Carlo actor that ends there has no winner and no move left.
\<close>

definition draw_first :: "vector2i \<Rightarrow> bool" where
  "draw_first p \<longleftrightarrow> even (fst p div 2 + snd p)"

definition draw_game :: "vector2i list" where
  "draw_game = splice (filter draw_first all_fields) (filter (\<lambda>p. \<not> draw_first p) all_fields)"

lemma draw_lengths:
  "length (filter draw_first all_fields) = 181"
  "length (filter (\<lambda>p. \<not> draw_first p) all_fields) = 180"
  by code_simp+

lemma set_splice: "set (splice xs ys) = set xs \<union> set ys"
  by (induction xs ys rule: splice.induct) auto

lemma length_splice: "length (splice xs ys) = length xs + length ys"
  by (induction xs ys rule: splice.induct) auto

lemma draw_game_legal: "legal_history draw_game" "length draw_game = 361"
proof -
  have len: "length draw_game = 361" by (simp add: draw_game_def length_splice draw_lengths)
  have "set draw_game = set all_fields" by (auto simp: draw_game_def set_splice)
  then have s: "set draw_game = {p. Inside p}" by (simp add: set_all_fields)
  then have "card (set draw_game) = length draw_game" using len card_Inside by simp
  then have "distinct draw_game" by (rule card_distinct)
  with s len show "legal_history draw_game" "length draw_game = 361"
    by (auto simp: legal_history_def list_all_iff)
qed

text \<open>With one more field for the first player, the two players alternate through a splice.\<close>

lemma zip_splice:
  assumes "length ys \<le> length xs" "length xs \<le> Suc (length ys)"
  shows "set (zip (splice xs ys) (map mover [2 * k..<2 * k + length xs + length ys])) =
    (\<lambda>x. (x, FIRST)) ` set xs \<union> (\<lambda>y. (y, SECOND)) ` set ys"
  using assms
proof (induction xs arbitrary: ys k)
  case (Cons x xs)
  show ?case
  proof (cases ys)
    case Nil
    with Cons.prems show ?thesis by (simp add: mover_def)
  next
    case (Cons y zs)
    have "[2 * k..<2 * k + length (x # xs) + length ys] =
        2 * k # Suc (2 * k) # [2 * Suc k..<2 * Suc k + length xs + length zs]"
      by (simp add: Cons upt_rec)
    with Cons.IH [of zs "Suc k"] Cons.prems Cons show ?thesis by (auto simp: mover_def)
  qed
qed simp

lemma draw_stones:
  assumes "Inside p"
  shows "stone_after draw_game p = (if draw_first p then FIRST else SECOND)"
proof -
  let ?A = "filter draw_first all_fields" and ?B = "filter (\<lambda>p. \<not> draw_first p) all_fields"
  have own: "set (owners draw_game) = (\<lambda>x. (x, FIRST)) ` set ?A \<union> (\<lambda>y. (y, SECOND)) ` set ?B"
    using zip_splice [of ?B ?A 0] draw_lengths
    by (simp add: owners_def draw_game_def length_splice)
  have "p \<in> set all_fields" using assms by (simp add: set_all_fields)
  then have "(p, if draw_first p then FIRST else SECOND) \<in> set (owners draw_game)"
    unfolding own by auto
  moreover have "distinct (map fst (owners draw_game))"
    using draw_game_legal(1) by (simp add: owners_def legal_history_def)
  ultimately show ?thesis by (simp add: stone_after_def map_of_is_SomeI)
qed

lemma draw_colour:
  assumes "legal_history draw_game" "stone_after draw_game p = pl" "pl \<noteq> NONE"
  shows "draw_first p \<longleftrightarrow> pl = FIRST"
proof -
  have "p \<in> set draw_game" using assms(2,3) stone_after_range by blast
  then have "Inside p" using assms(1) legal_history_Inside by blast
  from draw_stones [OF this] assms(2) show ?thesis by (auto split: if_splits)
qed

text \<open>No line of three in the directions of the game keeps its colour.\<close>

lemma draw_changes:
  assumes "d \<in> set directions"
  shows "\<not> (draw_first (step_from p 0 d) = draw_first (step_from p 1 d) \<and>
    draw_first (step_from p 1 d) = draw_first (step_from p 2 d))"
proof -
  obtain x y where p: "p = (x, y)" by (cases p)
  have x: "even ((x + 1) div 2) = (if even x then even (x div 2) else odd (x div 2))"
    "(x + 2) div 2 = x div 2 + 1" by presburger+
  show ?thesis using assms unfolding directions_def p
    by (auto simp: draw_first_def step_from_def x split: if_splits)
qed

lemma draw_no_winner: "winner_of draw_game = NONE"
proof -
  have "\<not> five_from (stone_after draw_game) pl p d" if "d \<in> set directions" "pl \<noteq> NONE" for pl p d
  proof
    assume "five_from (stone_after draw_game) pl p d"
    then have "draw_first (step_from p j d) \<longleftrightarrow> pl = FIRST" if "0 \<le> j" "j \<le> 4" for j
      using that \<open>pl \<noteq> NONE\<close> draw_colour [OF draw_game_legal(1)] by (simp add: five_from_iff)
    from this [of 0] this [of 1] this [of 2] draw_changes [OF \<open>d \<in> set directions\<close>, of p] show False by simp
  qed
  then show ?thesis using five_in_a_row_iff [OF on_board_stone_after [OF draw_game_legal(1)]]
    by (auto simp: winner_of_NONE)
qed

section \<open>Properties\<close>

text \<open>
  C16. A simulated game of the Monte Carlo actor that reaches a full board on
  which the last move did not win ends the whole process: the loop looks for a winner only
  and asks for another move.
\<close>

theorem playout_exhausts:
  assumes "uniform_int_ok draw" "legal_history (hs @ [m])" "length (hs @ [m]) = 361"
    "winner_of (hs @ [m]) = NONE"
  shows "mc_playout draw (board_of (hs @ [m])) m g = abort moves_exhausted"
proof -
  let ?s = "stone_after (hs @ [m])"
  have "\<not> five_in_a_row ?s (mover (length hs))"
    using assms(4) by (cases "even (length hs)") (auto simp: winner_of_NONE mover_def)
  then have "\<not> list_ex (five_through ?s (mover (length hs)) m) directions"
    using five_through_imp_row [OF on_board_stone_after [OF assms(2)] mover_not_NONE(1), of _ "length hs" m]
    unfolding list_ex_iff by blast
  moreover have "set (hs @ [m]) = {p. Inside p}" using legal_history_length(2) [OF assms(2)] assms(3) by simp
  ultimately show ?thesis
    using DidWin_board_of [OF assms(2)] UniformlySampleLegalMove_board_of(2) [OF assms(1,2)]
    by (subst mc_playout.simps) simp
qed

theorem playout_exhausts_witness:
  "mc_playout (\<lambda>a b g. (a, g)) (board_of draw_game) (last draw_game) () = abort moves_exhausted"
proof -
  have "draw_game = butlast draw_game @ [last draw_game]"
    using draw_game_legal(2) by (intro append_butlast_last_id [symmetric]) auto
  moreover have "uniform_int_ok (\<lambda>a b g. (a, g :: unit))" by (simp add: uniform_int_ok_def)
  ultimately show ?thesis
    using playout_exhausts [of "\<lambda>a b g. (a, g)" "butlast draw_game" "last draw_game" "()"]
      draw_game_legal draw_no_winner by metis
qed

end
