(* ===== verification/Reference_Lib.thy ===== *)
theory Reference_Lib
  imports Actors
begin

text \<open>
  A concrete instance of the parameters of the actors: a counter as the random engine,
  distributions that read it, and exact arithmetic where Eigen rounds. It shows that the
  assumption \<^const>\<open>lib_ok\<close> can be met, and concrete runs are evaluated on it.
\<close>

definition ref_uniform_int :: "nat uniform_int" where
  "ref_uniform_int a b g = (a + int g mod (b - a + 1), Suc g)"

definition ref_exp :: "fp \<Rightarrow> fp" where
  "ref_exp x = Fin (1 + fp_val x + fp_val x * fp_val x / 2)"

definition ref_max_index :: "fp list \<Rightarrow> nat" where
  "ref_max_index a =
     (case filter (\<lambda>i. list_all (\<lambda>x. \<not> fp_less (a ! i) x) a) [0..<length a] of [] \<Rightarrow> 0 | i # _ \<Rightarrow> i)"

definition ref_eigen :: eigen_lib where
  "ref_eigen = \<lparr>cwiseProduct = map2 (fp_mul float32),
     divScalar = (\<lambda>a s. map (\<lambda>x. fp_div float32 x s) a),
     array_exp = map ref_exp,
     mat_sum = (\<lambda>a. Fin (sum_list (map fp_val a))),
     maxCoeff = (\<lambda>a. (int (ref_max_index a mod 19), int (ref_max_index a div 19)))\<rparr>"

definition reference_lib :: "nat actor_lib" where
  "reference_lib = \<lparr>uniform_int = ref_uniform_int, discrete = ref_discrete,
     seed_engine = (\<lambda>s. nat s), engine_next = (\<lambda>g. (of_nat g, Suc g)), eigen = ref_eigen\<rparr>"

lemma ref_uniform_int_ok: "uniform_int_ok ref_uniform_int"
proof -
  have "a \<le> a + int g mod (b - a + 1) \<and> a + int g mod (b - a + 1) \<le> b"
    if "a \<le> b" for a b :: int and g
  proof -
    have "0 < b - a + 1" using that by simp
    from pos_mod_bound [OF this, of "int g"] pos_mod_sign [OF this, of "int g"] show ?thesis by linarith
  qed
  then show ?thesis by (simp add: uniform_int_ok_def ref_uniform_int_def)
qed

lemma ref_max_index:
  assumes "length a = 361" "list_all (fp_in 0 4) a"
  shows "ref_max_index a < 361" "i < 361 \<Longrightarrow> \<not> fp_less (a ! ref_max_index a) (a ! i)"
proof -
  let ?m = "Max (fp_val ` set a)"
  have "set a \<noteq> {}" using assms(1) by auto
  then have "?m \<in> fp_val ` set a" by (intro Max_in) auto
  then obtain j where j: "j < 361" "fp_val (a ! j) = ?m"
    using assms(1) by (auto simp: in_set_conv_nth)
  have fin: "a ! k = Fin (fp_val (a ! k))" if "k < 361" for k
    using assms that by (auto simp: list_all_length fp_in_iff)
  have "fp_val x \<le> ?m" if "x \<in> set a" for x using that by simp
  then have "\<not> fp_less (a ! j) x" if "x \<in> set a" for x
    using fin [OF j(1)] j(2) that assms(2) by (metis fp_in_iff fp_less.simps(1) fp_val.simps(1)
        linorder_not_le list_all_iff)
  then have "j \<in> set (filter (\<lambda>i. list_all (\<lambda>x. \<not> fp_less (a ! i) x) a) [0..<length a])"
    using j(1) assms(1) by (simp add: list_all_iff)
  then obtain k ks where k: "filter (\<lambda>i. list_all (\<lambda>x. \<not> fp_less (a ! i) x) a) [0..<length a] = k # ks"
    by (cases "filter (\<lambda>i. list_all (\<lambda>x. \<not> fp_less (a ! i) x) a) [0..<length a]") auto
  then have "k \<in> set (filter (\<lambda>i. list_all (\<lambda>x. \<not> fp_less (a ! i) x) a) [0..<length a])" by simp
  then have "k < 361" "list_all (\<lambda>x. \<not> fp_less (a ! k) x) a" using assms(1) by auto
  moreover have "ref_max_index a = k" using k by (simp add: ref_max_index_def)
  ultimately show "ref_max_index a < 361"
    "i < 361 \<Longrightarrow> \<not> fp_less (a ! ref_max_index a) (a ! i)"
    using assms(1) by (auto simp: list_all_length)
qed

lemma ref_exp_range: "fp_in 0 1 x \<Longrightarrow> fp_in (1 / 2) 4 (ref_exp x)"
proof -
  have "r * r \<le> 1" if "0 \<le> r" "r \<le> 1" for r :: rat using that mult_mono [of r 1 r 1] by simp
  then show "fp_in 0 1 x \<Longrightarrow> fp_in (1 / 2) 4 (ref_exp x)"
    by (fastforce simp: fp_in_iff ref_exp_def)
qed

lemma ref_eigen_ok: "eigen_ok ref_eigen"
proof -
  have sum: "0 \<le> sum_list (map fp_val a)" if "list_all (fp_in 0 4) a" for a
    using that by (intro sum_list_nonneg) (auto simp: list_all_iff fp_in_iff)
  have idx: "mat_index (int (i mod 19)) (int (i div 19)) = i" "Inside (int (i mod 19), int (i div 19))"
    if "i < 361" for i
    using mat_index_inverse [OF that] by (simp_all add: zmod_int zdiv_int)
  show ?thesis
    unfolding eigen_ok_def
    using ref_exp_range ref_max_index sum idx
    by (auto simp: ref_eigen_def list_all_iff)
qed

lemma reference_lib_ok: "lib_ok reference_lib"
  by (simp add: lib_ok_def reference_lib_def ref_uniform_int_ok ref_discrete_ok ref_eigen_ok)

section \<open>Properties of the actors\<close>

text \<open>
  With the estimates of a linear cell, both ways to pick a move respect
  the mask of legal moves: as soon as one field is allowed, the greedy and the softmax
  choice are allowed fields of the board.
\<close>

theorem cell_samples_legal:
  assumes "eigen_ok E" "discrete_ok draw" "linear_ok c" "Inside q" "P q"
  shows "Inside (SampleGreedy E (win_prob c) (mat_of (\<lambda>p. indicator (P p)))) \<and>
    P (SampleGreedy E (win_prob c) (mat_of (\<lambda>p. indicator (P p)))) \<and>
    Inside (fst (SampleSoftmax E draw (win_prob c) (mat_of (\<lambda>p. indicator (P p))) (Fin 1) g)) \<and>
    P (fst (SampleSoftmax E draw (win_prob c) (mat_of (\<lambda>p. indicator (P p))) (Fin 1) g))"
  using linear.greedy_masked [OF assms(1,3,4), of P] linear.softmax_masked [OF assms(1-4), of P] assms(5)
  by simp

theorem cell_samples_legal_witness:
  "SampleGreedy ref_eigen (win_prob (new_cell Linear (mat_constant (Fin (1 / 2))) kLearningRate))
     (mat_of (\<lambda>p. indicator (p \<noteq> (0, 0)))) \<noteq> (0, 0)"
  using cell_samples_legal [OF ref_eigen_ok ref_discrete_ok initial_cell, of "(1, 1)" "\<lambda>p. p \<noteq> (0, 0)"]
  by (simp add: Inside_def)



text \<open>Rounding does not leave an interval between powers of two.\<close>

lemma to_fp_neg_between:
  assumes "fmt \<in> {float32, float64}" "- 64 \<le> a" "a \<le> b" "b \<le> 64" "pow2 a \<le> x" "x \<le> pow2 b"
  shows "\<exists>r. to_fp fmt x = Fin r \<and> pow2 a \<le> r \<and> r \<le> pow2 b"
    "\<exists>r. to_fp fmt (- x) = Fin (- r) \<and> pow2 a \<le> r \<and> r \<le> pow2 b"
proof -
  have wf: "wf_format fmt" using assms(1) by auto
  have fmt: "1 \<le> prec fmt" "emin fmt - int (prec fmt) + 1 \<le> a"
      "emin fmt - int (prec fmt) + 1 \<le> b" "b \<le> emax fmt"
    using assms(1-4) by (auto simp: float64_def)
  have "0 < x" using assms(5) pow2_pos [of a] by linarith
  moreover have "x \<le> pow2 (emax fmt)" using assms(6) fmt(4) pow2_le_iff [of b "emax fmt"] by linarith
  ultimately have fin: "\<bar>x\<bar> \<le> pow2 (emax fmt)" "\<bar>- x\<bar> \<le> pow2 (emax fmt)" by simp_all
  have r: "pow2 a \<le> rnd fmt x" "rnd fmt x \<le> pow2 b"
    using rnd_mono [OF fmt(1) assms(5)] rnd_mono [OF fmt(1) assms(6)] rnd_pow2 [OF fmt(1,2)] rnd_pow2 [OF fmt(1,3)]
    by simp_all
  with to_fp_Fin [OF wf fin(1)] to_fp_Fin [OF wf fin(2)]
  show "\<exists>r. to_fp fmt x = Fin r \<and> pow2 a \<le> r \<and> r \<le> pow2 b"
    "\<exists>r. to_fp fmt (- x) = Fin (- r) \<and> pow2 a \<le> r \<and> r \<le> pow2 b"
    by (auto simp: rnd_minus)
qed

lemma logistic_gradient_lost:
  "\<exists>g. logistic_gradient (Fin 0) (Fin (1 / 2048)) = Fin (- g) \<and> 1 \<le> g \<and> g \<le> 2"
proof -
  note between = to_fp_neg_between [of _ 0 1, simplified] and half = to_fp_neg_between [of _ "- 1" 0]
  have p: "pow2 (- 1) = 1 / 2" by (simp add: pow2_def)
  obtain a where a: "to_fp float64 (1 - 1 / 2048) = Fin a" "1 / 2 \<le> a" "a \<le> 1"
    using half(1) [of float64 "1 - 1 / 2048"] by (auto simp: p)
  have "1 \<le> 1 / a" "1 / a \<le> 2" using a by (simp_all add: field_simps)
  then obtain b where b: "to_fp float64 (1 / a) = Fin b" "1 \<le> b" "b \<le> 2" using between(1) by blast
  obtain b' where b': "to_fp float64 b = Fin b'" "1 \<le> b'" "b' \<le> 2" using between(1) [of float64 b] b by blast
  obtain c where c: "to_fp float64 (- b') = Fin (- c)" "1 \<le> c" "c \<le> 2" using between(2) [of float64 b'] b' by blast
  obtain g where g: "to_fp float32 (- c) = Fin (- g)" "1 \<le> g" "g \<le> 2" using between(2) [of float32 c] c by blast
  have one: "to_fp float32 1 = Fin 1" using rnd_of_int [of float32 1] by (subst to_fp_float32) simp_all
  have inv: "to_fp float32 2048 = Fin 2048" using rnd_of_int [of float32 2048] by (subst to_fp_float32) simp_all
  have zero: "to_fp fmt 0 = Fin 0" if "fmt \<in> {float32, float64}" for fmt
    using that to_fp_Fin [of fmt 0] by auto
  have "a \<noteq> 0" using a(2) by auto
  then have "logistic_gradient (Fin 0) (Fin (1 / 2048)) = Fin (- g)"
    using a(1) b(1) b'(1) c(1) g(1)
    by (simp add: logistic_gradient_def Let_def fp_sub_def one inv zero)
  with g show ?thesis by blast
qed

lemma logistic_step:
  "\<exists>v. fp_add float32 (Fin (1 / 2048)) (fp_mul float32 kLearningRate
     (logistic_gradient (Fin 0) (Fin (1 / 2048)))) = Fin v \<and> v < 0"
proof -
  have rate: "kLearningRate = Fin (8589935 / 8589934592)" unfolding kLearningRate_def by code_simp
  have p: "pow2 (- 10) = 1 / 1024" "pow2 (- 8) = 1 / 256" "pow2 (- 11) = 1 / 2048" by (simp_all add: pow2_def)
  obtain g where g: "logistic_gradient (Fin 0) (Fin (1 / 2048)) = Fin (- g)" "1 \<le> g" "g \<le> 2"
    using logistic_gradient_lost by blast
  obtain t where t: "to_fp float32 (- (8589935 / 8589934592 * g)) = Fin (- t)" "1 / 1024 \<le> t" "t \<le> 1 / 256"
    using to_fp_neg_between(2) [of float32 "- 10" "- 8" "8589935 / 8589934592 * g"] g(2,3) by (auto simp: p)
  obtain v where "to_fp float32 (- (t - 1 / 2048)) = Fin (- v)" "1 / 2048 \<le> v"
    using to_fp_neg_between(2) [of float32 "- 11" "- 8" "t - 1 / 2048"] t(2,3) by (auto simp: p)
  then show ?thesis using t(1) by (auto simp: rate g(1))
qed

text \<open>
  A logistic cell may leave the interval of probabilities: one
  lost game at the learning rate of the actor takes the estimate 1/2048 below zero, and a
  product with the mask then prefers occupied fields.
\<close>

theorem logistic_leaves_interval:
  "\<exists>c' v. McLogisticCell_Update (McLogisticCell (mat_constant (Fin (1 / 2048))) kLearningRate) (9, 9) (Fin 0) =
     ret c' \<and> mat_at (win_prob c') 9 9 = ret (Fin v) \<and> v < 0"
proof -
  have "Inside (9, 9)" by (simp add: Inside_def)
  moreover from this have "mat_index 9 9 < 361" by (rule mat_index_bound)
  ultimately show ?thesis using logistic_step
    by (auto simp: McLogisticCell_Update_def McLogisticCell_def mat_at_ret mat_set_ret Let_def)
qed

end
