(* ===== verification/Worker.thy ===== *)
theory Worker
  imports Reference_Lib Game_Rules
begin

text \<open>
  The worker service: \<^verbatim>\<open>gomoku/ladder/worker_impl.cc\<close> on the messages of
  \<^verbatim>\<open>gomoku/ladder/worker.proto\<close> and \<^verbatim>\<open>gomoku/core/recording.proto\<close>.

  The clock \<open>Env::NowMicros\<close> is a parameter that reads the state \<open>'w\<close> of the environment.
  The \<open>do\<close>-\<open>while\<close> loop of a game is \<^const>\<open>None\<close> when an actor never returns, and is
  otherwise shown to stop: every round adds a stone to a finite board.
\<close>

record recording =
  rec_moves :: "vector2i list"
  rec_score :: fp

record play_game_request =
  req_first_player :: actor_spec
  req_second_player :: actor_spec
  req_move_time_limit :: u64
  req_seed :: int

record play_game_response =
  resp_recording :: recording
  resp_metrics :: metrics

type_synonym 'w now_micros = "'w \<Rightarrow> u64 \<times> 'w"

definition NewStopSignal :: "'w now_micros \<Rightarrow> u64 \<Rightarrow> 'w \<Rightarrow> 'w stop_signal \<times> 'w" where
  "NewStopSignal NowMicros deadline_micros w =
     (let (time_start, w1) = NowMicros w in
      (\<lambda>w. let (time_now, w') = NowMicros w in (time_now - time_start \<ge> deadline_micros, w'), w1))"

text \<open>The narrowing conversion of \<open>rng()\<close> to the \<open>int\<close> parameter of \<open>GameStarted\<close>.\<close>

definition int_of_u64 :: "u64 \<Rightarrow> int" where
  "int_of_u64 r = sint (ucast r :: 32 word)"

text \<open>\<open>actors[player]->\<close>: a null pointer is undefined behaviour.\<close>

definition actor_of :: "'a option PlayerMap \<Rightarrow> player \<Rightarrow> 'a res" where
  "actor_of actors p = bnd (PlayerMap_at actors p) (\<lambda>a.
     case a of None \<Rightarrow> abort (Undefined ''null actor'') | Some a \<Rightarrow> ret a)"

definition prepare_actor ::
  "'g actor_lib \<Rightarrow> 'g actor actor_registry \<Rightarrow> actor_spec PlayerMap \<Rightarrow> player \<Rightarrow>
   'g actor option PlayerMap \<times> metrics \<times> 'g \<Rightarrow> ('g actor option PlayerMap \<times> metrics \<times> 'g) res" where
  "prepare_actor L registry actor_specs player = (\<lambda>(actors, ms, rng).
     bnd (PlayerMap_at actor_specs player) (\<lambda>spec.
     bnd (ActorRegistry_Create registry (spec_type spec) (spec_config spec)) (\<lambda>actor.
     let (ms', actor_metrics) = AddMetricGroup ms (spec_name spec);
         (r, rng') = engine_next L rng in
     bnd (PlayerMap_set actors player (Some (GameStarted L player (int_of_u64 r) actor_metrics actor)))
       (\<lambda>actors'. ret (actors', ms', rng')))))"

section \<open>The game loop\<close>

text \<open>
  The variables of the loop. It is the same code in the worker and in self-play, up to the
  stop signals (\<open>new_stop\<close>).
\<close>

record ('a, 'w) game =
  g_board :: board
  g_actors :: "'a option PlayerMap"
  g_metrics :: metrics
  g_moves :: "vector2i list"
  g_env :: 'w

definition observe_all ::
  "(vector2i \<Rightarrow> 'a \<Rightarrow> 'a res) \<Rightarrow> vector2i \<Rightarrow> 'a option PlayerMap \<Rightarrow> 'a option PlayerMap res" where
  "observe_all observe move =
     foldM (\<lambda>player actors. bnd (actor_of actors player) (\<lambda>a. bnd (observe move a) (\<lambda>a'.
       PlayerMap_set actors player (Some a')))) kPlayers"

definition game_round ::
  "(vector2i \<Rightarrow> 'a \<Rightarrow> 'a res) \<Rightarrow>
   ('w stop_signal \<Rightarrow> 'a \<Rightarrow> metrics \<Rightarrow> 'w \<Rightarrow> (vector2i \<times> 'a \<times> metrics \<times> 'w) res) \<Rightarrow>
   (player \<Rightarrow> 'w \<Rightarrow> ('w stop_signal \<times> 'w) res) \<Rightarrow>
   ('a, 'w) game \<Rightarrow> (vector2i \<times> ('a, 'w) game) res" where
  "game_round observe pick new_stop s =
     bnd (new_stop (CurrentPlayer (g_board s)) (g_env s)) (\<lambda>(stop_signal, w1).
     bnd (actor_of (g_actors s) (CurrentPlayer (g_board s))) (\<lambda>actor.
     bnd (pick stop_signal actor (g_metrics s) w1) (\<lambda>(move, actor', ms', w2).
     bnd (PlayerMap_set (g_actors s) (CurrentPlayer (g_board s)) (Some actor')) (\<lambda>actors1.
     bnd (ApplyMove (g_board s) move) (\<lambda>b'.
     bnd (observe_all observe move actors1) (\<lambda>actors2.
     ret (move, \<lparr>g_board = b', g_actors = actors2, g_metrics = ms',
                 g_moves = g_moves s @ [move], g_env = w2\<rparr>)))))))"

partial_function (option) game_loop ::
  "(vector2i \<Rightarrow> 'a \<Rightarrow> 'a res) \<Rightarrow>
   ('w stop_signal \<Rightarrow> 'a \<Rightarrow> metrics \<Rightarrow> 'w \<Rightarrow> (vector2i \<times> 'a \<times> metrics \<times> 'w) res) \<Rightarrow>
   (player \<Rightarrow> 'w \<Rightarrow> ('w stop_signal \<times> 'w) res) \<Rightarrow>
   ('a, 'w) game \<Rightarrow> (fatal + vector2i \<times> ('a, 'w) game) option" where
  "game_loop observe pick new_stop s =
     bnd (game_round observe pick new_stop s) (\<lambda>(move, s').
     bnd (DidWin (g_board s') move) (\<lambda>won.
     if \<not> won \<and> \<not> NoMovePossible (g_board s') then game_loop observe pick new_stop s'
     else ret (move, s')))"

definition game_score :: "board \<Rightarrow> vector2i \<Rightarrow> fp res" where
  "game_score b move =
     bnd (DidWin b move) (\<lambda>won.
     if won then
       bnd (PlayerMap_at kOpponent (CurrentPlayer b)) (\<lambda>winner.
       PlayerMap_at \<lparr>pm_first = Fin 1, pm_second = Fin 0\<rparr> winner)
     else ret (Fin 0))"

definition respond :: "vector2i \<times> ('a, 'w) game \<Rightarrow> (play_game_response \<times> 'w) res" where
  "respond = (\<lambda>(move, s).
     bnd (game_score (g_board s) move) (\<lambda>score.
     ret (\<lparr>resp_recording = \<lparr>rec_moves = g_moves s, rec_score = score\<rparr>,
           resp_metrics = g_metrics s\<rparr>, g_env s)))"

definition PlayGame ::
  "'g actor_lib \<Rightarrow> 'g actor actor_registry \<Rightarrow> 'w now_micros \<Rightarrow> play_game_request \<Rightarrow> 'w \<Rightarrow>
   (play_game_response \<times> 'w) res" where
  "PlayGame L registry NowMicros request w =
     (let actor_specs = \<lparr>pm_first = req_first_player request, pm_second = req_second_player request\<rparr>;
          rng = seed_engine L (req_seed request) in
      bnd (foldM (prepare_actor L registry actor_specs) kPlayers
             (\<lparr>pm_first = None, pm_second = None\<rparr>, [], rng)) (\<lambda>(actors, ms, rng').
      bnd (game_loop ObserveMove (ChooseMove L)
             (\<lambda>_ w. ret (NewStopSignal NowMicros (req_move_time_limit request) w))
             \<lparr>g_board = new_board, g_actors = actors, g_metrics = ms, g_moves = [], g_env = w\<rparr>)
        respond))"

section \<open>The stop signal\<close>

text \<open>The difference of the two readings is taken modulo \<open>2 ^ 64\<close>.\<close>

lemma NewStopSignal_fires:
  assumes "NewStopSignal NowMicros deadline w = (stop, w1)"
  shows "fst (stop v) \<longleftrightarrow>
    uint deadline \<le> (uint (fst (NowMicros v)) - uint (fst (NowMicros w))) mod 2 ^ 64"
  using assms
  by (auto simp: NewStopSignal_def word_le_def uint_word_ariths case_prod_unfold Let_def)

section \<open>Whole games\<close>

text \<open>
  The invariant at the head of the loop: the board, the recorded moves and the actors'
  boards agree on one history.
\<close>

definition playing ::
  "('a \<Rightarrow> board) \<Rightarrow> (metrics \<Rightarrow> 'a \<Rightarrow> bool) \<Rightarrow> vector2i list \<Rightarrow> ('a, 'w) game \<Rightarrow> bool" where
  "playing view usable hs s \<longleftrightarrow> g_board s = board_of hs \<and> g_moves s = hs \<and>
     (\<exists>a1 a2. g_actors s = \<lparr>pm_first = Some a1, pm_second = Some a2\<rparr> \<and>
        view a1 = board_of hs \<and> view a2 = board_of hs \<and>
        usable (g_metrics s) a1 \<and> usable (g_metrics s) a2)"

lemma actor_of_simps [simp]:
  "actor_of \<lparr>pm_first = Some a1, pm_second = Some a2\<rparr> (mover n) = ret (if even n then a1 else a2)"
  "actor_of \<lparr>pm_first = Some a1, pm_second = x2\<rparr> FIRST = ret a1"
  "actor_of \<lparr>pm_first = x1, pm_second = Some a2\<rparr> SECOND = ret a2"
  by (simp_all add: actor_of_def mover_def)

lemma PlayerMap_set_mover [simp]:
  "PlayerMap_set \<lparr>pm_first = x1, pm_second = x2\<rparr> (mover n) y =
   ret (if even n then \<lparr>pm_first = y, pm_second = x2\<rparr> else \<lparr>pm_first = x1, pm_second = y\<rparr>)"
  by (simp add: mover_def)

lemma current_board_of [simp]: "CurrentPlayer (board_of hs) = mover (length hs)"
  by (simp add: CurrentPlayer_def board_of_def)

definition stops_made :: "(player \<Rightarrow> 'w \<Rightarrow> ('w stop_signal \<times> 'w) res) \<Rightarrow> bool" where
  "stops_made new_stop \<longleftrightarrow> (\<forall>p w. p \<noteq> NONE \<longrightarrow> (\<exists>r. new_stop p w = ret r))"

definition stops_fire :: "(player \<Rightarrow> 'w \<Rightarrow> ('w stop_signal \<times> 'w) res) \<Rightarrow> bool" where
  "stops_fire new_stop \<longleftrightarrow>
     (\<forall>p w stop w'. new_stop p w = ret (stop, w') \<longrightarrow> (\<exists>k < 2 ^ 31. stops_within k stop w'))"

context actor_contract
begin

lemma observe_all_returns:
  assumes "view a1 = board_of hs" "view a2 = board_of hs" "Inside m" "m \<notin> set hs"
    "usable ms a1" "usable ms a2"
  shows "\<exists>b1 b2. observe_all observe m \<lparr>pm_first = Some a1, pm_second = Some a2\<rparr> =
      ret \<lparr>pm_first = Some b1, pm_second = Some b2\<rparr> \<and>
    view b1 = board_of (hs @ [m]) \<and> view b2 = board_of (hs @ [m]) \<and> usable ms b1 \<and> usable ms b2"
proof -
  obtain b1 where b1: "observe m a1 = ret b1" "view b1 = board_of (hs @ [m])" "usable ms b1"
    using observe_returns [OF assms(1,3,4)] assms(5) by blast
  obtain b2 where b2: "observe m a2 = ret b2" "view b2 = board_of (hs @ [m])" "usable ms b2"
    using observe_returns [OF assms(2,3,4)] assms(6) by blast
  from b1 b2 show ?thesis by (simp add: observe_all_def kPlayers_def)
qed

text \<open>
  One round: an actor is stopped too late (it never answers, or its \<open>int\<close> counter of simulated
  games overflows), a simulation runs out of moves, or a legal move is made.
\<close>

lemma round_cases:
  assumes env "ongoing hs" "playing view usable hs s" "stops_made new_stop"
  obtains (Late) "game_round observe pick new_stop s = None \<or> (\<exists>e. game_round observe pick new_stop s = abort e)"
      "\<exists>stop w a. view a = board_of hs \<and> usable (g_metrics s) a \<and>
        (pick stop a (g_metrics s) w = None \<or> (\<exists>e. pick stop a (g_metrics s) w = abort e))"
      "\<not> stops_fire new_stop"
  | (Aborts) "game_round observe pick new_stop s = abort moves_exhausted"
      "\<exists>stop w a. view a = board_of hs \<and> usable (g_metrics s) a \<and>
        pick stop a (g_metrics s) w = abort moves_exhausted"
  | (Returns) m s' where "game_round observe pick new_stop s = ret (m, s')"
      "Inside m" "m \<notin> set hs" "playing view usable (hs @ [m]) s'"
proof -
  from assms(3) obtain a1 a2 where s: "g_board s = board_of hs" "g_moves s = hs"
    "g_actors s = \<lparr>pm_first = Some a1, pm_second = Some a2\<rparr>"
    and a: "view a1 = board_of hs" "view a2 = board_of hs"
      "usable (g_metrics s) a1" "usable (g_metrics s) a2"
    by (auto simp: playing_def)
  have hs: "legal_history hs" "set hs \<noteq> {p. Inside p}"
    using assms(2) ongoing_not_full by (auto simp: ongoing_def)
  obtain stop w1 where st: "new_stop (mover (length hs)) (g_env s) = ret (stop, w1)"
    using assms(4) by (metis stops_made_def mover_not_NONE(1) surj_pair)
  define x where "x = (if even (length hs) then a1 else a2)"
  have x: "view x = board_of hs" "usable (g_metrics s) x" using a by (simp_all add: x_def)
  note unfolded = game_round_def [of observe pick new_stop s] s st
  show ?thesis
  proof (cases "pick stop x (g_metrics s) w1" rule: res_cases)
    case Diverges
    moreover have "\<not> stops_fire new_stop"
      using choose_diverges [OF assms(1) hs x Diverges] st unfolding stops_fire_def by blast
    ultimately show ?thesis using x by (intro that(1)) (auto simp: unfolded simp flip: x_def)
  next
    case (Aborts e)
    show ?thesis
    proof (cases "e = moves_exhausted")
      case True
      then show ?thesis using x Aborts by (intro that(2)) (auto simp: unfolded simp flip: x_def)
    next
      case False
      with choose_aborts [OF assms(1) hs x Aborts] have "\<forall>k. stops_within k stop w1 \<longrightarrow> 2 ^ 31 \<le> k" by blast
      with st have "\<not> stops_fire new_stop" unfolding stops_fire_def by (metis linorder_not_le)
      then show ?thesis using x Aborts by (intro that(1)) (auto simp: unfolded simp flip: x_def)
    qed
  next
    case (Returns r)
    obtain m x' ms' w2 where r: "r = (m, x', ms', w2)" by (metis surj_pair)
    note picked = choose_legal [OF assms(1) hs x Returns [unfolded r]]
    then have m: "Inside m" "m \<notin> set hs" and kept: "groups_kept (g_metrics s) ms'"
      by (auto simp: legal_choice_def)
    define b1 b2 where "b1 = (if even (length hs) then x' else a1)"
      and "b2 = (if even (length hs) then a2 else x')"
    have b: "view b1 = board_of hs" "view b2 = board_of hs" "usable ms' b1" "usable ms' b2"
      using a picked usable_kept [OF _ kept] by (auto simp: b1_def b2_def)
    from observe_all_returns [OF b(1,2) m b(3,4)] obtain c1 c2 where
      c: "observe_all observe m \<lparr>pm_first = Some b1, pm_second = Some b2\<rparr> =
          ret \<lparr>pm_first = Some c1, pm_second = Some c2\<rparr>"
      "view c1 = board_of (hs @ [m])" "view c2 = board_of (hs @ [m])" "usable ms' c1" "usable ms' c2"
      by blast
    have "game_round observe pick new_stop s = ret (m, \<lparr>g_board = board_of (hs @ [m]),
        g_actors = \<lparr>pm_first = Some c1, pm_second = Some c2\<rparr>, g_metrics = ms',
        g_moves = hs @ [m], g_env = w2\<rparr>)"
      using Returns c(1) m
      by (cases "even (length hs)") (simp_all add: unfolded r x_def b1_def b2_def ApplyMove_legal)
    with c m show ?thesis by (intro that(3)) (auto simp: playing_def)
  qed
qed

lemma loop_result:
  assumes env "stops_made new_stop" "ongoing hs" "playing view usable hs s"
  shows "(game_loop observe pick new_stop s = None \<or> (\<exists>e. game_loop observe pick new_stop s = abort e)) \<and>
      \<not> stops_fire new_stop \<or>
    game_loop observe pick new_stop s = abort moves_exhausted \<or>
    (\<exists>gs m s'. game_loop observe pick new_stop s = ret (m, s') \<and>
       finished (gs @ [m]) \<and> playing view usable (gs @ [m]) s')"
  using assms(3,4)
proof (induction "361 - length hs" arbitrary: hs s rule: less_induct)
  case less
  note unfolded = game_loop.simps [of observe pick new_stop s]
  from assms(1) less.prems assms(2) show ?case
  proof (cases rule: round_cases)
    case (Returns m s')
    let ?h = "hs @ [m]"
    have b: "g_board s' = board_of ?h" using Returns(4) by (simp add: playing_def)
    note won = DidWin_winner_of [OF less.prems(1) Returns(2,3)]
      and nxt = next_position [OF less.prems(1) Returns(2,3)]
    show ?thesis
    proof (cases "winner_of ?h = NONE \<and> \<not> NoMovePossible (board_of ?h)")
      case True
      with nxt have "ongoing ?h" by simp
      moreover have "361 - length ?h < 361 - length hs" using less.prems(1) by (auto simp: ongoing_def)
      ultimately show ?thesis
        using less.hyps [of ?h s'] Returns True won b by (simp add: unfolded)
    next
      case False
      with nxt have "finished ?h" by presburger
      moreover from False Returns won b have "game_loop observe pick new_stop s = ret (m, s')"
        by (auto simp: unfolded)
      ultimately show ?thesis using Returns(4) by blast
    qed
  next
    case Late
    then have "game_loop observe pick new_stop s = None \<or> (\<exists>e. game_loop observe pick new_stop s = abort e)"
      by (elim disjE exE) (simp_all add: unfolded)
    with Late(3) show ?thesis by blast
  qed (simp add: unfolded)
qed

end

context total_actor
begin

lemma loop_returns:
  assumes env "stops_made new_stop" "ongoing hs" "playing view usable hs s"
  shows "\<exists>r. game_loop observe pick new_stop s = ret r"
  using assms(3,4)
proof (induction "361 - length hs" arbitrary: hs s rule: less_induct)
  case less
  note unfolded = game_loop.simps [of observe pick new_stop s]
  have pos: "legal_history hs" "set hs \<noteq> {p. Inside p}"
    using less.prems(1) ongoing_not_full by (auto simp: ongoing_def)
  have answers: "\<exists>r. pick stop a (g_metrics s) w = ret r"
    if "view a = board_of hs" "usable (g_metrics s) a" for stop a w
    by (rule choose_returns [OF assms(1) pos that])
  from assms(1) less.prems assms(2) show ?case
  proof (cases rule: round_cases)
    case Late
    then show ?thesis using answers by (metis res_distinct(1,3))
  next
    case Aborts
    then show ?thesis using answers by (metis res_distinct(1))
  next
    case (Returns m s')
    let ?h = "hs @ [m]"
    have b: "g_board s' = board_of ?h" using Returns(4) by (simp add: playing_def)
    note won = DidWin_winner_of [OF less.prems(1) Returns(2,3)]
      and nxt = next_position [OF less.prems(1) Returns(2,3)]
    show ?thesis
    proof (cases "winner_of ?h = NONE \<and> \<not> NoMovePossible (board_of ?h)")
      case True
      with nxt have "ongoing ?h" by simp
      moreover have "361 - length ?h < 361 - length hs" using less.prems(1) by (auto simp: ongoing_def)
      ultimately show ?thesis
        using less.hyps [of ?h s'] Returns True won b by (simp add: unfolded)
    next
      case False
      with Returns won b show ?thesis by (auto simp: unfolded)
    qed
  qed
qed

end

section \<open>A request with players that keep the contract\<close>

text \<open>
  The actors a request may name: the random actor, and the Monte Carlo actor with linear
  cells. (Logistic cells may drive the Monte Carlo actor to an occupied field.)
\<close>

definition random_spec :: "actor_spec \<Rightarrow> bool" where
  "random_spec spec \<longleftrightarrow> spec_type spec = ''RandomActor''"

definition linear_spec :: "actor_spec \<Rightarrow> bool" where
  "linear_spec spec \<longleftrightarrow> spec_type spec = ''MonteCarloActor'' \<and>
     GetConfigString (spec_config spec) ''cell'' '''' = (True, ''linear'')"

lemma global_registry_find:
  assumes "global_registry g0 = ret registry"
  shows "smap_find registry t =
    (if t = ''RandomActor'' then Some (RandomActor_factory g0)
     else if t = ''MonteCarloActor'' then Some (MonteCarloActor_factory g0) else None)"
  using assms
  by (auto simp: global_registry_def ActorRegistrar_def ActorRegistry_Register_def
      smap_insert_def smap_empty_def Let_def split: if_splits)

lemma Create_random:
  assumes "global_registry g0 = ret registry" "random_spec spec"
  shows "\<exists>a. ActorRegistry_Create registry (spec_type spec) (spec_config spec) = ret (RandomA a)"
  using assms(2) by (simp add: ActorRegistry_Create_def random_spec_def RandomActor_factory_def
      global_registry_find [OF assms(1)])

lemma Create_linear:
  assumes "global_registry g0 = ret registry" "linear_spec spec"
  shows "\<exists>a. ActorRegistry_Create registry (spec_type spec) (spec_config spec) =
    ret (MonteCarloA Linear a)"
  using assms(2) by (simp add: ActorRegistry_Create_def linear_spec_def MonteCarloActor_factory_def
      global_registry_find [OF assms(1)])

text \<open>Preparing the actors: each gets the next random number and its own metrics group.\<close>

lemma prepare_returns:
  assumes "ActorRegistry_Create registry (spec_type sp1) (spec_config sp1) = ret a1"
    "ActorRegistry_Create registry (spec_type sp2) (spec_config sp2) = ret a2"
  shows "\<exists>r1 r2 g'. foldM (prepare_actor L registry \<lparr>pm_first = sp1, pm_second = sp2\<rparr>) kPlayers
      (\<lparr>pm_first = None, pm_second = None\<rparr>, [], g) =
    ret (\<lparr>pm_first = Some (GameStarted L FIRST r1 0 a1),
          pm_second = Some (GameStarted L SECOND r2 1 a2)\<rparr>,
         [Metric (spec_name sp1) (Group []), Metric (spec_name sp2) (Group [])], g')"
  using assms
  by (auto simp: prepare_actor_def kPlayers_def AddMetricGroup_def Let_def case_prod_unfold)

lemma usable_started:
  assumes "ptr < 2" "a = RandomA r \<or> a = MonteCarloA Linear c"
  shows "actor_usable [Metric n1 (Group []), Metric n2 (Group [])] (GameStarted L pl seed ptr a)"
  using assms
  by (auto simp: mc_usable_def MonteCarloActor_GameStarted_def group_at_def less_2_cases_iff)

lemma game_score_finished:
  assumes "finished (gs @ [m])"
  shows "game_score (board_of (gs @ [m])) m =
    ret (if winner_of (gs @ [m]) = FIRST then Fin 1 else Fin 0)"
proof -
  from assms have g: "ongoing gs" "Inside m" "m \<notin> set gs"
    by (auto simp: finished_def legal_history_snoc)
  have "PlayerMap_at kOpponent (mover (Suc (length gs))) = ret (mover (length gs))"
    by (simp add: mover_Suc PlayerMap_at_mover)
  moreover have "winner_of (gs @ [m]) \<noteq> NONE \<Longrightarrow> winner_of (gs @ [m]) = mover (length gs)"
    using finished_winner [OF assms] by simp
  ultimately show ?thesis
    using DidWin_winner_of [OF g] by (auto simp: game_score_def mover_def)
qed

lemma NewStopSignal_stops_made: "stops_made (\<lambda>_ w. ret (NewStopSignal NowMicros d w))"
  by (simp add: stops_made_def)

text \<open>
  The readings of the clock from a state on. A time limit has to pass within \<open>2 ^ 31\<close> readings:
  the Monte Carlo actor reads the clock once per simulated game and counts the games in an \<open>int\<close>.
\<close>

primrec clock_reading :: "nat \<Rightarrow> 'w now_micros \<Rightarrow> 'w \<Rightarrow> u64" where
  "clock_reading 0 NowMicros w = fst (NowMicros w)"
| "clock_reading (Suc n) NowMicros w = clock_reading n NowMicros (snd (NowMicros w))"

definition clock_reaches :: "'w now_micros \<Rightarrow> u64 \<Rightarrow> bool" where
  "clock_reaches NowMicros d \<longleftrightarrow>
     (\<forall>w. \<exists>k < 2 ^ 31. clock_reading (Suc k) NowMicros w - clock_reading 0 NowMicros w \<ge> d)"

lemma stops_within_clock:
  "d \<le> clock_reading k NowMicros w - t0 \<Longrightarrow>
   stops_within k (\<lambda>w. let (time_now, w') = NowMicros w in (time_now - t0 \<ge> d, w')) w"
  by (induction k arbitrary: w) (auto simp: case_prod_unfold Let_def)

lemma NewStopSignal_stops_fire:
  assumes "clock_reaches NowMicros d"
  shows "stops_fire (\<lambda>_ w. ret (NewStopSignal NowMicros d w))"
proof -
  have "\<exists>k < 2 ^ 31. stops_within k stop w'" if "NewStopSignal NowMicros d w = (stop, w')" for stop w w'
  proof -
    from assms obtain k where k: "k < 2 ^ 31"
      "d \<le> clock_reading k NowMicros (snd (NowMicros w)) - fst (NowMicros w)"
      unfolding clock_reaches_def by (metis clock_reading.simps)
    from stops_within_clock [OF k(2)] that k(1) show ?thesis
      by (auto simp: NewStopSignal_def case_prod_unfold Let_def)
  qed
  then show ?thesis by (simp add: stops_fire_def)
qed

text \<open>What a game leaves in the response.\<close>

definition right_result :: "recording \<Rightarrow> bool" where
  "right_result r \<longleftrightarrow> finished (rec_moves r) \<and>
     rec_score r = (if winner_of (rec_moves r) = FIRST then Fin 1 else Fin 0)"

lemma respond_finished:
  assumes "finished (gs @ [m])" "playing view usable (gs @ [m]) s"
  shows "\<exists>resp w'. respond (m, s) = ret (resp, w') \<and> right_result (resp_recording resp)"
  using assms by (auto simp: respond_def game_score_finished playing_def right_result_def)

lemma PlayGame_unfold:
  assumes "ActorRegistry_Create registry (spec_type (req_first_player req))
      (spec_config (req_first_player req)) = ret a1"
    "ActorRegistry_Create registry (spec_type (req_second_player req))
      (spec_config (req_second_player req)) = ret a2"
    "a1 = RandomA r1 \<or> a1 = MonteCarloA Linear c1" "a2 = RandomA r2 \<or> a2 = MonteCarloA Linear c2"
  shows "\<exists>s. PlayGame L registry NowMicros req w = bnd (game_loop ObserveMove (ChooseMove L)
        (\<lambda>_ w. ret (NewStopSignal NowMicros (req_move_time_limit req) w)) s) respond \<and>
    playing actor_board actor_usable [] s \<and>
    (is_random [] a1 \<and> is_random [] a2 \<longrightarrow> playing actor_board is_random [] s)"
proof -
  from prepare_returns [OF assms(1,2), of L "seed_engine L (req_seed req)"] obtain s1 s2 g' where
    prep: "foldM (prepare_actor L registry
        \<lparr>pm_first = req_first_player req, pm_second = req_second_player req\<rparr>) kPlayers
      (\<lparr>pm_first = None, pm_second = None\<rparr>, [], seed_engine L (req_seed req)) =
    ret (\<lparr>pm_first = Some (GameStarted L FIRST s1 0 a1),
          pm_second = Some (GameStarted L SECOND s2 1 a2)\<rparr>,
         [Metric (spec_name (req_first_player req)) (Group []),
          Metric (spec_name (req_second_player req)) (Group [])], g')" by blast
  show ?thesis
    by (rule exI [of _ "\<lparr>g_board = new_board,
          g_actors = \<lparr>pm_first = Some (GameStarted L FIRST s1 0 a1),
            pm_second = Some (GameStarted L SECOND s2 1 a2)\<rparr>,
          g_metrics = [Metric (spec_name (req_first_player req)) (Group []),
            Metric (spec_name (req_second_player req)) (Group [])],
          g_moves = [], g_env = w\<rparr>"])
      (use assms(3,4) in \<open>auto simp: playing_def new_board_eq actors.started_view
        PlayGame_def prep is_random_def intro!: usable_started\<close>)
qed

subsection \<open>A request for concrete runs\<close>

definition reference_registry :: "nat actor actor_registry" where
  "reference_registry = [(''MonteCarloActor'', MonteCarloActor_factory 0),
     (''RandomActor'', RandomActor_factory 0)]"

definition reference_request :: "string \<Rightarrow> play_game_request" where
  "reference_request second = \<lparr>
     req_first_player = \<lparr>spec_name = ''a'', spec_type = ''RandomActor'', spec_config = []\<rparr>,
     req_second_player = \<lparr>spec_name = ''b'', spec_type = second,
       spec_config = AddConfigItem_string [] ''cell'' ''linear''\<rparr>,
     req_move_time_limit = 100, req_seed = 7\<rparr>"

definition reference_clock :: "u64 now_micros" where
  "reference_clock t = (t, t + 1)"

lemma reference_registry: "global_registry 0 = ret reference_registry"
  by (simp add: global_registry_def ActorRegistrar_def ActorRegistry_Register_def smap_insert_def
      smap_empty_def reference_registry_def)

lemma reference_specs:
  "random_spec (req_first_player (reference_request t))"
  "random_spec (req_second_player (reference_request ''RandomActor''))"
  "linear_spec (req_second_player (reference_request ''MonteCarloActor''))"
  by (simp_all add: reference_request_def random_spec_def linear_spec_def AddConfigItem_string_def
      new_item_def)

lemma reference_clock_reaches:
  assumes "unat d < 2 ^ 31"
  shows "clock_reaches reference_clock d"
proof -
  have reading: "clock_reading k reference_clock w = w + of_nat k" for k w
    by (induction k arbitrary: w) (simp_all add: reference_clock_def algebra_simps)
  have "\<exists>k < 2 ^ 31. d \<le> clock_reading (Suc k) reference_clock w - clock_reading 0 reference_clock w" for w
  proof (cases "d = 0")
    case False
    then have "of_nat (Suc (unat d - 1)) = d" by (simp add: unat_gt_0)
    with assms show ?thesis by (intro exI [of _ "unat d - 1"]) (simp add: reading del: of_nat_Suc)
  qed (auto intro!: exI [of _ 0])
  then show ?thesis by (simp add: clock_reaches_def)
qed

section \<open>Properties\<close>

text \<open>
  C3. A request whose players are random or Monte Carlo with linear cells, on
  a clock that reaches the time limit within \<open>2 ^ 31\<close> readings: \<open>PlayGame\<close> terminates. It ends the process only if a
  simulated game fills the board; otherwise it answers with a recording that is a whole
  game by the rules (legal moves, nobody had five in a row before the last move, and then
  somebody has or the board is full), scored 1 exactly if the first player won.
\<close>

theorem PlayGame_result:
  assumes "lib_ok L" "global_registry g0 = ret registry"
    "random_spec (req_first_player req) \<or> linear_spec (req_first_player req)"
    "random_spec (req_second_player req) \<or> linear_spec (req_second_player req)"
    "clock_reaches NowMicros (req_move_time_limit req)"
  shows "PlayGame L registry NowMicros req w = abort moves_exhausted \<or>
    (\<exists>resp w'. PlayGame L registry NowMicros req w = ret (resp, w') \<and>
       right_result (resp_recording resp))"
proof -
  have created: "\<exists>a r c. ActorRegistry_Create registry (spec_type sp) (spec_config sp) = ret a \<and>
      (a = RandomA r \<or> a = MonteCarloA Linear c)" if "random_spec sp \<or> linear_spec sp" for sp
    using that Create_random [OF assms(2)] Create_linear [OF assms(2)] by metis
  from created [OF assms(3)] created [OF assms(4)] obtain s where
    s: "PlayGame L registry NowMicros req w = bnd (game_loop ObserveMove (ChooseMove L)
        (\<lambda>_ w. ret (NewStopSignal NowMicros (req_move_time_limit req) w)) s) respond"
      "playing actor_board actor_usable [] s"
    using PlayGame_unfold [of registry req _ _ _ _ _ _ L NowMicros w] by metis
  from actors.loop_result [OF assms(1) NewStopSignal_stops_made ongoing_Nil s(2),
      of NowMicros "req_move_time_limit req"] NewStopSignal_stops_fire [OF assms(5)]
  show ?thesis
  proof (elim disjE exE conjE)
    fix gs m s' assume fin: "finished (gs @ [m])" "playing actor_board actor_usable (gs @ [m]) s'"
      and "game_loop ObserveMove (ChooseMove L)
        (\<lambda>_ w. ret (NewStopSignal NowMicros (req_move_time_limit req) w)) s = ret (m, s')"
    with respond_finished [OF fin] show ?thesis by (simp add: s(1))
  qed (simp_all add: s(1))
qed

theorem PlayGame_result_witness:
  "PlayGame reference_lib reference_registry reference_clock (reference_request ''MonteCarloActor'') 0 =
     abort moves_exhausted \<or>
   (\<exists>resp w'. PlayGame reference_lib reference_registry reference_clock
        (reference_request ''MonteCarloActor'') 0 = ret (resp, w') \<and>
      right_result (resp_recording resp))"
proof -
  have "unat (req_move_time_limit (reference_request ''MonteCarloActor'')) < 2 ^ 31" by (simp add: reference_request_def)
  from PlayGame_result [OF reference_lib_ok reference_registry _ _ reference_clock_reaches [OF this]]
  show ?thesis using reference_specs by blast
qed

text \<open>
  C15. Two random players: \<open>PlayGame\<close> always answers, whatever the clock does.
\<close>

theorem PlayGame_random:
  assumes "lib_ok L" "global_registry g0 = ret registry"
    "random_spec (req_first_player req)" "random_spec (req_second_player req)"
  shows "\<exists>resp w'. PlayGame L registry NowMicros req w = ret (resp, w') \<and>
       right_result (resp_recording resp)"
proof -
  obtain r1 r2 where a: "ActorRegistry_Create registry (spec_type (req_first_player req))
      (spec_config (req_first_player req)) = ret (RandomA r1)"
    "ActorRegistry_Create registry (spec_type (req_second_player req))
      (spec_config (req_second_player req)) = ret (RandomA r2)"
    using Create_random [OF assms(2)] assms(3,4) by metis
  from PlayGame_unfold [OF a, of r1 _ r2 _ L NowMicros w] obtain s where
    s: "PlayGame L registry NowMicros req w = bnd (game_loop ObserveMove (ChooseMove L)
        (\<lambda>_ w. ret (NewStopSignal NowMicros (req_move_time_limit req) w)) s) respond"
      "playing actor_board actor_usable [] s" "playing actor_board is_random [] s"
    by (auto simp: is_random_def)
  from random_dispatch.loop_returns [OF assms(1) NewStopSignal_stops_made ongoing_Nil s(3),
      of NowMicros "req_move_time_limit req"]
    actors.loop_result [OF assms(1) NewStopSignal_stops_made ongoing_Nil s(2),
      of NowMicros "req_move_time_limit req"]
  show ?thesis using respond_finished by (auto simp: s(1))
qed

theorem PlayGame_random_witness:
  "\<exists>resp w'. PlayGame reference_lib reference_registry (\<lambda>w. (0, w)) (reference_request ''RandomActor'')
      () = ret (resp, w') \<and> right_result (resp_recording resp)"
  by (rule PlayGame_random [OF reference_lib_ok reference_registry reference_specs(1,2)])

end
