(* ===== verification/Ladder.thy ===== *)
theory Ladder
  imports Worker
begin

text \<open>
  Ladders: the class \<open>Ladder\<close> and its implementation \<open>BasicLadder\<close>
  (\<^verbatim>\<open>gomoku/ladder/ladder.h\<close>, \<^verbatim>\<open>gomoku/ladder/ladder.cc\<close>), and the specification built by
  \<^verbatim>\<open>gomoku/test_ladder.cc\<close>.

  \<open>std::random_device\<close> is the engine of the distributions and is called directly for a
  32-bit number; both are parameters. The \<open>unordered_map\<close> of statistics is only looked up by
  key and is the map of \<^verbatim>\<open>Std_Map\<close>.
\<close>

record ladder_spec =
  ladder_name :: string
  ladder_time_limit :: u64
  ladder_actors :: "actor_spec list"

record actor_stats =
  stats_won :: int
  stats_games :: int

record 'g basic_ladder =
  bl_spec :: ladder_spec
  bl_rng :: 'g
  bl_stats :: "(string, actor_stats) smap"

record 'g random_device =
  device_uniform_int :: "'g uniform_int"
  device_next :: "'g \<Rightarrow> u32 \<times> 'g"

definition BasicLadder :: "ladder_spec \<Rightarrow> 'g \<Rightarrow> 'g basic_ladder" where
  "BasicLadder spec rng = \<lparr>bl_spec = spec, bl_rng = rng, bl_stats = smap_empty\<rparr>"

text \<open>The lines that \<open>LogStats\<close> logs; how numbers are printed is up to \<open>operator<<\<close>.\<close>

definition LogStats ::
  "(int \<Rightarrow> string) \<Rightarrow> (fp \<Rightarrow> string) \<Rightarrow> 'g basic_ladder \<Rightarrow> string list res" where
  "LogStats show_int show_float l =
     bnd (mapM (\<lambda>spec.
       case FindOrNull (bl_stats l) (spec_name spec) of
         None \<Rightarrow> abort (CheckFailed ''stats != nullptr'')
       | Some stats \<Rightarrow> ret (''Actor '' @ spec_name spec @ '': '' @ show_int (stats_won stats) @ ''/'' @
           show_int (stats_games stats) @ '' = '' @
           show_float (fp_div float32 (fp_of_int float32 (stats_won stats))
                                      (fp_of_int float32 (stats_games stats)))))
       (ladder_actors (bl_spec l))) (\<lambda>lines.
     ret ((''Statistics for ladder '' @ ladder_name (bl_spec l) @ '':'') # lines))"

text \<open>A distribution over an empty interval is undefined; so is an index outside a repeated field.\<close>

definition draw_between :: "'g uniform_int \<Rightarrow> int \<Rightarrow> int \<Rightarrow> 'g \<Rightarrow> (int \<times> 'g) res" where
  "draw_between draw a b rng =
     (if a \<le> b then ret (draw a b rng) else abort (Undefined ''uniform_int_distribution bounds''))"

definition repeated_at :: "'a list \<Rightarrow> int \<Rightarrow> 'a res" where
  "repeated_at xs i =
     (if 0 \<le> i \<and> i < int (length xs) then ret (xs ! nat i) else abort (Undefined ''repeated field index''))"

definition skip_first :: "int \<Rightarrow> int \<Rightarrow> int" where
  "skip_first first second = (if second \<ge> first then second + 1 else second)"

definition PrepareGameRequest ::
  "'g random_device \<Rightarrow> 'g basic_ladder \<Rightarrow> (play_game_request \<times> 'g basic_ladder) res" where
  "PrepareGameRequest D l =
     (let actors = ladder_actors (bl_spec l) in
      bnd (draw_between (device_uniform_int D) 0 (int (length actors) - 1) (bl_rng l)) (\<lambda>(first, rng1).
      bnd (draw_between (device_uniform_int D) 0 (int (length actors) - 2) rng1) (\<lambda>(second0, rng2).
      let second = skip_first first second0 in
      bnd (repeated_at actors first) (\<lambda>first_player.
      bnd (repeated_at actors second) (\<lambda>second_player.
      let (seed, rng3) = device_next D rng2 in
      ret (\<lparr>req_first_player = first_player, req_second_player = second_player,
            req_move_time_limit = ladder_time_limit (bl_spec l), req_seed = uint seed\<rparr>,
           l\<lparr>bl_rng := rng3\<rparr>))))))"

text \<open>\<open>stats_[name]\<close> creates the entry with the default member initialisers.\<close>

definition stats_entry :: "(string, actor_stats) smap \<Rightarrow> string \<Rightarrow> actor_stats" where
  "stats_entry m name = FindWithDefault m name \<lparr>stats_won = 0, stats_games = 0\<rparr>"

text \<open>\<open>stats_[name].won += 1\<close> and \<open>stats_[name].games += 1\<close>: the counters are \<open>int\<close>s.\<close>

definition add_win :: "string \<Rightarrow> (string, actor_stats) smap \<Rightarrow> (string, actor_stats) smap res" where
  "add_win name m = bnd (int32 (stats_won (stats_entry m name) + 1)) (\<lambda>won.
     ret (smap_assign name ((stats_entry m name)\<lparr>stats_won := won\<rparr>) m))"

definition add_game :: "string \<Rightarrow> (string, actor_stats) smap \<Rightarrow> (string, actor_stats) smap res" where
  "add_game name m = bnd (int32 (stats_games (stats_entry m name) + 1)) (\<lambda>games.
     ret (smap_assign name ((stats_entry m name)\<lparr>stats_games := games\<rparr>) m))"

definition GameCompleted ::
  "play_game_request \<Rightarrow> play_game_response \<Rightarrow> 'g basic_ladder \<Rightarrow> 'g basic_ladder res" where
  "GameCompleted request response l =
     (let first = spec_name (req_first_player request);
          second = spec_name (req_second_player request);
          (winner, loser) =
            (if fp_ge (rec_score (resp_recording response)) (Fin (1 / 2))
             then (first, second) else (second, first)) in
      bnd (add_win winner (bl_stats l)) (\<lambda>m1.
      bnd (add_game winner m1) (\<lambda>m2.
      bnd (add_game loser m2) (\<lambda>m3.
      ret (l\<lparr>bl_stats := m3\<rparr>)))))"

definition TestLadderSpec :: ladder_spec where
  "TestLadderSpec = \<lparr>ladder_name = ''TestLadder'', ladder_time_limit = 100,
     ladder_actors =
       [\<lparr>spec_name = ''random_actor'', spec_type = ''RandomActor'', spec_config = []\<rparr>,
        \<lparr>spec_name = ''mc_linear_actor'', spec_type = ''MonteCarloActor'',
         spec_config = AddConfigItem_string [] ''cell'' ''linear''\<rparr>,
        \<lparr>spec_name = ''mc_logistic_actor'', spec_type = ''MonteCarloActor'',
         spec_config = AddConfigItem_string [] ''cell'' ''logistic''\<rparr>]\<rparr>"

section \<open>Statistics\<close>

text \<open>The sum of a measure over all entries.\<close>

definition stats_total :: "(actor_stats \<Rightarrow> int) \<Rightarrow> (string, actor_stats) smap \<Rightarrow> int" where
  "stats_total f m = sum_list (map (\<lambda>kv. f (snd kv)) m)"

lemma stats_total_assign:
  assumes "smap_wf m" "f \<lparr>stats_won = 0, stats_games = 0\<rparr> = 0"
  shows "stats_total f (smap_assign k v m) = stats_total f m - f (stats_entry m k) + f v"
  using assms(1)
proof (induction m)
  case (Cons kv m)
  show ?case
  proof (cases "k < fst kv")
    case True
    then have "smap_find (kv # m) k = None"
      using Cons.prems by (intro smap_find_None) (auto simp: smap_wf_def)
    with True show ?thesis using assms(2) by (simp add: stats_total_def stats_entry_def FindWithDefault_def)
  next
    case False
    with Cons show ?thesis
      by (auto simp: stats_total_def stats_entry_def FindWithDefault_def smap_wf_def)
  qed
qed (simp add: stats_total_def stats_entry_def FindWithDefault_def assms(2))

lemma stats_entry_assign:
  "smap_wf m \<Longrightarrow> stats_entry (smap_assign k v m) k' = (if k' = k then v else stats_entry m k')"
  by (simp add: stats_entry_def FindWithDefault_def smap_find_assign)

definition winner_name :: "play_game_request \<Rightarrow> play_game_response \<Rightarrow> string" where
  "winner_name req resp = (if fp_ge (rec_score (resp_recording resp)) (Fin (1 / 2))
     then spec_name (req_first_player req) else spec_name (req_second_player req))"

definition loser_name :: "play_game_request \<Rightarrow> play_game_response \<Rightarrow> string" where
  "loser_name req resp = (if fp_ge (rec_score (resp_recording resp)) (Fin (1 / 2))
     then spec_name (req_second_player req) else spec_name (req_first_player req))"

lemma winner_loser:
  "(if fp_ge (rec_score (resp_recording resp)) (Fin (1 / 2))
    then (spec_name (req_first_player req), spec_name (req_second_player req))
    else (spec_name (req_second_player req), spec_name (req_first_player req))) = (winner_name req resp, loser_name req resp)"
  by (simp add: winner_name_def loser_name_def)

text \<open>Counters start at zero and are never negative; one more win for \<open>w\<close> and one more game for \<open>w\<close> and \<open>x\<close> fit.\<close>

definition stats_nonneg :: "(string, actor_stats) smap \<Rightarrow> bool" where
  "stats_nonneg m \<longleftrightarrow> list_all (\<lambda>kv. 0 \<le> stats_won (snd kv) \<and> 0 \<le> stats_games (snd kv)) m"

definition stats_fit :: "string \<Rightarrow> string \<Rightarrow> (string, actor_stats) smap \<Rightarrow> bool" where
  "stats_fit w x m \<longleftrightarrow> stats_won (stats_entry m w) + 1 < 2 ^ 31 \<and> stats_games (stats_entry m w) + 1 < 2 ^ 31 \<and>
     stats_games (stats_entry m x) + of_bool (x = w) + 1 < 2 ^ 31"

lemma stats_entry_nonneg:
  assumes "stats_nonneg m"
  shows "0 \<le> stats_won (stats_entry m n)" "0 \<le> stats_games (stats_entry m n)"
  using assms by (induction m) (auto simp: stats_nonneg_def stats_entry_def FindWithDefault_def)

lemma stats_nonneg_assign:
  "stats_nonneg m \<Longrightarrow> 0 \<le> stats_won v \<Longrightarrow> 0 \<le> stats_games v \<Longrightarrow> stats_nonneg (smap_assign k v m)"
  by (induction m) (auto simp: stats_nonneg_def)

lemma stats_total_nonneg:
  assumes "stats_nonneg m"
  shows "0 \<le> stats_total stats_won m" "0 \<le> stats_total stats_games m"
  using assms by (induction m) (auto simp: stats_nonneg_def stats_total_def)

lemma stats_entry_total:
  assumes "stats_nonneg m"
  shows "stats_won (stats_entry m n) \<le> stats_total stats_won m" "stats_games (stats_entry m n) \<le> stats_total stats_games m"
  using assms stats_total_nonneg
  by (induction m) (fastforce simp: stats_nonneg_def stats_total_def stats_entry_def FindWithDefault_def)+

text \<open>What one game does: \<open>counted\<close> adds one win to the winner, and one game to each player.\<close>

definition counted :: "string \<Rightarrow> string \<Rightarrow> (string, actor_stats) smap \<Rightarrow> (string, actor_stats) smap \<Rightarrow> bool" where
  "counted w x m m' \<longleftrightarrow> smap_wf m' \<and> stats_nonneg m' \<and>
     (\<forall>n. stats_won (stats_entry m' n) = stats_won (stats_entry m n) + of_bool (n = w) \<and>
        stats_games (stats_entry m' n) = stats_games (stats_entry m n) + of_bool (n = w) + of_bool (n = x)) \<and>
     stats_total stats_won m' = stats_total stats_won m + 1 \<and> stats_total stats_games m' = stats_total stats_games m + 2"

lemma add_ret:
  assumes "stats_nonneg m"
  shows "add_win n m = (if stats_won (stats_entry m n) + 1 < 2 ^ 31
      then ret (smap_assign n ((stats_entry m n)\<lparr>stats_won := stats_won (stats_entry m n) + 1\<rparr>) m) else abort counter_overflow)"
    "add_game n m = (if stats_games (stats_entry m n) + 1 < 2 ^ 31
      then ret (smap_assign n ((stats_entry m n)\<lparr>stats_games := stats_games (stats_entry m n) + 1\<rparr>) m) else abort counter_overflow)"
  using stats_entry_nonneg [OF assms, of n] by (simp_all add: add_win_def add_game_def int32_def)

lemma GameCompleted_cases:
  assumes "smap_wf (bl_stats l)" "stats_nonneg (bl_stats l)"
  shows "if stats_fit (winner_name req resp) (loser_name req resp) (bl_stats l)
    then \<exists>m. GameCompleted req resp l = ret (l\<lparr>bl_stats := m\<rparr>) \<and> counted (winner_name req resp) (loser_name req resp) (bl_stats l) m
    else GameCompleted req resp l = abort counter_overflow"
proof -
  let ?w = "winner_name req resp" and ?x = "loser_name req resp" and ?m0 = "bl_stats l"
  define m1 where "m1 = smap_assign ?w ((stats_entry ?m0 ?w)\<lparr>stats_won := stats_won (stats_entry ?m0 ?w) + 1\<rparr>) ?m0"
  define m2 where "m2 = smap_assign ?w ((stats_entry m1 ?w)\<lparr>stats_games := stats_games (stats_entry m1 ?w) + 1\<rparr>) m1"
  define m3 where "m3 = smap_assign ?x ((stats_entry m2 ?x)\<lparr>stats_games := stats_games (stats_entry m2 ?x) + 1\<rparr>) m2"
  have wf: "smap_wf m1" "smap_wf m2" "smap_wf m3" using assms(1) by (simp_all add: m1_def m2_def m3_def smap_wf_assign)
  have n1: "stats_nonneg m1" unfolding m1_def
    using stats_entry_nonneg [OF assms(2), of ?w] by (intro stats_nonneg_assign [OF assms(2)]) simp_all
  have n2: "stats_nonneg m2" unfolding m2_def
    using stats_entry_nonneg [OF n1, of ?w] by (intro stats_nonneg_assign [OF n1]) simp_all
  have n3: "stats_nonneg m3" unfolding m3_def
    using stats_entry_nonneg [OF n2, of ?x] by (intro stats_nonneg_assign [OF n2]) simp_all
  have games: "stats_games (stats_entry m1 ?w) = stats_games (stats_entry ?m0 ?w)"
    "stats_games (stats_entry m2 ?x) = stats_games (stats_entry ?m0 ?x) + of_bool (?x = ?w)"
    using assms(1) wf(1) by (simp_all add: m1_def m2_def stats_entry_assign)
  have run: "GameCompleted req resp l =
      (if stats_won (stats_entry ?m0 ?w) + 1 < 2 ^ 31 \<and> stats_games (stats_entry ?m0 ?w) + 1 < 2 ^ 31 \<and>
          stats_games (stats_entry ?m0 ?x) + of_bool (?x = ?w) + 1 < 2 ^ 31
       then ret (l\<lparr>bl_stats := m3\<rparr>) else abort counter_overflow)"
    unfolding GameCompleted_def winner_loser Let_def prod.case
      add_ret(1) [OF assms(2), of ?w, folded m1_def]
    using add_ret(2) [OF n1, of ?w, folded m2_def] add_ret(2) [OF n2, of ?x, folded m3_def] games by simp
  have "counted ?w ?x ?m0 m3"
    unfolding counted_def using wf n3 assms(1)
    by (simp add: m1_def m2_def m3_def stats_entry_assign stats_total_assign smap_wf_assign)
  with run show ?thesis unfolding stats_fit_def by auto
qed

lemma GameCompleted_ret:
  assumes "smap_wf (bl_stats l)" "stats_nonneg (bl_stats l)" "GameCompleted req resp l = ret l'"
  shows "bl_spec l' = bl_spec l" "bl_rng l' = bl_rng l"
    "counted (winner_name req resp) (loser_name req resp) (bl_stats l) (bl_stats l')"
  using GameCompleted_cases [OF assms(1,2), of req resp] assms(3) by (auto split: if_splits)

text \<open>The counters fit as long as fewer than \<open>2 ^ 30 - 1\<close> games are counted.\<close>

lemma GameCompleted_returns:
  assumes "smap_wf (bl_stats l)" "stats_nonneg (bl_stats l)" "stats_total stats_won (bl_stats l) < 2 ^ 30 - 1"
    "stats_total stats_games (bl_stats l) = 2 * stats_total stats_won (bl_stats l)"
  shows "\<exists>l'. GameCompleted req resp l = ret l'"
proof -
  have "stats_fit w x (bl_stats l)" for w x
    using stats_entry_total [OF assms(2), of w] stats_entry_total [OF assms(2), of x] assms(3,4) by (auto simp: stats_fit_def)
  then show ?thesis using GameCompleted_cases [OF assms(1,2), of req resp] by auto
qed

section \<open>Requests\<close>

text \<open>The shift over the first player makes a bijection onto the ordered pairs of different actors.\<close>

lemma skip_first_bij:
  "bij_betw (\<lambda>(a, b). (nat a, nat (skip_first a b)))
     ({0..int n - 1} \<times> {0..int n - 2}) {(i, j). i < n \<and> j < n \<and> i \<noteq> j}"
  by (rule bij_betw_byWitness [where f' = "\<lambda>(i, j). (int i, if j > i then int j - 1 else int j)"])
    (auto simp: skip_first_def split: if_splits)

definition request_from :: "ladder_spec \<Rightarrow> play_game_request \<Rightarrow> bool" where
  "request_from spec req \<longleftrightarrow>
     (\<exists>i j. i < length (ladder_actors spec) \<and> j < length (ladder_actors spec) \<and> i \<noteq> j \<and>
        req_first_player req = ladder_actors spec ! i \<and>
        req_second_player req = ladder_actors spec ! j) \<and>
     req_move_time_limit req = ladder_time_limit spec"

lemma PrepareGameRequest_draws:
  assumes "uniform_int_ok (device_uniform_int D)" "2 \<le> length (ladder_actors (bl_spec l))"
    and d: "device_uniform_int D 0 (int (length (ladder_actors (bl_spec l))) - 1) (bl_rng l) = (i, g1)"
      "device_uniform_int D 0 (int (length (ladder_actors (bl_spec l))) - 2) g1 = (j, g2)" "device_next D g2 = (sd, g3)"
  shows "0 \<le> i" "i \<le> int (length (ladder_actors (bl_spec l))) - 1" "0 \<le> j" "j \<le> int (length (ladder_actors (bl_spec l))) - 2"
    "PrepareGameRequest D l = ret (\<lparr>req_first_player = ladder_actors (bl_spec l) ! nat i,
      req_second_player = ladder_actors (bl_spec l) ! nat (skip_first i j),
      req_move_time_limit = ladder_time_limit (bl_spec l), req_seed = uint sd\<rparr>, l\<lparr>bl_rng := g3\<rparr>)"
proof -
  let ?n = "int (length (ladder_actors (bl_spec l)))"
  have ne: "ladder_actors (bl_spec l) \<noteq> []" using assms(2) by auto
  then show i: "0 \<le> i" "i \<le> ?n - 1" and j: "0 \<le> j" "j \<le> ?n - 2"
    using assms(1)[unfolded uniform_int_ok_def, rule_format, of 0 "?n - 1" "bl_rng l"] assms(2)
      assms(1)[unfolded uniform_int_ok_def, rule_format, of 0 "?n - 2" g1]
    by (simp_all add: d)
  have "0 \<le> skip_first i j" "skip_first i j < ?n" using i j by (auto simp: skip_first_def)
  then show "PrepareGameRequest D l = ret (\<lparr>req_first_player = ladder_actors (bl_spec l) ! nat i,
      req_second_player = ladder_actors (bl_spec l) ! nat (skip_first i j),
      req_move_time_limit = ladder_time_limit (bl_spec l), req_seed = uint sd\<rparr>, l\<lparr>bl_rng := g3\<rparr>)"
    using assms(2) ne i by (simp add: PrepareGameRequest_def draw_between_def d repeated_at_def Let_def)
qed

lemma PrepareGameRequest_ret:
  assumes "uniform_int_ok (device_uniform_int D)" "2 \<le> length (ladder_actors (bl_spec l))"
  shows "\<exists>req rng. PrepareGameRequest D l = ret (req, l\<lparr>bl_rng := rng\<rparr>) \<and>
    request_from (bl_spec l) req"
proof -
  let ?n = "int (length (ladder_actors (bl_spec l)))"
  obtain i g1 where d1: "device_uniform_int D 0 (?n - 1) (bl_rng l) = (i, g1)" by (metis surj_pair)
  obtain j g2 where d2: "device_uniform_int D 0 (?n - 2) g1 = (j, g2)" by (metis surj_pair)
  obtain sd g3 where d3: "device_next D g2 = (sd, g3)" by (metis surj_pair)
  note p = PrepareGameRequest_draws [OF assms d1 d2 d3]
  have s: "nat (skip_first i j) < length (ladder_actors (bl_spec l))" "nat i < length (ladder_actors (bl_spec l))"
    "nat i \<noteq> nat (skip_first i j)"
    using p(1-4) by (auto simp: skip_first_def)
  show ?thesis unfolding p(5) request_from_def using s by auto
qed

text \<open>With one actor or none, the second distribution has no valid bounds.\<close>

lemma PrepareGameRequest_few:
  assumes "length (ladder_actors (bl_spec l)) < 2"
  shows "PrepareGameRequest D l = abort (Undefined ''uniform_int_distribution bounds'')"
  using assms
  by (cases "ladder_actors (bl_spec l)")
    (auto simp: PrepareGameRequest_def draw_between_def Let_def case_prod_unfold)

section \<open>The contract of a ladder\<close>

text \<open>
  What a supervisor relies on: a request can always be prepared, every request is allowed,
  every completed game that returns is counted exactly once, and it returns as long as fewer than \<open>limit\<close>
  games are counted.
\<close>

locale ladder =
  fixes prepare :: "'l \<Rightarrow> (play_game_request \<times> 'l) res"
    and completed :: "play_game_request \<Rightarrow> play_game_response \<Rightarrow> 'l \<Rightarrow> 'l res"
    and invar :: "'l \<Rightarrow> bool"
    and tally :: "'l \<Rightarrow> int"
    and limit :: int
    and allowed :: "play_game_request \<Rightarrow> bool"
  assumes prepare_returns: "invar l \<Longrightarrow>
      \<exists>req l'. prepare l = ret (req, l') \<and> invar l' \<and> tally l' = tally l \<and> allowed req"
    and completed_counts: "invar l \<Longrightarrow> completed req resp l = ret l' \<Longrightarrow> invar l' \<and> tally l' = tally l + 1"
    and completed_returns: "invar l \<Longrightarrow> tally l < limit \<Longrightarrow> \<exists>l'. completed req resp l = ret l'"

text \<open>A \<open>BasicLadder\<close> with at least two actors whose statistics are those of games: two games per win, no negative counter.\<close>

definition basic_ladder_ok :: "'g random_device \<Rightarrow> ladder_spec \<Rightarrow> 'g basic_ladder \<Rightarrow> bool" where
  "basic_ladder_ok D spec l \<longleftrightarrow> uniform_int_ok (device_uniform_int D) \<and> bl_spec l = spec \<and>
     2 \<le> length (ladder_actors spec) \<and> smap_wf (bl_stats l) \<and> stats_nonneg (bl_stats l) \<and>
     stats_total stats_games (bl_stats l) = 2 * stats_total stats_won (bl_stats l)"

interpretation basic_ladder: ladder "PrepareGameRequest D" GameCompleted "basic_ladder_ok D spec"
    "\<lambda>l. stats_total stats_won (bl_stats l)" "2 ^ 30 - 1" "request_from spec" for D spec
proof (unfold_locales, goal_cases)
  case (1 l)
  from PrepareGameRequest_ret [of D l] 1 show ?case by (fastforce simp: basic_ladder_ok_def)
next
  case (2 l req resp l')
  then show ?case using GameCompleted_ret [of l req resp l'] by (auto simp: basic_ladder_ok_def counted_def)
next
  case (3 l req resp)
  then show ?case using GameCompleted_returns [of l req resp] by (simp add: basic_ladder_ok_def)
qed

lemma LogStats_ret_iff:
  "(\<exists>lines. LogStats show_int show_float l = ret lines) \<longleftrightarrow>
   (\<forall>spec \<in> set (ladder_actors (bl_spec l)). FindOrNull (bl_stats l) (spec_name spec) \<noteq> None)"
proof -
  have "(\<exists>ys. mapM (\<lambda>spec. case FindOrNull m (spec_name spec) of
         None \<Rightarrow> abort (CheckFailed ''stats != nullptr'') | Some st \<Rightarrow> ret (g spec st)) specs = ret ys) \<longleftrightarrow>
     (\<forall>spec \<in> set specs. FindOrNull m (spec_name spec) \<noteq> None)"
    for m :: "(string, actor_stats) smap" and g :: "actor_spec \<Rightarrow> actor_stats \<Rightarrow> string" and specs
    by (induction specs) (auto simp: bnd_eq_ret split: option.splits)
  then show ?thesis by (simp add: LogStats_def bnd_eq_ret)
qed

section \<open>Properties\<close>

text \<open>
  C21. A ladder of at least two actors: \<open>PrepareGameRequest\<close> draws the first number between \<open>0\<close> and \<open>n - 1\<close> and
  the second between \<open>0\<close> and \<open>n - 2\<close>, and returns the request between the actors at the first number and at the corrected
  second one, with the time limit of the ladder and the next number of the device as its seed. The pairs of numbers in these
  ranges correspond one to one to the ordered pairs of different actors, so uniform draws pick each of these pairs with the
  same probability. With fewer actors the bounds of the second distribution are invalid.
\<close>

theorem PrepareGameRequest_fair:
  assumes "uniform_int_ok (device_uniform_int D)"
  shows "let actors = ladder_actors (bl_spec l); n = int (length actors);
      (first, rng1) = device_uniform_int D 0 (n - 1) (bl_rng l);
      (second, rng2) = device_uniform_int D 0 (n - 2) rng1;
      (seed, rng3) = device_next D rng2
    in if 2 \<le> n
      then (first, second) \<in> {0..n - 1} \<times> {0..n - 2} \<and>
        bij_betw (\<lambda>(a, b). (nat a, nat (skip_first a b))) ({0..n - 1} \<times> {0..n - 2})
          {(i, j). i < length actors \<and> j < length actors \<and> i \<noteq> j} \<and>
        PrepareGameRequest D l = ret (\<lparr>req_first_player = actors ! nat first,
          req_second_player = actors ! nat (skip_first first second),
          req_move_time_limit = ladder_time_limit (bl_spec l), req_seed = uint seed\<rparr>, l\<lparr>bl_rng := rng3\<rparr>)
      else PrepareGameRequest D l = abort (Undefined ''uniform_int_distribution bounds'')"
proof -
  let ?n = "int (length (ladder_actors (bl_spec l)))"
  obtain i g1 where d1: "device_uniform_int D 0 (?n - 1) (bl_rng l) = (i, g1)" by (metis surj_pair)
  obtain j g2 where d2: "device_uniform_int D 0 (?n - 2) g1 = (j, g2)" by (metis surj_pair)
  obtain sd g3 where d3: "device_next D g2 = (sd, g3)" by (metis surj_pair)
  show ?thesis
  proof (cases "2 \<le> ?n")
    case True
    then show ?thesis using PrepareGameRequest_draws [OF assms _ d1 d2 d3] skip_first_bij
      by (simp add: d1 d2 d3 Let_def)
  next
    case False
    then show ?thesis using PrepareGameRequest_few [of l D] by (simp add: d1 d2 d3 Let_def)
  qed
qed

theorem PrepareGameRequest_fair_witness:
  "PrepareGameRequest \<lparr>device_uniform_int = ref_uniform_int, device_next = (\<lambda>g. (9, g))\<rparr> (BasicLadder TestLadderSpec 2) =
     ret (\<lparr>req_first_player = ladder_actors TestLadderSpec ! 2, req_second_player = ladder_actors TestLadderSpec ! 1,
       req_move_time_limit = 100, req_seed = 9\<rparr>, (BasicLadder TestLadderSpec 2)\<lparr>bl_rng := 4\<rparr>)"
proof -
  let ?D = "\<lparr>device_uniform_int = ref_uniform_int, device_next = (\<lambda>g. (9, g))\<rparr>"
  have "uniform_int_ok (device_uniform_int ?D)" by (simp add: ref_uniform_int_ok)
  from PrepareGameRequest_fair [OF this, of "BasicLadder TestLadderSpec 2"] show ?thesis
    by (simp add: BasicLadder_def TestLadderSpec_def ref_uniform_int_def skip_first_def Let_def)
qed

text \<open>
  C22. A completed game adds one win to the first player's actor if the
  score is at least one half and to the second player's otherwise, one game to each of the
  two (two if they have the same name), and changes no other entry; entries appear with zeros. It returns exactly when the new
  counts fit into an \<open>int\<close>; otherwise the addition is undefined.
\<close>

theorem GameCompleted_counts:
  assumes "smap_wf (bl_stats l)" "stats_nonneg (bl_stats l)"
  shows "if stats_fit (winner_name req resp) (loser_name req resp) (bl_stats l)
    then \<exists>l'. GameCompleted req resp l = ret l' \<and> smap_wf (bl_stats l') \<and> stats_nonneg (bl_stats l') \<and>
      bl_spec l' = bl_spec l \<and> bl_rng l' = bl_rng l \<and>
      (\<forall>n. stats_won (stats_entry (bl_stats l') n) = stats_won (stats_entry (bl_stats l) n) + of_bool (n = winner_name req resp) \<and>
        stats_games (stats_entry (bl_stats l') n) =
          stats_games (stats_entry (bl_stats l) n) + of_bool (n = winner_name req resp) + of_bool (n = loser_name req resp))
    else GameCompleted req resp l = abort (Undefined ''signed overflow'')"
  using GameCompleted_cases [OF assms, of req resp] by (auto simp: counted_def split: if_splits)

theorem GameCompleted_counts_witness:
  "\<exists>l'. GameCompleted (reference_request ''RandomActor'')
      \<lparr>resp_recording = \<lparr>rec_moves = [], rec_score = Fin 0\<rparr>, resp_metrics = []\<rparr> (BasicLadder TestLadderSpec ()) = ret l' \<and>
    stats_won (stats_entry (bl_stats l') ''b'') = 1 \<and> stats_won (stats_entry (bl_stats l') ''a'') = 0 \<and>
    stats_games (stats_entry (bl_stats l') ''a'') = 1"
proof -
  let ?resp = "\<lparr>resp_recording = \<lparr>rec_moves = [], rec_score = Fin 0\<rparr>, resp_metrics = []\<rparr> :: play_game_response"
    and ?req = "reference_request ''RandomActor''" and ?l = "BasicLadder TestLadderSpec ()"
  have names: "winner_name ?req ?resp = ''b''" "loser_name ?req ?resp = ''a''"
    by (simp_all add: winner_name_def loser_name_def reference_request_def fp_ge_def)
  have entry: "stats_entry (bl_stats ?l) n = \<lparr>stats_won = 0, stats_games = 0\<rparr>" for n
    by (simp add: BasicLadder_def stats_entry_def FindWithDefault_def)
  have "smap_wf (bl_stats ?l)" "stats_nonneg (bl_stats ?l)"
    by (simp_all add: BasicLadder_def stats_nonneg_def smap_empty_def smap_wf_def)
  from GameCompleted_counts [OF this, of ?req ?resp] show ?thesis
    unfolding names by (auto simp: entry stats_fit_def)
qed

text \<open>
  \<open>LogStats\<close> returns exactly if every actor of the ladder has an entry
  in the statistics; an actor that has not played yet ends the process.
\<close>

theorem LogStats_needs_games:
  "(\<exists>lines. LogStats show_int show_float l = ret lines) \<longleftrightarrow>
   list_all (\<lambda>spec. FindOrNull (bl_stats l) (spec_name spec) \<noteq> None) (ladder_actors (bl_spec l))"
  by (simp add: LogStats_ret_iff list_all_iff)

end
