(* ===== verification/Ladder_Supervisor.thy ===== *)
theory Ladder_Supervisor
  imports Ladder
begin

text \<open>
  The ladder supervisor: \<^verbatim>\<open>gomoku/ladder/supervisor.cc\<close>.

  \<open>Supervisor::Play\<close> sends a first wave of asynchronous calls and then handles one
  completion at a time. A call in flight is an element of \<open>sv_calls\<close>; gRPC delivers the
  completion of any of them, in any order, with an arbitrary outcome. The handler of one
  completion is an executable function, the interleaving of completions the step relation
  \<open>play_step\<close>; the invariants are proved by rule induction over the reachable states.

  The ladder is a parameter (its two operations), as the code calls it through the
  abstract class; the results are proved in the contract \<open>ladder\<close> and hold for
  \<open>BasicLadder\<close> by its interpretation.
\<close>

record call =
  call_worker :: nat
  call_request :: play_game_request

record 'l supervisor =
  sv_ladder :: 'l
  sv_metrics :: metric_collector
  sv_workers :: nat
  sv_concurrent_games :: int
  sv_calls :: "call list"
  sv_started :: int
  sv_completed :: int

type_synonym 'l prepare_op = "'l \<Rightarrow> (play_game_request \<times> 'l) res"
type_synonym 'l completed_op = "play_game_request \<Rightarrow> play_game_response \<Rightarrow> 'l \<Rightarrow> 'l res"

text \<open>A worker is the position of its stub in \<open>workers_\<close>.\<close>

definition AddWorker :: "'l supervisor \<Rightarrow> 'l supervisor" where
  "AddWorker s = s\<lparr>sv_workers := sv_workers s + 1\<rparr>"

definition Supervisor_PlayGame :: "'l prepare_op \<Rightarrow> nat \<Rightarrow> 'l supervisor \<Rightarrow> 'l supervisor res" where
  "Supervisor_PlayGame prepare worker s =
     bnd (prepare (sv_ladder s)) (\<lambda>(request, l').
     ret (s\<lparr>sv_ladder := l',
            sv_calls := sv_calls s @ [\<lparr>call_worker = worker, call_request = request\<rparr>]\<rparr>))"

text \<open>The inner loop of the first wave, with \<open>n\<close> rounds left until \<open>i = concurrent_games_\<close>.\<close>

fun wave_worker :: "'l prepare_op \<Rightarrow> int \<Rightarrow> nat \<Rightarrow> nat \<Rightarrow> 'l supervisor \<Rightarrow> 'l supervisor res" where
  "wave_worker prepare num_games worker 0 s = ret s"
| "wave_worker prepare num_games worker (Suc n) s =
     (if sv_started s < num_games then
        bnd (Supervisor_PlayGame prepare worker s) (\<lambda>s'.
        wave_worker prepare num_games worker n (s'\<lparr>sv_started := sv_started s' + 1\<rparr>))
      else ret s)"

definition first_wave :: "'l prepare_op \<Rightarrow> int \<Rightarrow> 'l supervisor \<Rightarrow> 'l supervisor res" where
  "first_wave prepare num_games s =
     foldM (\<lambda>worker. wave_worker prepare num_games worker (nat (sv_concurrent_games s)))
       [0..<sv_workers s] (s\<lparr>sv_calls := [], sv_started := 0, sv_completed := 0\<rparr>)"

text \<open>A completion: which call, the flag of \<open>queue.Next\<close>, the status and the response.\<close>

record completion =
  cp_call :: nat
  cp_ok :: bool
  cp_status_ok :: bool
  cp_response :: play_game_response

definition remove_call :: "nat \<Rightarrow> 'l supervisor \<Rightarrow> 'l supervisor" where
  "remove_call i s = s\<lparr>sv_calls := take i (sv_calls s) @ drop (Suc i) (sv_calls s)\<rparr>"

definition handle_completion ::
  "'l prepare_op \<Rightarrow> 'l completed_op \<Rightarrow> int \<Rightarrow> completion \<Rightarrow> 'l supervisor \<Rightarrow> 'l supervisor res" where
  "handle_completion prepare completed num_games c s =
     (let call = sv_calls s ! cp_call c; s1 = remove_call (cp_call c) s in
      if \<not> cp_ok c then ret s1
      else if \<not> cp_status_ok c then ret s1
      else
        bnd (MetricCollector_Append (sv_metrics s1) (resp_metrics (cp_response c))) (\<lambda>m.
        bnd (completed (call_request call) (cp_response c) (sv_ladder s1)) (\<lambda>l.
        let s2 = s1\<lparr>sv_metrics := m, sv_ladder := l, sv_completed := sv_completed s1 + 1\<rparr> in
        if sv_started s2 < num_games then
          bnd (Supervisor_PlayGame prepare (call_worker call) s2) (\<lambda>s3.
          ret (s3\<lparr>sv_started := sv_started s3 + 1\<rparr>))
        else ret s2)))"

text \<open>
  The loop on a given sequence of completions: it stops when all games are completed; with
  no completion left to deliver it is where \<open>queue.Next\<close> blocks.
\<close>

fun rpc_loop ::
  "'l prepare_op \<Rightarrow> 'l completed_op \<Rightarrow> int \<Rightarrow> completion list \<Rightarrow> 'l supervisor \<Rightarrow> 'l supervisor res" where
  "rpc_loop prepare completed num_games [] s = ret s"
| "rpc_loop prepare completed num_games (c # cs) s =
     (if sv_completed s < num_games then
        bnd (handle_completion prepare completed num_games c s) (rpc_loop prepare completed num_games cs)
      else ret s)"

definition Play ::
  "'l prepare_op \<Rightarrow> 'l completed_op \<Rightarrow> int \<Rightarrow> completion list \<Rightarrow> 'l supervisor \<Rightarrow> 'l supervisor res" where
  "Play prepare completed num_games cs s =
     bnd (first_wave prepare num_games s) (rpc_loop prepare completed num_games cs)"

section \<open>The step relation\<close>

inductive play_step ::
  "'l prepare_op \<Rightarrow> 'l completed_op \<Rightarrow> int \<Rightarrow> completion \<Rightarrow> 'l supervisor \<Rightarrow> 'l supervisor \<Rightarrow> bool"
  for prepare completed num_games where
  "sv_completed s < num_games \<Longrightarrow> cp_call c < length (sv_calls s) \<Longrightarrow>
   handle_completion prepare completed num_games c s = ret s' \<Longrightarrow>
   play_step prepare completed num_games c s s'"

inductive_cases play_stepE: "play_step prepare completed num_games c s s'"

inductive play_reach ::
  "'l prepare_op \<Rightarrow> 'l completed_op \<Rightarrow> int \<Rightarrow> 'l supervisor \<Rightarrow> completion list \<Rightarrow> 'l supervisor \<Rightarrow> bool"
  for prepare completed num_games s0 where
  start: "first_wave prepare num_games s0 = ret s \<Longrightarrow> play_reach prepare completed num_games s0 [] s"
| step: "play_reach prepare completed num_games s0 cs s \<Longrightarrow>
    play_step prepare completed num_games c s s' \<Longrightarrow>
    play_reach prepare completed num_games s0 (cs @ [c]) s'"

definition succeeds :: "completion \<Rightarrow> bool" where
  "succeeds c \<longleftrightarrow> cp_ok c \<and> cp_status_ok c"

definition successes :: "completion list \<Rightarrow> nat" where
  "successes cs = length (filter succeeds cs)"

definition failures :: "completion list \<Rightarrow> nat" where
  "failures cs = length (filter (\<lambda>c. \<not> succeeds c) cs)"

definition in_flight :: "nat \<Rightarrow> 'l supervisor \<Rightarrow> nat" where
  "in_flight w s = length (filter (\<lambda>c. call_worker c = w) (sv_calls s))"

text \<open>
  The invariant after the completions \<open>cs\<close>: \<open>W\<close> workers with \<open>C\<close> slots each, and a ladder
  that had counted \<open>T\<close> games before.
\<close>

definition play_inv ::
  "('l \<Rightarrow> bool) \<Rightarrow> ('l \<Rightarrow> int) \<Rightarrow> (play_game_request \<Rightarrow> bool) \<Rightarrow>
   nat \<Rightarrow> nat \<Rightarrow> int \<Rightarrow> int \<Rightarrow> completion list \<Rightarrow> 'l supervisor \<Rightarrow> bool" where
  "play_inv invar tally allowed W C num T cs s \<longleftrightarrow>
     invar (sv_ladder s) \<and> tally (sv_ladder s) = T + sv_completed s \<and>
     sv_completed s = int (successes cs) \<and>
     sv_started s = sv_completed s + int (length (sv_calls s)) + int (failures cs) \<and>
     sv_started s \<le> num \<and>
     (sv_started s < num \<longrightarrow> length (sv_calls s) + failures cs = W * C) \<and>
     list_all (\<lambda>c. allowed (call_request c) \<and> call_worker c < W) (sv_calls s) \<and>
     (\<forall>w. in_flight w s \<le> C)"

text \<open>During the first wave: workers below \<open>k\<close> are served, worker \<open>k\<close> has \<open>m\<close> calls.\<close>

definition wave_inv ::
  "('l \<Rightarrow> bool) \<Rightarrow> ('l \<Rightarrow> int) \<Rightarrow> (play_game_request \<Rightarrow> bool) \<Rightarrow>
   nat \<Rightarrow> int \<Rightarrow> int \<Rightarrow> nat \<Rightarrow> nat \<Rightarrow> 'l supervisor \<Rightarrow> bool" where
  "wave_inv invar tally allowed C num T k m s \<longleftrightarrow>
     invar (sv_ladder s) \<and> tally (sv_ladder s) = T \<and> sv_completed s = 0 \<and>
     sv_started s = int (length (sv_calls s)) \<and> sv_started s \<le> num \<and>
     (sv_started s < num \<longrightarrow> length (sv_calls s) = k * C + m) \<and>
     list_all (\<lambda>c. allowed (call_request c) \<and> call_worker c \<le> k \<and> (call_worker c = k \<longrightarrow> 0 < m)) (sv_calls s) \<and>
     in_flight k s \<le> m \<and> (\<forall>w. w \<noteq> k \<longrightarrow> in_flight w s \<le> C)"

context ladder
begin

lemma PlayGame_call:
  assumes "invar (sv_ladder s)"
  obtains req l' where "Supervisor_PlayGame prepare w s =
      ret (s\<lparr>sv_ladder := l', sv_calls := sv_calls s @ [\<lparr>call_worker = w, call_request = req\<rparr>]\<rparr>)"
    "invar l'" "tally l' = tally (sv_ladder s)" "allowed req"
  using prepare_returns [OF assms] that by (auto simp: Supervisor_PlayGame_def)

lemma wave_worker_inv:
  assumes "wave_inv invar tally allowed C num T k m s" "m + n = C"
  shows "\<exists>s'. wave_worker prepare num k n s = ret s' \<and> wave_inv invar tally allowed C num T k C s'"
  using assms
proof (induction n arbitrary: m s)
  case 0
  then show ?case by simp
next
  case (Suc n)
  have inv: "invar (sv_ladder s)" using Suc.prems(1) by (simp add: wave_inv_def)
  show ?case
  proof (cases "sv_started s < num")
    case True
    obtain req l' where c: "Supervisor_PlayGame prepare k s =
      ret (s\<lparr>sv_ladder := l', sv_calls := sv_calls s @ [\<lparr>call_worker = k, call_request = req\<rparr>]\<rparr>)"
      "invar l'" "tally l' = tally (sv_ladder s)" "allowed req"
      by (rule PlayGame_call [OF inv])
    let ?s = "s\<lparr>sv_ladder := l', sv_calls := sv_calls s @ [\<lparr>call_worker = k, call_request = req\<rparr>],
      sv_started := sv_started s + 1\<rparr>"
    have "wave_inv invar tally allowed C num T k (Suc m) ?s"
      using Suc.prems(1) True c by (auto simp: wave_inv_def in_flight_def list_all_iff)
    from Suc.IH [OF this] Suc.prems(2) True c(1) show ?thesis by simp
  next
    case False
    then have "wave_inv invar tally allowed C num T k C s"
      using Suc.prems by (auto simp: wave_inv_def list_all_iff)
    with False show ?thesis by simp
  qed
qed

lemma wave_inv_next:
  assumes "wave_inv invar tally allowed C num T k C s"
  shows "wave_inv invar tally allowed C num T (Suc k) 0 s"
proof -
  have "in_flight (Suc k) s = 0"
    using assms by (auto simp: wave_inv_def in_flight_def list_all_iff filter_empty_conv)
  with assms show ?thesis by (auto simp: wave_inv_def list_all_iff le_Suc_eq)
qed

lemma first_wave_inv:
  assumes "invar (sv_ladder s0)" "0 \<le> num"
  shows "\<exists>s. first_wave prepare num s0 = ret s \<and>
    play_inv invar tally allowed (sv_workers s0) (nat (sv_concurrent_games s0)) num
      (tally (sv_ladder s0)) [] s"
proof -
  let ?C = "nat (sv_concurrent_games s0)" and ?T = "tally (sv_ladder s0)"
  let ?s = "s0\<lparr>sv_calls := [], sv_started := 0, sv_completed := 0\<rparr>"
  have start: "wave_inv invar tally allowed ?C num ?T 0 0 ?s"
    using assms by (simp add: wave_inv_def in_flight_def)
  have "\<exists>s. foldM (\<lambda>worker. wave_worker prepare num worker ?C) [0..<k] ?s = ret s \<and>
    wave_inv invar tally allowed ?C num ?T k 0 s" for k
  proof (induction k)
    case (Suc k)
    then obtain s where s: "foldM (\<lambda>worker. wave_worker prepare num worker ?C) [0..<k] ?s = ret s"
      "wave_inv invar tally allowed ?C num ?T k 0 s" by blast
    from wave_worker_inv [OF s(2)] obtain s' where
      "wave_worker prepare num k ?C s = ret s'" "wave_inv invar tally allowed ?C num ?T k ?C s'" by auto
    with s(1) show ?case by (auto simp: foldM_append intro: wave_inv_next)
  qed (use start in simp)
  then obtain s where s: "first_wave prepare num s0 = ret s"
    "wave_inv invar tally allowed ?C num ?T (sv_workers s0) 0 s"
    unfolding first_wave_def by blast
  have "in_flight w s \<le> ?C" for w using s(2) by (cases "w = sv_workers s0") (auto simp: wave_inv_def)
  with s show ?thesis
    by (auto simp: play_inv_def wave_inv_def successes_def failures_def list_all_iff)
qed

text \<open>Handling a completion never fails unless the ladder does, and keeps the invariant.\<close>

lemma handle_inv:
  assumes inv: "play_inv invar tally allowed W C num T cs s" and i: "cp_call c < length (sv_calls s)"
    and counts: "succeeds c \<Longrightarrow> \<exists>l. completed (call_request (sv_calls s ! cp_call c)) (cp_response c) (sv_ladder s) = ret l"
  shows "\<exists>s'. handle_completion prepare completed num c s = ret s' \<and>
    play_inv invar tally allowed W C num T (cs @ [c]) s'"
proof -
  define xs ys call where "xs = take (cp_call c) (sv_calls s)" and "ys = drop (Suc (cp_call c)) (sv_calls s)"
    and "call = sv_calls s ! cp_call c"
  have calls: "sv_calls s = xs @ call # ys"
    unfolding xs_def ys_def call_def by (rule id_take_nth_drop [OF i])
  have rem: "remove_call (cp_call c) s = s\<lparr>sv_calls := xs @ ys\<rparr>"
    by (simp add: remove_call_def xs_def ys_def)
  show ?thesis
  proof (cases "succeeds c")
    case False
    then have "handle_completion prepare completed num c s = ret (s\<lparr>sv_calls := xs @ ys\<rparr>)"
      by (auto simp: handle_completion_def succeeds_def rem Let_def)
    moreover have "play_inv invar tally allowed W C num T (cs @ [c]) (s\<lparr>sv_calls := xs @ ys\<rparr>)"
    proof -
      have "in_flight w (s\<lparr>sv_calls := xs @ ys\<rparr>) \<le> in_flight w s" for w
        by (simp add: in_flight_def calls)
      then show ?thesis using inv False
        by (auto simp: play_inv_def calls successes_def failures_def intro: order_trans)
    qed
    ultimately show ?thesis by blast
  next
    case True
    obtain m where m: "MetricCollector_Append (sv_metrics s) (resp_metrics (cp_response c)) = ret m"
      by (simp add: MetricCollector_Append_leaves)
    obtain l where cl: "completed (call_request call) (cp_response c) (sv_ladder s) = ret l"
      using counts [OF True] unfolding call_def by blast
    let ?s = "s\<lparr>sv_calls := xs @ ys, sv_metrics := m, sv_ladder := l, sv_completed := sv_completed s + 1\<rparr>"
    have l: "invar l" "tally l = tally (sv_ladder s) + 1"
      using completed_counts [OF _ cl] inv by (simp_all add: play_inv_def)
    show ?thesis
    proof (cases "sv_started s < num")
      case more: True
      obtain req l' where p: "Supervisor_PlayGame prepare (call_worker call) ?s =
        ret (?s\<lparr>sv_ladder := l', sv_calls := xs @ ys @ [\<lparr>call_worker = call_worker call, call_request = req\<rparr>]\<rparr>)"
        "invar l'" "tally l' = tally l" "allowed req"
        using PlayGame_call [of ?s "call_worker call"] l(1) by auto
      let ?t = "?s\<lparr>sv_ladder := l', sv_started := sv_started s + 1,
        sv_calls := xs @ ys @ [\<lparr>call_worker = call_worker call, call_request = req\<rparr>]\<rparr>"
      have "handle_completion prepare completed num c s = ret ?t"
        using True m cl p(1) more by (simp add: handle_completion_def succeeds_def rem Let_def flip: call_def)
      moreover have "in_flight w ?t = in_flight w s" for w by (simp add: in_flight_def calls)
      then have "play_inv invar tally allowed W C num T (cs @ [c]) ?t"
        using inv True more p l by (auto simp: play_inv_def calls successes_def failures_def)
      ultimately show ?thesis by blast
    next
      case False
      have "handle_completion prepare completed num c s = ret ?s"
        using True m cl False by (simp add: handle_completion_def succeeds_def rem Let_def flip: call_def)
      moreover have "in_flight w ?s \<le> in_flight w s" for w by (simp add: in_flight_def calls)
      then have "play_inv invar tally allowed W C num T (cs @ [c]) ?s"
        using inv True False l
        by (auto simp: play_inv_def calls successes_def failures_def intro: order_trans)
      ultimately show ?thesis by blast
    qed
  qed
qed

lemma reach_inv:
  assumes "invar (sv_ladder s0)" "0 \<le> num" "play_reach prepare completed num s0 cs s"
  shows "play_inv invar tally allowed (sv_workers s0) (nat (sv_concurrent_games s0)) num
    (tally (sv_ladder s0)) cs s"
  using assms(3)
proof (induction rule: play_reach.induct)
  case (start s)
  with first_wave_inv [OF assms(1,2)] show ?case by auto
next
  case (step cs s c s')
  from step.hyps(2) obtain h: "cp_call c < length (sv_calls s)" "handle_completion prepare completed num c s = ret s'"
    by (elim play_stepE)
  have "\<exists>l. completed (call_request (sv_calls s ! cp_call c)) (cp_response c) (sv_ladder s) = ret l" if "succeeds c"
    using h(2) that by (auto simp: handle_completion_def succeeds_def remove_call_def Let_def bnd_eq_ret)
  from handle_inv [OF step.IH h(1) this] h(2) show ?case by auto
qed

text \<open>
  Until all games are completed some completion is pending, unless calls have failed: then
  the games that failed are never counted and the loop never ends.
\<close>

lemma reach_progress:
  assumes "invar (sv_ladder s0)" "0 \<le> num" "play_reach prepare completed num s0 cs s"
    "0 < sv_workers s0" "0 < sv_concurrent_games s0" "failures cs = 0" "tally (sv_ladder s0) + num \<le> limit" "sv_completed s < num"
  shows "sv_calls s \<noteq> [] \<and> (\<forall>c. cp_call c < length (sv_calls s) \<longrightarrow>
    (\<exists>s'. play_step prepare completed num c s s'))"
proof -
  note inv = reach_inv [OF assms(1-3)]
  have "0 < sv_workers s0 * nat (sv_concurrent_games s0)" using assms(4,5) by simp
  then have "sv_calls s \<noteq> []" using inv assms(6,8) by (cases "sv_started s < num") (auto simp: play_inv_def)
  moreover have "\<exists>s'. play_step prepare completed num c s s'" if "cp_call c < length (sv_calls s)" for c
  proof -
    have "invar (sv_ladder s)" "tally (sv_ladder s) < limit" using inv assms(7,8) by (simp_all add: play_inv_def)
    from handle_inv [OF inv that completed_returns [OF this]] assms(8) that show ?thesis by (blast intro: play_step.intros)
  qed
  ultimately show ?thesis by blast
qed

lemma reach_counts:
  assumes "invar (sv_ladder s0)" "0 \<le> num" "play_reach prepare completed num s0 cs s"
  shows "length cs + length (sv_calls s) = nat (sv_started s)" "sv_started s \<le> num"
    "sv_completed s = int (successes cs)" "sv_completed s \<le> num - int (failures cs)"
    "tally (sv_ladder s) = tally (sv_ladder s0) + int (successes cs)"
    "in_flight w s \<le> nat (sv_concurrent_games s0)"
    "list_all (\<lambda>c. allowed (call_request c)) (sv_calls s)"
proof -
  have "length cs = successes cs + failures cs"
    unfolding successes_def failures_def by (rule sum_length_filter_compl [symmetric])
  with reach_inv [OF assms] show "length cs + length (sv_calls s) = nat (sv_started s)"
    "sv_started s \<le> num" "sv_completed s = int (successes cs)"
    "sv_completed s \<le> num - int (failures cs)"
    "tally (sv_ladder s) = tally (sv_ladder s0) + int (successes cs)"
    "in_flight w s \<le> nat (sv_concurrent_games s0)"
    "list_all (\<lambda>c. allowed (call_request c)) (sv_calls s)"
    by (simp_all add: play_inv_def list_all_iff)
qed

end

lemma rpc_loop_snoc:
  "rpc_loop prepare completed num (cs @ [c]) s =
     bnd (rpc_loop prepare completed num cs s) (\<lambda>s'.
     if sv_completed s' < num then handle_completion prepare completed num c s' else ret s')"
proof (induction cs arbitrary: s)
  case Nil
  have "rpc_loop prepare completed num [] = ret" by (rule ext) simp
  then show ?case by simp
qed (auto simp: bnd_assoc intro: bnd_cong)

section \<open>Properties\<close>

text \<open>A ladder and a supervisor for concrete runs.\<close>

definition reference_device :: "nat random_device" where
  "reference_device = \<lparr>device_uniform_int = ref_uniform_int, device_next = (\<lambda>g. (of_nat g, Suc g))\<rparr>"

definition reference_supervisor :: "nat basic_ladder supervisor" where
  "reference_supervisor = AddWorker (AddWorker \<lparr>sv_ladder = BasicLadder TestLadderSpec 0,
     sv_metrics = smap_empty, sv_workers = 0, sv_concurrent_games = 2, sv_calls = [],
     sv_started = 0, sv_completed = 0\<rparr>)"

definition reference_completion :: "bool \<Rightarrow> completion" where
  "reference_completion good = \<lparr>cp_call = 1, cp_ok = True, cp_status_ok = good,
     cp_response = \<lparr>resp_recording = \<lparr>rec_moves = [], rec_score = Fin 1\<rparr>, resp_metrics = []\<rparr>\<rparr>"

lemma reference_ladder_ok: "basic_ladder_ok reference_device TestLadderSpec (sv_ladder reference_supervisor)"
  by (simp add: basic_ladder_ok_def reference_device_def reference_supervisor_def BasicLadder_def
      TestLadderSpec_def ref_uniform_int_ok AddWorker_def stats_total_def stats_nonneg_def smap_empty_def smap_wf_def)

lemma reference_tally: "stats_total stats_won (bl_stats (sv_ladder reference_supervisor)) = 0"
  by (simp add: reference_supervisor_def BasicLadder_def AddWorker_def stats_total_def smap_empty_def)

lemma reference_run:
  "\<exists>s. play_reach (PrepareGameRequest reference_device) GameCompleted 7 reference_supervisor
     [reference_completion good] s \<and> sv_completed s < 7"
proof -
  note ok = reference_ladder_ok
  obtain s where s: "first_wave (PrepareGameRequest reference_device) 7 reference_supervisor = ret s"
    "play_inv (basic_ladder_ok reference_device TestLadderSpec)
       (\<lambda>l. stats_total stats_won (bl_stats l)) (request_from TestLadderSpec)
       (sv_workers reference_supervisor) (nat (sv_concurrent_games reference_supervisor)) 7
       (stats_total stats_won (bl_stats (sv_ladder reference_supervisor))) [] s"
    using basic_ladder.first_wave_inv [OF ok, of 7] by auto
  have reach: "play_reach (PrepareGameRequest reference_device) GameCompleted 7 reference_supervisor [] s"
    using s(1) by (rule play_reach.start)
  have s3: "sv_completed s = 0" "cp_call (reference_completion good) < length (sv_calls s)"
    using s(2) by (auto simp: play_inv_def reference_completion_def reference_supervisor_def
        AddWorker_def successes_def failures_def)
  from basic_ladder.reach_progress [OF ok _ reach] s3 obtain s' where
    st: "play_step (PrepareGameRequest reference_device) GameCompleted 7 (reference_completion good) s s'"
    using reference_tally by (auto simp: failures_def reference_supervisor_def AddWorker_def)
  from play_reach.step [OF reach st] have
    r: "play_reach (PrepareGameRequest reference_device) GameCompleted 7 reference_supervisor
      [reference_completion good] s'" by simp
  have "successes [reference_completion good] \<le> 1" by (simp add: successes_def)
  with r basic_ladder.reach_counts(3) [OF ok _ r] show ?thesis by auto
qed

text \<open>
  C4. In every state that \<open>Supervisor::Play\<close> reaches with a \<open>BasicLadder\<close>,
  whatever the order and the outcome of the calls: every game started is in flight or was
  answered, never more than \<open>num_games\<close> are started, the statistics grew by exactly one win
  and two games per successful call, no worker has more than \<open>concurrent_games\<close> calls in
  flight, and every call in flight asks for a game between two different actors of the
  ladder.
\<close>

theorem Play_accounting:
  assumes "basic_ladder_ok D spec (sv_ladder s0)" "0 \<le> num_games"
    "play_reach (PrepareGameRequest D) GameCompleted num_games s0 cs s"
  shows "length cs + length (sv_calls s) = nat (sv_started s) \<and> sv_started s \<le> num_games \<and>
    sv_completed s = int (successes cs) \<and>
    stats_total stats_won (bl_stats (sv_ladder s)) =
      stats_total stats_won (bl_stats (sv_ladder s0)) + int (successes cs) \<and>
    stats_total stats_games (bl_stats (sv_ladder s)) =
      2 * stats_total stats_won (bl_stats (sv_ladder s)) \<and>
    in_flight w s \<le> nat (sv_concurrent_games s0) \<and>
    list_all (\<lambda>c. request_from spec (call_request c)) (sv_calls s)"
proof -
  have "basic_ladder_ok D spec (sv_ladder s)"
    using basic_ladder.reach_inv [OF assms] by (simp add: play_inv_def)
  then have "stats_total stats_games (bl_stats (sv_ladder s)) =
      2 * stats_total stats_won (bl_stats (sv_ladder s))" by (simp add: basic_ladder_ok_def)
  with basic_ladder.reach_counts [OF assms] show ?thesis by simp
qed

theorem Play_accounting_witness:
  "\<exists>s. play_reach (PrepareGameRequest reference_device) GameCompleted 7 reference_supervisor
      [reference_completion True] s \<and> in_flight 0 s \<le> 2 \<and> sv_started s \<le> 7 \<and>
     sv_completed s = int (successes [reference_completion True])"
proof -
  obtain s where s: "play_reach (PrepareGameRequest reference_device) GameCompleted 7
      reference_supervisor [reference_completion True] s" using reference_run by blast
  have "sv_concurrent_games reference_supervisor = 2" by (simp add: reference_supervisor_def AddWorker_def)
  with Play_accounting [OF reference_ladder_ok _ s, of 0] s show ?thesis by auto
qed

text \<open>
  C14. As long as no call fails, \<open>Supervisor::Play\<close> with at least one worker and
  one slot never waits in vain: either all games are completed and no call is left, or a
  completion is pending and each pending one can be handled; and it handles at most
  \<open>num_games\<close> completions. The ladder's counters are \<open>int\<close>s: the games counted before and the games to play are
  together less than \<open>2 ^ 30\<close>.
\<close>

theorem Play_progress:
  assumes "basic_ladder_ok D spec (sv_ladder s0)" "0 \<le> num_games"
    "play_reach (PrepareGameRequest D) GameCompleted num_games s0 cs s"
    "0 < sv_workers s0" "0 < sv_concurrent_games s0" "failures cs = 0"
    "stats_total stats_won (bl_stats (sv_ladder s0)) + num_games < 2 ^ 30"
  shows "int (length cs) \<le> num_games \<and>
    (sv_completed s = num_games \<and> sv_calls s = [] \<or>
     sv_calls s \<noteq> [] \<and> (\<forall>c. cp_call c < length (sv_calls s) \<longrightarrow>
       (\<exists>s'. play_step (PrepareGameRequest D) GameCompleted num_games c s s')))"
proof
  show "int (length cs) \<le> num_games"
    using basic_ladder.reach_counts(1,2) [OF assms(1-3)] assms(2) by linarith
  show "sv_completed s = num_games \<and> sv_calls s = [] \<or>
     sv_calls s \<noteq> [] \<and> (\<forall>c. cp_call c < length (sv_calls s) \<longrightarrow>
       (\<exists>s'. play_step (PrepareGameRequest D) GameCompleted num_games c s s'))"
  proof (cases "sv_completed s < num_games")
    case True
    with basic_ladder.reach_progress [OF assms(1-6)] assms(7) show ?thesis by simp
  next
    case False
    with basic_ladder.reach_inv [OF assms(1-3)] show ?thesis by (simp add: play_inv_def)
  qed
qed

theorem Play_progress_witness:
  "\<exists>s c s'. cp_call c < length (sv_calls s) \<and>
     play_step (PrepareGameRequest reference_device) GameCompleted 7 c s s'"
proof -
  obtain s where s: "play_reach (PrepareGameRequest reference_device) GameCompleted 7
      reference_supervisor [reference_completion True] s" "sv_completed s < 7"
    using reference_run by blast
  have "sv_calls s \<noteq> [] \<and> (\<forall>c. cp_call c < length (sv_calls s) \<longrightarrow>
       (\<exists>s'. play_step (PrepareGameRequest reference_device) GameCompleted 7 c s s'))"
    using Play_progress [OF reference_ladder_ok _ s(1)] s(2) reference_tally
    by (simp add: reference_supervisor_def AddWorker_def failures_def succeeds_def reference_completion_def)
  then show ?thesis by (metis completion.select_convs(1) length_greater_0_conv)
qed

text \<open>
  Once a single call has failed, \<open>Supervisor::Play\<close> can never
  complete all its games: the count stays below \<open>num_games\<close> by the number of failures in
  every reachable state, although the loop only stops when it reaches \<open>num_games\<close>.
\<close>

theorem Play_stuck_after_failure:
  assumes "basic_ladder_ok D spec (sv_ladder s0)" "0 \<le> num_games"
    "play_reach (PrepareGameRequest D) GameCompleted num_games s0 cs s" "0 < failures cs"
  shows "sv_completed s < num_games"
  using basic_ladder.reach_counts(4) [OF assms(1-3)] assms(4) by simp

theorem Play_stuck_after_failure_witness:
  "\<exists>s. play_reach (PrepareGameRequest reference_device) GameCompleted 7 reference_supervisor
      [reference_completion False] s \<and> sv_completed s < 7"
  using reference_run [of False] Play_stuck_after_failure [OF reference_ladder_ok, of 7 "[reference_completion False]"]
  by (auto simp: failures_def succeeds_def reference_completion_def)

text \<open>Running \<open>Play\<close> on the completions of a path of the step relation returns the state at its end.\<close>

lemma Play_runs:
  assumes "play_reach prepare completed num_games s0 cs s"
  shows "Play prepare completed num_games cs s0 = ret s"
  using assms
proof (induction rule: play_reach.induct)
  case (start s)
  then show ?case by (simp add: Play_def)
next
  case (step cs s c s')
  then show ?case by (auto simp: Play_def bnd_eq_ret rpc_loop_snoc elim!: play_stepE)
qed

end
