(* ===== verification/Status.thy ===== *)
theory Status
  imports Numbers
begin

text \<open>
  Statuses: \<^verbatim>\<open>tensorflow/core/lib/core/status.h\<close>, \<^verbatim>\<open>status.cc\<close> and \<^verbatim>\<open>errors.h\<close>.

  An error code is a 32-bit enumeration value (the enumeration is open), the numbers are
  those of \<^verbatim>\<open>error_codes.proto\<close>. \<open>state_\<close> is \<^const>\<open>None\<close> for a success. The lemmas show that
  comparing statuses by their printed form, as \<open>operator==\<close> does, is equality.
\<close>

type_synonym error_code = u32

definition OK_code :: error_code where "OK_code = 0"
definition CANCELLED :: error_code where "CANCELLED = 1"
definition UNKNOWN :: error_code where "UNKNOWN = 2"
definition INVALID_ARGUMENT :: error_code where "INVALID_ARGUMENT = 3"
definition DEADLINE_EXCEEDED :: error_code where "DEADLINE_EXCEEDED = 4"
definition NOT_FOUND :: error_code where "NOT_FOUND = 5"
definition ALREADY_EXISTS :: error_code where "ALREADY_EXISTS = 6"
definition PERMISSION_DENIED :: error_code where "PERMISSION_DENIED = 7"
definition UNAUTHENTICATED :: error_code where "UNAUTHENTICATED = 16"
definition RESOURCE_EXHAUSTED :: error_code where "RESOURCE_EXHAUSTED = 8"
definition FAILED_PRECONDITION :: error_code where "FAILED_PRECONDITION = 9"
definition ABORTED :: error_code where "ABORTED = 10"
definition OUT_OF_RANGE :: error_code where "OUT_OF_RANGE = 11"
definition UNIMPLEMENTED :: error_code where "UNIMPLEMENTED = 12"
definition INTERNAL :: error_code where "INTERNAL = 13"
definition UNAVAILABLE :: error_code where "UNAVAILABLE = 14"
definition DATA_LOSS :: error_code where "DATA_LOSS = 15"

lemmas code_defs = OK_code_def CANCELLED_def UNKNOWN_def INVALID_ARGUMENT_def DEADLINE_EXCEEDED_def
  NOT_FOUND_def ALREADY_EXISTS_def PERMISSION_DENIED_def UNAUTHENTICATED_def RESOURCE_EXHAUSTED_def
  FAILED_PRECONDITION_def ABORTED_def OUT_OF_RANGE_def UNIMPLEMENTED_def INTERNAL_def
  UNAVAILABLE_def DATA_LOSS_def

record status_state =
  state_code :: error_code
  state_msg :: string

type_synonym status = "status_state option"

definition OK :: status where
  "OK = None"

definition new_Status :: "error_code \<Rightarrow> string \<Rightarrow> status res" where
  "new_Status code msg =
     CHECK (code \<noteq> OK_code) ''code != tensorflow::error::OK''
       (ret (Some \<lparr>state_code = code, state_msg = msg\<rparr>))"

definition ok :: "status \<Rightarrow> bool" where
  "ok s \<longleftrightarrow> s = None"

definition status_code :: "status \<Rightarrow> error_code" where
  "status_code s = (case s of None \<Rightarrow> OK_code | Some st \<Rightarrow> state_code st)"

definition error_message :: "status \<Rightarrow> string" where
  "error_message s = (case s of None \<Rightarrow> [] | Some st \<Rightarrow> state_msg st)"

definition Update :: "status \<Rightarrow> status \<Rightarrow> status" where
  "Update s new_status = (if ok s then new_status else s)"

definition SlowCopyFrom :: "status_state option \<Rightarrow> status" where
  "SlowCopyFrom src = (case src of None \<Rightarrow> None | Some st \<Rightarrow> Some st)"

text \<open>The \<open>switch\<close> of \<open>ToString\<close>; its \<open>default\<close> branch prints the number.\<close>

definition code_names :: "(error_code \<times> string) list" where
  "code_names =
    [(CANCELLED, ''Cancelled''), (UNKNOWN, ''Unknown''), (INVALID_ARGUMENT, ''Invalid argument''),
     (DEADLINE_EXCEEDED, ''Deadline exceeded''), (NOT_FOUND, ''Not found''),
     (ALREADY_EXISTS, ''Already exists''), (PERMISSION_DENIED, ''Permission denied''),
     (UNAUTHENTICATED, ''Unauthenticated''), (RESOURCE_EXHAUSTED, ''Resource exhausted''),
     (FAILED_PRECONDITION, ''Failed precondition''), (ABORTED, ''Aborted''),
     (OUT_OF_RANGE, ''Out of range''), (UNIMPLEMENTED, ''Unimplemented''), (INTERNAL, ''Internal''),
     (UNAVAILABLE, ''Unavailable''), (DATA_LOSS, ''Data loss'')]"

definition code_text :: "error_code \<Rightarrow> string" where
  "code_text c = (case map_of code_names c of
     Some name \<Rightarrow> name
   | None \<Rightarrow> ''Unknown code('' @ FastInt32ToBufferLeft c @ '')'')"

definition ToString :: "status \<Rightarrow> string" where
  "ToString s = (case s of None \<Rightarrow> ''OK'' | Some st \<Rightarrow> code_text (state_code st) @ '': '' @ state_msg st)"

definition status_equal :: "status \<Rightarrow> status \<Rightarrow> bool" where
  "status_equal a b \<longleftrightarrow> ToString a = ToString b"

definition TfCheckOpHelperOutOfLine :: "status \<Rightarrow> string \<Rightarrow> string" where
  "TfCheckOpHelperOutOfLine v msg = ''Non-OK-status: '' @ msg @ '' status: '' @ ToString v"

definition TfCheckOpHelper :: "status \<Rightarrow> string \<Rightarrow> string option" where
  "TfCheckOpHelper v msg = (if ok v then None else Some (TfCheckOpHelperOutOfLine v msg))"

text \<open>\<open>TF_CHECK_OK\<close>, and the generators that \<open>DECLARE_ERROR\<close> declares.\<close>

definition TF_CHECK_OK :: "status \<Rightarrow> string \<Rightarrow> 'a res \<Rightarrow> 'a res" where
  "TF_CHECK_OK v msg k = (case TfCheckOpHelper v msg of None \<Rightarrow> k | Some r \<Rightarrow> abort (LogFatal r))"

definition InvalidArgument :: "string \<Rightarrow> status" where
  "InvalidArgument msg = Some \<lparr>state_code = INVALID_ARGUMENT, state_msg = msg\<rparr>"

definition OutOfRange :: "string \<Rightarrow> status" where
  "OutOfRange msg = Some \<lparr>state_code = OUT_OF_RANGE, state_msg = msg\<rparr>"

definition DataLoss :: "string \<Rightarrow> status" where
  "DataLoss msg = Some \<lparr>state_code = DATA_LOSS, state_msg = msg\<rparr>"

definition IsOutOfRange :: "status \<Rightarrow> bool" where
  "IsOutOfRange s \<longleftrightarrow> status_code s = OUT_OF_RANGE"

definition AppendToMessage :: "status \<Rightarrow> string \<Rightarrow> status res" where
  "AppendToMessage s text = new_Status (status_code s) (error_message s @ [CHR 0x0A, CHR 0x09] @ text)"

section \<open>Lemmas\<close>

lemma status_simps [simp]:
  "ok OK" "\<not> ok (InvalidArgument m)" "\<not> ok (OutOfRange m)" "\<not> ok (DataLoss m)"
  "\<not> IsOutOfRange OK" "IsOutOfRange (OutOfRange m)" "\<not> IsOutOfRange (DataLoss m)"
  "\<not> IsOutOfRange (InvalidArgument m)"
  "OutOfRange m \<noteq> OK" "OK \<noteq> OutOfRange m" "DataLoss m \<noteq> OK" "OK \<noteq> DataLoss m"
  "InvalidArgument m \<noteq> OK" "OK \<noteq> InvalidArgument m"
  "DataLoss m \<noteq> OutOfRange m'" "OutOfRange m' \<noteq> DataLoss m"
  by (auto simp: ok_def OK_def InvalidArgument_def OutOfRange_def DataLoss_def IsOutOfRange_def
      status_code_def code_defs)

lemma ok_OK: "ok s \<longleftrightarrow> s = OK"
  by (simp add: ok_def OK_def)

lemma FastInt32_inject [simp]: "FastInt32ToBufferLeft a = FastInt32ToBufferLeft b \<longleftrightarrow> a = b"
  using signed32_roundtrip [of "[]" "[]" a] signed32_roundtrip [of "[]" "[]" b]
  by (metis option.inject append_Nil append_Nil2 list.pred_inject(1) signed_word_eqI)

lemma FastInt32_no_colon: "CHR '':'' \<notin> set (FastInt32ToBufferLeft a)"
  using printed_uint(1) [of a] printed_uint(1) [of "0 - a"]
  by (auto simp: FastInt32ToBufferLeft_def FastUInt32ToBufferLeft_def list_all_iff isdigit_def)

lemma code_text_no_colon: "CHR '':'' \<notin> set (code_text c)"
proof (cases "map_of code_names c")
  case None
  then show ?thesis using FastInt32_no_colon by (simp add: code_text_def)
next
  case (Some name)
  then have "name \<in> snd ` set code_names" by (force dest: map_of_SomeD)
  with Some show ?thesis by (auto simp: code_text_def code_names_def)
qed

lemma code_names_facts:
  "inj_on snd (set code_names)" "\<And>c name. (c, name) \<in> set code_names \<Longrightarrow> last name \<noteq> CHR '')''"
  by (auto simp: code_names_def inj_on_def)

lemma code_text_inject: "code_text a = code_text b \<longleftrightarrow> a = b"
proof
  assume e: "code_text a = code_text b"
  show "a = b"
  proof (cases "map_of code_names a"; cases "map_of code_names b")
    fix n m
    assume "map_of code_names a = Some n" "map_of code_names b = Some m"
    moreover from this e have "n = m" by (simp add: code_text_def)
    ultimately have "(a, n) = (b, m)"
      by (intro inj_onD [OF code_names_facts(1)]) (auto dest: map_of_SomeD)
    then show ?thesis by simp
  next
    fix n
    assume "map_of code_names a = None" "map_of code_names b = Some n"
    with e code_names_facts(2) [of b n] show ?thesis by (auto simp: code_text_def dest: map_of_SomeD)
  next
    fix n
    assume "map_of code_names a = Some n" "map_of code_names b = None"
    with e code_names_facts(2) [of a n] show ?thesis by (auto simp: code_text_def dest: map_of_SomeD)
  qed (use e in \<open>simp add: code_text_def\<close>)
qed simp

lemma ToString_inject: "ToString a = ToString b \<longleftrightarrow> a = b"
proof
  have colon: "takeWhile (\<lambda>c. c \<noteq> CHR '':'') (code_text c @ '': '' @ msg) = code_text c" for c msg
    using code_text_no_colon [of c] by (subst takeWhile_append2) auto
  have not_OK: "ToString (Some t) \<noteq> ''OK''" for t
  proof -
    have "CHR '':'' \<in> set (ToString (Some t))" by (simp add: ToString_def)
    moreover have "CHR '':'' \<notin> set ''OK''" by simp
    ultimately show ?thesis by metis
  qed
  assume e: "ToString a = ToString b"
  show "a = b"
  proof (cases a; cases b)
    fix s t
    assume "a = Some s" "b = Some t"
    with e have x: "code_text (state_code s) @ '': '' @ state_msg s = code_text (state_code t) @ '': '' @ state_msg t"
      by (simp add: ToString_def)
    then have "code_text (state_code s) = code_text (state_code t)" by (metis colon)
    with x \<open>a = Some s\<close> \<open>b = Some t\<close> show ?thesis by (simp add: code_text_inject)
  next
    fix t
    assume "a = None" "b = Some t"
    with e not_OK [of t] show ?thesis by (simp add: ToString_def)
  next
    fix t
    assume "a = Some t" "b = None"
    with e not_OK [of t] show ?thesis by (simp add: ToString_def)
  qed simp
qed simp
section \<open>Properties\<close>

text \<open>
  Statuses that \<open>operator==\<close> takes for equal are equal: the printed form determines
  the code and the message, also for codes without a name. \<open>Update\<close> keeps the first error
  of a sequence of statuses.
\<close>

theorem status_algebra:
  "(status_equal a b \<longleftrightarrow> a = b) \<and>
   foldl Update OK ss = (case find (\<lambda>s. \<not> ok s) ss of None \<Rightarrow> OK | Some s \<Rightarrow> s)"
proof -
  have keep: "\<not> ok s \<Longrightarrow> foldl Update s ss = s" for s ss
    by (induction ss) (auto simp: Update_def)
  have "foldl Update OK ss = (case find (\<lambda>s. \<not> ok s) ss of None \<Rightarrow> OK | Some s \<Rightarrow> s)"
  proof (induction ss)
    case (Cons s ss)
    have "Update OK s = s" by (simp add: Update_def)
    with Cons keep [of s ss] show ?case by (cases "ok s") (auto simp: ok_OK)
  qed simp
  then show ?thesis by (simp add: status_equal_def ToString_inject)
qed

end
