(* ===== verification/Coding.thy ===== *)
theory Coding
  imports Numbers
begin

text \<open>
  Binary encodings of integers: \<^verbatim>\<open>tensorflow/core/lib/core/coding.h\<close>, \<^verbatim>\<open>coding.cc\<close> and
  \<^verbatim>\<open>raw_coding.h\<close>, which the record files of self-play are built on.

  A byte is an \<open>8 word\<close>, a buffer a list of bytes; a function that writes to a \<open>char*\<close>
  returns the bytes it wrote, one that reads returns the rest. \<open>le\<close> is
  \<open>port::kLittleEndian\<close>, the byte order of the machine.
\<close>

unbundle bit_operations_syntax

type_synonym byte = "8 word"
type_synonym bytes = "byte list"
type_synonym u16 = "16 word"

text \<open>The bytes of an object of \<open>n\<close> bytes in the memory of a machine, for \<open>memcpy\<close>.\<close>

definition object_bytes :: "bool \<Rightarrow> nat \<Rightarrow> 'a::len word \<Rightarrow> bytes" where
  "object_bytes le n v =
     (let bs = map (\<lambda>i. ucast (drop_bit (8 * i) v)) [0..<n] in if le then bs else rev bs)"

definition object_of_bytes :: "bool \<Rightarrow> bytes \<Rightarrow> 'a::len word" where
  "object_of_bytes le bs =
     foldr (\<lambda>b v. push_bit 8 v OR ucast b) (if le then bs else rev bs) 0"

section \<open>Fixed-width integers\<close>

definition EncodeFixed16 :: "bool \<Rightarrow> u16 \<Rightarrow> bytes" where
  "EncodeFixed16 le value =
     (if le then object_bytes le 2 value
      else [ucast (value AND 0xff), ucast (drop_bit 8 value AND 0xff)])"

definition EncodeFixed32 :: "bool \<Rightarrow> u32 \<Rightarrow> bytes" where
  "EncodeFixed32 le value =
     (if le then object_bytes le 4 value
      else [ucast (value AND 0xff), ucast (drop_bit 8 value AND 0xff),
            ucast (drop_bit 16 value AND 0xff), ucast (drop_bit 24 value AND 0xff)])"

definition EncodeFixed64 :: "bool \<Rightarrow> u64 \<Rightarrow> bytes" where
  "EncodeFixed64 le value =
     (if le then object_bytes le 8 value
      else [ucast (value AND 0xff), ucast (drop_bit 8 value AND 0xff),
            ucast (drop_bit 16 value AND 0xff), ucast (drop_bit 24 value AND 0xff),
            ucast (drop_bit 32 value AND 0xff), ucast (drop_bit 40 value AND 0xff),
            ucast (drop_bit 48 value AND 0xff), ucast (drop_bit 56 value AND 0xff)])"

definition PutFixed16 :: "bool \<Rightarrow> bytes \<Rightarrow> u16 \<Rightarrow> bytes" where
  "PutFixed16 le dst value = dst @ EncodeFixed16 le value"

definition PutFixed32 :: "bool \<Rightarrow> bytes \<Rightarrow> u32 \<Rightarrow> bytes" where
  "PutFixed32 le dst value = dst @ EncodeFixed32 le value"

definition PutFixed64 :: "bool \<Rightarrow> bytes \<Rightarrow> u64 \<Rightarrow> bytes" where
  "PutFixed64 le dst value = dst @ EncodeFixed64 le value"

text \<open>Reading past the end of the buffer is undefined.\<close>

definition need :: "nat \<Rightarrow> bytes \<Rightarrow> 'a res \<Rightarrow> 'a res" where
  "need n ptr k = (if n \<le> length ptr then k else abort (Undefined ''read past the buffer''))"

definition DecodeFixed16 :: "bool \<Rightarrow> bytes \<Rightarrow> u16 res" where
  "DecodeFixed16 le ptr = need 2 ptr (ret
     (if le then object_of_bytes le (take 2 ptr)
      else ucast (ptr ! 0) OR push_bit 8 (ucast (ptr ! 1))))"

definition DecodeFixed32 :: "bool \<Rightarrow> bytes \<Rightarrow> u32 res" where
  "DecodeFixed32 le ptr = need 4 ptr (ret
     (if le then object_of_bytes le (take 4 ptr)
      else ucast (ptr ! 0) OR push_bit 8 (ucast (ptr ! 1)) OR
           push_bit 16 (ucast (ptr ! 2)) OR push_bit 24 (ucast (ptr ! 3))))"

definition DecodeFixed64 :: "bool \<Rightarrow> bytes \<Rightarrow> u64 res" where
  "DecodeFixed64 le ptr = need 8 ptr
     (if le then ret (object_of_bytes le (take 8 ptr))
      else bnd (DecodeFixed32 le ptr) (\<lambda>lo. bnd (DecodeFixed32 le (drop 4 ptr)) (\<lambda>hi.
        ret (push_bit 32 (ucast hi) OR ucast lo))))"

section \<open>Variable-length integers\<close>

definition EncodeVarint32 :: "u32 \<Rightarrow> bytes" where
  "EncodeVarint32 v =
     (if v < 2 ^ 7 then [ucast v]
      else if v < 2 ^ 14 then [ucast (v OR 128), ucast (drop_bit 7 v)]
      else if v < 2 ^ 21 then [ucast (v OR 128), ucast (drop_bit 7 v OR 128), ucast (drop_bit 14 v)]
      else if v < 2 ^ 28 then
        [ucast (v OR 128), ucast (drop_bit 7 v OR 128), ucast (drop_bit 14 v OR 128), ucast (drop_bit 21 v)]
      else
        [ucast (v OR 128), ucast (drop_bit 7 v OR 128), ucast (drop_bit 14 v OR 128),
         ucast (drop_bit 21 v OR 128), ucast (drop_bit 28 v)])"

definition PutVarint32 :: "bytes \<Rightarrow> u32 \<Rightarrow> bytes" where
  "PutVarint32 dst v = dst @ EncodeVarint32 v"

lemma unat_drop_7: "unat (drop_bit 7 v) = unat (v :: 'a::len word) div 128"
  unfolding unat_drop_bit_eq by (simp add: drop_bit_eq_div)

function EncodeVarint64 :: "u64 \<Rightarrow> bytes" where
  "EncodeVarint64 v =
     (if v \<ge> 128 then ucast ((v AND 127) OR 128) # EncodeVarint64 (drop_bit 7 v) else [ucast v])"
  by auto
termination
  by (relation "measure unat") (auto simp: unat_drop_7 word_le_nat_alt)

definition PutVarint64 :: "bytes \<Rightarrow> u64 \<Rightarrow> bytes" where
  "PutVarint64 dst v = dst @ EncodeVarint64 v"

function VarintLength :: "u64 \<Rightarrow> int" where
  "VarintLength v = (if v \<ge> 128 then VarintLength (drop_bit 7 v) + 1 else 1)"
  by auto
termination
  by (relation "measure unat") (auto simp: unat_drop_7 word_le_nat_alt)

declare EncodeVarint64.simps [simp del] VarintLength.simps [simp del]

text \<open>
  The decoding loops, with the current \<open>shift\<close> and \<open>result\<close>; the two functions differ in
  the width and in the last shift. \<^const>\<open>None\<close> is the null pointer.
\<close>

fun varint_loop :: "nat \<Rightarrow> nat \<Rightarrow> 'a::len word \<Rightarrow> bytes \<Rightarrow> ('a word \<times> bytes) option" where
  "varint_loop last_shift shift result [] = None"
| "varint_loop last_shift shift result (b # p) =
     (if shift \<le> last_shift then
        (let byte = ucast b in
         if byte AND 128 \<noteq> 0 then
           varint_loop last_shift (shift + 7) (result OR push_bit shift (byte AND 127)) p
         else Some (result OR push_bit shift byte, p))
      else None)"

definition GetVarint32PtrFallback :: "bytes \<Rightarrow> (u32 \<times> bytes) option" where
  "GetVarint32PtrFallback p = varint_loop 28 0 0 p"

definition GetVarint32Ptr :: "bytes \<Rightarrow> (u32 \<times> bytes) option" where
  "GetVarint32Ptr p =
     (case p of
        b # rest \<Rightarrow> (let result = ucast b in
          if result AND 128 = 0 then Some (result, rest) else GetVarint32PtrFallback p)
      | [] \<Rightarrow> GetVarint32PtrFallback p)"

text \<open>The input and output of the two wrappers: the remaining input and the value.\<close>

definition GetVarint32 :: "bytes \<Rightarrow> u32 \<Rightarrow> bool \<times> bytes \<times> u32" where
  "GetVarint32 input value =
     (case GetVarint32Ptr input of None \<Rightarrow> (False, input, value) | Some (v, q) \<Rightarrow> (True, q, v))"

definition GetVarint64Ptr :: "bytes \<Rightarrow> (u64 \<times> bytes) option" where
  "GetVarint64Ptr p = varint_loop 63 0 0 p"

definition GetVarint64 :: "bytes \<Rightarrow> u64 \<Rightarrow> bool \<times> bytes \<times> u64" where
  "GetVarint64 input value =
     (case GetVarint64Ptr input of None \<Rightarrow> (False, input, value) | Some (v, q) \<Rightarrow> (True, q, v))"

section \<open>Fixed-width round trips\<close>

text \<open>Both byte orders write the same bytes: least significant first.\<close>

lemma EncodeFixed_le:
  "EncodeFixed16 le v16 = object_bytes True 2 v16"
  "EncodeFixed32 le v32 = object_bytes True 4 v32"
  "EncodeFixed64 le v64 = object_bytes True 8 v64"
proof -
  have mask: "(0xff :: 'a::len word) = mask 8" by (simp add: mask_eq_exp_minus_1)
  have ff: "(ucast (w AND 0xff) :: byte) = ucast w" for w :: "'a::len word"
    unfolding mask by (rule bit_word_eqI) (auto simp: bit_simps dest: bit_imp_le_length)
  show "EncodeFixed16 le v16 = object_bytes True 2 v16"
    "EncodeFixed32 le v32 = object_bytes True 4 v32"
    "EncodeFixed64 le v64 = object_bytes True 8 v64"
    by (simp_all add: EncodeFixed16_def EncodeFixed32_def EncodeFixed64_def object_bytes_def ff upt_rec)
qed

lemma object_bytes_bit:
  assumes "length bs = n"
  shows "bit (object_of_bytes True bs :: 'a::len word) k \<longleftrightarrow>
    k < LENGTH('a) \<and> k div 8 < n \<and> bit (bs ! (k div 8)) (k mod 8)"
  using assms
proof (induction bs arbitrary: n k)
  case (Cons b bs)
  have eq: "object_of_bytes True (b # bs) = push_bit 8 (object_of_bytes True bs :: 'a word) OR ucast b"
    by (simp add: object_of_bytes_def)
  show ?case
  proof (cases "k < 8")
    case True
    then show ?thesis using Cons.prems by (auto simp: eq bit_simps)
  next
    case False
    then obtain j where k: "k = j + 8" by (metis add.commute le_Suc_ex not_less)
    then have d: "k div 8 = Suc (j div 8)" "k mod 8 = j mod 8" by simp_all
    have "bit b k = False" using False by (auto dest: bit_imp_le_length)
    then show ?thesis
      using Cons.IH [of "length bs" j] Cons.prems
      unfolding eq d by (auto simp: bit_simps k)
  qed
qed (simp add: object_of_bytes_def)

lemma object_roundtrip:
  assumes "LENGTH('a::len) = 8 * n"
  shows "object_of_bytes True (object_bytes True n v) = (v :: 'a word)"
proof (rule bit_word_eqI)
  fix k assume k: "k < LENGTH('a)"
  then have "k div 8 < n" using assms by simp
  moreover have "8 * (k div 8) + k mod 8 = k" by simp
  ultimately show "bit (object_of_bytes True (object_bytes True n v) :: 'a word) k = bit v k"
    using k by (auto simp: object_bytes_bit [of _ n] object_bytes_def bit_simps)
qed

lemma object_inverse:
  assumes "length bs = n" "LENGTH('a::len) = 8 * n"
  shows "object_bytes True n (object_of_bytes True bs :: 'a word) = bs"
proof (rule nth_equalityI)
  fix i assume "i < length (object_bytes True n (object_of_bytes True bs :: 'a word))"
  then have i: "i < n" by (simp add: object_bytes_def)
  show "object_bytes True n (object_of_bytes True bs :: 'a word) ! i = bs ! i"
  proof (rule bit_word_eqI)
    fix k assume "k < LENGTH(8)"
    then have "(8 * i + k) div 8 = i" "(8 * i + k) mod 8 = k" "8 * i + k < LENGTH('a)" "k < 8"
      using i assms(2) by auto
    then show "bit (object_bytes True n (object_of_bytes True bs :: 'a word) ! i) k = bit (bs ! i) k"
      using i assms(1) by (simp add: object_bytes_def bit_simps object_bytes_bit [OF assms(1)])
  qed
qed (simp add: assms object_bytes_def)

lemma length_object_bytes [simp]: "length (object_bytes le n v) = n"
  by (simp add: object_bytes_def Let_def)

text \<open>Decoding on either machine reads the bytes least significant first.\<close>

lemma DecodeFixed32_le:
  assumes "4 \<le> length p"
  shows "DecodeFixed32 le p = ret (object_of_bytes True (take 4 p))"
proof -
  from assms obtain a b c d r where "p = a # b # c # d # r"
    by (auto simp: numeral_eq_Suc Suc_le_length_iff)
  then show ?thesis
    by (simp add: DecodeFixed32_def need_def object_of_bytes_def push_bit_or ac_simps)
qed

lemma DecodeFixed16_le:
  assumes "2 \<le> length p"
  shows "DecodeFixed16 le p = ret (object_of_bytes True (take 2 p))"
proof -
  from assms obtain a b r where "p = a # b # r"
    by (auto simp: numeral_eq_Suc Suc_le_length_iff)
  then show ?thesis by (simp add: DecodeFixed16_def need_def object_of_bytes_def ac_simps)
qed

lemma DecodeFixed64_le:
  assumes "8 \<le> length p"
  shows "DecodeFixed64 le p = ret (object_of_bytes True (take 8 p))"
proof -
  let ?lo = "object_of_bytes True (take 4 p) :: u32" and ?hi = "object_of_bytes True (take 4 (drop 4 p)) :: u32"
  have "push_bit 32 (ucast ?hi) OR ucast ?lo = (object_of_bytes True (take 8 p) :: u64)"
  proof (rule bit_word_eqI)
    fix k assume "k < LENGTH(64)"
    then have k: "k < 64" by simp
    have len: "length (take 8 p) = 8" "length (take 4 p) = 4" "length (take 4 (drop 4 p)) = 4"
      using assms by auto
    show "bit (push_bit 32 (ucast ?hi) OR ucast ?lo :: u64) k = bit (object_of_bytes True (take 8 p) :: u64) k"
    proof (cases "k < 32")
      case True
      then show ?thesis using k by (auto simp: bit_simps object_bytes_bit [OF len(1)] object_bytes_bit [OF len(2)])
    next
      case False
      then obtain j where j: "k = j + 32" by (metis add.commute le_Suc_ex not_less)
      then have "k div 8 = j div 8 + 4" "k mod 8 = j mod 8" "j < 32"
        using k mod_mult_self1 [of j 4 8] div_mult_self1 [of 8 j 4] by simp_all
      then show ?thesis using j assms
        by (auto simp: bit_simps object_bytes_bit [OF len(1)] object_bytes_bit [OF len(3)]
            object_bytes_bit [OF len(2)] add.commute dest: bit_imp_le_length)
    qed
  qed
  with assms show ?thesis by (simp add: DecodeFixed64_def need_def DecodeFixed32_le)
qed

text \<open>What \<open>EncodeFixed\<close> wrote, \<open>DecodeFixed\<close> reads, on machines of any byte order.\<close>

lemma fixed_roundtrip:
  "DecodeFixed16 le (EncodeFixed16 le' v16 @ rest) = ret v16"
  "DecodeFixed32 le (EncodeFixed32 le' v32 @ rest) = ret v32"
  "DecodeFixed64 le (EncodeFixed64 le' v64 @ rest) = ret v64"
  by (simp_all add: EncodeFixed_le DecodeFixed16_le DecodeFixed32_le DecodeFixed64_le object_roundtrip)

section \<open>Varint round trips\<close>

text \<open>The loop of \<open>EncodeVarint64\<close> at any width of at least 8 bits.\<close>

function varint_bytes :: "'a::len word \<Rightarrow> bytes" where
  "varint_bytes v =
     (if unat v \<ge> 128 then ucast ((v AND 127) OR 128) # varint_bytes (drop_bit 7 v) else [ucast v])"
  by auto
termination
  by (relation "measure unat") (auto simp: unat_drop_7)

declare varint_bytes.simps [simp del]

lemma EncodeVarint64_bytes: "EncodeVarint64 v = varint_bytes v"
proof (induction v rule: EncodeVarint64.induct)
  case (1 v)
  then show ?case
    by (subst EncodeVarint64.simps, subst varint_bytes.simps) (simp add: word_le_nat_alt)
qed

text \<open>The bits of the two constants, after the simplifier has moved them to \<open>int\<close>.\<close>

lemma varint_consts:
  "bit (127 :: int) n \<longleftrightarrow> n < 7" "bit (128 :: int) n \<longleftrightarrow> n = 7"
proof -
  have "(127 :: int) = mask 7" "(128 :: int) = 2 ^ 7" by (simp_all add: mask_eq_exp_minus_1)
  then show "bit (127 :: int) n \<longleftrightarrow> n < 7" "bit (128 :: int) n \<longleftrightarrow> n = 7"
    by (auto simp only: bit_mask_iff bit_exp_iff possible_bit_int)
qed

lemma varint_head:
  "(ucast ((w AND 127) OR 128) :: byte) = ucast (w OR 128)" for w :: "'a::len word"
  by (rule bit_word_eqI) (auto simp: varint_consts bit_simps dest: bit_imp_le_length)

lemma EncodeVarint32_bytes: "EncodeVarint32 v = varint_bytes v"
proof -
  have u: "unat (drop_bit 7 v) = unat v div 128" "unat (drop_bit 14 v) = unat v div 16384"
    "unat (drop_bit 21 v) = unat v div 2097152" "unat (drop_bit 28 v) = unat v div 268435456"
    unfolding unat_drop_bit_eq by (simp_all add: drop_bit_eq_div)
  have "unat v < 4294967296" using unsigned_less [of v] by simp
  then have small: "\<not> 128 \<le> unat v div 268435456" by simp
  have e: "varint_bytes w = (if 128 \<le> unat w then ucast (w OR 128) # varint_bytes (drop_bit 7 w)
      else [ucast w])" for w :: u32
    by (subst varint_bytes.simps) (simp only: varint_head)
  note steps = e [of v] e [of "drop_bit 7 v"] e [of "drop_bit 14 v"] e [of "drop_bit 21 v"] e [of "drop_bit 28 v"]
  have d: "drop_bit 7 (drop_bit 7 v) = drop_bit 14 v" "drop_bit 7 (drop_bit 14 v) = drop_bit 21 v"
    "drop_bit 7 (drop_bit 21 v) = drop_bit 28 v"
    unfolding drop_bit_drop_bit by simp_all
  have le: "128 \<le> unat v div 128 \<longleftrightarrow> 16384 \<le> unat v" "128 \<le> unat v div 16384 \<longleftrightarrow> 2097152 \<le> unat v"
    "128 \<le> unat v div 2097152 \<longleftrightarrow> 268435456 \<le> unat v"
    by (simp_all add: less_eq_div_iff_mult_less_eq)
  have lt: "v < 2 ^ 7 \<longleftrightarrow> \<not> 128 \<le> unat v" "v < 2 ^ 14 \<longleftrightarrow> \<not> 16384 \<le> unat v"
    "v < 2 ^ 21 \<longleftrightarrow> \<not> 2097152 \<le> unat v" "v < 2 ^ 28 \<longleftrightarrow> \<not> 268435456 \<le> unat v"
    by (auto simp: word_less_nat_alt)
  have "varint_bytes v = (if 128 \<le> unat v then ucast (v OR 128) #
      (if 16384 \<le> unat v then ucast (drop_bit 7 v OR 128) #
      (if 2097152 \<le> unat v then ucast (drop_bit 14 v OR 128) #
      (if 268435456 \<le> unat v then [ucast (drop_bit 21 v OR 128), ucast (drop_bit 28 v)]
       else [ucast (drop_bit 21 v)]) else [ucast (drop_bit 14 v)]) else [ucast (drop_bit 7 v)])
      else [ucast v])"
    by (simp only: steps u d le small if_False)
  then show ?thesis unfolding EncodeVarint32_def lt by (simp only: split: if_split) auto
qed

lemma bit_small_word:
  assumes "unat v < 2 ^ n" "bit (v :: 'a::len word) k"
  shows "k < n"
proof -
  have "take_bit n (unat v) = unat v" using assms(1) by (simp add: take_bit_nat_eq_self)
  with assms(2) show ?thesis by (metis bit_take_bit_iff bit_unsigned_iff possible_bit_nat)
qed

lemma varint_parts:
  assumes "8 \<le> LENGTH('a)"
  shows "(ucast (ucast ((v AND 127) OR 128) :: byte) AND 128 :: 'a::len word) \<noteq> 0"
    "(ucast (ucast ((v AND 127) OR 128) :: byte) AND 127 :: 'a::len word) = v AND 127"
    "unat v < 128 \<Longrightarrow> (ucast (ucast v :: byte) :: 'a word) = v"
    "unat v < 128 \<Longrightarrow> v AND 128 = (0 :: 'a word)"
proof -
  have "bit (ucast (ucast ((v AND 127) OR 128) :: byte) AND 128 :: 'a word) 7"
    using assms by (auto simp: varint_consts bit_simps)
  then show "(ucast (ucast ((v AND 127) OR 128) :: byte) AND 128 :: 'a word) \<noteq> 0"
    by (metis bit_0_eq bot_apply bot_bool_def)
  show "(ucast (ucast ((v AND 127) OR 128) :: byte) AND 127 :: 'a word) = v AND 127"
    by (rule bit_word_eqI) (auto simp: varint_consts bit_simps dest: bit_imp_le_length)
  assume "unat v < 128"
  then have low: "k < 7" if "bit v k" for k using that bit_small_word [of v 7] by simp
  show "(ucast (ucast v :: byte) :: 'a word) = v"
    by (rule bit_word_eqI) (auto simp: bit_simps dest: low)
  show "v AND 128 = (0 :: 'a word)"
    by (rule bit_word_eqI) (auto simp: varint_consts bit_simps dest: low)
qed

text \<open>Decoding what was encoded: with the bits below \<open>shift\<close> in \<open>result\<close> already.\<close>

lemma varint_loop_bytes:
  assumes "unat v < 2 ^ (LENGTH('a) - s)" "s < LENGTH('a)" "7 dvd s"
    "8 \<le> LENGTH('a::len)" "\<And>k. k < LENGTH('a) \<Longrightarrow> 7 dvd k \<Longrightarrow> k \<le> last_shift"
  shows "varint_loop last_shift s r (varint_bytes v @ rest) = Some (r OR push_bit s (v :: 'a word), rest)"
  using assms(1-3)
proof (induction v arbitrary: s r rule: varint_bytes.induct)
  case (1 v)
  note prems = 1(2-4)
  have s: "s \<le> last_shift" using assms(5) prems by blast
  note parts = varint_parts [OF assms(4), of v]
  show ?case
  proof (cases "128 \<le> unat v")
    case True
    have "7 < LENGTH('a) - s"
    proof (rule ccontr)
      assume "\<not> 7 < LENGTH('a) - s"
      then have "(2 :: nat) ^ (LENGTH('a) - s) \<le> 2 ^ 7" by (intro power_increasing) auto
      with True prems(1) show False by simp
    qed
    then have s7: "s + 7 < LENGTH('a)" by simp
    have "(2 :: nat) ^ (LENGTH('a) - s) = 2 ^ (LENGTH('a) - (s + 7)) * 128"
      using s7 power_add [of "2 :: nat" "LENGTH('a) - (s + 7)" 7] by simp
    then have "unat (drop_bit 7 v) < 2 ^ (LENGTH('a) - (s + 7))"
      using prems(1) by (simp add: unat_drop_7 less_mult_imp_div_less)
    from 1(1) [OF True this s7] prems(3) have
      "varint_loop last_shift (s + 7) (r OR push_bit s (v AND 127)) (varint_bytes (drop_bit 7 v) @ rest) =
       Some ((r OR push_bit s (v AND 127)) OR push_bit (s + 7) (drop_bit 7 v), rest)" by simp
    moreover have "push_bit s (v AND 127) OR push_bit (s + 7) (drop_bit 7 v) = push_bit s v"
    proof (rule bit_word_eqI)
      fix n assume "n < LENGTH('a)"
      moreover have "7 + (n - (s + 7)) = n - s" if "\<not> n - s < 7" using that by simp
      ultimately show "bit (push_bit s (v AND 127) OR push_bit (s + 7) (drop_bit 7 v)) n = bit (push_bit s v) n"
        by (cases "n - s < 7") (auto simp: varint_consts bit_simps)
    qed
    ultimately show ?thesis
      using True s parts(1,2) by (subst varint_bytes.simps) (simp add: or.assoc del: push_bit_and)
  next
    case False
    then show ?thesis using s parts(3,4) by (subst varint_bytes.simps) simp
  qed
qed

lemma varint_roundtrip:
  "GetVarint64Ptr (EncodeVarint64 v64 @ rest) = Some (v64, rest)"
  "GetVarint32PtrFallback (EncodeVarint32 v32 @ rest) = Some (v32, rest)"
proof -
  have "k \<le> 28" if "k < 32" "7 dvd k" for k :: nat using that by presburger
  then have "varint_loop 28 0 0 (varint_bytes v32 @ rest) = Some (v32, rest)"
    using varint_loop_bytes [of v32 0 28 0 rest] unsigned_less [of v32] by simp
  then show "GetVarint32PtrFallback (EncodeVarint32 v32 @ rest) = Some (v32, rest)"
    by (simp add: GetVarint32PtrFallback_def EncodeVarint32_bytes)
  show "GetVarint64Ptr (EncodeVarint64 v64 @ rest) = Some (v64, rest)"
    using varint_loop_bytes [of v64 0 63 0 rest] unsigned_less [of v64]
    by (simp add: GetVarint64Ptr_def EncodeVarint64_bytes)
qed

text \<open>The fast path of \<open>GetVarint32Ptr\<close> is what the loop does on one byte.\<close>

lemma GetVarint32Ptr_eq: "GetVarint32Ptr p = GetVarint32PtrFallback p"
  by (cases p) (simp_all add: GetVarint32Ptr_def GetVarint32PtrFallback_def Let_def)

lemma length_EncodeVarint64: "VarintLength v = int (length (EncodeVarint64 v))"
proof (induction v rule: EncodeVarint64.induct)
  case (1 v)
  then show ?case by (subst EncodeVarint64.simps, subst VarintLength.simps) simp
qed

lemma varint_bytes_ucast: "varint_bytes v = EncodeVarint64 (ucast (v :: u32))"
proof (induction v rule: varint_bytes.induct)
  case (1 v)
  have "unat (ucast v :: u64) = unat v"
    using unsigned_less [of v, where 'a = nat] by (simp add: unsigned_ucast_eq take_bit_nat_eq_self)
  moreover have "drop_bit 7 (ucast v :: u64) = ucast (drop_bit 7 v)"
    "(ucast ((ucast v AND 127) OR 128 :: u64) :: byte) = ucast ((v AND 127) OR 128)"
    "(ucast (ucast v :: u64) :: byte) = ucast v"
    by (rule bit_word_eqI, auto simp: varint_consts bit_simps dest: bit_imp_le_length)+
  ultimately show ?case using 1
    by (subst varint_bytes.simps, subst EncodeVarint64.simps) (simp add: word_le_nat_alt)
qed

lemmas EncodeVarint32_ucast = EncodeVarint32_bytes [unfolded varint_bytes_ucast]

lemma EncodeVarint64_bound:
  "unat v < 2 ^ (7 * n) \<Longrightarrow> 0 < n \<Longrightarrow> length (EncodeVarint64 v) \<le> n"
proof (induction v arbitrary: n rule: EncodeVarint64.induct)
  case (1 v)
  show ?case
  proof (cases "v \<ge> 128")
    case True
    then have n: "1 < n" using 1(2,3) by (cases n; cases "n - 1") (auto simp: word_le_nat_alt)
    then obtain k where k: "n = Suc k" "0 < k" by (cases n) auto
    have "unat (drop_bit 7 v) < 2 ^ (7 * k)"
      using 1(2) by (simp add: unat_drop_7 k power_add less_mult_imp_div_less)
    from 1(1) [OF True this k(2)] True k show ?thesis by (subst EncodeVarint64.simps) simp
  qed (use 1(3) in \<open>subst EncodeVarint64.simps, simp\<close>)
qed

section \<open>Properties\<close>

text \<open>
  C18. Integers written by the fixed-width and the variable-length encoders
  are read back by the decoders, with the bytes that follow left over; the byte order of
  the writing and of the reading machine do not matter.
\<close>

theorem coding_roundtrip:
  "DecodeFixed16 le (PutFixed16 le' [] v16 @ rest) = ret v16 \<and>
   DecodeFixed32 le (PutFixed32 le' [] v32 @ rest) = ret v32 \<and>
   DecodeFixed64 le (PutFixed64 le' [] v64 @ rest) = ret v64 \<and>
   GetVarint32 (PutVarint32 [] v32 @ rest) x32 = (True, rest, v32) \<and>
   GetVarint64 (PutVarint64 [] v64 @ rest) x64 = (True, rest, v64)"
  by (simp add: PutFixed16_def PutFixed32_def PutFixed64_def PutVarint32_def PutVarint64_def
      GetVarint32_def GetVarint64_def GetVarint32Ptr_eq fixed_roundtrip varint_roundtrip)

text \<open>
  The unrolled \<open>EncodeVarint32\<close> writes the bytes of the loop of
  \<open>EncodeVarint64\<close>, \<open>VarintLength\<close> predicts the length, and the stack buffers of
  \<open>PutVarint32\<close> (5 bytes) and \<open>PutVarint64\<close> (10 bytes) are never overrun.
\<close>

theorem varint_lengths:
  "EncodeVarint32 v32 = EncodeVarint64 (ucast v32) \<and>
   VarintLength v64 = int (length (EncodeVarint64 v64)) \<and>
   length (EncodeVarint32 v32) \<le> 5 \<and> length (EncodeVarint64 v64) \<le> 10"
proof -
  have "unat v64 < 2 ^ (7 * 10)" using unsigned_less [of v64, where 'a = nat] by simp
  moreover have "length (EncodeVarint32 v32) \<le> 5" by (simp add: EncodeVarint32_def)
  ultimately show ?thesis
    using EncodeVarint64_bound [of v64 10] length_EncodeVarint64 [of v64] EncodeVarint32_ucast [of v32] by simp
qed

end
