(* ===== verification/Tensor_Shape.thy ===== *)
theory Tensor_Shape
  imports Status Coding
begin

text \<open>
  Shapes of tensors: \<^verbatim>\<open>tensorflow/core/framework/tensor_shape.h\<close>, \<^verbatim>\<open>tensor_shape.cc\<close> and
  \<^verbatim>\<open>tensorflow/core/util/overflow.h\<close>.

  \<open>TensorShape\<close> and \<open>PartialTensorShape\<close> share one representation of 16 bytes; the template
  argument is the flag \<open>p\<close> (\<open>kIsPartial\<close>). The dimensions are in bytes 0 to 11, as six
  16-bit or three 32-bit numbers, or in a vector on the heap when they do not fit; bytes
  13 to 15 hold the type of the tensor, the number of dimensions and the tag of the
  representation. The pointer to the vector is stored over the bytes of the other two forms, which are
  written before they are read again. A 64-bit size is an integer in the range of \<open>int64\<close>.

  The lemmas show that the representation cannot be observed: every operation behaves as
  an operation on a list of sizes, and where it ends the process is a condition on lists.
  Protos, comparison and merging are in \<open>Partial_Shape\<close>.
\<close>

section \<open>\<open>overflow.h\<close>\<close>

definition MultiplyWithoutOverflow :: "int \<Rightarrow> int \<Rightarrow> int res" where
  "MultiplyWithoutOverflow x y =
     (let ux = word_of_int x :: u64; uy = word_of_int y :: u64; uxy = ux * uy in
      if drop_bit 32 (ux OR uy) \<noteq> 0 then
        CHECK (x \<ge> 0 \<and> y \<ge> 0) ''x >= 0 && y >= 0''
          (if ux \<noteq> 0 \<and> uxy div ux \<noteq> uy then ret (- 1) else ret (sint uxy))
      else ret (sint uxy))"

section \<open>The representation\<close>

datatype rep_tag = REP16 | REP32 | REP_OUT_OF_LINE

record tensor_shape_rep =
  ts_buf :: bytes
  ts_data_type :: byte
  ts_ndims_byte :: byte
  ts_tag :: rep_tag
  ts_dims64 :: "int list"
  ts_num_elements :: int

definition kMaxRep16 :: int where "kMaxRep16 = 2 ^ 16 - 1 - 1"
definition kMaxRep32 :: int where "kMaxRep32 = 2 ^ 32 - 1 - 1"
definition kUnknownRep16 :: u16 where "kUnknownRep16 = 0xFFFF"
definition kUnknownRep32 :: u32 where "kUnknownRep32 = 0xFFFFFFFF"
definition kUnknownRank :: byte where "kUnknownRank = 255"
definition MaxDimensions :: int where "MaxDimensions = 254"
definition DT_INVALID :: byte where "DT_INVALID = 0"

text \<open>
  \<open>as16()->dims_[d]\<close> and \<open>as32()->dims_[d]\<close>, read and written. The numbers are stored with the least
  significant byte first; they are only read the way they were written.
\<close>

definition rep16_at :: "bytes \<Rightarrow> int \<Rightarrow> u16 res" where
  "rep16_at buf d =
     (if 0 \<le> d \<and> d < 6 then ret (object_of_bytes True (take 2 (drop (2 * nat d) buf)))
      else abort (Undefined ''index of Rep16::dims_''))"

definition rep16_set :: "bytes \<Rightarrow> int \<Rightarrow> u16 \<Rightarrow> bytes res" where
  "rep16_set buf d v =
     (if 0 \<le> d \<and> d < 6 then ret (take (2 * nat d) buf @ object_bytes True 2 v @ drop (2 * nat d + 2) buf)
      else abort (Undefined ''index of Rep16::dims_''))"

definition rep32_at :: "bytes \<Rightarrow> int \<Rightarrow> u32 res" where
  "rep32_at buf d =
     (if 0 \<le> d \<and> d < 3 then ret (object_of_bytes True (take 4 (drop (4 * nat d) buf)))
      else abort (Undefined ''index of Rep32::dims_''))"

definition rep32_set :: "bytes \<Rightarrow> int \<Rightarrow> u32 \<Rightarrow> bytes res" where
  "rep32_set buf d v =
     (if 0 \<le> d \<and> d < 3 then ret (take (4 * nat d) buf @ object_bytes True 4 v @ drop (4 * nat d + 4) buf)
      else abort (Undefined ''index of Rep32::dims_''))"

definition vec_at :: "int list \<Rightarrow> int \<Rightarrow> int res" where
  "vec_at v d =
     (if 0 \<le> d \<and> d < int (length v) then ret (v ! nat d) else abort (Undefined ''index of InlinedVector''))"

definition unknown_rank :: "bool \<Rightarrow> tensor_shape_rep \<Rightarrow> bool" where
  "unknown_rank p s \<longleftrightarrow> p \<and> ts_ndims_byte s = kUnknownRank"

definition dims :: "bool \<Rightarrow> tensor_shape_rep \<Rightarrow> int" where
  "dims p s = (if p \<and> ts_ndims_byte s = kUnknownRank then - 1 else uint (ts_ndims_byte s))"

definition dim_size :: "bool \<Rightarrow> tensor_shape_rep \<Rightarrow> int \<Rightarrow> int res" where
  "dim_size p s d =
     (if unknown_rank p s then ret (- 1)
      else DCHECK (d \<ge> 0) ''d >= 0'' (DCHECK (d < dims p s) ''d < dims()'' (
      case ts_tag s of
        REP16 \<Rightarrow> bnd (rep16_at (ts_buf s) d) (\<lambda>dim. if p \<and> dim = kUnknownRep16 then ret (- 1) else ret (uint dim))
      | REP32 \<Rightarrow> bnd (rep32_at (ts_buf s) d) (\<lambda>dim. if p \<and> dim = kUnknownRep32 then ret (- 1) else ret (uint dim))
      | REP_OUT_OF_LINE \<Rightarrow> vec_at (ts_dims64 s) d)))"

text \<open>
  \<open>for (auto dim : s)\<close>: \<open>end()\<close> checks that the rank is known; the sizes in order. It is the
  body of \<open>AppendTo\<close> and of \<open>dim_sizes\<close>.
\<close>

definition dim_sizes :: "bool \<Rightarrow> tensor_shape_rep \<Rightarrow> int list res" where
  "dim_sizes p s =
     CHECK (\<not> unknown_rank p s) ''!unknown_rank()'' (mapM (dim_size p s) [0..dims p s - 1])"

definition AppendTo :: "bool \<Rightarrow> tensor_shape_rep \<Rightarrow> int list \<Rightarrow> int list res" where
  "AppendTo p s vals = bnd (dim_sizes p s) (\<lambda>ds. ret (vals @ ds))"

definition IsFullyDefined :: "bool \<Rightarrow> tensor_shape_rep \<Rightarrow> bool" where
  "IsFullyDefined p s \<longleftrightarrow> \<not> p \<or> ts_num_elements s \<noteq> - 1"

definition CheckDimsEqual :: "int \<Rightarrow> tensor_shape_rep \<Rightarrow> unit res" where
  "CheckDimsEqual NDIMS s = CHECK (NDIMS = dims False s) ''NDIMS == dims()'' (ret ())"

definition CheckDimsAtLeast :: "int \<Rightarrow> tensor_shape_rep \<Rightarrow> unit res" where
  "CheckDimsAtLeast NDIMS s = CHECK (NDIMS \<ge> dims False s) ''NDIMS >= dims()'' (ret ())"

definition AsEigenDSizesWithPadding :: "int \<Rightarrow> tensor_shape_rep \<Rightarrow> int list res" where
  "AsEigenDSizesWithPadding NDIMS s =
     bnd (CheckDimsAtLeast NDIMS s) (\<lambda>_.
     bnd (mapM (dim_size False s) [0..dims False s - 1]) (\<lambda>ds.
     ret (ds @ replicate (nat (NDIMS - dims False s)) 1)))"

definition AsEigenDSizes :: "int \<Rightarrow> tensor_shape_rep \<Rightarrow> int list res" where
  "AsEigenDSizes NDIMS s = bnd (CheckDimsEqual NDIMS s) (\<lambda>_. AsEigenDSizesWithPadding NDIMS s)"

section \<open>Operations that change a shape\<close>

text \<open>A fresh object: the bytes that the constructors do not set are those of \<open>memory\<close>.\<close>

definition blank_rep :: "bytes \<Rightarrow> tensor_shape_rep" where
  "blank_rep memory = \<lparr>ts_buf = memory, ts_data_type = DT_INVALID, ts_ndims_byte = 0, ts_tag = REP16,
     ts_dims64 = [], ts_num_elements = 1\<rparr>"

definition empty_shape :: "bool \<Rightarrow> bytes \<Rightarrow> tensor_shape_rep" where
  "empty_shape p memory =
     (if p then (blank_rep memory)\<lparr>ts_ndims_byte := kUnknownRank, ts_num_elements := - 1\<rparr>
      else blank_rep memory)"

definition ClearAllButDataType :: "tensor_shape_rep \<Rightarrow> tensor_shape_rep" where
  "ClearAllButDataType s =
     (let s1 = (if ts_tag s = REP_OUT_OF_LINE then s\<lparr>ts_dims64 := []\<rparr> else s) in
      s1\<lparr>ts_tag := REP16, ts_ndims_byte := 0, ts_num_elements := 1\<rparr>)"

definition Clear :: "tensor_shape_rep \<Rightarrow> tensor_shape_rep" where
  "Clear s = (ClearAllButDataType s)\<lparr>ts_data_type := DT_INVALID\<rparr>"

text \<open>Assignment of one shape to another, with the vector copied or taken over.\<close>

definition TensorShapeRep_SlowCopyFrom :: "tensor_shape_rep \<Rightarrow> tensor_shape_rep \<Rightarrow> tensor_shape_rep res" where
  "TensorShapeRep_SlowCopyFrom s b =
     (if ts_tag b \<noteq> REP_OUT_OF_LINE then
        ret (s\<lparr>ts_buf := ts_buf b, ts_data_type := ts_data_type b, ts_ndims_byte := ts_ndims_byte b,
               ts_tag := ts_tag b, ts_dims64 := []\<rparr>)
      else DCHECK (ts_tag b = REP_OUT_OF_LINE) ''b.tag() == REP_OUT_OF_LINE''
        (ret (s\<lparr>ts_ndims_byte := ts_ndims_byte b, ts_data_type := ts_data_type b,
                ts_tag := REP_OUT_OF_LINE, ts_dims64 := ts_dims64 b\<rparr>)))"

definition copy_assign :: "tensor_shape_rep \<Rightarrow> tensor_shape_rep \<Rightarrow> tensor_shape_rep res" where
  "copy_assign s b =
     (let s1 = s\<lparr>ts_num_elements := ts_num_elements b\<rparr> in
      if ts_tag s1 \<noteq> REP_OUT_OF_LINE \<and> ts_tag b \<noteq> REP_OUT_OF_LINE then
        ret (s1\<lparr>ts_buf := ts_buf b, ts_data_type := ts_data_type b, ts_ndims_byte := ts_ndims_byte b,
                ts_tag := ts_tag b\<rparr>)
      else TensorShapeRep_SlowCopyFrom s1 b)"

definition copy_construct :: "bytes \<Rightarrow> tensor_shape_rep \<Rightarrow> tensor_shape_rep res" where
  "copy_construct memory b =
     (let s = (blank_rep memory)\<lparr>ts_num_elements := ts_num_elements b\<rparr> in
      if ts_tag b \<noteq> REP_OUT_OF_LINE then
        ret (s\<lparr>ts_buf := ts_buf b, ts_data_type := ts_data_type b, ts_ndims_byte := ts_ndims_byte b,
               ts_tag := ts_tag b\<rparr>)
      else TensorShapeRep_SlowCopyFrom (s\<lparr>ts_tag := REP16\<rparr>) b)"

definition move_assign :: "tensor_shape_rep \<Rightarrow> tensor_shape_rep \<Rightarrow> tensor_shape_rep \<times> tensor_shape_rep" where
  "move_assign s b = (b, b\<lparr>ts_tag := REP16, ts_dims64 := []\<rparr>)"

fun num_elements_loop :: "bool \<Rightarrow> int \<Rightarrow> int list \<Rightarrow> int res" where
  "num_elements_loop p n [] = ret n"
| "num_elements_loop p n (sz # ds) =
     (if p \<and> sz < 0 then ret (- 1)
      else bnd (MultiplyWithoutOverflow n sz) (\<lambda>n'.
        CHECK (0 \<le> n') ''0 <= n'' (num_elements_loop p n' ds)))"

definition RecomputeNumElements :: "bool \<Rightarrow> tensor_shape_rep \<Rightarrow> tensor_shape_rep res" where
  "RecomputeNumElements p s =
     (if unknown_rank p s then ret (s\<lparr>ts_num_elements := - 1\<rparr>)
      else bnd (dim_sizes p s) (\<lambda>ds.
        bnd (num_elements_loop p 1 ds) (\<lambda>n. ret (s\<lparr>ts_num_elements := n\<rparr>))))"

definition as_rep16 :: "bool \<Rightarrow> int \<Rightarrow> u16" where
  "as_rep16 p sz = (if p \<and> sz < 0 then kUnknownRep16 else word_of_int sz)"

definition as_rep32 :: "bool \<Rightarrow> int \<Rightarrow> u32" where
  "as_rep32 p sz = (if p \<and> sz < 0 then kUnknownRep32 else word_of_int sz)"

text \<open>The new representation of a list of sizes that does not fit the current one.\<close>

definition change_rep :: "bool \<Rightarrow> int list \<Rightarrow> tensor_shape_rep \<Rightarrow> tensor_shape_rep res" where
  "change_rep p vals s =
     (if length vals \<le> 3 \<and> list_all (\<lambda>v. v < kMaxRep32) vals then
        bnd (foldM (\<lambda>(d, v) buf. rep32_set buf (int d) (as_rep32 p v)) (enumerate 0 vals) (ts_buf s)) (\<lambda>buf.
        ret (s\<lparr>ts_tag := REP32, ts_buf := buf\<rparr>))
      else ret (s\<lparr>ts_tag := REP_OUT_OF_LINE, ts_dims64 := vals\<rparr>))"

definition UnsafeAddDim :: "bool \<Rightarrow> int \<Rightarrow> int \<Rightarrow> tensor_shape_rep \<Rightarrow> tensor_shape_rep res" where
  "UnsafeAddDim p sz new_num_elements s =
     (let nd = uint (ts_ndims_byte s) in
      bnd (if ts_tag s = REP16 \<and> nd < 6 \<and> sz < kMaxRep16 then
             bnd (rep16_set (ts_buf s) nd (as_rep16 p sz)) (\<lambda>buf. ret (s\<lparr>ts_buf := buf\<rparr>))
           else if ts_tag s = REP32 \<and> nd < 3 \<and> sz < kMaxRep32 then
             bnd (rep32_set (ts_buf s) nd (as_rep32 p sz)) (\<lambda>buf. ret (s\<lparr>ts_buf := buf\<rparr>))
           else if ts_tag s = REP_OUT_OF_LINE then ret (s\<lparr>ts_dims64 := ts_dims64 s @ [sz]\<rparr>)
           else bnd (AppendTo p s []) (\<lambda>vals. change_rep p (vals @ [sz]) s)) (\<lambda>s1.
      ret (s1\<lparr>ts_ndims_byte := word_of_int (nd + 1), ts_num_elements := new_num_elements\<rparr>)))"

definition AddDim :: "bool \<Rightarrow> int \<Rightarrow> tensor_shape_rep \<Rightarrow> tensor_shape_rep res" where
  "AddDim p sz s =
     CHECK (p \<or> sz \<ge> 0) ''size >= 0'' (
     if unknown_rank p s then ret s
     else CHECK (uint (ts_ndims_byte s) < MaxDimensions) ''ndims_byte() < MaxDimensions()'' (
       if p \<and> (ts_num_elements s < 0 \<or> sz < 0) then UnsafeAddDim p sz (- 1) s
       else bnd (MultiplyWithoutOverflow (ts_num_elements s) sz) (\<lambda>new_num_elements.
         CHECK (0 \<le> new_num_elements) ''0 <= new_num_elements''
           (UnsafeAddDim p sz new_num_elements s))))"

definition AddDims :: "bool \<Rightarrow> int list \<Rightarrow> tensor_shape_rep \<Rightarrow> tensor_shape_rep res" where
  "AddDims p = foldM (AddDim p)"

definition new_shape :: "bool \<Rightarrow> bytes \<Rightarrow> int list \<Rightarrow> tensor_shape_rep res" where
  "new_shape p memory sizes = AddDims p sizes (blank_rep memory)"

definition AppendShape :: "bool \<Rightarrow> tensor_shape_rep \<Rightarrow> tensor_shape_rep \<Rightarrow> tensor_shape_rep res" where
  "AppendShape p shape s = bnd (dim_sizes p shape) (\<lambda>ds. AddDims p ds s)"

definition InsertDim :: "bool \<Rightarrow> int \<Rightarrow> int \<Rightarrow> tensor_shape_rep \<Rightarrow> tensor_shape_rep res" where
  "InsertDim p d sz s =
     CHECK (d \<ge> 0) ''d >= 0'' (CHECK (d \<le> dims p s) ''d <= dims()'' (
     CHECK (p \<or> sz \<ge> 0) ''size >= 0'' (CHECK (dims p s < MaxDimensions) ''dims() < MaxDimensions()'' (
     bnd (AppendTo p s []) (\<lambda>vals.
     AddDims p (take (nat d) vals @ sz # drop (nat d) vals) (ClearAllButDataType s))))))"

definition set_dim :: "bool \<Rightarrow> int \<Rightarrow> int \<Rightarrow> tensor_shape_rep \<Rightarrow> tensor_shape_rep res" where
  "set_dim p d sz s =
     CHECK (d \<ge> 0) ''d >= 0'' (CHECK (d < dims p s) ''d < dims()'' (CHECK (sz \<ge> 0) ''size >= 0'' (
     bnd (if ts_tag s = REP16 \<and> sz < kMaxRep16 then
            bnd (rep16_set (ts_buf s) d (as_rep16 p sz)) (\<lambda>buf. ret (s\<lparr>ts_buf := buf\<rparr>))
          else if ts_tag s = REP32 \<and> sz < kMaxRep32 then
            bnd (rep32_set (ts_buf s) d (as_rep32 p sz)) (\<lambda>buf. ret (s\<lparr>ts_buf := buf\<rparr>))
          else if ts_tag s = REP_OUT_OF_LINE then
            bnd (vec_at (ts_dims64 s) d) (\<lambda>_. ret (s\<lparr>ts_dims64 := (ts_dims64 s)[nat d := sz]\<rparr>))
          else bnd (AppendTo p s []) (\<lambda>vals. AddDims p (vals[nat d := sz]) (ClearAllButDataType s)))
       (RecomputeNumElements p))))"

definition RemoveDim :: "bool \<Rightarrow> int \<Rightarrow> tensor_shape_rep \<Rightarrow> tensor_shape_rep res" where
  "RemoveDim p d s =
     (if unknown_rank p s then ret s
      else CHECK (d \<ge> 0) ''d >= 0'' (CHECK (d < dims p s) ''d < dims()'' (
        bnd (AppendTo p s []) (\<lambda>vals.
        bnd (AddDims p (take (nat d) vals @ drop (Suc (nat d)) vals) (ClearAllButDataType s))
          (RecomputeNumElements p)))))"

section \<open>Multiplication\<close>

lemma sint_u64: "sint (w :: u64) = (if uint w < 2 ^ 63 then uint w else uint w - 2 ^ 64)"
proof -
  have "sint w = signed_take_bit 63 (uint w)" by (simp add: sint_uint)
  also have "\<dots> = (uint w + 2 ^ 63) mod 2 ^ 64 - 2 ^ 63"
    by (simp add: signed_take_bit_eq_take_bit_shift take_bit_eq_mod)
  also have "\<dots> = (if uint w < 2 ^ 63 then uint w else uint w - 2 ^ 64)"
    using uint_bounded [of w] by (auto simp: mod_pos_pos_trivial mod_add_self2 zmod_minus1 mod_pos_geq)
  finally show ?thesis .
qed

lemma high_half_zero:
  fixes a b :: u64
  shows "drop_bit 32 (a OR b) = 0 \<longleftrightarrow> uint a < 2 ^ 32 \<and> uint b < 2 ^ 32"
proof -
  have z: "drop_bit 32 w = 0 \<longleftrightarrow> uint w < 2 ^ 32" for w :: u64
  proof -
    have "drop_bit 32 w = 0 \<longleftrightarrow> uint (drop_bit 32 w) = 0" by (simp add: uint_0_iff)
    also have "\<dots> \<longleftrightarrow> uint w div 2 ^ 32 = 0" by (simp add: drop_bit_eq_div uint_div)
    also have "\<dots> \<longleftrightarrow> uint w < 2 ^ 32" by (auto simp: zdiv_eq_0_iff)
    finally show ?thesis .
  qed
  have "drop_bit 32 (a OR b) = 0 \<longleftrightarrow> drop_bit 32 a = 0 \<and> drop_bit 32 b = 0"
    by (simp add: drop_bit_or or_eq_0_iff)
  with z show ?thesis by simp
qed

lemma MultiplyWithoutOverflow_nonneg:
  assumes "0 \<le> x" "x < 2 ^ 63" "0 \<le> y" "y < 2 ^ 63"
  shows "\<exists>n. MultiplyWithoutOverflow x y = ret n \<and> (if x * y < 2 ^ 63 then n = x * y else n < 0)"
proof -
  let ?x = "word_of_int x :: u64" and ?y = "word_of_int y :: u64"
  have u: "uint ?x = x" "uint ?y = y" using assms by (simp_all add: uint_word_of_int)
  have m: "uint (?x * ?y) = x * y mod 2 ^ 64" by (simp add: uint_word_ariths u)
  have small: "uint (?x * ?y) = x * y" if "x * y < 2 ^ 64"
    using that assms m by (simp add: mod_pos_pos_trivial)
  show ?thesis
  proof (cases "drop_bit 32 (?x OR ?y) = 0")
    case True
    then have "x < 2 ^ 32" "y < 2 ^ 32" unfolding high_half_zero u by simp_all
    then have "x * y < 2 ^ 32 * 2 ^ 32" using assms(1,3) by (intro mult_strict_mono) auto
    with True small show ?thesis
      by (cases "x * y < 2 ^ 63") (simp_all add: MultiplyWithoutOverflow_def sint_u64)
  next
    case False
    show ?thesis
    proof (cases "?x \<noteq> 0 \<and> ?x * ?y div ?x \<noteq> ?y")
      case True
      have "\<not> x * y < 2 ^ 64"
      proof
        assume "x * y < 2 ^ 64"
        moreover have "x \<noteq> 0" using True by auto
        ultimately have "uint (?x * ?y div ?x) = uint ?y" by (simp add: uint_div small u)
        with True show False by (simp add: word_uint_eq_iff)
      qed
      with True False assms show ?thesis by (auto simp: MultiplyWithoutOverflow_def)
    next
      case nodiv: False
      have "uint (?x * ?y) = x * y"
      proof (cases "?x = 0")
        case True
        then have "x = 0" using u(1) by simp
        then show ?thesis by simp
      next
        case False
        with nodiv have "uint (?x * ?y) div x = y" by (metis u uint_div)
        then have "y * x + uint (?x * ?y) mod x = uint (?x * ?y)" using div_mult_mod_eq [of "uint (?x * ?y)" x] by simp
        moreover have "0 \<le> uint (?x * ?y) mod x" using False assms(1) u(1) by (cases "x = 0") auto
        ultimately have "y * x \<le> x * y mod 2 ^ 64" using m by linarith
        moreover have "x * y mod 2 ^ 64 \<le> x * y" using assms(1,3) by (intro zmod_le_nonneg_dividend) simp
        ultimately show ?thesis using m by (simp add: mult.commute)
      qed
      with nodiv False assms uint_bounded [of "?x * ?y"] show ?thesis
        by (cases "x * y < 2 ^ 63") (auto simp: MultiplyWithoutOverflow_def sint_u64)
    qed
  qed
qed

section \<open>The abstract view\<close>

text \<open>
  The sizes that a representation stands for, and what makes it a valid one. An unknown
  size is \<open>- 1\<close>; a shape whose rank is unknown has no list of sizes.
\<close>

definition slot16 :: "bytes \<Rightarrow> nat \<Rightarrow> u16" where
  "slot16 buf d = object_of_bytes True (take 2 (drop (2 * d) buf))"

definition slot32 :: "bytes \<Rightarrow> nat \<Rightarrow> u32" where
  "slot32 buf d = object_of_bytes True (take 4 (drop (4 * d) buf))"

definition of_rep16 :: "bool \<Rightarrow> u16 \<Rightarrow> int" where
  "of_rep16 p w = (if p \<and> w = kUnknownRep16 then - 1 else uint w)"

definition of_rep32 :: "bool \<Rightarrow> u32 \<Rightarrow> int" where
  "of_rep32 p w = (if p \<and> w = kUnknownRep32 then - 1 else uint w)"

definition rank_of :: "tensor_shape_rep \<Rightarrow> nat" where
  "rank_of s = unat (ts_ndims_byte s)"

definition sizes :: "bool \<Rightarrow> tensor_shape_rep \<Rightarrow> int list" where
  "sizes p s = (case ts_tag s of
     REP16 \<Rightarrow> map (\<lambda>d. of_rep16 p (slot16 (ts_buf s) d)) [0..<rank_of s]
   | REP32 \<Rightarrow> map (\<lambda>d. of_rep32 p (slot32 (ts_buf s) d)) [0..<rank_of s]
   | REP_OUT_OF_LINE \<Rightarrow> ts_dims64 s)"

definition size_ok :: "bool \<Rightarrow> int \<Rightarrow> bool" where
  "size_ok p d \<longleftrightarrow> (if p then - 1 else 0) \<le> d \<and> d < 2 ^ 63"

definition elements_of :: "int list \<Rightarrow> int" where
  "elements_of ds = (if list_all (\<lambda>d. 0 \<le> d) ds then prod_list ds else - 1)"

text \<open>
  A list of sizes is a shape when the products of its prefixes fit 63 bits, up to the first
  unknown size: this is what the checks of \<open>AddDim\<close> and of \<open>RecomputeNumElements\<close> come to.
\<close>

definition shape_valid :: "bool \<Rightarrow> int list \<Rightarrow> bool" where
  "shape_valid p ds \<longleftrightarrow> length ds \<le> 254 \<and> list_all (size_ok p) ds \<and>
     (\<forall>k \<le> length ds. elements_of (take k ds) < 2 ^ 63)"

definition tag_limit :: "rep_tag \<Rightarrow> nat \<times> int" where
  "tag_limit t = (case t of REP16 \<Rightarrow> (6, kMaxRep16) | REP32 \<Rightarrow> (3, kMaxRep32) | REP_OUT_OF_LINE \<Rightarrow> (254, 2 ^ 63))"

definition rep_ok :: "bool \<Rightarrow> tensor_shape_rep \<Rightarrow> bool" where
  "rep_ok p s \<longleftrightarrow> length (ts_buf s) = 12 \<and>
     (if unknown_rank p s then ts_tag s = REP16 \<and> ts_num_elements s = - 1
      else length (sizes p s) = rank_of s \<and> rank_of s \<le> fst (tag_limit (ts_tag s)) \<and>
        list_all (\<lambda>d. d < snd (tag_limit (ts_tag s))) (sizes p s) \<and>
        shape_valid p (sizes p s) \<and> ts_num_elements s = elements_of (sizes p s))"

definition view :: "bool \<Rightarrow> tensor_shape_rep \<Rightarrow> int list option" where
  "view p s = (if unknown_rank p s then None else Some (sizes p s))"

lemma rep_slots:
  "0 \<le> d \<Longrightarrow> d < 6 \<Longrightarrow> rep16_at buf d = ret (slot16 buf (nat d))"
  "0 \<le> d \<Longrightarrow> d < 3 \<Longrightarrow> rep32_at buf d = ret (slot32 buf (nat d))"
  by (simp_all add: rep16_at_def rep32_at_def slot16_def slot32_def)

lemma take_drop_splice:
  assumes "length bs = k" "(d + 1) * k \<le> length buf" "(e + 1) * k \<le> length buf"
  shows "take k (drop (e * k) (take (d * k) buf @ bs @ drop (d * k + k) buf)) =
    (if e = d then bs else take k (drop (e * k) buf))"
proof (cases "e < d")
  case True
  then have "(e + 1) * k \<le> d * k" by (intro mult_right_mono) auto
  then have "e * k + k \<le> d * k" by simp
  moreover have "d * k \<le> length buf" using assms(2) by simp
  ultimately show ?thesis using True by (simp add: take_drop)
next
  case False
  show ?thesis
  proof (cases "e = d")
    case True
    then show ?thesis using assms by simp
  next
    case False
    with \<open>\<not> e < d\<close> have "(d + 1) * k \<le> e * k" by (intro mult_right_mono) auto
    then obtain j where "e * k = d * k + k + j" by (auto simp: le_iff_add)
    with False assms show ?thesis by (simp add: min_def ac_simps)
  qed
qed

lemma rep_sets:
  assumes "length buf = 12" "0 \<le> d"
  shows "d < 6 \<Longrightarrow> \<exists>buf'. rep16_set buf d v = ret buf' \<and> length buf' = 12 \<and>
      (\<forall>e < 6. slot16 buf' e = (if e = nat d then v else slot16 buf e))"
    and "d < 3 \<Longrightarrow> \<exists>buf'. rep32_set buf d w = ret buf' \<and> length buf' = 12 \<and>
      (\<forall>e < 3. slot32 buf' e = (if e = nat d then w else slot32 buf e))"
proof -
  assume d: "d < 6"
  let ?b = "take (2 * nat d) buf @ object_bytes True 2 v @ drop (2 * nat d + 2) buf"
  have "slot16 ?b e = (if e = nat d then v else slot16 buf e)" if "e < 6" for e
    using take_drop_splice [of "object_bytes True 2 v" 2 "nat d" buf e] d that assms
    by (simp add: slot16_def mult.commute object_roundtrip)
  then show "\<exists>buf'. rep16_set buf d v = ret buf' \<and> length buf' = 12 \<and>
      (\<forall>e < 6. slot16 buf' e = (if e = nat d then v else slot16 buf e))"
    using d assms by (auto simp: rep16_set_def)
next
  assume d: "d < 3"
  let ?b = "take (4 * nat d) buf @ object_bytes True 4 w @ drop (4 * nat d + 4) buf"
  have "slot32 ?b e = (if e = nat d then w else slot32 buf e)" if "e < 3" for e
    using take_drop_splice [of "object_bytes True 4 w" 4 "nat d" buf e] d that assms
    by (simp add: slot32_def mult.commute object_roundtrip)
  then show "\<exists>buf'. rep32_set buf d w = ret buf' \<and> length buf' = 12 \<and>
      (\<forall>e < 3. slot32 buf' e = (if e = nat d then w else slot32 buf e))"
    using d assms by (auto simp: rep32_set_def)
qed

lemma rep_values:
  assumes "size_ok p sz"
  shows "sz < kMaxRep16 \<Longrightarrow> of_rep16 p (as_rep16 p sz) = sz" "sz < kMaxRep32 \<Longrightarrow> of_rep32 p (as_rep32 p sz) = sz"
proof -
  assume s: "sz < kMaxRep16"
  show "of_rep16 p (as_rep16 p sz) = sz"
  proof (cases "sz < 0")
    case True
    with assms show ?thesis by (auto simp: size_ok_def of_rep16_def as_rep16_def split: if_splits)
  next
    case False
    with s have u: "uint (word_of_int sz :: u16) = sz" by (simp add: kMaxRep16_def uint_word_of_int)
    have "uint kUnknownRep16 = 2 ^ 16 - 1" by (simp add: kUnknownRep16_def)
    with s u False have "(word_of_int sz :: u16) \<noteq> kUnknownRep16" by (auto simp: kMaxRep16_def)
    with u False show ?thesis by (simp add: of_rep16_def as_rep16_def)
  qed
next
  assume s: "sz < kMaxRep32"
  show "of_rep32 p (as_rep32 p sz) = sz"
  proof (cases "sz < 0")
    case True
    with assms show ?thesis by (auto simp: size_ok_def of_rep32_def as_rep32_def split: if_splits)
  next
    case False
    with s have u: "uint (word_of_int sz :: u32) = sz" by (simp add: kMaxRep32_def uint_word_of_int)
    have "uint kUnknownRep32 = 2 ^ 32 - 1" by (simp add: kUnknownRep32_def)
    with s u False have "(word_of_int sz :: u32) \<noteq> kUnknownRep32" by (auto simp: kMaxRep32_def)
    with u False show ?thesis by (simp add: of_rep32_def as_rep32_def)
  qed
qed

section \<open>Lists of sizes\<close>

lemma elements_of_nonneg: "0 \<le> elements_of ds \<longleftrightarrow> list_all (\<lambda>d. 0 \<le> d) ds"
proof -
  have "list_all (\<lambda>d. 0 \<le> d) ds \<Longrightarrow> 0 \<le> prod_list ds" by (induction ds) auto
  then show ?thesis by (simp add: elements_of_def)
qed

lemma elements_of_Nil [simp]: "elements_of [] = 1"
  by (simp add: elements_of_def)

lemma elements_of_snoc:
  "elements_of (ds @ [sz]) = (if elements_of ds < 0 \<or> sz < 0 then - 1 else elements_of ds * sz)"
proof (cases "list_all (\<lambda>d. 0 \<le> d) ds")
  case True
  with elements_of_nonneg [of ds] show ?thesis by (simp add: elements_of_def)
next
  case False
  with elements_of_nonneg [of ds] show ?thesis by (simp add: elements_of_def)
qed

lemma elements_of_lower: "- 1 \<le> elements_of ds"
  using elements_of_nonneg [of ds] by (cases "list_all (\<lambda>d. 0 \<le> d) ds") (auto simp: elements_of_def)

lemma shape_valid_Nil [simp]: "shape_valid p []"
  by (simp add: shape_valid_def)

lemma shape_valid_snoc:
  "shape_valid p (ds @ [sz]) \<longleftrightarrow>
     shape_valid p ds \<and> length ds < 254 \<and> size_ok p sz \<and> elements_of (ds @ [sz]) < 2 ^ 63"
proof -
  have "(\<forall>k \<le> Suc (length ds). elements_of (take k (ds @ [sz])) < 2 ^ 63) \<longleftrightarrow>
    (\<forall>k \<le> length ds. elements_of (take k ds) < 2 ^ 63) \<and> elements_of (ds @ [sz]) < 2 ^ 63"
    by (auto simp: le_Suc_eq)
  then show ?thesis by (auto simp: shape_valid_def)
qed

lemma shape_valid_prefix: "shape_valid p (ds @ es) \<Longrightarrow> shape_valid p ds"
proof (induction es rule: rev_induct)
  case (snoc e es)
  then show ?case using shape_valid_snoc [of p "ds @ es" e] by simp
qed simp

lemma shape_valid_elements: "shape_valid p ds \<Longrightarrow> elements_of ds < 2 ^ 63"
  unfolding shape_valid_def by (metis order_refl take_all)

lemma upto_upt: "[0..int n - 1] = map int [0..<n]"
proof (induction n)
  case (Suc n)
  have "[0..int (Suc n) - 1] = [0..int n - 1] @ [int n]" by (simp add: upto_rec2)
  with Suc show ?case by simp
qed simp

section \<open>Reading a shape\<close>

text \<open>\<open>denotes p s ds\<close>: the object is valid, its rank is known and its sizes are \<open>ds\<close>.\<close>

definition denotes :: "bool \<Rightarrow> tensor_shape_rep \<Rightarrow> int list \<Rightarrow> bool" where
  "denotes p s ds \<longleftrightarrow> rep_ok p s \<and> view p s = Some ds"

lemma denotes_facts:
  assumes "denotes p s ds"
  shows "rep_ok p s" "\<not> unknown_rank p s" "sizes p s = ds" "length ds = rank_of s" "shape_valid p ds"
    "ts_num_elements s = elements_of ds" "dims p s = int (length ds)" "uint (ts_ndims_byte s) = int (length ds)"
    "length (ts_buf s) = 12" "rank_of s \<le> fst (tag_limit (ts_tag s))"
    "list_all (\<lambda>d. d < snd (tag_limit (ts_tag s))) ds"
proof -
  show s: "rep_ok p s" "\<not> unknown_rank p s" "sizes p s = ds"
    using assms by (auto simp: denotes_def view_def split: if_splits)
  then show l: "length ds = rank_of s" "shape_valid p ds" "ts_num_elements s = elements_of ds"
    "length (ts_buf s) = 12" "rank_of s \<le> fst (tag_limit (ts_tag s))"
    "list_all (\<lambda>d. d < snd (tag_limit (ts_tag s))) ds"
    by (auto simp: rep_ok_def)
  show u: "uint (ts_ndims_byte s) = int (length ds)" by (simp add: l(1) rank_of_def)
  with s(2) show "dims p s = int (length ds)" by (auto simp: dims_def unknown_rank_def)
qed

lemma denotesI:
  assumes "length (ts_buf s) = 12" "sizes p s = ds" "length ds = rank_of s" "shape_valid p ds"
    "ts_num_elements s = elements_of ds" "rank_of s \<le> fst (tag_limit (ts_tag s))"
    "list_all (\<lambda>d. d < snd (tag_limit (ts_tag s))) ds"
  shows "denotes p s ds"
proof -
  have "rank_of s \<le> 254" using assms(6) by (cases "ts_tag s") (auto simp: tag_limit_def)
  then have "\<not> unknown_rank p s" by (auto simp: rank_of_def unknown_rank_def kUnknownRank_def)
  with assms show ?thesis by (simp add: denotes_def rep_ok_def view_def)
qed

text \<open>The layout of the sizes alone, whatever the number of elements.\<close>

definition layout :: "bool \<Rightarrow> tensor_shape_rep \<Rightarrow> int list \<Rightarrow> bool" where
  "layout p s ds \<longleftrightarrow> length (ts_buf s) = 12 \<and> \<not> unknown_rank p s \<and> sizes p s = ds \<and> length ds = rank_of s \<and>
     rank_of s \<le> fst (tag_limit (ts_tag s)) \<and> list_all (\<lambda>d. d < snd (tag_limit (ts_tag s))) ds"

lemma denotes_layout: "denotes p s ds \<Longrightarrow> layout p s ds"
  using denotes_facts [of p s ds] by (simp add: layout_def)

lemma layout_dims: "layout p s ds \<Longrightarrow> dims p s = int (length ds)"
  by (auto simp: layout_def dims_def unknown_rank_def rank_of_def)

lemma dim_size_layout:
  assumes "layout p s ds" "0 \<le> d" "d < int (length ds)"
  shows "dim_size p s d = ret (ds ! nat d)"
proof -
  have f: "\<not> unknown_rank p s" "sizes p s = ds" "rank_of s \<le> fst (tag_limit (ts_tag s))" "length ds = rank_of s"
    using assms(1) by (simp_all add: layout_def)
  have d: "nat d < rank_of s" "d < dims p s" using assms f(4) by (simp_all add: layout_dims [OF assms(1)])
  show ?thesis
  proof (cases "ts_tag s")
    case REP16
    with d f(3) have "d < 6" by (simp add: tag_limit_def)
    with REP16 d f(1,2) assms(2) show ?thesis by (auto simp: dim_size_def sizes_def rep_slots of_rep16_def)
  next
    case REP32
    with d f(3) have "d < 3" by (simp add: tag_limit_def)
    with REP32 d f(1,2) assms(2) show ?thesis by (auto simp: dim_size_def sizes_def rep_slots of_rep32_def)
  next
    case REP_OUT_OF_LINE
    with d f(1,2) assms(2,3) show ?thesis by (simp add: dim_size_def sizes_def vec_at_def)
  qed
qed

lemma mapM_dim_size:
  assumes "layout p s ds"
  shows "mapM (dim_size p s) [0..dims p s - 1] = ret ds"
proof -
  have "mapM (dim_size p s) [0..int (length ds) - 1] = ret (map (\<lambda>d. ds ! nat d) [0..int (length ds) - 1])"
    by (rule mapM_ret) (use dim_size_layout [OF assms] in auto)
  also have "map (\<lambda>d. ds ! nat d) [0..int (length ds) - 1] = ds"
    by (simp add: upto_upt comp_def map_nth)
  finally show ?thesis by (simp add: layout_dims [OF assms])
qed

lemma dim_sizes_layout:
  assumes "layout p s ds"
  shows "dim_sizes p s = ret ds" "AppendTo p s vals = ret (vals @ ds)"
  using mapM_dim_size [OF assms] assms by (simp_all add: dim_sizes_def AppendTo_def layout_def)

lemmas dim_size_denotes = dim_size_layout [OF denotes_layout]
lemmas dim_sizes_denotes = dim_sizes_layout [OF denotes_layout]

section \<open>Changing a shape\<close>

lemma sizes_16: "ts_tag s = REP16 \<Longrightarrow> sizes p s = map (\<lambda>d. of_rep16 p (slot16 (ts_buf s) d)) [0..<rank_of s]"
  and sizes_32: "ts_tag s = REP32 \<Longrightarrow> sizes p s = map (\<lambda>d. of_rep32 p (slot32 (ts_buf s) d)) [0..<rank_of s]"
  and sizes_64: "ts_tag s = REP_OUT_OF_LINE \<Longrightarrow> sizes p s = ts_dims64 s"
  by (simp_all add: sizes_def)

text \<open>Writing a list of sizes into the three 32-bit slots.\<close>

lemma write_slots32:
  assumes "k + length vals \<le> 3" "length buf = 12"
  shows "\<exists>buf'. foldM (\<lambda>(d, v) buf. rep32_set buf (int d) (as_rep32 p v)) (enumerate k vals) buf = ret buf' \<and>
    length buf' = 12 \<and> (\<forall>e < 3. slot32 buf' e =
      (if k \<le> e \<and> e < k + length vals then as_rep32 p (vals ! (e - k)) else slot32 buf e))"
  using assms
proof (induction vals arbitrary: k buf)
  case (Cons v vals)
  from rep_sets(2) [OF Cons.prems(2), of "int k" "as_rep32 p v"] Cons.prems(1) obtain b1 where
    b1: "rep32_set buf (int k) (as_rep32 p v) = ret b1" "length b1 = 12"
      "\<forall>e < 3. slot32 b1 e = (if e = k then as_rep32 p v else slot32 buf e)" by auto
  from Cons.IH [of "Suc k" b1] Cons.prems(1) b1(2) obtain b2 where
    b2: "foldM (\<lambda>(d, v) buf. rep32_set buf (int d) (as_rep32 p v)) (enumerate (Suc k) vals) b1 = ret b2"
      "length b2 = 12" "\<forall>e < 3. slot32 b2 e =
        (if Suc k \<le> e \<and> e < Suc k + length vals then as_rep32 p (vals ! (e - Suc k)) else slot32 b1 e)" by auto
  have "slot32 b2 e = (if k \<le> e \<and> e < k + length (v # vals) then as_rep32 p ((v # vals) ! (e - k)) else slot32 buf e)"
    if "e < 3" for e
    using b1(3) b2(3) that by (auto simp: nth_Cons' Suc_le_eq)
  with b1(1) b2(1,2) show ?case by auto
qed auto

lemma change_rep_ok:
  assumes "length (ts_buf s) = 12" "list_all (size_ok p) vals" "length vals \<le> 254"
  shows "\<exists>s'. change_rep p vals s = ret s' \<and> length (ts_buf s') = 12 \<and> ts_tag s' \<noteq> REP16 \<and>
    length vals \<le> fst (tag_limit (ts_tag s')) \<and> list_all (\<lambda>d. d < snd (tag_limit (ts_tag s'))) vals \<and>
    (\<forall>e. sizes p (s'\<lparr>ts_ndims_byte := of_nat (length vals), ts_num_elements := e\<rparr>) = vals)"
proof (cases "length vals \<le> 3 \<and> list_all (\<lambda>v. v < kMaxRep32) vals")
  case True
  with write_slots32 [of 0 vals "ts_buf s" p] assms(1) obtain b where
    b: "foldM (\<lambda>(d, v) buf. rep32_set buf (int d) (as_rep32 p v)) (enumerate 0 vals) (ts_buf s) = ret b"
      "length b = 12" "\<forall>e < 3. slot32 b e = (if e < length vals then as_rep32 p (vals ! e) else slot32 (ts_buf s) e)"
    by auto
  have r: "unat (of_nat (length vals) :: byte) = length vals" using True by (simp add: unat_of_nat)
  have "map (\<lambda>d. of_rep32 p (slot32 b d)) [0..<length vals] = vals"
    using True b(3) assms(2) by (intro nth_equalityI) (auto simp: list_all_length rep_values)
  with True b r show ?thesis
    by (simp add: change_rep_def sizes_32 rank_of_def tag_limit_def)
next
  case False
  with assms show ?thesis
    by (auto simp: change_rep_def sizes_64 tag_limit_def size_ok_def list_all_iff)
qed

lemma UnsafeAddDim_ok:
  assumes "denotes p s ds" "shape_valid p (ds @ [sz])" "e = elements_of (ds @ [sz])"
  shows "\<exists>s'. UnsafeAddDim p sz e s = ret s' \<and> denotes p s' (ds @ [sz]) \<and> ts_data_type s' = ts_data_type s"
proof -
  note f = denotes_facts [OF assms(1)]
  have v: "size_ok p sz" "length ds < 254" using assms(2) by (simp_all add: shape_valid_snoc)
  let ?next = "\<lambda>s1. s1\<lparr>ts_ndims_byte := word_of_int (uint (ts_ndims_byte s) + 1), ts_num_elements := e\<rparr>"
  have nd: "ts_ndims_byte s = of_nat (length ds)" by (simp add: f(4) rank_of_def)
  have u: "uint (of_nat (length ds) :: byte) = int (length ds)" using f(8) nd by simp
  have rank: "unat (of_nat (length ds) + 1 :: byte) = Suc (length ds)"
    using v(2) unat_of_nat [of "Suc (length ds)", where ?'a = 8] by (simp add: add.commute)
  note nd [simp] u [simp] rank [simp]
  have final: "denotes p (?next s1) (ds @ [sz])"
    if "length (ts_buf s1) = 12" "sizes p (?next s1) = ds @ [sz]" "Suc (length ds) \<le> fst (tag_limit (ts_tag s1))"
      "list_all (\<lambda>d. d < snd (tag_limit (ts_tag s1))) (ds @ [sz])" for s1
    by (rule denotesI) (use that assms(2,3) in \<open>simp_all add: rank_of_def\<close>)
  consider (r16) "ts_tag s = REP16" "length ds < 6" "sz < kMaxRep16"
    | (r32) "ts_tag s = REP32" "length ds < 3" "sz < kMaxRep32"
    | (r64) "ts_tag s = REP_OUT_OF_LINE"
    | (other) "ts_tag s \<noteq> REP_OUT_OF_LINE" "\<not> (ts_tag s = REP16 \<and> length ds < 6 \<and> sz < kMaxRep16)"
        "\<not> (ts_tag s = REP32 \<and> length ds < 3 \<and> sz < kMaxRep32)"
    by (cases "ts_tag s") auto
  then show ?thesis
  proof cases
    case r16
    from rep_sets(1) [OF f(9), of "int (length ds)" "as_rep16 p sz"] r16(2) obtain b where
      b: "rep16_set (ts_buf s) (int (length ds)) (as_rep16 p sz) = ret b" "length b = 12"
        "\<forall>e < 6. slot16 b e = (if e = length ds then as_rep16 p sz else slot16 (ts_buf s) e)" by auto
    have "map (\<lambda>d. of_rep16 p (slot16 b d)) [0..<length ds] = map (\<lambda>d. of_rep16 p (slot16 (ts_buf s) d)) [0..<length ds]"
      using b(3) r16(2) by (intro map_cong) auto
    also have "\<dots> = ds" using sizes_16 [OF r16(1), of p] f(3) unfolding f(4) by simp
    finally have "sizes p (?next (s\<lparr>ts_buf := b\<rparr>)) = ds @ [sz]"
      using r16 b(3) rep_values(1) [OF v(1)] by (simp add: sizes_16 rank_of_def)
    from final [OF _ this] r16 b f(11) show ?thesis
      by (simp add: UnsafeAddDim_def tag_limit_def)
  next
    case r32
    from rep_sets(2) [OF f(9), of "int (length ds)" "as_rep32 p sz"] r32(2) obtain b where
      b: "rep32_set (ts_buf s) (int (length ds)) (as_rep32 p sz) = ret b" "length b = 12"
        "\<forall>e < 3. slot32 b e = (if e = length ds then as_rep32 p sz else slot32 (ts_buf s) e)" by auto
    have "map (\<lambda>d. of_rep32 p (slot32 b d)) [0..<length ds] = map (\<lambda>d. of_rep32 p (slot32 (ts_buf s) d)) [0..<length ds]"
      using b(3) r32(2) by (intro map_cong) auto
    also have "\<dots> = ds" using sizes_32 [OF r32(1), of p] f(3) unfolding f(4) by simp
    finally have "sizes p (?next (s\<lparr>ts_buf := b\<rparr>)) = ds @ [sz]"
      using r32 b(3) rep_values(2) [OF v(1)] by (simp add: sizes_32 rank_of_def)
    from final [OF _ this] r32 b f(11) show ?thesis
      by (simp add: UnsafeAddDim_def tag_limit_def)
  next
    case r64
    have "sizes p (?next (s\<lparr>ts_dims64 := ts_dims64 s @ [sz]\<rparr>)) = ds @ [sz]"
      using r64 f(3) by (simp add: sizes_64)
    from final [OF _ this] r64 f(9,11) v show ?thesis
      by (simp add: UnsafeAddDim_def tag_limit_def size_ok_def)
  next
    case other
    have "list_all (size_ok p) (ds @ [sz])" using assms(2) by (simp add: shape_valid_def)
    from change_rep_ok [OF f(9) this] v(2) obtain s1 where
      s1: "change_rep p (ds @ [sz]) s = ret s1" "length (ts_buf s1) = 12"
        "length (ds @ [sz]) \<le> fst (tag_limit (ts_tag s1))" "list_all (\<lambda>d. d < snd (tag_limit (ts_tag s1))) (ds @ [sz])"
        "\<And>e. sizes p (s1\<lparr>ts_ndims_byte := of_nat (length (ds @ [sz])), ts_num_elements := e\<rparr>) = ds @ [sz]" by auto
    have "ts_data_type s1 = ts_data_type s"
      using s1(1) by (auto simp: change_rep_def bnd_eq_ret split: if_splits)
    moreover have "sizes p (?next s1) = ds @ [sz]" using s1(5) [of e] by (simp add: add.commute)
    moreover note final [OF s1(2) this] s1(3,4)
    moreover have "UnsafeAddDim p sz e s = ret (?next s1)"
      using other s1(1) dim_sizes_denotes(2) [OF assms(1), of "[]"] by (auto simp: UnsafeAddDim_def Let_def)
    ultimately show ?thesis by simp
  qed
qed

text \<open>
  The outcome of an operation whose result should be the list \<open>ds\<close>: a valid object for it
  with the type unchanged, or a failed check when \<open>ds\<close> is not a shape.
\<close>

definition yields :: "bool \<Rightarrow> tensor_shape_rep res \<Rightarrow> byte \<Rightarrow> int list \<Rightarrow> bool" where
  "yields p m t ds \<longleftrightarrow>
     (if shape_valid p ds then \<exists>s. m = ret s \<and> denotes p s ds \<and> ts_data_type s = t
      else \<exists>msg. m = abort (CheckFailed msg))"

text \<open>A size as the callers may pass it: an \<open>int64\<close>, and for a partial shape at least \<open>- 1\<close>.\<close>

definition arg_ok :: "bool \<Rightarrow> int \<Rightarrow> bool" where
  "arg_ok p sz \<longleftrightarrow> (if p then - 1 else - (2 ^ 63)) \<le> sz \<and> sz < 2 ^ 63"

lemma size_ok_arg: "size_ok p sz \<Longrightarrow> arg_ok p sz"
  by (auto simp: size_ok_def arg_ok_def split: if_splits)

lemma blank_denotes:
  "length memory = 12 \<Longrightarrow> denotes p (blank_rep memory) []"
  by (rule denotesI) (simp_all add: blank_rep_def sizes_def rank_of_def tag_limit_def)

lemma Clear_denotes:
  assumes "length (ts_buf s) = 12"
  shows "denotes p (ClearAllButDataType s) []" "ts_data_type (ClearAllButDataType s) = ts_data_type s"
    "denotes p (Clear s) []" "ts_data_type (Clear s) = DT_INVALID"
  using assms
  by (auto intro!: denotesI simp: Clear_def ClearAllButDataType_def sizes_def rank_of_def tag_limit_def)

lemma AddDim_yields:
  assumes "denotes p s ds" "arg_ok p sz"
  shows "yields p (AddDim p sz s) (ts_data_type s) (ds @ [sz])"
proof -
  note f = denotes_facts [OF assms(1)]
  have e: "- 1 \<le> elements_of ds" "elements_of ds < 2 ^ 63" using elements_of_lower shape_valid_elements [OF f(5)] by auto
  have valid: "shape_valid p (ds @ [sz]) \<longleftrightarrow>
      length ds < 254 \<and> (p \<or> 0 \<le> sz) \<and> (elements_of ds < 0 \<or> sz < 0 \<or> elements_of ds * sz < 2 ^ 63)"
    using f(5) assms(2) by (auto simp: shape_valid_snoc elements_of_snoc size_ok_def arg_ok_def)
  have add: "yields p (UnsafeAddDim p sz (elements_of (ds @ [sz])) s) (ts_data_type s) (ds @ [sz])"
    if "shape_valid p (ds @ [sz])"
    using UnsafeAddDim_ok [OF assms(1) that] that by (auto simp: yields_def)
  have neg: "p" if "elements_of ds < 0"
    using that f(5) elements_of_nonneg [of ds]
    by (auto simp: shape_valid_def size_ok_def list_all_iff split: if_splits)
  show ?thesis
  proof (cases "(p \<or> 0 \<le> sz) \<and> length ds < 254")
    case False
    then have "\<not> shape_valid p (ds @ [sz])" by (auto simp: valid)
    with False f(2,8) show ?thesis by (auto simp: yields_def AddDim_def MaxDimensions_def CHECK_def)
  next
    case c: True
    show ?thesis
    proof (cases "elements_of ds < 0 \<or> sz < 0")
      case True
      with c neg have "shape_valid p (ds @ [sz])" "p" by (auto simp: valid)
      with add c True f(2,6,8) show ?thesis by (simp add: AddDim_def MaxDimensions_def elements_of_snoc)
    next
      case False
      with MultiplyWithoutOverflow_nonneg [of "elements_of ds" sz] e(2) assms(2) obtain n where
        n: "MultiplyWithoutOverflow (elements_of ds) sz = ret n"
          "if elements_of ds * sz < 2 ^ 63 then n = elements_of ds * sz else n < 0"
        by (auto simp: arg_ok_def)
      show ?thesis
      proof (cases "elements_of ds * sz < 2 ^ 63")
        case True
        with c False have "shape_valid p (ds @ [sz])" by (simp add: valid)
        with add c True False n f(2,6,8) show ?thesis by (simp add: AddDim_def MaxDimensions_def elements_of_snoc)
      next
        case big: False
        with False have "\<not> shape_valid p (ds @ [sz])" by (simp add: valid)
        with c big False n f(2,6,8) show ?thesis by (simp add: AddDim_def MaxDimensions_def yields_def)
      qed
    qed
  qed
qed

lemma AddDims_yields:
  assumes "denotes p s ds" "list_all (arg_ok p) xs"
  shows "yields p (AddDims p xs s) (ts_data_type s) (ds @ xs)"
  using assms
proof (induction xs arbitrary: s ds)
  case Nil
  then show ?case using denotes_facts(5) by (auto simp: yields_def AddDims_def)
next
  case (Cons x xs)
  from AddDim_yields [OF Cons.prems(1)] Cons.prems(2)
  have one: "yields p (AddDim p x s) (ts_data_type s) (ds @ [x])" by simp
  show ?case
  proof (cases "shape_valid p (ds @ [x])")
    case True
    with one obtain s1 where s1: "AddDim p x s = ret s1" "denotes p s1 (ds @ [x])" "ts_data_type s1 = ts_data_type s"
      by (auto simp: yields_def)
    from Cons.IH [OF s1(2)] Cons.prems(2) s1 show ?thesis by (simp add: AddDims_def)
  next
    case False
    with shape_valid_prefix [of p "ds @ [x]" xs] have "\<not> shape_valid p (ds @ x # xs)" by auto
    with one False show ?thesis by (auto simp: yields_def AddDims_def)
  qed
qed

lemma shape_valid_unknown:
  assumes "shape_valid p ds" "elements_of ds < 0" "list_all (size_ok p) es" "length ds + length es \<le> 254"
  shows "shape_valid p (ds @ es) \<and> elements_of (ds @ es) = - 1"
  using assms(3,4)
proof (induction es rule: rev_induct)
  case Nil
  with assms(1,2) elements_of_lower [of ds] show ?case by simp
next
  case (snoc e es)
  then show ?case
    using shape_valid_snoc [of p "ds @ es" e] elements_of_snoc [of "ds @ es" e] by simp
qed

lemma num_elements_loop_spec:
  assumes "list_all (size_ok p) ds" "length pre + length ds \<le> 254" "shape_valid p pre" "0 \<le> elements_of pre"
  shows "if shape_valid p (pre @ ds) then num_elements_loop p (elements_of pre) ds = ret (elements_of (pre @ ds))
    else \<exists>msg. num_elements_loop p (elements_of pre) ds = abort (CheckFailed msg)"
  using assms
proof (induction ds arbitrary: pre)
  case (Cons d ds)
  show ?case
  proof (cases "d < 0")
    case True
    with Cons.prems(1) have p: "p" by (auto simp: size_ok_def split: if_splits)
    have "shape_valid p (pre @ [d])" "elements_of (pre @ [d]) < 0"
      using Cons.prems True by (simp_all add: shape_valid_snoc elements_of_snoc)
    from shape_valid_unknown [OF this, of ds] Cons.prems True p show ?thesis by simp
  next
    case False
    with MultiplyWithoutOverflow_nonneg [of "elements_of pre" d] Cons.prems shape_valid_elements [OF Cons.prems(3)]
    obtain n where n: "MultiplyWithoutOverflow (elements_of pre) d = ret n"
        "if elements_of pre * d < 2 ^ 63 then n = elements_of pre * d else n < 0"
      by (auto simp: size_ok_def)
    have e: "elements_of (pre @ [d]) = elements_of pre * d" using False Cons.prems(4) by (simp add: elements_of_snoc)
    show ?thesis
    proof (cases "elements_of pre * d < 2 ^ 63")
      case True
      have "0 \<le> elements_of pre * d" using False Cons.prems(4) by simp
      with Cons.IH [of "pre @ [d]"] Cons.prems True False n e show ?thesis
        by (simp add: shape_valid_snoc split: if_splits)
    next
      case big: False
      then have "\<not> shape_valid p (pre @ [d])" by (simp add: shape_valid_snoc e)
      with shape_valid_prefix [of p "pre @ [d]" ds] have "\<not> shape_valid p (pre @ d # ds)" by auto
      with big False n show ?thesis by simp
    qed
  qed
qed simp

lemma Recompute_yields:
  assumes "layout p s ds" "list_all (size_ok p) ds"
  shows "yields p (RecomputeNumElements p s) (ts_data_type s) ds"
proof -
  have l: "length ds \<le> 254" using assms(1) by (cases "ts_tag s") (auto simp: layout_def tag_limit_def)
  have eq: "RecomputeNumElements p s = bnd (num_elements_loop p 1 ds) (\<lambda>n. ret (s\<lparr>ts_num_elements := n\<rparr>))"
    using assms(1) dim_sizes_layout(1) [OF assms(1)] by (simp add: RecomputeNumElements_def layout_def)
  have upd: "sizes p (s\<lparr>ts_num_elements := n\<rparr>) = sizes p s" "rank_of (s\<lparr>ts_num_elements := n\<rparr>) = rank_of s" for n
    by (cases "ts_tag s"; simp add: sizes_def rank_of_def)+
  have "denotes p (s\<lparr>ts_num_elements := elements_of ds\<rparr>) ds" if "shape_valid p ds"
    using assms(1) that by (intro denotesI) (simp_all add: layout_def upd)
  with num_elements_loop_spec [OF assms(2), of "[]"] l show ?thesis
    by (auto simp: yields_def eq)
qed

lemma yields_Recompute:
  assumes "yields p m t ds"
  shows "yields p (bnd m (RecomputeNumElements p)) t ds"
proof (cases "shape_valid p ds")
  case True
  with assms obtain s where s: "m = ret s" "denotes p s ds" "ts_data_type s = t" by (auto simp: yields_def)
  from Recompute_yields [OF denotes_layout [OF s(2)]] True s show ?thesis by (simp add: shape_valid_def)
next
  case False
  with assms show ?thesis by (auto simp: yields_def)
qed

lemma sizes_ok: "denotes p s ds \<Longrightarrow> list_all (size_ok p) ds" "denotes p s ds \<Longrightarrow> list_all (arg_ok p) ds"
  using denotes_facts(5) [of p s ds] size_ok_arg [of p] by (auto simp: shape_valid_def list_all_iff)

lemma rebuild_yields:
  assumes "denotes p s ds" "list_all (arg_ok p) es"
  shows "yields p (AddDims p es (ClearAllButDataType s)) (ts_data_type s) es"
  using AddDims_yields [OF Clear_denotes(1) assms(2)] denotes_facts(9) [OF assms(1)] Clear_denotes(2) by fastforce

lemma InsertDim_yields:
  assumes "denotes p s ds" "arg_ok p sz" "0 \<le> d" "d \<le> int (length ds)"
  shows "yields p (InsertDim p d sz s) (ts_data_type s) (take (nat d) ds @ sz # drop (nat d) ds)" (is "yields _ _ _ ?es")
proof -
  note f = denotes_facts [OF assms(1)]
  have "list_all (arg_ok p) ?es"
    using sizes_ok(2) [OF assms(1)] assms(2) by (auto simp: list_all_iff dest: in_set_takeD in_set_dropD)
  note r = rebuild_yields [OF assms(1) this]
  show ?thesis
  proof (cases "(p \<or> 0 \<le> sz) \<and> length ds < 254")
    case True
    with r assms(3,4) f(7) dim_sizes_denotes(2) [OF assms(1), of "[]"] show ?thesis
      by (simp add: InsertDim_def MaxDimensions_def)
  next
    case False
    then have "\<not> shape_valid p ?es" using assms(4) by (auto simp: shape_valid_def size_ok_def)
    with False assms(3,4) f(7) show ?thesis
      by (auto simp: InsertDim_def MaxDimensions_def yields_def CHECK_def)
  qed
qed

lemma RemoveDim_yields:
  assumes "denotes p s ds" "0 \<le> d" "d < int (length ds)"
  shows "yields p (RemoveDim p d s) (ts_data_type s) (take (nat d) ds @ drop (Suc (nat d)) ds)" (is "yields _ _ _ ?es")
proof -
  have "list_all (arg_ok p) ?es"
    using sizes_ok(2) [OF assms(1)] by (auto simp: list_all_iff dest: in_set_takeD in_set_dropD)
  note r = yields_Recompute [OF rebuild_yields [OF assms(1) this]]
  then show ?thesis
    using assms(2,3) denotes_facts(2,7) [OF assms(1)] dim_sizes_denotes(2) [OF assms(1), of "[]"]
    by (simp add: RemoveDim_def)
qed

lemma set_dim_yields:
  assumes "denotes p s ds" "arg_ok p sz" "0 \<le> sz" "0 \<le> d" "d < int (length ds)"
  shows "yields p (set_dim p d sz s) (ts_data_type s) (ds[nat d := sz])" (is "yields _ _ _ ?es")
proof -
  note f = denotes_facts [OF assms(1)]
  have sz: "size_ok p sz" using assms(2,3) by (simp add: size_ok_def arg_ok_def)
  have ok: "list_all (size_ok p) ?es" "list_all (arg_ok p) ?es"
    using sizes_ok [OF assms(1)] sz assms(2) by (auto simp: list_all_iff dest!: set_update_subset_insert [THEN subsetD])
  have lay: "layout p s1 ?es"
    if "length (ts_buf s1) = 12" "sizes p s1 = ?es" "ts_ndims_byte s1 = ts_ndims_byte s" "ts_tag s1 = ts_tag s"
      "sz < snd (tag_limit (ts_tag s))" for s1
    using that f(2,4,10,11) unfolding layout_def
    by (auto simp: unknown_rank_def rank_of_def list_all_iff dest!: set_update_subset_insert [THEN subsetD])
  have start: "set_dim p d sz s = bnd (if ts_tag s = REP16 \<and> sz < kMaxRep16 then
            bnd (rep16_set (ts_buf s) d (as_rep16 p sz)) (\<lambda>buf. ret (s\<lparr>ts_buf := buf\<rparr>))
          else if ts_tag s = REP32 \<and> sz < kMaxRep32 then
            bnd (rep32_set (ts_buf s) d (as_rep32 p sz)) (\<lambda>buf. ret (s\<lparr>ts_buf := buf\<rparr>))
          else if ts_tag s = REP_OUT_OF_LINE then ret (s\<lparr>ts_dims64 := (ts_dims64 s)[nat d := sz]\<rparr>)
          else AddDims p ?es (ClearAllButDataType s)) (RecomputeNumElements p)"
    using assms(3-5) f(3,7) dim_sizes_denotes(2) [OF assms(1), of "[]"]
    by (auto simp: set_dim_def vec_at_def sizes_64)
  have d: "nat d < rank_of s" using assms(4,5) f(4) by simp
  consider (r16) "ts_tag s = REP16" "sz < kMaxRep16" | (r32) "ts_tag s = REP32" "sz < kMaxRep32"
    | (r64) "ts_tag s = REP_OUT_OF_LINE"
    | (other) "\<not> (ts_tag s = REP16 \<and> sz < kMaxRep16)" "\<not> (ts_tag s = REP32 \<and> sz < kMaxRep32)" "ts_tag s \<noteq> REP_OUT_OF_LINE"
    by blast
  then show ?thesis
  proof cases
    case r16
    then have r: "rank_of s \<le> 6" using f(10) by (simp add: tag_limit_def)
    with d assms(4) have "d < 6" by linarith
    with rep_sets(1) [OF f(9) assms(4), of "as_rep16 p sz"] obtain b where
      b: "rep16_set (ts_buf s) d (as_rep16 p sz) = ret b" "length b = 12"
        "\<forall>e < 6. slot16 b e = (if e = nat d then as_rep16 p sz else slot16 (ts_buf s) e)" by auto
    have "sizes p (s\<lparr>ts_buf := b\<rparr>) = (sizes p s)[nat d := sz]"
      using r16 b(3) r rep_values(1) [OF sz]
      by (intro nth_equalityI) (auto simp: sizes_16 rank_of_def nth_list_update)
    with lay [of "s\<lparr>ts_buf := b\<rparr>"] Recompute_yields [OF _ ok(1), of "s\<lparr>ts_buf := b\<rparr>"] b r16 f(3) show ?thesis
      by (simp add: start tag_limit_def)
  next
    case r32
    then have r: "rank_of s \<le> 3" using f(10) by (simp add: tag_limit_def)
    with d assms(4) have "d < 3" by linarith
    with rep_sets(2) [OF f(9) assms(4), of "as_rep32 p sz"] obtain b where
      b: "rep32_set (ts_buf s) d (as_rep32 p sz) = ret b" "length b = 12"
        "\<forall>e < 3. slot32 b e = (if e = nat d then as_rep32 p sz else slot32 (ts_buf s) e)" by auto
    have "sizes p (s\<lparr>ts_buf := b\<rparr>) = (sizes p s)[nat d := sz]"
      using r32 b(3) r rep_values(2) [OF sz]
      by (intro nth_equalityI) (auto simp: sizes_32 rank_of_def nth_list_update)
    with lay [of "s\<lparr>ts_buf := b\<rparr>"] Recompute_yields [OF _ ok(1), of "s\<lparr>ts_buf := b\<rparr>"] b r32 f(3) show ?thesis
      by (simp add: start tag_limit_def)
  next
    case r64
    let ?s = "s\<lparr>ts_dims64 := (ts_dims64 s)[nat d := sz]\<rparr>"
    have "layout p ?s ?es"
      using lay [of ?s] r64 f(3,9) assms(2) by (simp add: sizes_64 tag_limit_def arg_ok_def)
    from Recompute_yields [OF this ok(1)] r64 show ?thesis by (simp add: start)
  next
    case other
    from yields_Recompute [OF rebuild_yields [OF assms(1) ok(2)]] other show ?thesis by (auto simp: start)
  qed
qed

section \<open>The contract: shapes as lists\<close>

lemma rep_ok_cases:
  assumes "rep_ok p s"
  obtains (Unknown) "p" "unknown_rank p s" "view p s = None" | (Known) ds where "denotes p s ds" "view p s = Some ds"
proof (cases "unknown_rank p s")
  case True
  then show ?thesis using that(1) by (simp add: view_def unknown_rank_def)
next
  case False
  then have "view p s = Some (sizes p s)" by (simp add: view_def)
  with assms that(2) [of "sizes p s"] show ?thesis by (simp add: denotes_def)
qed

text \<open>The fields a copy must share with its source; the bytes only when they hold the sizes.\<close>

definition copy_of :: "tensor_shape_rep \<Rightarrow> tensor_shape_rep \<Rightarrow> bool" where
  "copy_of s' b \<longleftrightarrow> ts_num_elements s' = ts_num_elements b \<and> ts_ndims_byte s' = ts_ndims_byte b \<and>
     ts_tag s' = ts_tag b \<and> ts_data_type s' = ts_data_type b \<and> length (ts_buf s') = 12 \<and>
     (if ts_tag b = REP_OUT_OF_LINE then ts_dims64 s' = ts_dims64 b else ts_buf s' = ts_buf b)"

lemma copy_views:
  assumes "copy_of s' b" "rep_ok p b"
  shows "rep_ok p s'" "view p s' = view p b" "ts_data_type s' = ts_data_type b"
proof -
  have u: "unknown_rank p s' = unknown_rank p b" "rank_of s' = rank_of b"
    using assms(1) by (simp_all add: unknown_rank_def rank_of_def copy_of_def)
  have s: "sizes p s' = sizes p b"
    using assms(1) u(2) by (cases "ts_tag b") (auto simp: sizes_def copy_of_def)
  show "rep_ok p s'" "view p s' = view p b" "ts_data_type s' = ts_data_type b"
    using assms u s by (simp_all add: rep_ok_def view_def copy_of_def)
qed

lemma rep_ok_buf: "rep_ok p s \<Longrightarrow> length (ts_buf s) = 12"
  by (simp add: rep_ok_def)

lemma copies:
  assumes "rep_ok p b" "length (ts_buf s) = 12" "length memory = 12"
  shows "\<exists>r. copy_assign s b = ret r \<and> rep_ok p r \<and> view p r = view p b \<and> ts_data_type r = ts_data_type b"
    "\<exists>r. copy_construct memory b = ret r \<and> rep_ok p r \<and> view p r = view p b \<and> ts_data_type r = ts_data_type b"
proof -
  have "\<exists>r. copy_assign s b = ret r \<and> copy_of r b"
    using assms rep_ok_buf [OF assms(1)]
    by (cases "ts_tag b = REP_OUT_OF_LINE"; cases "ts_tag s = REP_OUT_OF_LINE")
      (simp_all add: copy_assign_def TensorShapeRep_SlowCopyFrom_def copy_of_def)
  then show "\<exists>r. copy_assign s b = ret r \<and> rep_ok p r \<and> view p r = view p b \<and> ts_data_type r = ts_data_type b"
    using copy_views [OF _ assms(1)] by blast
  have "\<exists>r. copy_construct memory b = ret r \<and> copy_of r b"
    using assms rep_ok_buf [OF assms(1)]
    by (cases "ts_tag b = REP_OUT_OF_LINE")
      (simp_all add: copy_construct_def TensorShapeRep_SlowCopyFrom_def copy_of_def blank_rep_def)
  then show "\<exists>r. copy_construct memory b = ret r \<and> rep_ok p r \<and> view p r = view p b \<and> ts_data_type r = ts_data_type b"
    using copy_views [OF _ assms(1)] by blast
qed

lemma AddDims_unknown: "unknown_rank p s \<Longrightarrow> AddDims p xs s = ret s"
  by (induction xs) (auto simp: AddDims_def AddDim_def unknown_rank_def)

datatype shape_op =
    Op_AddDim int
  | Op_AppendShape tensor_shape_rep
  | Op_InsertDim int int
  | Op_set_dim int int
  | Op_RemoveDim int
  | Op_Assign tensor_shape_rep
  | Op_Clear

fun exec_op :: "bool \<Rightarrow> shape_op \<Rightarrow> tensor_shape_rep \<Rightarrow> tensor_shape_rep res" where
  "exec_op p (Op_AddDim sz) s = AddDim p sz s"
| "exec_op p (Op_AppendShape shape) s = AppendShape p shape s"
| "exec_op p (Op_InsertDim d sz) s = InsertDim p d sz s"
| "exec_op p (Op_set_dim d sz) s = set_dim p d sz s"
| "exec_op p (Op_RemoveDim d) s = RemoveDim p d s"
| "exec_op p (Op_Assign b) s = copy_assign s b"
| "exec_op p Op_Clear s = ret (Clear s)"

fun op_ok :: "bool \<Rightarrow> shape_op \<Rightarrow> bool" where
  "op_ok p (Op_AddDim sz) \<longleftrightarrow> arg_ok p sz"
| "op_ok p (Op_AppendShape shape) \<longleftrightarrow> rep_ok p shape"
| "op_ok p (Op_InsertDim d sz) \<longleftrightarrow> arg_ok p sz"
| "op_ok p (Op_set_dim d sz) \<longleftrightarrow> arg_ok p sz"
| "op_ok p (Op_RemoveDim d) \<longleftrightarrow> True"
| "op_ok p (Op_Assign b) \<longleftrightarrow> rep_ok p b"
| "op_ok p Op_Clear \<longleftrightarrow> True"

text \<open>The same operations on lists; \<^const>\<open>None\<close> where the process ends.\<close>

definition valid_or_end :: "bool \<Rightarrow> int list \<Rightarrow> int list option option" where
  "valid_or_end p ds = (if shape_valid p ds then Some (Some ds) else None)"

fun spec_op :: "bool \<Rightarrow> shape_op \<Rightarrow> int list option \<Rightarrow> int list option option" where
  "spec_op p (Op_AddDim sz) v = (case v of None \<Rightarrow> Some None | Some ds \<Rightarrow> valid_or_end p (ds @ [sz]))"
| "spec_op p (Op_AppendShape shape) v = (case view p shape of
     None \<Rightarrow> None
   | Some es \<Rightarrow> (case v of None \<Rightarrow> Some None | Some ds \<Rightarrow> valid_or_end p (ds @ es)))"
| "spec_op p (Op_InsertDim d sz) v = (case v of None \<Rightarrow> None | Some ds \<Rightarrow>
     if 0 \<le> d \<and> d \<le> int (length ds) then valid_or_end p (take (nat d) ds @ sz # drop (nat d) ds) else None)"
| "spec_op p (Op_set_dim d sz) v = (case v of None \<Rightarrow> None | Some ds \<Rightarrow>
     if 0 \<le> d \<and> d < int (length ds) \<and> 0 \<le> sz then valid_or_end p (ds[nat d := sz]) else None)"
| "spec_op p (Op_RemoveDim d) v = (case v of None \<Rightarrow> Some None | Some ds \<Rightarrow>
     if 0 \<le> d \<and> d < int (length ds) then valid_or_end p (take (nat d) ds @ drop (Suc (nat d)) ds) else None)"
| "spec_op p (Op_Assign b) v = Some (view p b)"
| "spec_op p Op_Clear v = Some (Some [])"

definition follows :: "bool \<Rightarrow> tensor_shape_rep res \<Rightarrow> int list option option \<Rightarrow> bool" where
  "follows p m a \<longleftrightarrow> (case a of
     None \<Rightarrow> \<exists>msg. m = abort (CheckFailed msg)
   | Some v \<Rightarrow> \<exists>s. m = ret s \<and> rep_ok p s \<and> view p s = v)"

lemma yields_follows: "yields p m t ds \<Longrightarrow> follows p m (valid_or_end p ds)"
  by (auto simp: yields_def follows_def valid_or_end_def denotes_def)

lemma exec_op_follows:
  assumes "rep_ok p s" "op_ok p opn"
  shows "follows p (exec_op p opn s) (spec_op p opn (view p s))"
  using assms(1)
proof (cases rule: rep_ok_cases)
  case Unknown
  then have d: "dims p s = - 1" by (simp add: dims_def unknown_rank_def)
  show ?thesis
  proof (cases opn)
    case (Op_AddDim sz)
    with Unknown assms(1) show ?thesis by (simp add: follows_def AddDim_def)
  next
    case (Op_AppendShape shape)
    then have "rep_ok p shape" using assms(2) by simp
    then show ?thesis
    proof (cases rule: rep_ok_cases)
      case Unknown
      then show ?thesis using Op_AppendShape by (simp add: follows_def AppendShape_def dim_sizes_def)
    next
      case (Known es)
      then show ?thesis using Op_AppendShape Unknown assms(1) AddDims_unknown [OF Unknown(2)]
        by (simp add: follows_def AppendShape_def dim_sizes_denotes)
    qed
  next
    case (Op_Assign b)
    with copies(1) [of p b s "ts_buf s"] assms rep_ok_buf show ?thesis by (auto simp: follows_def)
  next
    case Op_Clear
    with Clear_denotes(3) [OF rep_ok_buf [OF assms(1)], of p] show ?thesis by (simp add: follows_def denotes_def)
  qed (use Unknown d assms(1) in \<open>auto simp: follows_def InsertDim_def set_dim_def RemoveDim_def CHECK_def\<close>)
next
  case (Known ds)
  note n = denotes_facts(7) [OF Known(1)]
  show ?thesis
  proof (cases opn)
    case (Op_AddDim sz)
    with yields_follows [OF AddDim_yields [OF Known(1)]] Known(2) assms(2) show ?thesis by simp
  next
    case (Op_AppendShape shape)
    then have "rep_ok p shape" using assms(2) by simp
    then show ?thesis
    proof (cases rule: rep_ok_cases)
      case Unknown
      then show ?thesis using Op_AppendShape by (simp add: follows_def AppendShape_def dim_sizes_def)
    next
      case (Known es)
      then show ?thesis
        using Op_AppendShape yields_follows [OF AddDims_yields [OF \<open>denotes p s ds\<close> sizes_ok(2) [OF Known(1)]]]
          \<open>view p s = Some ds\<close> by (simp add: AppendShape_def dim_sizes_denotes)
    qed
  next
    case (Op_InsertDim d sz)
    show ?thesis
    proof (cases "0 \<le> d \<and> d \<le> int (length ds)")
      case True
      with Op_InsertDim yields_follows [OF InsertDim_yields [OF Known(1)]] Known(2) assms(2) show ?thesis by simp
    next
      case False
      with Op_InsertDim Known(2) n show ?thesis by (auto simp: follows_def InsertDim_def CHECK_def)
    qed
  next
    case (Op_set_dim d sz)
    show ?thesis
    proof (cases "0 \<le> d \<and> d < int (length ds) \<and> 0 \<le> sz")
      case True
      with Op_set_dim yields_follows [OF set_dim_yields [OF Known(1)]] Known(2) assms(2) show ?thesis by simp
    next
      case False
      with Op_set_dim Known(2) n show ?thesis by (auto simp: follows_def set_dim_def CHECK_def)
    qed
  next
    case (Op_RemoveDim d)
    show ?thesis
    proof (cases "0 \<le> d \<and> d < int (length ds)")
      case True
      with Op_RemoveDim yields_follows [OF RemoveDim_yields [OF Known(1)]] Known(2) assms(2) show ?thesis by simp
    next
      case False
      with Op_RemoveDim Known(2) n denotes_facts(2) [OF Known(1)] show ?thesis
        by (auto simp: follows_def RemoveDim_def CHECK_def)
    qed
  next
    case (Op_Assign b)
    with copies(1) [of p b s "ts_buf s"] assms rep_ok_buf show ?thesis by (auto simp: follows_def)
  next
    case Op_Clear
    with Clear_denotes(3) [OF rep_ok_buf [OF assms(1)], of p] show ?thesis by (simp add: follows_def denotes_def)
  qed
qed

fun spec_ops :: "bool \<Rightarrow> shape_op list \<Rightarrow> int list option \<Rightarrow> int list option option" where
  "spec_ops p [] v = Some v"
| "spec_ops p (opn # ops) v = Option.bind (spec_op p opn v) (spec_ops p ops)"

lemma exec_ops_follows:
  assumes "rep_ok p s" "list_all (op_ok p) ops"
  shows "follows p (foldM (exec_op p) ops s) (spec_ops p ops (view p s))"
  using assms
proof (induction ops arbitrary: s)
  case (Cons opn ops)
  from exec_op_follows [OF Cons.prems(1), of opn] Cons.prems(2)
  have one: "follows p (exec_op p opn s) (spec_op p opn (view p s))" by simp
  show ?case
  proof (cases "spec_op p opn (view p s)")
    case None
    with one show ?thesis by (auto simp: follows_def)
  next
    case (Some v)
    with one obtain s1 where "exec_op p opn s = ret s1" "rep_ok p s1" "view p s1 = v" by (auto simp: follows_def)
    with Cons.IH [of s1] Cons.prems(2) Some show ?thesis by simp
  qed
qed (simp add: follows_def)

section \<open>Properties\<close>

text \<open>
  C10. A shape behaves as a list of sizes, whichever of its three representations it is
  in: after any sequence of operations on it that starts in a valid object, the object is valid and
  its view (an unknown rank, or the sizes in order) is what the same operations do on lists,
  and its number of elements is the product of the sizes, or \<open>- 1\<close> when one is unknown.
  The process ends in a failed check exactly where the list operations do: an index out of
  range, a negative size, more than 254 dimensions, or a product of the leading sizes that needs more
  than 63 bits.
\<close>

theorem TensorShape_refines:
  assumes "rep_ok p s" "list_all (op_ok p) ops"
  shows "case spec_ops p ops (view p s) of
     None \<Rightarrow> \<exists>msg. foldM (exec_op p) ops s = abort (CheckFailed msg)
   | Some v \<Rightarrow> \<exists>s'. foldM (exec_op p) ops s = ret s' \<and> rep_ok p s' \<and> view p s' = v \<and>
       ts_num_elements s' = (case v of None \<Rightarrow> - 1 | Some ds \<Rightarrow> elements_of ds)"
proof -
  have "ts_num_elements s' = (case view p s' of None \<Rightarrow> - 1 | Some ds \<Rightarrow> elements_of ds)" if "rep_ok p s'" for s'
    using that by (auto simp: rep_ok_def view_def)
  with exec_ops_follows [OF assms] show ?thesis by (auto simp: follows_def split: option.splits)
qed

theorem TensorShape_refines_witness:
  "\<exists>s'. foldM (exec_op False) [Op_AddDim 100000, Op_AddDim 3, Op_InsertDim 1 7, Op_AddDim 70000, Op_RemoveDim 0]
      (blank_rep (replicate 12 0)) = ret s' \<and> rep_ok False s' \<and> view False s' = Some [7, 3, 70000] \<and>
    ts_num_elements s' = 1470000"
proof -
  have "rep_ok False (blank_rep (replicate 12 0))" "view False (blank_rep (replicate 12 0)) = Some []"
    using blank_denotes [of "replicate 12 0" False] by (simp_all add: denotes_def)
  moreover have "shape_valid False [100000]" "shape_valid False [100000, 3]" "shape_valid False [100000, 7, 3]"
    "shape_valid False [100000, 7, 3, 70000]" "shape_valid False [7, 3, 70000]"
    by (simp_all add: shape_valid_def size_ok_def elements_of_def le_Suc_eq all_conj_distrib)
  ultimately show ?thesis
    using TensorShape_refines [of False "blank_rep (replicate 12 0)"
        "[Op_AddDim 100000, Op_AddDim 3, Op_InsertDim 1 7, Op_AddDim 70000, Op_RemoveDim 0]"]
    by (simp add: arg_ok_def valid_or_end_def elements_of_def)
qed

end
