(* ===== verification/Partial_Shape.thy ===== *)
theory Partial_Shape
  imports Tensor_Shape
begin

text \<open>
  The rest of \<^verbatim>\<open>tensorflow/core/framework/tensor_shape.cc\<close>: conversion from and to protos,
  printing, comparison, \<open>TensorShapeUtils\<close> and the operations of \<open>PartialTensorShape\<close>.

  A partial shape stands for the set of full shapes that are instances of it. The lemmas give the
  meaning of compatibility and merging in these terms.
\<close>

section \<open>Protos, printing and comparison\<close>

record proto_dim =
  pd_size :: int
  pd_name :: string

record shape_proto =
  sp_dims :: "proto_dim list"
  sp_unknown_rank :: bool

text \<open>The sizes of a proto, and the proto that \<open>add_dim()->set_size(\<dots>)\<close> builds, whose dimensions have no names.\<close>

definition sp_dim :: "shape_proto \<Rightarrow> int list" where
  "sp_dim proto = map pd_size (sp_dims proto)"

definition unnamed_proto :: "int list \<Rightarrow> bool \<Rightarrow> shape_proto" where
  "unnamed_proto ds u = \<lparr>sp_dims = map (\<lambda>d. \<lparr>pd_size = d, pd_name = []\<rparr>) ds, sp_unknown_rank = u\<rparr>"

lemma unnamed_proto [simp]: "sp_dim (unnamed_proto ds u) = ds" "sp_unknown_rank (unnamed_proto ds u) = u"
  by (simp_all add: sp_dim_def unnamed_proto_def comp_def)

definition int_text :: "int \<Rightarrow> string" where
  "int_text i = FastInt64ToBufferLeft (word_of_int i)"

definition commas :: "string list \<Rightarrow> string" where
  "commas ts = concat (case ts of [] \<Rightarrow> [] | t # rest \<Rightarrow> t # map (\<lambda>u. '','' @ u) rest)"

definition proto_DebugString :: "shape_proto \<Rightarrow> string" where
  "proto_DebugString proto =
     (if sp_unknown_rank proto \<and> sp_dim proto = [] then ''<unknown>''
      else (if sp_unknown_rank proto then ''<unknown>'' else []) @ ''['' @
        commas (map (\<lambda>d. if d = - 1 then ''?'' else int_text d) (sp_dim proto)) @ '']'')"

definition shape_DebugString :: "tensor_shape_rep \<Rightarrow> string res" where
  "shape_DebugString s =
     (if unknown_rank True s then ret ''<unknown>''
      else bnd (mapM (dim_size True s) [0..dims True s - 1]) (\<lambda>ds.
        ret (''['' @ commas (map (\<lambda>d. if d < 0 then ''?'' else int_text d) ds) @ '']'')))"

definition ShapeListString :: "tensor_shape_rep list \<Rightarrow> string res" where
  "ShapeListString shapes =
     bnd (mapM shape_DebugString shapes) (\<lambda>ts.
     ret (''['' @ concat (case ts of [] \<Rightarrow> [] | t # rest \<Rightarrow> t # map (\<lambda>u. '', '' @ u) rest) @ '']''))"

fun IsValid_loop :: "bool \<Rightarrow> int \<Rightarrow> int list \<Rightarrow> bool res" where
  "IsValid_loop p num_elements [] = ret True"
| "IsValid_loop p num_elements (d # ds) =
     (if d < (if p then - 1 else 0) then ret False
      else if d = - 1 then IsValid_loop p (- 1) ds
      else if \<not> p \<or> num_elements \<ge> 0 then
        bnd (MultiplyWithoutOverflow num_elements d) (\<lambda>n.
        if n < 0 then ret False else IsValid_loop p n ds)
      else IsValid_loop p num_elements ds)"

definition IsValid :: "bool \<Rightarrow> shape_proto \<Rightarrow> bool res" where
  "IsValid p proto =
     (if p \<and> sp_unknown_rank proto then ret (sp_dim proto = [])
      else if int (length (sp_dim proto)) > MaxDimensions then ret False
      else IsValid_loop p 1 (sp_dim proto))"

fun IsValidShape_loop :: "bool \<Rightarrow> shape_proto \<Rightarrow> int \<Rightarrow> int list \<Rightarrow> status res" where
  "IsValidShape_loop p proto num_elements [] = ret OK"
| "IsValidShape_loop p proto num_elements (d # ds) =
     (if d < (if p then - 1 else 0) then
        ret (InvalidArgument (if p
          then ''Shape '' @ proto_DebugString proto @ '' has dimensions with values below -1 (where -1 means unknown)''
          else ''Shape '' @ proto_DebugString proto @ '' is not fully defined''))
      else if d = - 1 then IsValidShape_loop p proto (- 1) ds
      else if \<not> p \<or> num_elements \<ge> 0 then
        bnd (MultiplyWithoutOverflow num_elements d) (\<lambda>n.
        if n < 0 then
          ret (InvalidArgument (''Shape '' @ proto_DebugString proto @ '' is too large (more than 2**63 - 1 entries)''))
        else IsValidShape_loop p proto n ds)
      else IsValidShape_loop p proto num_elements ds)"

definition IsValidShape :: "bool \<Rightarrow> shape_proto \<Rightarrow> status res" where
  "IsValidShape p proto =
     (if p \<and> sp_unknown_rank proto then
        (if 0 < length (sp_dim proto)
         then ret (InvalidArgument ''An unknown shape must not have any dimensions set.'') else ret OK)
      else if int (length (sp_dim proto)) > MaxDimensions then
        ret (InvalidArgument (''Shape '' @ proto_DebugString proto @ '' has too many dimensions''))
      else IsValidShape_loop p proto 1 (sp_dim proto))"

definition shape_of_proto :: "bool \<Rightarrow> bytes \<Rightarrow> shape_proto \<Rightarrow> tensor_shape_rep res" where
  "shape_of_proto p memory proto =
     (if p \<and> sp_unknown_rank proto then
        ret ((blank_rep memory)\<lparr>ts_ndims_byte := kUnknownRank, ts_num_elements := - 1\<rparr>)
      else AddDims p (sp_dim proto) (blank_rep memory))"

definition AsProto :: "bool \<Rightarrow> tensor_shape_rep \<Rightarrow> shape_proto res" where
  "AsProto p s =
     (if unknown_rank p s then ret (unnamed_proto [] True)
      else bnd (mapM (dim_size p s) [0..dims p s - 1]) (\<lambda>ds. ret (unnamed_proto ds False)))"

text \<open>A loop that returns false at the first index where the condition fails.\<close>

fun for_all :: "(int \<Rightarrow> bool res) \<Rightarrow> int list \<Rightarrow> bool res" where
  "for_all cond [] = ret True"
| "for_all cond (i # js) = bnd (cond i) (\<lambda>b. if b then for_all cond js else ret False)"

definition same_dim :: "bool \<Rightarrow> tensor_shape_rep \<Rightarrow> tensor_shape_rep \<Rightarrow> int \<Rightarrow> int \<Rightarrow> bool res" where
  "same_dim p s t i j = bnd (dim_size p s i) (\<lambda>a. bnd (dim_size p t j) (\<lambda>b. ret (a = b)))"

definition IsSameSize :: "tensor_shape_rep \<Rightarrow> tensor_shape_rep \<Rightarrow> bool res" where
  "IsSameSize s b =
     (if dims False b \<noteq> dims False s then ret False
      else for_all (\<lambda>d. same_dim False s b d d) [0..dims False s - 1])"

definition StartsWith :: "tensor_shape_rep \<Rightarrow> tensor_shape_rep \<Rightarrow> bool res" where
  "StartsWith shape prefix =
     (if dims False shape < dims False prefix then ret False
      else for_all (\<lambda>i. same_dim False shape prefix i i) [0..dims False prefix - 1])"

definition EndsWith :: "tensor_shape_rep \<Rightarrow> tensor_shape_rep \<Rightarrow> bool res" where
  "EndsWith shape suffix =
     (let suffix_size = dims False suffix in
      if dims False shape < suffix_size then ret False
      else for_all (\<lambda>i. same_dim False shape suffix (dims False shape - suffix_size + i) i) [0..suffix_size - 1])"

definition IsIdenticalTo :: "tensor_shape_rep \<Rightarrow> tensor_shape_rep \<Rightarrow> bool res" where
  "IsIdenticalTo s shape =
     (if unknown_rank True s \<or> unknown_rank True shape then
        ret (unknown_rank True s = unknown_rank True shape)
      else if dims True s \<noteq> dims True shape then ret False
      else for_all (\<lambda>i. same_dim True s shape i i) [0..dims True s - 1])"

definition compatible_dim :: "tensor_shape_rep \<Rightarrow> tensor_shape_rep \<Rightarrow> int \<Rightarrow> bool res" where
  "compatible_dim s t i =
     bnd (dim_size True s i) (\<lambda>dim0. bnd (dim_size True t i) (\<lambda>dim1.
     ret (\<not> (dim0 \<ge> 0 \<and> dim1 \<ge> 0 \<and> dim0 \<noteq> dim1))))"

definition IsCompatibleWith :: "tensor_shape_rep \<Rightarrow> tensor_shape_rep \<Rightarrow> bool res" where
  "IsCompatibleWith s shape =
     (if unknown_rank True s \<or> unknown_rank True shape then ret True
      else if dims True s \<noteq> dims True shape then ret False
      else for_all (compatible_dim s shape) [0..dims True s - 1])"

fun all_pairs :: "('a \<Rightarrow> 'a \<Rightarrow> bool res) \<Rightarrow> 'a list \<Rightarrow> 'a list \<Rightarrow> bool res" where
  "all_pairs rel (x # xs) (y # ys) = bnd (rel x y) (\<lambda>b. if b then all_pairs rel xs ys else ret False)"
| "all_pairs rel _ _ = ret True"

definition AreCompatible :: "tensor_shape_rep list \<Rightarrow> tensor_shape_rep list \<Rightarrow> bool res" where
  "AreCompatible shapes0 shapes1 =
     (if length shapes0 = length shapes1 then all_pairs IsCompatibleWith shapes0 shapes1 else ret False)"

definition AreIdentical :: "tensor_shape_rep list \<Rightarrow> tensor_shape_rep list \<Rightarrow> bool res" where
  "AreIdentical shapes0 shapes1 =
     (if length shapes0 = length shapes1 then all_pairs IsIdenticalTo shapes0 shapes1 else ret False)"

section \<open>\<open>TensorShapeUtils\<close> and \<open>PartialTensorShape\<close>\<close>

definition IsScalar :: "tensor_shape_rep \<Rightarrow> bool" where "IsScalar s \<longleftrightarrow> dims False s = 0"
definition IsVector :: "tensor_shape_rep \<Rightarrow> bool" where "IsVector s \<longleftrightarrow> dims False s = 1"
definition IsVectorOrHigher :: "tensor_shape_rep \<Rightarrow> bool" where "IsVectorOrHigher s \<longleftrightarrow> dims False s \<ge> 1"
definition IsMatrix :: "tensor_shape_rep \<Rightarrow> bool" where "IsMatrix s \<longleftrightarrow> dims False s = 2"
definition IsMatrixOrHigher :: "tensor_shape_rep \<Rightarrow> bool" where "IsMatrixOrHigher s \<longleftrightarrow> dims False s \<ge> 2"

definition IsSquareMatrix :: "tensor_shape_rep \<Rightarrow> bool res" where
  "IsSquareMatrix s = (if dims False s = 2 then same_dim False s s 0 1 else ret False)"

text \<open>The loop of \<open>MakeShapeHelper\<close> over the indices; \<open>values\<close> is the array that \<open>dims\<close> points to.\<close>

fun MakeShape_loop ::
  "bool \<Rightarrow> int list \<Rightarrow> int \<Rightarrow> int list \<Rightarrow> tensor_shape_rep \<Rightarrow> (status \<times> tensor_shape_rep) res" where
  "MakeShape_loop p values n [] out = ret (OK, out)"
| "MakeShape_loop p values n (i # js) out =
     bnd (vec_at values i) (\<lambda>dim.
     if dim < 0 then
       (if \<not> p then ret (InvalidArgument (''Dimension '' @ int_text dim @ '' must be >= 0''), out)
        else if dim < - 1 then ret (InvalidArgument (''Dimension '' @ int_text dim @ '' must be >= -1''), out)
        else bnd (UnsafeAddDim p (- 1) (- 1) out) (MakeShape_loop p values n js))
     else if ts_num_elements out < 0 then bnd (UnsafeAddDim p dim (- 1) out) (MakeShape_loop p values n js)
     else
       bnd (MultiplyWithoutOverflow (ts_num_elements out) dim) (\<lambda>new_num_elements.
       if new_num_elements < 0 then
         ret (InvalidArgument (''Shape '' @
           proto_DebugString (unnamed_proto (replicate (nat n) dim) False) @
           '' would have more than 2**63 - 1 elements''), out)
       else bnd (UnsafeAddDim p dim new_num_elements out) (MakeShape_loop p values n js)))"

definition MakeShapeHelper ::
  "bool \<Rightarrow> int list \<Rightarrow> int \<Rightarrow> tensor_shape_rep \<Rightarrow> (status \<times> tensor_shape_rep) res" where
  "MakeShapeHelper p values n out =
     (let out1 = Clear out in
      if n > MaxDimensions then ret (InvalidArgument ''Too many dimensions'', out1)
      else if n < 0 then ret (InvalidArgument (''Negative number of dimensions '' @ int_text n), out1)
      else MakeShape_loop p values n [0..n - 1] out1)"

definition TensorShapeUtils_MakeShape ::
  "bool \<Rightarrow> int list \<Rightarrow> tensor_shape_rep \<Rightarrow> (status \<times> tensor_shape_rep) res" where
  "TensorShapeUtils_MakeShape p shape out = MakeShapeHelper p shape (int (length shape)) out"

fun NumElements_loop :: "int list \<Rightarrow> int \<Rightarrow> int list \<Rightarrow> (status \<times> int option) res" where
  "NumElements_loop shape n [] = ret (OK, Some n)"
| "NumElements_loop shape n (d # ds) =
     bnd (MultiplyWithoutOverflow n d) (\<lambda>n'.
     if n' < 0 then
       ret (InvalidArgument (''Can't compute total size of shape ['' @ commas (map int_text shape) @
         '']; product would overflow int64''), None)
     else NumElements_loop shape n' ds)"

text \<open>\<open>TensorShapeUtils::NumElements\<close>; the second component is what it stores in \<open>*num_elements\<close>, if anything.\<close>

definition TensorShapeUtils_NumElements :: "int list \<Rightarrow> (status \<times> int option) res" where
  "TensorShapeUtils_NumElements shape = NumElements_loop shape 1 shape"

definition Concatenate_dim :: "bytes \<Rightarrow> tensor_shape_rep \<Rightarrow> int \<Rightarrow> tensor_shape_rep res" where
  "Concatenate_dim memory s sz = bnd (copy_construct memory s) (AddDim True sz)"

definition Concatenate_shape :: "bytes \<Rightarrow> tensor_shape_rep \<Rightarrow> tensor_shape_rep \<Rightarrow> tensor_shape_rep res" where
  "Concatenate_shape memory s shape =
     (if unknown_rank True s \<or> unknown_rank True shape then ret (empty_shape True memory)
      else bnd (copy_construct memory s) (AppendShape True shape))"

text \<open>
  \<open>MergeWith\<close> writes to \<open>*result\<close>, which the caller may choose to be one of the two operands.
\<close>

datatype result_alias = Result_distinct | Result_is_this | Result_is_shape

fun MergeWith_loop ::
  "result_alias \<Rightarrow> tensor_shape_rep \<Rightarrow> tensor_shape_rep \<Rightarrow> int list \<Rightarrow> tensor_shape_rep \<Rightarrow>
   (status \<times> tensor_shape_rep) res" where
  "MergeWith_loop a this shape [] result = ret (OK, result)"
| "MergeWith_loop a this shape (i # js) result =
     (let shape_now = (if a = Result_is_shape then result else shape) in
      bnd (dim_size True this i) (\<lambda>dim0.
      bnd (dim_size True shape_now i) (\<lambda>dim1.
      if dim0 \<ge> 0 \<and> dim1 \<ge> 0 \<and> dim0 \<noteq> dim1 then
        bnd (shape_DebugString this) (\<lambda>t0. bnd (shape_DebugString shape_now) (\<lambda>t1.
        ret (InvalidArgument (''PartialTensorShape: Incompatible shapes during merge: '' @ t0 @ '' vs. '' @ t1), result)))
      else bnd (AddDim True (if dim0 \<ge> 0 then dim0 else dim1) result) (MergeWith_loop a this shape js))))"

definition MergeWith ::
  "result_alias \<Rightarrow> tensor_shape_rep \<Rightarrow> tensor_shape_rep \<Rightarrow> tensor_shape_rep \<Rightarrow>
   (status \<times> tensor_shape_rep) res" where
  "MergeWith a this shape result =
     (if unknown_rank True this then bnd (copy_assign result shape) (\<lambda>r. ret (OK, r))
      else if unknown_rank True shape then bnd (copy_assign result this) (\<lambda>r. ret (OK, r))
      else if dims True this \<noteq> dims True shape then
        ret (InvalidArgument (''PartialTensorShape: Incompatible ranks during merge: '' @
          int_text (dims True this) @ '' vs. '' @ int_text (dims True shape)), result)
      else CHECK (a \<noteq> Result_is_this) ''result != this''
        (MergeWith_loop a this shape [0..dims True this - 1] (Clear result)))"

definition AsTensorShape :: "tensor_shape_rep \<Rightarrow> tensor_shape_rep \<Rightarrow> (bool \<times> tensor_shape_rep) res" where
  "AsTensorShape s shape =
     (if IsFullyDefined True s then bnd (copy_assign shape s) (\<lambda>r. ret (True, r)) else ret (False, shape))"

section \<open>Reading sizes by index\<close>

text \<open>
  The comparisons only use \<open>dims()\<close> and \<open>dim_size(d)\<close>. What they rely on is stated once, for
  objects that hold a list of sizes.
\<close>

locale sized_object =
  fixes ndims :: "'s \<Rightarrow> int"
    and size_at :: "'s \<Rightarrow> int \<Rightarrow> int res"
    and holds :: "'s \<Rightarrow> int list \<Rightarrow> bool"
  assumes ndims_holds: "holds s ds \<Longrightarrow> ndims s = int (length ds)"
    and size_at_holds: "holds s ds \<Longrightarrow> 0 \<le> d \<Longrightarrow> d < int (length ds) \<Longrightarrow> size_at s d = ret (ds ! nat d)"
begin

lemma for_all_upt:
  assumes "\<And>i. i < n \<Longrightarrow> cond (int i) = ret (P i)"
  shows "for_all cond [0..int n - 1] = ret (\<forall>i < n. P i)"
proof -
  have "for_all cond (map int js) = ret (\<forall>j \<in> set js. P j)" if "set js \<subseteq> {..<n}" for js
    using that assms by (induction js) auto
  from this [of "[0..<n]"] show ?thesis by (simp add: upto_upt atLeast0LessThan Ball_def)
qed

lemma compare_from:
  assumes "holds s ds" "holds t es" "k + length es \<le> length ds"
  shows "for_all (\<lambda>i. bnd (size_at s (int k + i)) (\<lambda>a. bnd (size_at t i) (\<lambda>b. ret (R a b)))) [0..ndims t - 1] =
    ret (list_all2 R (take (length es) (drop k ds)) es)"
proof -
  have "bnd (size_at s (int k + int i)) (\<lambda>a. bnd (size_at t (int i)) (\<lambda>b. ret (R a b))) = ret (R (ds ! (k + i)) (es ! i))"
    if "i < length es" for i
  proof -
    have "nat (int k + int i) = k + i" by simp
    with that assms size_at_holds [OF assms(1), of "int k + int i"] size_at_holds [OF assms(2), of "int i"]
    show ?thesis by simp
  qed
  then have "for_all (\<lambda>i. bnd (size_at s (int k + i)) (\<lambda>a. bnd (size_at t i) (\<lambda>b. ret (R a b)))) [0..int (length es) - 1] =
      ret (\<forall>i < length es. R (ds ! (k + i)) (es ! i))"
    by (rule for_all_upt [where P = "\<lambda>i. R (ds ! (k + i)) (es ! i)"])
  then show ?thesis
    using assms(3) by (simp add: ndims_holds [OF assms(2)] list_all2_conv_all_nth add.commute)
qed

lemma compare_all:
  assumes "holds s ds" "holds t es" "length ds = length es"
  shows "for_all (\<lambda>i. bnd (size_at s i) (\<lambda>a. bnd (size_at t i) (\<lambda>b. ret (R a b)))) [0..ndims s - 1] =
    ret (list_all2 R ds es)"
  using compare_from [OF assms(1,2), of 0 R] assms(3)
  by (simp add: ndims_holds [OF assms(1)] ndims_holds [OF assms(2)])

end

interpretation full: sized_object "dims False" "dim_size False" "denotes False"
  by unfold_locales (auto simp: layout_dims [OF denotes_layout] dim_size_denotes)

interpretation part: sized_object "dims True" "dim_size True" "denotes True"
  by unfold_locales (auto simp: layout_dims [OF denotes_layout] dim_size_denotes)

lemma full_comparisons:
  assumes "denotes False s ds" "denotes False t es"
  shows "IsSameSize s t = ret (ds = es)" "StartsWith s t = ret (take (length es) ds = es)"
    "EndsWith s t = ret (length es \<le> length ds \<and> drop (length ds - length es) ds = es)"
proof -
  note n = full.ndims_holds [OF assms(1)] full.ndims_holds [OF assms(2)]
  show "IsSameSize s t = ret (ds = es)"
  proof (cases "length ds = length es")
    case True
    then have "dims False t = dims False s" by (simp add: n)
    with full.compare_all [OF assms True, of "(=)"] show ?thesis
      by (simp add: IsSameSize_def same_dim_def list.rel_eq)
  next
    case False
    then have "dims False t \<noteq> dims False s" "ds \<noteq> es" by (auto simp: n)
    then show ?thesis by (simp add: IsSameSize_def)
  qed
  show "StartsWith s t = ret (take (length es) ds = es)"
  proof (cases "length es \<le> length ds")
    case True
    then have "\<not> dims False s < dims False t" by (simp add: n)
    with full.compare_from [OF assms, of 0 "(=)"] True show ?thesis
      by (simp add: StartsWith_def same_dim_def list.rel_eq)
  next
    case False
    then have "dims False s < dims False t" by (simp add: n)
    moreover from False have "take (length es) ds \<noteq> es" by auto
    ultimately show ?thesis by (simp add: StartsWith_def)
  qed
  show "EndsWith s t = ret (length es \<le> length ds \<and> drop (length ds - length es) ds = es)"
  proof (cases "length es \<le> length ds")
    case True
    then have "dims False s - dims False t = int (length ds - length es)" "\<not> dims False s < dims False t"
      by (simp_all add: n)
    with full.compare_from [OF assms, of "length ds - length es" "(=)"] True show ?thesis
      by (simp add: EndsWith_def same_dim_def list.rel_eq)
  next
    case False
    then have "dims False s < dims False t" by (simp add: n)
    with False show ?thesis by (simp add: EndsWith_def)
  qed
qed

section \<open>Instances of a partial shape\<close>

text \<open>A full shape is an instance when it agrees with every known size; an unknown rank allows all.\<close>

definition size_instance :: "int \<Rightarrow> int \<Rightarrow> bool" where
  "size_instance v d \<longleftrightarrow> v < 0 \<or> v = d"

definition is_instance :: "int list option \<Rightarrow> int list \<Rightarrow> bool" where
  "is_instance v ds \<longleftrightarrow> list_all (\<lambda>d. 0 \<le> d) ds \<and> (case v of None \<Rightarrow> True | Some vs \<Rightarrow> list_all2 size_instance vs ds)"

definition compatible :: "int \<Rightarrow> int \<Rightarrow> bool" where
  "compatible a b \<longleftrightarrow> \<not> (a \<ge> 0 \<and> b \<ge> 0 \<and> a \<noteq> b)"

definition merge_size :: "int \<Rightarrow> int \<Rightarrow> int" where
  "merge_size a b = (if a \<ge> 0 then a else b)"

fun merge_view :: "int list option \<Rightarrow> int list option \<Rightarrow> int list option" where
  "merge_view None w = w"
| "merge_view v None = v"
| "merge_view (Some as) (Some bs) = Some (map2 merge_size as bs)"

lemma merge_instances:
  assumes "length as = length bs" "list_all2 compatible as bs" "list_all (\<lambda>d. 0 \<le> d) ds"
  shows "list_all2 size_instance (map2 merge_size as bs) ds \<longleftrightarrow> list_all2 size_instance as ds \<and> list_all2 size_instance bs ds"
  using assms
proof (induction as bs arbitrary: ds rule: list_induct2)
  case (Cons a as b bs)
  then show ?case
    by (cases ds) (auto simp: size_instance_def compatible_def merge_size_def)
qed auto

lemma compatible_instance:
  assumes "list_all2 compatible as bs"
  shows "\<exists>ds. list_all (\<lambda>d. 0 \<le> d) ds \<and> list_all2 size_instance as ds \<and> list_all2 size_instance bs ds"
proof -
  let ?ds = "map (\<lambda>d. if d < 0 then 0 else d) (map2 merge_size as bs)"
  have "length as = length bs" using assms by (rule list_all2_lengthD)
  then have "list_all (\<lambda>d. 0 \<le> d) ?ds \<and> list_all2 size_instance as ?ds \<and> list_all2 size_instance bs ?ds"
    using assms by (induction as bs rule: list_induct2) (auto simp: size_instance_def compatible_def merge_size_def)
  then show ?thesis by blast
qed

lemma instance_compatible:
  assumes "list_all2 size_instance as ds" "list_all2 size_instance bs ds"
  shows "list_all2 compatible as bs"
  using assms by (fastforce simp: list_all2_conv_all_nth size_instance_def compatible_def)

lemma compatible_iff:
  "(\<exists>ds. is_instance v ds \<and> is_instance w ds) \<longleftrightarrow>
     (case (v, w) of (Some as, Some bs) \<Rightarrow> list_all2 compatible as bs | _ \<Rightarrow> True)"
proof -
  have one: "\<exists>ds. is_instance u ds" for u
  proof (cases u)
    case None
    then show ?thesis by (intro exI [of _ "[]"]) (simp add: is_instance_def)
  next
    case (Some as)
    then show ?thesis
      by (intro exI [of _ "map (\<lambda>d. if d < 0 then 0 else d) as"])
        (auto simp: is_instance_def list_all_iff list_all2_conv_all_nth size_instance_def)
  qed
  have both: "is_instance v ds \<longleftrightarrow> list_all (\<lambda>d. 0 \<le> d) ds" if "v = None" for v ds
    using that by (simp add: is_instance_def)
  show ?thesis
  proof (cases v)
    case None
    with one [of w] show ?thesis by (auto simp: both) (auto simp: is_instance_def)
  next
    case (Some as)
    show ?thesis
    proof (cases w)
      case None
      with one [of v] Some show ?thesis by (auto simp: both) (auto simp: is_instance_def)
    next
      case (Some bs)
      with \<open>v = Some as\<close> compatible_instance [of as bs] instance_compatible [of as _ bs] show ?thesis
        by (auto simp: is_instance_def)
    qed
  qed
qed

lemma merge_view_instances:
  assumes "is_instance v es" "is_instance w es" "list_all (\<lambda>d. 0 \<le> d) ds"
  shows "is_instance (merge_view v w) ds \<longleftrightarrow> is_instance v ds \<and> is_instance w ds"
proof (cases "(v, w)" rule: merge_view.cases)
  case (3 as bs)
  with assms have c: "list_all2 compatible as bs" by (auto simp: is_instance_def intro: instance_compatible)
  from merge_instances [OF list_all2_lengthD [OF c] c assms(3)] 3 assms(3) show ?thesis
    by (auto simp: is_instance_def)
qed (use assms(3) in \<open>auto simp: is_instance_def\<close>)

section \<open>Comparing and merging partial shapes\<close>

lemma unknown_facts: "unknown_rank True s \<Longrightarrow> dims True s = - 1"
  by (simp add: dims_def unknown_rank_def)

lemma IsIdenticalTo_view:
  assumes "rep_ok True s" "rep_ok True t"
  shows "IsIdenticalTo s t = ret (view True s = view True t)"
proof (cases "unknown_rank True s \<or> unknown_rank True t")
  case True
  then show ?thesis by (auto simp: IsIdenticalTo_def view_def)
next
  case False
  then obtain ds es where d: "denotes True s ds" "denotes True t es"
    using assms by (metis rep_ok_cases)
  note n = part.ndims_holds [OF d(1)] part.ndims_holds [OF d(2)]
  have v: "view True s = Some ds" "view True t = Some es" using d by (auto simp: denotes_def)
  show ?thesis
  proof (cases "length ds = length es")
    case True
    then have "dims True s = dims True t" by (simp add: n)
    with part.compare_all [OF d True, of "(=)"] False v show ?thesis
      by (simp add: IsIdenticalTo_def same_dim_def list.rel_eq)
  next
    case False
    then have "dims True s \<noteq> dims True t" "ds \<noteq> es" by (auto simp: n)
    with v \<open>\<not> (unknown_rank True s \<or> unknown_rank True t)\<close> show ?thesis by (simp add: IsIdenticalTo_def)
  qed
qed

lemma IsCompatibleWith_view:
  assumes "rep_ok True s" "rep_ok True t"
  shows "IsCompatibleWith s t = ret (\<exists>ds. is_instance (view True s) ds \<and> is_instance (view True t) ds)"
proof (cases "unknown_rank True s \<or> unknown_rank True t")
  case True
  then show ?thesis unfolding compatible_iff by (auto simp: IsCompatibleWith_def view_def)
next
  case False
  then obtain ds es where d: "denotes True s ds" "denotes True t es"
    using assms by (metis rep_ok_cases)
  note n = part.ndims_holds [OF d(1)] part.ndims_holds [OF d(2)]
  have v: "view True s = Some ds" "view True t = Some es" using d by (auto simp: denotes_def)
  show ?thesis
  proof (cases "length ds = length es")
    case True
    then have "dims True s = dims True t" by (simp add: n)
    with part.compare_all [OF d True, of compatible] False v show ?thesis
      unfolding compatible_iff by (simp add: IsCompatibleWith_def compatible_dim_def [abs_def] compatible_def)
  next
    case False
    then have "dims True s \<noteq> dims True t" "\<not> list_all2 compatible ds es"
      by (auto simp: n dest: list_all2_lengthD)
    with v \<open>\<not> (unknown_rank True s \<or> unknown_rank True t)\<close> show ?thesis
      unfolding compatible_iff by (simp add: IsCompatibleWith_def)
  qed
qed

lemma DebugString_denotes:
  assumes "denotes True s ds"
  shows "shape_DebugString s = ret (''['' @ commas (map (\<lambda>d. if d < 0 then ''?'' else int_text d) ds) @ '']'')"
  using mapM_dim_size [OF denotes_layout [OF assms]] denotes_facts(2) [OF assms]
  by (simp add: shape_DebugString_def)

text \<open>What the loop of \<open>MergeWith\<close> comes to, from index \<open>k\<close> on, when \<open>*result\<close> is not an operand.\<close>

definition merge_outcome :: "(status \<times> tensor_shape_rep) res \<Rightarrow> int list \<Rightarrow> int list \<Rightarrow> bool" where
  "merge_outcome m as bs \<longleftrightarrow>
     (if list_all2 compatible as bs then
        (if shape_valid True (map2 merge_size as bs)
         then \<exists>r. m = ret (OK, r) \<and> denotes True r (map2 merge_size as bs)
         else \<exists>msg. m = abort (CheckFailed msg))
      else (\<exists>msg r. m = ret (InvalidArgument msg, r)) \<or>
        (\<exists>msg. m = abort (CheckFailed msg)) \<and> (\<exists>k. \<not> shape_valid True (map2 merge_size (take k as) (take k bs))))"

lemma merge_size_arg: "size_ok True a \<Longrightarrow> size_ok True b \<Longrightarrow> arg_ok True (merge_size a b)"
  by (simp add: size_ok_def arg_ok_def merge_size_def)

lemma MergeWith_loop_outcome:
  assumes "denotes True this as" "denotes True shape bs" "length as = length bs" "al \<noteq> Result_is_shape"
    "k \<le> length as" "denotes True r (map2 merge_size (take k as) (take k bs))"
    "list_all2 compatible (take k as) (take k bs)"
  shows "merge_outcome (MergeWith_loop al this shape (map int [k..<length as]) r) as bs"
  using assms(5-)
proof (induction "length as - k" arbitrary: k r)
  case 0
  then have "k = length as" by simp
  with 0 assms(3) denotes_facts(5) [OF 0(3)] show ?case by (simp add: merge_outcome_def)
next
  case (Suc j)
  then have k: "k < length as" by simp
  then have upt: "map int [k..<length as] = int k # map int [Suc k..<length as]" by (simp add: upt_conv_Cons)
  have at: "dim_size True this (int k) = ret (as ! k)" "dim_size True shape (int k) = ret (bs ! k)"
    using dim_size_denotes [OF assms(1), of "int k"] dim_size_denotes [OF assms(2), of "int k"] k assms(3) by simp_all
  let ?pre = "map2 merge_size (take (Suc k) as) (take (Suc k) bs)"
  have pre: "?pre = map2 merge_size (take k as) (take k bs) @ [merge_size (as ! k) (bs ! k)]"
    using k assms(3) by (simp add: take_Suc_conv_app_nth)
  show ?case
  proof (cases "compatible (as ! k) (bs ! k)")
    case False
    then have "\<not> list_all2 compatible as bs" using k by (auto simp: list_all2_conv_all_nth)
    moreover obtain t0 t1 where "shape_DebugString this = ret t0" "shape_DebugString shape = ret t1"
      using DebugString_denotes [OF assms(1)] DebugString_denotes [OF assms(2)] by blast
    then have "\<exists>msg. MergeWith_loop al this shape (map int [k..<length as]) r = ret (InvalidArgument msg, r)"
      using False at assms(4) by (auto simp: upt compatible_def)
    ultimately show ?thesis by (auto simp: merge_outcome_def)
  next
    case True
    have "arg_ok True (merge_size (as ! k) (bs ! k))"
      using sizes_ok(1) [OF assms(1)] sizes_ok(1) [OF assms(2)] k assms(3)
      by (intro merge_size_arg) (auto simp: list_all_length)
    note add = AddDim_yields [OF Suc.prems(2) this]
    have step: "MergeWith_loop al this shape (map int [k..<length as]) r =
        bnd (AddDim True (merge_size (as ! k) (bs ! k)) r) (MergeWith_loop al this shape (map int [Suc k..<length as]))"
      unfolding upt MergeWith_loop.simps
      by (simp only: Let_def assms(4) if_False at bnd_ret True [unfolded compatible_def] merge_size_def)
    show ?thesis
    proof (cases "shape_valid True ?pre")
      case valid: True
      with add pre obtain r1 where r1: "AddDim True (merge_size (as ! k) (bs ! k)) r = ret r1" "denotes True r1 ?pre"
        by (auto simp: yields_def)
      have "list_all2 compatible (take (Suc k) as) (take (Suc k) bs)"
        using Suc.prems(3) True k assms(3) by (simp add: take_Suc_conv_app_nth list_all2_appendI)
      with Suc.hyps(1) [of "Suc k" r1] Suc.hyps(2) r1 k show ?thesis by (simp add: step)
    next
      case False
      with add pre obtain msg where m: "AddDim True (merge_size (as ! k) (bs ! k)) r = abort (CheckFailed msg)"
        by (auto simp: yields_def)
      have "map2 merge_size as bs = ?pre @ map2 merge_size (drop (Suc k) as) (drop (Suc k) bs)"
        using zip_append [of "take (Suc k) as" "take (Suc k) bs" "drop (Suc k) as" "drop (Suc k) bs"] assms(3)
        by (simp flip: map_append)
      with False shape_valid_prefix [of True ?pre] have "\<not> shape_valid True (map2 merge_size as bs)" by metis
      with m False show ?thesis by (auto simp: merge_outcome_def step)
    qed
  qed
qed

lemma MergeWith_outcome:
  assumes "denotes True this as" "denotes True shape bs" "length (ts_buf result) = 12" "al = Result_distinct"
  shows "merge_outcome (MergeWith al this shape result) as bs"
proof (cases "length as = length bs")
  case True
  have "merge_outcome (MergeWith_loop al this shape (map int [0..<length as]) (Clear result)) as bs"
    using MergeWith_loop_outcome [OF assms(1,2) True, of al 0 "Clear result"] assms(4) Clear_denotes(3) [OF assms(3), of True]
    by simp
  moreover have "dims True this = int (length as)" "dims True shape = int (length as)"
    using True by (simp_all add: denotes_facts(7) [OF assms(1)] denotes_facts(7) [OF assms(2)])
  ultimately show ?thesis
    using denotes_facts(2) [OF assms(1)] denotes_facts(2) [OF assms(2)] assms(4)
    by (simp add: MergeWith_def upto_upt)
next
  case False
  then have "\<not> list_all2 compatible as bs" "dims True this \<noteq> dims True shape"
    by (auto simp: denotes_facts(7) [OF assms(1)] denotes_facts(7) [OF assms(2)] dest: list_all2_lengthD)
  then show ?thesis
    using denotes_facts(2) [OF assms(1)] denotes_facts(2) [OF assms(2)] by (auto simp: merge_outcome_def MergeWith_def)
qed

section \<open>Building a shape from sizes that are not trusted\<close>

definition int64_size :: "int \<Rightarrow> bool" where
  "int64_size d \<longleftrightarrow> - (2 ^ 63) \<le> d \<and> d < 2 ^ 63"

text \<open>One more size after a valid prefix: the tests that the three loops make.\<close>

lemma next_size:
  assumes "shape_valid p pre" "length pre < 254" "int64_size d"
  shows "d < (if p then - 1 else 0) \<Longrightarrow> \<not> shape_valid p (pre @ d # ds)"
    "d = - 1 \<Longrightarrow> p \<Longrightarrow> shape_valid p (pre @ [d]) \<and> elements_of (pre @ [d]) = - 1"
    "0 \<le> d \<Longrightarrow> elements_of pre < 0 \<Longrightarrow> shape_valid p (pre @ [d]) \<and> elements_of (pre @ [d]) = elements_of pre"
    "0 \<le> d \<Longrightarrow> 0 \<le> elements_of pre \<Longrightarrow> \<exists>n. MultiplyWithoutOverflow (elements_of pre) d = ret n \<and>
       (if n < 0 then \<not> shape_valid p (pre @ d # ds) else shape_valid p (pre @ [d]) \<and> elements_of (pre @ [d]) = n)"
proof -
  show "d < (if p then - 1 else 0) \<Longrightarrow> \<not> shape_valid p (pre @ d # ds)"
    by (auto simp: shape_valid_def size_ok_def)
  show "d = - 1 \<Longrightarrow> p \<Longrightarrow> shape_valid p (pre @ [d]) \<and> elements_of (pre @ [d]) = - 1"
    using assms by (simp add: shape_valid_snoc elements_of_snoc size_ok_def)
  show "0 \<le> d \<Longrightarrow> elements_of pre < 0 \<Longrightarrow> shape_valid p (pre @ [d]) \<and> elements_of (pre @ [d]) = elements_of pre"
    using assms elements_of_lower [of pre] by (auto simp: shape_valid_snoc elements_of_snoc size_ok_def int64_size_def)
  assume d: "0 \<le> d" "0 \<le> elements_of pre"
  from MultiplyWithoutOverflow_nonneg [of "elements_of pre" d] d assms(3) shape_valid_elements [OF assms(1)]
  obtain n where n: "MultiplyWithoutOverflow (elements_of pre) d = ret n"
      "if elements_of pre * d < 2 ^ 63 then n = elements_of pre * d else n < 0"
    by (auto simp: int64_size_def)
  have e: "elements_of (pre @ [d]) = elements_of pre * d" using d by (simp add: elements_of_snoc)
  show "\<exists>n. MultiplyWithoutOverflow (elements_of pre) d = ret n \<and>
      (if n < 0 then \<not> shape_valid p (pre @ d # ds) else shape_valid p (pre @ [d]) \<and> elements_of (pre @ [d]) = n)"
  proof (cases "elements_of pre * d < 2 ^ 63")
    case True
    have "0 \<le> elements_of pre * d" using d by simp
    moreover have "shape_valid p (pre @ [d])"
      using True assms d by (simp add: shape_valid_snoc e size_ok_def int64_size_def)
    ultimately show ?thesis using n True e by auto
  next
    case False
    then have "\<not> shape_valid p (pre @ [d])" by (simp add: shape_valid_snoc e)
    with shape_valid_prefix [of p "pre @ [d]" ds] have "\<not> shape_valid p (pre @ d # ds)" by auto
    with n False show ?thesis by auto
  qed
qed

lemma size_cases:
  fixes d e :: int
  obtains "d < (if p then - 1 else 0)" | "d = - 1" "p" | "0 \<le> d" "e < 0" | "0 \<le> d" "0 \<le> e"
proof -
  have "d < (if p then - 1 else 0) \<or> d = - 1 \<and> p \<or> 0 \<le> d \<and> e < 0 \<or> 0 \<le> d \<and> 0 \<le> e" by (cases p) auto
  with that show ?thesis by blast
qed

lemma elements_of_known: "shape_valid False pre \<Longrightarrow> 0 \<le> elements_of pre"
  by (auto simp: elements_of_nonneg shape_valid_def size_ok_def list_all_iff)

lemma IsValid_loop_spec:
  assumes "shape_valid p pre" "length pre + length ds \<le> 254" "list_all int64_size ds"
  shows "IsValid_loop p (elements_of pre) ds = ret (shape_valid p (pre @ ds))"
    "\<exists>st. IsValidShape_loop p proto (elements_of pre) ds = ret st \<and> (ok st \<longleftrightarrow> shape_valid p (pre @ ds))"
  using assms
proof (induction ds arbitrary: pre)
  case (Cons d ds)
  {
    case 1
    then have l: "length pre < 254" "int64_size d" by simp_all
    note ns = next_size [OF 1(1) l]
    note IH = Cons.IH(1) [of "pre @ [d]"]
    show ?case
    proof (cases rule: size_cases [where d = d and p = p and e = "elements_of pre"])
      case 4
      from ns(4) [OF 4] obtain n where "MultiplyWithoutOverflow (elements_of pre) d = ret n"
        "if n < 0 then \<not> shape_valid p (pre @ d # ds) else shape_valid p (pre @ [d]) \<and> elements_of (pre @ [d]) = n" by blast
      with 4 IH 1 show ?thesis by (auto split: if_splits)
    next
      case 3
      with elements_of_known [of pre] 1(1) have "p" by (cases p) auto
      with 3 ns(3) [OF 3] IH 1 show ?thesis by simp
    qed (use ns(1,2) IH 1 in auto)
  next
    case 2
    then have l: "length pre < 254" "int64_size d" by simp_all
    note ns = next_size [OF 2(1) l]
    note IH = Cons.IH(2) [of "pre @ [d]"]
    show ?case
    proof (cases rule: size_cases [where d = d and p = p and e = "elements_of pre"])
      case 1
      with ns(1) show ?thesis by simp
    next
      case 4
      from ns(4) [OF 4] obtain n where "MultiplyWithoutOverflow (elements_of pre) d = ret n"
        "if n < 0 then \<not> shape_valid p (pre @ d # ds) else shape_valid p (pre @ [d]) \<and> elements_of (pre @ [d]) = n" by blast
      with 4 IH 2 show ?thesis by (auto split: if_splits)
    next
      case 3
      with elements_of_known [of pre] 2(1) have "p" by (cases p) auto
      with 3 ns(3) [OF 3] IH 2 show ?thesis by simp
    qed (use ns(2) IH 2 in auto)
  }
qed auto

lemma MakeShape_loop_spec:
  assumes "list_all int64_size vs" "length vs \<le> 254" "k \<le> length vs" "denotes p out (take k vs)"
  shows "\<exists>st r. MakeShape_loop p vs n (map int [k..<length vs]) out = ret (st, r) \<and> rep_ok p r \<and>
    (ok st \<longleftrightarrow> shape_valid p vs) \<and> (ok st \<longrightarrow> view p r = Some vs)"
  using assms(3,4)
proof (induction "length vs - k" arbitrary: k out)
  case 0
  then show ?case using denotes_facts(5) [OF 0(3)] by (auto simp: denotes_def)
next
  case (Suc j)
  then have k: "k < length vs" by simp
  then have upt: "map int [k..<length vs] = int k # map int [Suc k..<length vs]" by (simp add: upt_conv_Cons)
  let ?pre = "take k vs" and ?d = "vs ! k" and ?ds = "drop (Suc k) vs"
  have vs: "?pre @ ?d # ?ds = vs" "take (Suc k) vs = ?pre @ [?d]"
    using k by (simp_all add: id_take_nth_drop [symmetric] take_Suc_conv_app_nth)
  have at: "vec_at vs (int k) = ret ?d" using k by (simp add: vec_at_def)
  have d: "int64_size ?d" using assms(1) k by (simp add: list_all_length)
  note f = denotes_facts [OF Suc.prems(2)]
  have l: "length ?pre < 254" using k assms(2) by simp
  note ns = next_size(1) [OF f(5) l d, where ds = ?ds, unfolded vs(1)] next_size(2,3) [OF f(5) l d]
    next_size(4) [OF f(5) l d, where ds = ?ds, unfolded vs(1)]
  have stop: ?case if "MakeShape_loop p vs n (map int [k..<length vs]) out = ret (InvalidArgument msg, out)"
      "\<not> shape_valid p vs" for msg
    using that f(1) by auto
  have add: "\<exists>r. UnsafeAddDim p ?d (elements_of (?pre @ [?d])) out = ret r \<and> denotes p r (take (Suc k) vs)"
    if "shape_valid p (?pre @ [?d])"
    using UnsafeAddDim_ok [OF Suc.prems(2) that] vs(2) by auto
  have go: ?case if v: "shape_valid p (?pre @ [?d])" and eq: "MakeShape_loop p vs n (map int [k..<length vs]) out =
      bnd (UnsafeAddDim p ?d (elements_of (?pre @ [?d])) out) (MakeShape_loop p vs n (map int [Suc k..<length vs]))"
  proof -
    from add [OF v] obtain r where "UnsafeAddDim p ?d (elements_of (?pre @ [?d])) out = ret r" "denotes p r (take (Suc k) vs)"
      by blast
    with Suc.hyps(1) [of "Suc k" r] Suc.hyps(2) k eq show ?thesis by simp
  qed
  show ?case
  proof (cases rule: size_cases [where d = ?d and p = p and e = "elements_of ?pre"])
    case 1
    with ns(1) have "\<not> shape_valid p vs" by simp
    then show ?thesis using 1 f(1) by (cases p) (auto simp: upt at)
  next
    case 2
    with ns(2) have "shape_valid p (?pre @ [?d])" "elements_of (?pre @ [?d]) = - 1" by auto
    then show ?thesis using 2 by (intro go) (simp_all add: upt at)
  next
    case 3
    with ns(3) have "shape_valid p (?pre @ [?d])" "elements_of (?pre @ [?d]) = elements_of ?pre" by auto
    moreover have "elements_of ?pre = - 1" using 3(2) elements_of_lower [of ?pre] by simp
    ultimately show ?thesis using 3 f(6) by (intro go) (simp_all add: upt at)
  next
    case 4
    from ns(4) [OF 4] obtain m where m: "MultiplyWithoutOverflow (elements_of ?pre) ?d = ret m"
      "if m < 0 then \<not> shape_valid p vs else shape_valid p (?pre @ [?d]) \<and> elements_of (?pre @ [?d]) = m" by blast
    show ?thesis
    proof (cases "m < 0")
      case True
      with m 4 f(6) show ?thesis by (intro stop) (simp_all add: upt at)
    next
      case False
      with m 4 f(6) show ?thesis by (intro go) (simp_all add: upt at)
    qed
  qed
qed

lemma MakeShape_spec:
  assumes "list_all int64_size vs" "length (ts_buf out) = 12"
  shows "\<exists>st r. TensorShapeUtils_MakeShape p vs out = ret (st, r) \<and> rep_ok p r \<and>
    (ok st \<longleftrightarrow> shape_valid p vs) \<and> (ok st \<longrightarrow> view p r = Some vs)"
proof (cases "length vs \<le> 254")
  case True
  with MakeShape_loop_spec [OF assms(1) True, of 0 p "Clear out" "int (length vs)"] Clear_denotes(3) [OF assms(2), of p]
  show ?thesis by (simp add: TensorShapeUtils_MakeShape_def MakeShapeHelper_def MaxDimensions_def upto_upt)
next
  case False
  with Clear_denotes(3) [OF assms(2), of p] show ?thesis
    by (auto simp: TensorShapeUtils_MakeShape_def MakeShapeHelper_def MaxDimensions_def shape_valid_def denotes_def)
qed

definition proto_valid :: "bool \<Rightarrow> shape_proto \<Rightarrow> bool" where
  "proto_valid p proto \<longleftrightarrow>
     (if p \<and> sp_unknown_rank proto then sp_dim proto = [] else shape_valid p (sp_dim proto))"

lemma IsValid_spec:
  assumes "list_all int64_size (sp_dim proto)"
  shows "IsValid p proto = ret (proto_valid p proto)"
    "\<exists>st. IsValidShape p proto = ret st \<and> (ok st \<longleftrightarrow> proto_valid p proto)"
proof -
  note v = IsValid_loop_spec [of p "[]" "sp_dim proto", OF _ _ assms, simplified]
  show "IsValid p proto = ret (proto_valid p proto)"
    using v(1) by (auto simp: IsValid_def proto_valid_def MaxDimensions_def shape_valid_def)
  have "\<not> length (sp_dim proto) \<le> 254 \<Longrightarrow> \<not> shape_valid p (sp_dim proto)" by (simp add: shape_valid_def)
  then show "\<exists>st. IsValidShape p proto = ret st \<and> (ok st \<longleftrightarrow> proto_valid p proto)"
    using v(2) [of proto] by (auto simp: IsValidShape_def proto_valid_def MaxDimensions_def)
qed

lemma AsProto_view:
  assumes "rep_ok p s"
  shows "AsProto p s = ret (case view p s of
     None \<Rightarrow> unnamed_proto [] True | Some ds \<Rightarrow> unnamed_proto ds False)"
  using assms
proof (cases rule: rep_ok_cases)
  case (Known ds)
  then show ?thesis
    using mapM_dim_size [OF denotes_layout [OF Known(1)]] denotes_facts(2) [OF Known(1)] by (simp add: AsProto_def)
qed (simp add: AsProto_def)

lemma unknown_shape_ok:
  assumes "length memory = 12"
  shows "rep_ok True ((blank_rep memory)\<lparr>ts_ndims_byte := kUnknownRank, ts_num_elements := - 1\<rparr>)"
    "view True ((blank_rep memory)\<lparr>ts_ndims_byte := kUnknownRank, ts_num_elements := - 1\<rparr>) = None"
  using assms by (simp_all add: rep_ok_def unknown_rank_def view_def blank_rep_def)

lemma shape_of_proto_spec:
  assumes "length memory = 12" "proto_valid p proto"
  shows "\<exists>s. shape_of_proto p memory proto = ret s \<and> rep_ok p s \<and>
    view p s = (if p \<and> sp_unknown_rank proto then None else Some (sp_dim proto))"
proof (cases "p \<and> sp_unknown_rank proto")
  case True
  with unknown_shape_ok [OF assms(1)] show ?thesis by (simp add: shape_of_proto_def)
next
  case False
  with assms(2) have v: "shape_valid p (sp_dim proto)" by (auto simp: proto_valid_def)
  then have "list_all (arg_ok p) (sp_dim proto)" by (auto simp: shape_valid_def list_all_iff size_ok_arg)
  from AddDims_yields [OF blank_denotes [OF assms(1)] this] v False show ?thesis
    by (auto simp: shape_of_proto_def yields_def denotes_def)
qed

section \<open>Properties\<close>

lemma unnamed_proto_eq:
  "unnamed_proto (sp_dim proto) u = proto \<longleftrightarrow> list_all (\<lambda>d. pd_name d = []) (sp_dims proto) \<and> u = sp_unknown_rank proto"
proof -
  have "map (\<lambda>d. \<lparr>pd_size = pd_size d, pd_name = []\<rparr>) ds = ds \<longleftrightarrow> list_all (\<lambda>d. pd_name d = []) ds" for ds :: "proto_dim list"
    by (induction ds) (auto simp: proto_dim.equality intro!: proto_dim.equality dest: arg_cong [where f = pd_name])
  then show ?thesis by (cases proto) (auto simp: unnamed_proto_def sp_dim_def comp_def)
qed

text \<open>
  C31. For a proto with any 64-bit sizes, \<open>IsValid\<close> and \<open>IsValidShape\<close> agree and accept exactly
  the shapes (at most 254 sizes, none negative except unknown ones of a partial shape, leading products in
  63 bits). An accepted proto can be turned into a shape without a failed check, and writing that
  shape gives a proto with the same sizes and no names; a full shape drops the flag for an unknown rank, which its
  constructor and the checks ignore. So the proto comes back unchanged exactly when its dimensions had no names and, for a full shape,
  the flag was not set.
\<close>

theorem proto_roundtrip:
  assumes "list_all int64_size (sp_dim proto)" "length memory = 12"
  shows "IsValid p proto = ret (proto_valid p proto) \<and>
    (\<exists>st. IsValidShape p proto = ret st \<and> (ok st \<longleftrightarrow> proto_valid p proto)) \<and>
    (proto_valid p proto \<longrightarrow> (\<exists>s. shape_of_proto p memory proto = ret s \<and> rep_ok p s \<and>
       AsProto p s = ret (unnamed_proto (sp_dim proto) (p \<and> sp_unknown_rank proto)) \<and>
       (AsProto p s = ret proto \<longleftrightarrow>
          list_all (\<lambda>d. pd_name d = []) (sp_dims proto) \<and> (p \<or> \<not> sp_unknown_rank proto))))"
proof (intro conjI impI)
  assume v: "proto_valid p proto"
  from shape_of_proto_spec [OF assms(2) v] obtain s where
    s: "shape_of_proto p memory proto = ret s" "rep_ok p s"
      "view p s = (if p \<and> sp_unknown_rank proto then None else Some (sp_dim proto))" by blast
  have as: "AsProto p s = ret (unnamed_proto (sp_dim proto) (p \<and> sp_unknown_rank proto))"
    using s(3) v unfolding AsProto_view [OF s(2)] by (auto simp: proto_valid_def)
  moreover have "AsProto p s = ret proto \<longleftrightarrow>
      list_all (\<lambda>d. pd_name d = []) (sp_dims proto) \<and> (p \<or> \<not> sp_unknown_rank proto)"
    unfolding as using unnamed_proto_eq [of proto "p \<and> sp_unknown_rank proto"] by auto
  ultimately show "\<exists>s. shape_of_proto p memory proto = ret s \<and> rep_ok p s \<and>
       AsProto p s = ret (unnamed_proto (sp_dim proto) (p \<and> sp_unknown_rank proto)) \<and>
       (AsProto p s = ret proto \<longleftrightarrow>
          list_all (\<lambda>d. pd_name d = []) (sp_dims proto) \<and> (p \<or> \<not> sp_unknown_rank proto))" using s by blast
qed (use IsValid_spec [OF assms(1)] in blast)+

definition named_proto :: shape_proto where
  "named_proto = \<lparr>sp_dims = [\<lparr>pd_size = 2, pd_name = ''batch''\<rparr>, \<lparr>pd_size = - 1, pd_name = []\<rparr>, \<lparr>pd_size = 70000, pd_name = []\<rparr>],
     sp_unknown_rank = False\<rparr>"

theorem proto_roundtrip_witness:
  "IsValid True named_proto = ret True \<and>
   (\<exists>s. shape_of_proto True (replicate 12 0) named_proto = ret s \<and> rep_ok True s \<and>
     AsProto True s = ret (unnamed_proto [2, - 1, 70000] False) \<and> AsProto True s \<noteq> ret named_proto)"
proof -
  have d: "sp_dim named_proto = [2, - 1, 70000]" "sp_unknown_rank named_proto = False"
    "\<not> list_all (\<lambda>d. pd_name d = []) (sp_dims named_proto)"
    by (simp_all add: named_proto_def sp_dim_def)
  have "proto_valid True named_proto"
    by (simp add: d proto_valid_def shape_valid_def size_ok_def elements_of_def le_Suc_eq all_conj_distrib)
  then show ?thesis
    using proto_roundtrip [of named_proto "replicate 12 0" True] by (auto simp: d int64_size_def)
qed

text \<open>
  \<open>TensorShapeUtils::MakeShape\<close> never ends the process on any array of 64-bit numbers:
  it succeeds, with these sizes, exactly when they are a shape, and otherwise returns an
  error and leaves a valid object.
\<close>

theorem MakeShape_total:
  assumes "list_all int64_size vs" "length (ts_buf out) = 12"
  shows "\<exists>st r. TensorShapeUtils_MakeShape p vs out = ret (st, r) \<and> rep_ok p r \<and>
    (ok st \<longleftrightarrow> shape_valid p vs) \<and> (ok st \<longrightarrow> view p r = Some vs)"
  by (rule MakeShape_spec [OF assms])

theorem MakeShape_total_witness:
  "\<exists>st r. TensorShapeUtils_MakeShape False [4611686018427387904, 2] (blank_rep (replicate 12 0)) = ret (st, r) \<and>
    rep_ok False r \<and> \<not> ok st"
proof -
  have "\<not> shape_valid False [4611686018427387904, 2]"
    by (auto simp: shape_valid_def elements_of_def intro!: exI [of _ 2])
  with MakeShape_total [of "[4611686018427387904, 2]" "blank_rep (replicate 12 0)" False] show ?thesis
    by (auto simp: int64_size_def blank_rep_def)
qed

text \<open>
  C32. Two partial shapes are compatible when they have a common instance. \<open>MergeWith\<close> of
  compatible shapes into a third object returns the partial shape whose instances are the common instances, provided
  its leading products fit 63 bits; otherwise it ends the process in a failed check, although both operands are
  valid. Incompatible shapes give an error (or a failed check on the way).
\<close>

theorem MergeWith_meets:
  assumes "rep_ok True this" "rep_ok True shape" "length (ts_buf result) = 12"
  shows "let v = view True this; w = view True shape; m = merge_view v w; meet = (\<exists>ds. is_instance v ds \<and> is_instance w ds) in
    IsCompatibleWith this shape = ret meet \<and>
    (if meet then (\<forall>ds. is_instance m ds \<longleftrightarrow> is_instance v ds \<and> is_instance w ds) \<and>
       (if case m of None \<Rightarrow> True | Some ms \<Rightarrow> shape_valid True ms
        then \<exists>r. MergeWith Result_distinct this shape result = ret (OK, r) \<and> rep_ok True r \<and> view True r = m
        else \<exists>msg. MergeWith Result_distinct this shape result = abort (CheckFailed msg))
     else (\<exists>msg r. MergeWith Result_distinct this shape result = ret (InvalidArgument msg, r)) \<or>
       (\<exists>msg. MergeWith Result_distinct this shape result = abort (CheckFailed msg)))"
proof -
  let ?v = "view True this" and ?w = "view True shape"
  have inst: "is_instance (merge_view ?v ?w) ds \<longleftrightarrow> is_instance ?v ds \<and> is_instance ?w ds"
    if "is_instance ?v es" "is_instance ?w es" for ds es
  proof (cases "list_all (\<lambda>d. 0 \<le> d) ds")
    case True
    from merge_view_instances [OF that True] show ?thesis .
  qed (simp add: is_instance_def)
  have res: "if \<exists>ds. is_instance ?v ds \<and> is_instance ?w ds
     then (if case merge_view ?v ?w of None \<Rightarrow> True | Some ms \<Rightarrow> shape_valid True ms
        then \<exists>r. MergeWith Result_distinct this shape result = ret (OK, r) \<and> rep_ok True r \<and> view True r = merge_view ?v ?w
        else \<exists>msg. MergeWith Result_distinct this shape result = abort (CheckFailed msg))
     else (\<exists>msg r. MergeWith Result_distinct this shape result = ret (InvalidArgument msg, r)) \<or>
       (\<exists>msg. MergeWith Result_distinct this shape result = abort (CheckFailed msg))"
    using assms(1)
  proof (cases rule: rep_ok_cases)
    case Unknown
    from copies(1) [OF assms(2,3) assms(3)] obtain r where
      "copy_assign result shape = ret r" "rep_ok True r" "view True r = view True shape" by blast
    moreover have "shape_valid True ds" if "view True shape = Some ds" for ds
      using that assms(2) denotes_facts(5) [of True shape ds] by (simp add: denotes_def)
    ultimately show ?thesis
      using Unknown unfolding compatible_iff by (cases "view True shape") (auto simp: MergeWith_def)
  next
    case (Known as)
    note this_known = Known
    show ?thesis
      using assms(2)
    proof (cases rule: rep_ok_cases)
      case Unknown
      with copies(1) [OF assms(1,3) assms(3)] this_known denotes_facts(2,5) [OF this_known(1)] show ?thesis
        unfolding compatible_iff by (auto simp: MergeWith_def)
    next
      case (Known bs)
      from MergeWith_outcome [OF this_known(1) Known(1) assms(3), of Result_distinct] this_known(2) Known(2)
      show ?thesis unfolding compatible_iff by (auto simp: merge_outcome_def denotes_def)
    qed
  qed
  show ?thesis
  proof (cases "\<exists>ds. is_instance ?v ds \<and> is_instance ?w ds")
    case True
    with inst have "\<forall>ds. is_instance (merge_view ?v ?w) ds \<longleftrightarrow> is_instance ?v ds \<and> is_instance ?w ds" by blast
    with res True IsCompatibleWith_view [OF assms(1,2)] show ?thesis by (simp add: Let_def)
  next
    case False
    then have no: "(\<exists>ds. is_instance ?v ds \<and> is_instance ?w ds) = False" by simp
    show ?thesis
      using res IsCompatibleWith_view [OF assms(1,2)] unfolding Let_def no by simp
  qed
qed

theorem MergeWith_meets_witness:
  "\<exists>a b msg. rep_ok True a \<and> view True a = Some [1099511627776, - 1] \<and> rep_ok True b \<and>
     view True b = Some [- 1, 1099511627776] \<and> IsCompatibleWith a b = ret True \<and>
     MergeWith Result_distinct a b (blank_rep (replicate 12 0)) = abort (CheckFailed msg)"
proof -
  have shape: "\<exists>s. denotes True s ds" if "shape_valid True ds" for ds
    using AddDims_yields [OF blank_denotes [of "replicate 12 0" True], of ds] that
    by (auto simp: yields_def shape_valid_def list_all_iff size_ok_arg)
  have v: "shape_valid True [1099511627776, - 1]" "shape_valid True [- 1, 1099511627776]"
    by (simp_all add: shape_valid_def size_ok_def elements_of_def le_Suc_eq all_conj_distrib)
  obtain a b where ab: "denotes True a [1099511627776, - 1]" "denotes True b [- 1, 1099511627776]"
    using shape [OF v(1)] shape [OF v(2)] by blast
  have "\<not> shape_valid True [1099511627776, 1099511627776]"
    by (auto simp: shape_valid_def elements_of_def intro!: exI [of _ 2])
  moreover have "\<exists>ds. is_instance (Some [1099511627776, - 1]) ds \<and> is_instance (Some [- 1, 1099511627776]) ds"
    unfolding compatible_iff by (simp add: compatible_def)
  ultimately show ?thesis
    using MergeWith_meets [of a b "blank_rep (replicate 12 0)"] ab
    by (auto simp: denotes_def Let_def merge_size_def blank_rep_def)
qed

end
