(* ===== verification/Shape_Inference.thy ===== *)
theory Shape_Inference
  imports Partial_Shape
begin

text \<open>
  Shape inference: \<^verbatim>\<open>tensorflow/core/framework/shape_inference.h\<close> and \<^verbatim>\<open>shape_inference.cc\<close>, with which the
  operation \<open>DecodeReplays\<close> declares the shapes of its outputs.

  An \<open>InferenceContext\<close> owns dimensions and shapes; a handle is a pointer to one of
  them, modelled as its index in the context (\<^const>\<open>None\<close> is the null pointer). That two
  handles are the same matters: an unknown dimension is equal to itself, and to no other unknown one.
  The operations run in a context and return with the context they leave; an
  out-parameter that an error leaves alone is an argument.

  The names and ranges of inputs and outputs (\<open>NameRangesForNode\<close>), the texts of tensors and types
  are parameters: they only go into error messages and lookups.
\<close>

section \<open>Operations in a context\<close>

type_synonym ('s, 'a) sop = "'s \<Rightarrow> ('a \<times> 's) res"

definition sret :: "'a \<Rightarrow> ('s, 'a) sop" where
  "sret x = (\<lambda>s. ret (x, s))"

definition sbnd :: "('s, 'a) sop \<Rightarrow> ('a \<Rightarrow> ('s, 'b) sop) \<Rightarrow> ('s, 'b) sop" where
  "sbnd m f = (\<lambda>s. bnd (m s) (\<lambda>(x, s'). f x s'))"

definition sread :: "('s \<Rightarrow> 'a res) \<Rightarrow> ('s, 'a) sop" where
  "sread f = (\<lambda>s. bnd (f s) (\<lambda>x. ret (x, s)))"

definition sabort :: "fatal \<Rightarrow> ('s, 'a) sop" where
  "sabort e = (\<lambda>s. abort e)"

definition sCHECK :: "bool \<Rightarrow> string \<Rightarrow> ('s, 'a) sop \<Rightarrow> ('s, 'a) sop" where
  "sCHECK c msg k = (\<lambda>s. CHECK c msg (k s))"

fun smap :: "('a \<Rightarrow> ('s, 'b) sop) \<Rightarrow> 'a list \<Rightarrow> ('s, 'b list) sop" where
  "smap f [] = sret []"
| "smap f (x # xs) = sbnd (f x) (\<lambda>y. sbnd (smap f xs) (\<lambda>ys. sret (y # ys)))"

section \<open>Data\<close>

type_synonym handle = "nat option"

record inferred_shape =
  is_rank :: int
  is_dims :: "handle list"

text \<open>\<open>DimensionOrConstant\<close>: a dimension, or a size.\<close>

datatype dim_or_const = Dim_arg handle | Const_arg int

record shape_and_type =
  sat_shape :: handle
  sat_dtype :: byte

record host_tensor =
  ht_shape :: "int list"
  ht_dtype :: byte
  ht_flat :: "int list"

type_synonym name_ranges = "(string \<times> int \<times> int) list"

record inference_context =
  ic_shapes :: "inferred_shape list"
  ic_dims :: "int list"
  ic_inputs :: "handle list"
  ic_input_tensors :: "host_tensor option list"
  ic_requested :: "bool list"
  ic_outputs :: "handle list"
  ic_as_shapes :: "handle list"
  ic_requested_partial :: "bool list"
  ic_input_handles :: "shape_and_type list option list"
  ic_output_handles :: "shape_and_type list option list"
  ic_node_name :: string
  ic_node_op :: string
  ic_input_names :: name_ranges
  ic_output_names :: name_ranges
  ic_construction_status :: status

type_synonym 'a iop = "(inference_context, 'a) sop"

definition kUnknownDim :: int where "kUnknownDim = - 1"
definition ic_kUnknownRank :: int where "ic_kUnknownRank = - 1"
definition DT_INT32 :: byte where "DT_INT32 = 3"
definition DT_INT64 :: byte where "DT_INT64 = 9"

definition list_at :: "'a list \<Rightarrow> int \<Rightarrow> 'a res" where
  "list_at xs i = (if 0 \<le> i \<and> i < int (length xs) then ret (xs ! nat i) else abort (Undefined ''index of std::vector''))"

definition shape_ref :: "handle \<Rightarrow> inference_context \<Rightarrow> inferred_shape res" where
  "shape_ref h c = (case h of None \<Rightarrow> abort (Undefined ''null Shape'') | Some i \<Rightarrow> list_at (ic_shapes c) (int i))"

definition dim_ref :: "handle \<Rightarrow> inference_context \<Rightarrow> int res" where
  "dim_ref h c = (case h of None \<Rightarrow> abort (Undefined ''null Dimension'') | Some i \<Rightarrow> list_at (ic_dims c) (int i))"

section \<open>The shape manager\<close>

definition new_Dimension :: "int \<Rightarrow> handle iop" where
  "new_Dimension v = (\<lambda>c. DCHECK (v \<ge> 0 \<or> v = kUnknownDim) ''value >= 0 || value == kUnknownDim''
     (ret (Some (length (ic_dims c)), c\<lparr>ic_dims := ic_dims c @ [v]\<rparr>)))"

definition MakeDim :: "dim_or_const \<Rightarrow> handle iop" where
  "MakeDim d = (case d of
     Dim_arg h \<Rightarrow> sCHECK (h \<noteq> None) ''dim.IsSet()'' (sret h)
   | Const_arg v \<Rightarrow> new_Dimension v)"

definition UnknownDim :: "handle iop" where
  "UnknownDim = MakeDim (Const_arg kUnknownDim)"

definition MakeShape_dims :: "handle list \<Rightarrow> handle iop" where
  "MakeShape_dims ds = (\<lambda>c. ret (Some (length (ic_shapes c)),
     c\<lparr>ic_shapes := ic_shapes c @ [\<lparr>is_rank = int (length ds), is_dims = ds\<rparr>]\<rparr>))"

definition UnknownShape :: "handle iop" where
  "UnknownShape = (\<lambda>c. ret (Some (length (ic_shapes c)),
     c\<lparr>ic_shapes := ic_shapes c @ [\<lparr>is_rank = ic_kUnknownRank, is_dims = []\<rparr>]\<rparr>))"

definition MakeShape_list :: "dim_or_const list \<Rightarrow> handle iop" where
  "MakeShape_list ds = sbnd (smap MakeDim ds) MakeShape_dims"

definition ReturnUnknownShape :: "(status \<times> handle) iop" where
  "ReturnUnknownShape = sbnd UnknownShape (\<lambda>s. sret (OK, s))"

definition ReturnCreatedShape :: "handle list \<Rightarrow> (status \<times> handle) iop" where
  "ReturnCreatedShape ds = sbnd (MakeShape_dims ds) (\<lambda>s. sret (OK, s))"

definition UnknownShapeOfRank :: "int \<Rightarrow> handle iop" where
  "UnknownShapeOfRank rank =
     sCHECK (rank \<le> kint32max) ''rank <= kint32max'' (
     if rank = ic_kUnknownRank then UnknownShape
     else sCHECK (rank \<ge> 0) ''rank >= 0''
       (sbnd (smap (\<lambda>i. UnknownDim) [0..rank - 1]) MakeShape_dims))"

definition ScalarShape :: "handle iop" where
  "ScalarShape = MakeShape_list []"

definition VectorShape :: "dim_or_const \<Rightarrow> handle iop" where
  "VectorShape d = MakeShape_list [d]"

definition MatrixShape :: "dim_or_const \<Rightarrow> dim_or_const \<Rightarrow> handle iop" where
  "MatrixShape d1 d2 = MakeShape_list [d1, d2]"

section \<open>Reading shapes and dimensions\<close>

definition Rank :: "handle \<Rightarrow> inference_context \<Rightarrow> int res" where
  "Rank s c = DCHECK (s \<noteq> None) ''s.IsSet()'' (bnd (shape_ref s c) (\<lambda>sh. ret (is_rank sh)))"

definition RankKnown :: "handle \<Rightarrow> inference_context \<Rightarrow> bool res" where
  "RankKnown s c = (if s = None then ret False else bnd (Rank s c) (\<lambda>r. ret (r \<noteq> ic_kUnknownRank)))"

text \<open>\<open>Value\<close> and \<open>ValueKnown\<close>, with the checks of the constructors of \<open>DimensionOrConstant\<close>.\<close>

definition Value_of :: "dim_or_const \<Rightarrow> inference_context \<Rightarrow> int res" where
  "Value_of d c = (case d of
     Dim_arg h \<Rightarrow> DCHECK (h \<noteq> None) ''dim.IsSet()'' (dim_ref h c)
   | Const_arg v \<Rightarrow> DCHECK (v \<ge> 0 \<or> v = kUnknownDim) ''val >= 0 || val == kUnknownDim'' (ret v))"

definition ValueKnown :: "dim_or_const \<Rightarrow> inference_context \<Rightarrow> bool res" where
  "ValueKnown d c = bnd (Value_of d c) (\<lambda>v. ret (v \<noteq> kUnknownDim))"

definition Dim :: "handle \<Rightarrow> int \<Rightarrow> handle iop" where
  "Dim s idx = sbnd (sread (shape_ref s)) (\<lambda>sh.
     if is_rank sh = ic_kUnknownRank then UnknownDim
     else if idx < 0 then sread (\<lambda>c. list_at (is_dims sh) (int (length (is_dims sh)) + idx))
     else sread (\<lambda>c. list_at (is_dims sh) idx))"

fun FullyDefined_loop :: "handle \<Rightarrow> int list \<Rightarrow> bool iop" where
  "FullyDefined_loop s [] = sret True"
| "FullyDefined_loop s (i # js) = sbnd (Dim s i) (\<lambda>d. sbnd (sread (ValueKnown (Dim_arg d))) (\<lambda>k.
     if \<not> k then sret False else FullyDefined_loop s js))"

definition FullyDefined :: "handle \<Rightarrow> bool iop" where
  "FullyDefined s = sbnd (sread (RankKnown s)) (\<lambda>k.
     if \<not> k then sret False else sbnd (sread (Rank s)) (\<lambda>rank. FullyDefined_loop s [0..rank - 1]))"

fun NumElements_scan :: "handle \<Rightarrow> int list \<Rightarrow> int \<Rightarrow> handle iop" where
  "NumElements_scan s [] sz = MakeDim (Const_arg sz)"
| "NumElements_scan s (i # js) sz = sbnd (Dim s i) (\<lambda>d. sbnd (sread (Value_of (Dim_arg d))) (\<lambda>dim_val.
     if dim_val = kUnknownDim then UnknownDim
     else sbnd (sread (\<lambda>c. int64 (sz * dim_val))) (NumElements_scan s js)))"

definition ic_NumElements :: "handle \<Rightarrow> handle iop" where
  "ic_NumElements s = sbnd (sread (Rank s)) (\<lambda>rank.
     if rank = ic_kUnknownRank then UnknownDim else NumElements_scan s [0..rank - 1] 1)"

definition dim_DebugString :: "handle \<Rightarrow> inference_context \<Rightarrow> string res" where
  "dim_DebugString d c = bnd (Value_of (Dim_arg d) c) (\<lambda>v. ret (if v \<noteq> kUnknownDim then int_text v else ''?''))"

definition ic_DebugString :: "handle \<Rightarrow> inference_context \<Rightarrow> string res" where
  "ic_DebugString s c = bnd (RankKnown s c) (\<lambda>k.
     if k then bnd (shape_ref s c) (\<lambda>sh. bnd (mapM (\<lambda>d. dim_DebugString d c) (is_dims sh)) (\<lambda>vals.
       ret (''['' @ commas vals @ '']'')))
     else ret ''?'')"

section \<open>Asserting a rank or a value\<close>

definition WithRank :: "handle \<Rightarrow> int \<Rightarrow> handle \<Rightarrow> (status \<times> handle) iop" where
  "WithRank shape rank out =
     (if rank > kint32max then sret (InvalidArgument ''Rank cannot exceed kint32max'', out)
      else sbnd (sread (Rank shape)) (\<lambda>existing.
        if existing = rank then sret (OK, shape)
        else if existing = ic_kUnknownRank then
          (if rank < 0 then sabort (Thrown ''std::length_error'')
           else sbnd (smap (\<lambda>i. UnknownDim) [0..rank - 1]) (\<lambda>ds.
             sbnd (MakeShape_dims ds) (\<lambda>s. sret (OK, s))))
        else sret (InvalidArgument (''Shape must be rank '' @ int_text rank @ '' but is rank '' @ int_text existing), None)))"

definition WithRankAtLeast :: "handle \<Rightarrow> int \<Rightarrow> handle \<Rightarrow> (status \<times> handle) iop" where
  "WithRankAtLeast shape rank out =
     (if rank > kint32max then sret (InvalidArgument ''Rank cannot exceed kint32max'', out)
      else sbnd (sread (Rank shape)) (\<lambda>existing.
        if existing \<ge> rank then sret (OK, shape)
        else if existing = ic_kUnknownRank then ReturnUnknownShape
        else sret (InvalidArgument (''Shape must be at least rank '' @ int_text rank @ '' but is rank '' @ int_text existing), None)))"

definition WithRankAtMost :: "handle \<Rightarrow> int \<Rightarrow> handle \<Rightarrow> (status \<times> handle) iop" where
  "WithRankAtMost shape rank out =
     (if rank > kint32max then sret (InvalidArgument ''Rank cannot exceed kint32max'', out)
      else sbnd (sread (Rank shape)) (\<lambda>existing.
        if existing = ic_kUnknownRank then ReturnUnknownShape
        else if existing \<le> rank then sret (OK, shape)
        else sret (InvalidArgument (''Shape must be at most rank '' @ int_text rank @ '' but is rank '' @ int_text existing), None)))"

definition WithValue :: "handle \<Rightarrow> int \<Rightarrow> (status \<times> handle) iop" where
  "WithValue d v = sbnd (sread (Value_of (Dim_arg d))) (\<lambda>existing.
     if existing = v then sret (OK, d)
     else if existing = kUnknownDim then sbnd (MakeDim (Const_arg v)) (\<lambda>h. sret (OK, h))
     else sret (InvalidArgument (''Dimension must be '' @ int_text v @ '' but is '' @ int_text existing), None))"

section \<open>Merging and relaxing\<close>

definition Relax_dim :: "handle \<Rightarrow> handle \<Rightarrow> handle iop" where
  "Relax_dim d0 d1 =
     (if d0 = d1 then sret d0
      else sbnd (sread (Value_of (Dim_arg d0))) (\<lambda>v0.
        if v0 = kUnknownDim then UnknownDim
        else sbnd (sread (Value_of (Dim_arg d1))) (\<lambda>v1.
          if v1 = kUnknownDim then UnknownDim else if v0 = v1 then sret d0 else UnknownDim)))"

definition Merge_dim :: "handle \<Rightarrow> handle \<Rightarrow> (status \<times> handle) iop" where
  "Merge_dim d0 d1 =
     (if d0 = d1 then sret (OK, d0)
      else sbnd (sread (Value_of (Dim_arg d1))) (\<lambda>v1.
        if v1 = kUnknownDim then sret (OK, d0)
        else sbnd (sread (Value_of (Dim_arg d0))) (\<lambda>v0.
          if v0 = kUnknownDim then sret (OK, d1)
          else if v0 = v1 then sret (OK, d0)
          else sret (InvalidArgument (''Dimensions must be equal, but are '' @ int_text v0 @ '' and '' @ int_text v1), None))))"

fun MergePrefix_loop :: "handle \<Rightarrow> handle \<Rightarrow> int list \<Rightarrow> (status \<times> handle list) iop" where
  "MergePrefix_loop s prefix [] = sret (OK, [])"
| "MergePrefix_loop s prefix (i # js) =
     sbnd (Dim s i) (\<lambda>d0. sbnd (Dim prefix i) (\<lambda>d1. sbnd (Merge_dim d0 d1) (\<lambda>(st, d).
     if \<not> ok st then sret (st, [])
     else sbnd (MergePrefix_loop s prefix js) (\<lambda>(st', ds). sret (st', d # ds)))))"

definition MergePrefix :: "handle \<Rightarrow> handle \<Rightarrow> (status \<times> handle \<times> handle) iop" where
  "MergePrefix s prefix =
     sbnd (sread (RankKnown prefix)) (\<lambda>kp. sbnd (if kp then sread (RankKnown s) else sret False) (\<lambda>k.
     if \<not> k then sret (OK, s, prefix)
     else sbnd (sread (Rank prefix)) (\<lambda>rank.
       sbnd (WithRankAtLeast s rank s) (\<lambda>(st, s1).
       if \<not> ok st then sret (st, None, None)
       else sbnd (MergePrefix_loop s1 prefix [0..rank - 1]) (\<lambda>(st', ds).
         if \<not> ok st' then sret (st', None, None)
         else sbnd (MakeShape_dims ds) (\<lambda>prefix_out.
           sbnd (sread (Rank s1)) (\<lambda>rank_s.
           sbnd (smap (Dim s1) [rank..rank_s - 1]) (\<lambda>rest.
           sbnd (MakeShape_dims (ds @ rest)) (\<lambda>s_out. sret (OK, s_out, prefix_out))))))))))"

fun Relax_scan :: "handle \<Rightarrow> handle \<Rightarrow> int list \<Rightarrow> bool iop" where
  "Relax_scan s0 s1 [] = sret True"
| "Relax_scan s0 s1 (i # js) =
     sbnd (Dim s0 i) (\<lambda>d0. sbnd (Dim s1 i) (\<lambda>d1.
     if d0 = d1 then Relax_scan s0 s1 js
     else sbnd (sread (Value_of (Dim_arg d0))) (\<lambda>v0. sbnd (sread (Value_of (Dim_arg d1))) (\<lambda>v1.
       if v0 = kUnknownDim \<or> v1 = kUnknownDim \<or> v0 \<noteq> v1 then sret False else Relax_scan s0 s1 js))))"

definition Relax_at :: "handle \<Rightarrow> handle \<Rightarrow> int \<Rightarrow> handle iop" where
  "Relax_at s0 s1 i = sbnd (Dim s0 i) (\<lambda>d0. sbnd (Dim s1 i) (Relax_dim d0))"

definition Relax_shape :: "handle \<Rightarrow> handle \<Rightarrow> handle iop" where
  "Relax_shape s0 s1 =
     (if s0 = s1 then sret s0
      else sbnd (sread (RankKnown s0)) (\<lambda>k0. sbnd (if k0 then sread (RankKnown s1) else sret False) (\<lambda>k.
        if \<not> k then UnknownShape
        else sbnd (sread (Rank s0)) (\<lambda>rank. sbnd (sread (Rank s1)) (\<lambda>rank1.
          if rank \<noteq> rank1 then UnknownShape
          else sbnd (Relax_scan s0 s1 [0..rank - 1]) (\<lambda>return_s0.
            if return_s0 then sret s0
            else sbnd (smap (Relax_at s0 s1) [0..rank - 1]) MakeShape_dims))))))"

text \<open>The first loop of \<open>Merge\<close> for shapes: an error, or the flags \<open>return_s0\<close> and \<open>return_s1\<close>.\<close>

fun Merge_scan :: "handle \<Rightarrow> handle \<Rightarrow> int list \<Rightarrow> bool \<times> bool \<Rightarrow> (status \<times> bool \<times> bool) iop" where
  "Merge_scan s0 s1 [] flags = sret (OK, flags)"
| "Merge_scan s0 s1 (i # js) flags =
     sbnd (Dim s0 i) (\<lambda>d0. sbnd (Dim s1 i) (\<lambda>d1.
     if d0 = d1 then Merge_scan s0 s1 js flags
     else sbnd (sread (Value_of (Dim_arg d0))) (\<lambda>v0. sbnd (sread (Value_of (Dim_arg d1))) (\<lambda>v1.
       if v0 = kUnknownDim then
         Merge_scan s0 s1 js (if v1 \<noteq> kUnknownDim then (False, snd flags) else flags)
       else if v1 = kUnknownDim then Merge_scan s0 s1 js (fst flags, False)
       else if v0 \<noteq> v1 then
         sret (InvalidArgument (''Dimension '' @ int_text i @ '' in both shapes must be equal, but are '' @
           int_text v0 @ '' and '' @ int_text v1), flags)
       else Merge_scan s0 s1 js flags))))"

definition Merge_at :: "handle \<Rightarrow> handle \<Rightarrow> int \<Rightarrow> handle iop" where
  "Merge_at s0 s1 i = sbnd (Dim s0 i) (\<lambda>d0. sbnd (Dim s1 i) (\<lambda>d1. sbnd (Merge_dim d0 d1) (\<lambda>(st, d).
     (\<lambda>c. TF_CHECK_OK st ''Merge(Dim(s0, i), Dim(s1, i), &dims[i])'' (ret (d, c))))))"

definition Merge_shape :: "handle \<Rightarrow> handle \<Rightarrow> (status \<times> handle) iop" where
  "Merge_shape s0 s1 =
     (if s0 = s1 then sret (OK, s0)
      else sbnd (sread (RankKnown s1)) (\<lambda>k1. if \<not> k1 then sret (OK, s0)
      else sbnd (sread (RankKnown s0)) (\<lambda>k0. if \<not> k0 then sret (OK, s1)
      else sbnd (sread (Rank s0)) (\<lambda>rank. sbnd (sread (Rank s1)) (\<lambda>rank1.
        if rank \<noteq> rank1 then
          sret (InvalidArgument (''Shapes must be equal rank, but are '' @ int_text rank @ '' and '' @ int_text rank1), None)
        else sbnd (Merge_scan s0 s1 [0..rank - 1] (True, True)) (\<lambda>(st, return_s0, return_s1).
          if \<not> ok st then sret (st, None)
          else if return_s0 \<or> return_s1 then sret (OK, if return_s0 then s0 else s1)
          else sbnd (smap (Merge_at s0 s1) [0..rank - 1]) ReturnCreatedShape))))))"

section \<open>Parts of a shape\<close>

definition Subshape :: "handle \<Rightarrow> int \<Rightarrow> int \<Rightarrow> (status \<times> handle) iop" where
  "Subshape s start_in end_in =
     sbnd (sread (Rank s)) (\<lambda>rank. sbnd (sread (RankKnown s)) (\<lambda>known.
     if start_in = 0 \<and> (known \<and> end_in \<ge> rank \<or> end_in = kint64max) then sret (OK, s)
     else if \<not> known then ReturnUnknownShape
     else
       let start1 = (if start_in > rank then rank else start_in);
           end1 = (if end_in > rank then rank else end_in);
           start2 = (if start1 < 0 then rank + start1 else start1) in
       if start1 < 0 \<and> start2 < 0 then
         sret (InvalidArgument (''Subshape start out of bounds: '' @ int_text start_in @ '', for shape with rank '' @
           int_text rank), None)
       else
         let end2 = (if end1 < 0 then rank + end1 else end1) in
         if end1 < 0 \<and> end2 < 0 then
           sret (InvalidArgument (''Subshape end out of bounds: '' @ int_text end_in @ '', for shape with rank '' @
             int_text rank), None)
         else if start2 > end2 then
           sret (InvalidArgument (''Subshape must have computed start <= end, but is '' @ int_text start2 @ '' and '' @
             int_text end2 @ '' (computed from start '' @ int_text start_in @ '' and end '' @ int_text end_in @
             '' over shape with rank '' @ int_text rank @ '')''), None)
         else sbnd (smap (Dim s) [start2..end2 - 1]) ReturnCreatedShape))"

definition Subshape_from :: "handle \<Rightarrow> int \<Rightarrow> (status \<times> handle) iop" where
  "Subshape_from s start = Subshape s start kint64max"

definition ic_Concatenate :: "handle \<Rightarrow> handle \<Rightarrow> (status \<times> handle) iop" where
  "ic_Concatenate s1 s2 =
     sbnd (sread (RankKnown s1)) (\<lambda>k1. sbnd (if k1 then sread (RankKnown s2) else sret False) (\<lambda>k.
     if \<not> k then ReturnUnknownShape
     else sbnd (sread (Rank s1)) (\<lambda>r1. sbnd (sread (Rank s2)) (\<lambda>r2.
       sbnd (smap (Dim s1) [0..r1 - 1]) (\<lambda>ds1. sbnd (smap (Dim s2) [0..r2 - 1]) (\<lambda>ds2.
       ReturnCreatedShape (ds1 @ ds2)))))))"

definition ReplaceDim :: "handle \<Rightarrow> int \<Rightarrow> handle \<Rightarrow> (status \<times> handle) iop" where
  "ReplaceDim s dim_index_in new_dim =
     sbnd (sread (RankKnown s)) (\<lambda>k.
     if \<not> k then ReturnUnknownShape
     else sbnd (sread (shape_ref s)) (\<lambda>sh.
       let n = int (length (is_dims sh));
           dim_index = (if dim_index_in < 0 then n + dim_index_in else dim_index_in) in
       if \<not> (0 \<le> dim_index \<and> dim_index < n) then
         sret (InvalidArgument (''Out of range dim_index '' @ int_text dim_index_in @ '' for shape with '' @ int_text n @
           '' dimensions''), None)
       else ReturnCreatedShape ((is_dims sh)[nat dim_index := new_dim])))"

section \<open>Arithmetic on dimensions\<close>

definition Divide_dim :: "handle \<Rightarrow> dim_or_const \<Rightarrow> bool \<Rightarrow> handle \<Rightarrow> (status \<times> handle) iop" where
  "Divide_dim dividend divisor evenly_divisible out =
     sbnd (sread (Value_of divisor)) (\<lambda>divisor_value.
     if divisor_value = 1 then sret (OK, dividend)
     else sbnd (sread (Value_of (Dim_arg dividend))) (\<lambda>v.
       if v = kUnknownDim \<or> (case divisor of Dim_arg h \<Rightarrow> h \<noteq> None \<and> divisor_value = kUnknownDim | Const_arg x \<Rightarrow> False) then
         sbnd UnknownDim (\<lambda>d. sret (OK, d))
       else if divisor_value \<le> 0 then
         sret (InvalidArgument (''Divisor must be positive but is '' @ int_text divisor_value), out)
       else if evenly_divisible \<and> v smod divisor_value \<noteq> 0 then
         sret (InvalidArgument (''Dimension size must be evenly divisible by '' @ int_text divisor_value @ '' but is '' @
           int_text v), out)
       else sbnd (MakeDim (Const_arg (v sdiv divisor_value))) (\<lambda>d. sret (OK, d))))"

definition Add_dim :: "handle \<Rightarrow> dim_or_const \<Rightarrow> handle \<Rightarrow> (status \<times> handle) iop" where
  "Add_dim first second out =
     sbnd (sread (Value_of (Dim_arg first))) (\<lambda>first_value. sbnd (sread (Value_of second)) (\<lambda>second_value.
     if first_value = 0 then sbnd (MakeDim second) (\<lambda>d. sret (OK, d))
     else if second_value = 0 then sbnd (MakeDim (Dim_arg first)) (\<lambda>d. sret (OK, d))
     else if first_value = kUnknownDim \<or> second_value = kUnknownDim then sbnd UnknownDim (\<lambda>d. sret (OK, d))
     else
       let sum = sint (word_of_int first_value + word_of_int second_value :: u64) in
       if sum < 0 then
         sret (InvalidArgument (''Dimension size overflow from adding '' @ int_text first_value @ '' and '' @
           int_text second_value), out)
       else sbnd (MakeDim (Const_arg sum)) (\<lambda>d. sret (OK, d))))"

definition Subtract_dim :: "handle \<Rightarrow> dim_or_const \<Rightarrow> handle \<Rightarrow> (status \<times> handle) iop" where
  "Subtract_dim first second out =
     sbnd (sread (Value_of (Dim_arg first))) (\<lambda>first_value. sbnd (sread (Value_of second)) (\<lambda>second_value.
     if second_value = 0 then sbnd (MakeDim (Dim_arg first)) (\<lambda>d. sret (OK, d))
     else if first_value = kUnknownDim \<or> second_value = kUnknownDim then sbnd UnknownDim (\<lambda>d. sret (OK, d))
     else if first_value < second_value then
       sret (InvalidArgument (''Negative dimension size caused by subtracting '' @ int_text second_value @ '' from '' @
         int_text first_value), out)
     else sbnd (MakeDim (Const_arg (first_value - second_value))) (\<lambda>d. sret (OK, d))))"

definition Multiply_dim :: "handle \<Rightarrow> dim_or_const \<Rightarrow> handle \<Rightarrow> (status \<times> handle) iop" where
  "Multiply_dim first second out =
     sbnd (sread (Value_of (Dim_arg first))) (\<lambda>first_value. sbnd (sread (Value_of second)) (\<lambda>second_value.
     if first_value = 0 then sret (OK, first)
     else if second_value = 0 then sbnd (MakeDim second) (\<lambda>d. sret (OK, d))
     else if first_value = 1 then sbnd (MakeDim second) (\<lambda>d. sret (OK, d))
     else if second_value = 1 then sret (OK, first)
     else if first_value = kUnknownDim \<or> second_value = kUnknownDim then sbnd UnknownDim (\<lambda>d. sret (OK, d))
     else sbnd (sread (\<lambda>c. int64 (first_value * second_value))) (\<lambda>product.
       if product < 0 then
         sret (InvalidArgument (''Negative dimension size caused by overflow when multiplying '' @ int_text first_value @
           '' and '' @ int_text second_value), out)
       else sbnd (MakeDim (Const_arg product)) (\<lambda>d. sret (OK, d)))))"

definition Min_dim :: "handle \<Rightarrow> dim_or_const \<Rightarrow> (status \<times> handle) iop" where
  "Min_dim first second =
     sbnd (sread (Value_of (Dim_arg first))) (\<lambda>first_value. sbnd (sread (Value_of second)) (\<lambda>second_value.
     if first_value = 0 then sret (OK, first)
     else if second_value = 0 then sbnd (MakeDim second) (\<lambda>d. sret (OK, d))
     else if first_value = kUnknownDim \<or> second_value = kUnknownDim then sbnd UnknownDim (\<lambda>d. sret (OK, d))
     else if first_value \<le> second_value then sret (OK, first)
     else sbnd (MakeDim second) (\<lambda>d. sret (OK, d))))"

definition Max_dim :: "handle \<Rightarrow> dim_or_const \<Rightarrow> (status \<times> handle) iop" where
  "Max_dim first second =
     sbnd (sread (Value_of (Dim_arg first))) (\<lambda>first_value. sbnd (sread (Value_of second)) (\<lambda>second_value.
     if first_value = kUnknownDim \<or> second_value = kUnknownDim then sbnd UnknownDim (\<lambda>d. sret (OK, d))
     else if first_value \<ge> second_value then sret (OK, first)
     else sbnd (MakeDim second) (\<lambda>d. sret (OK, d))))"

end
