(* ===== verification/Shape_Semantics.thy ===== *)
theory Shape_Semantics
  imports Shape_Inference
begin

text \<open>
  The meaning of shape inference. A context stands for the sizes that its dimensions and
  shapes may have at run time: a \<open>world\<close> is a context with one assignment of sizes to its dimensions and shapes
  that agrees with everything the context knows. An operation is sound when, in every world,
  it returns and the world can be extended so that the result has the size it should have at run
  time. The rules for \<open>outcome\<close> reduce this to the primitive allocations; the other view of a
  handle, the partial shape it shows, relates the context to \<open>PartialTensorShape\<close>.
\<close>

section \<open>Worlds\<close>

record world =
  w_ctx :: inference_context
  w_dim :: "nat \<Rightarrow> int"
  w_shape :: "nat \<Rightarrow> int list"

definition is_dim :: "inference_context \<Rightarrow> handle \<Rightarrow> bool" where
  "is_dim c h \<longleftrightarrow> (case h of None \<Rightarrow> False | Some i \<Rightarrow> i < length (ic_dims c))"

definition is_shape :: "inference_context \<Rightarrow> handle \<Rightarrow> bool" where
  "is_shape c h \<longleftrightarrow> (case h of None \<Rightarrow> False | Some i \<Rightarrow> i < length (ic_shapes c))"

definition shape_wf :: "inference_context \<Rightarrow> inferred_shape \<Rightarrow> bool" where
  "shape_wf c sh \<longleftrightarrow> is_rank sh = - 1 \<and> is_dims sh = [] \<or>
     is_rank sh = int (length (is_dims sh)) \<and> list_all (is_dim c) (is_dims sh)"

definition dim_wf :: "int \<Rightarrow> bool" where
  "dim_wf v \<longleftrightarrow> - 1 \<le> v \<and> v < 2 ^ 63"

definition store_ok :: "inference_context \<Rightarrow> bool" where
  "store_ok c \<longleftrightarrow> list_all dim_wf (ic_dims c) \<and> list_all (shape_wf c) (ic_shapes c)"

definition dim_is :: "world \<Rightarrow> handle \<Rightarrow> int \<Rightarrow> bool" where
  "dim_is W h y \<longleftrightarrow> is_dim (w_ctx W) h \<and> w_dim W (the h) = y"

definition shape_is :: "world \<Rightarrow> handle \<Rightarrow> int list \<Rightarrow> bool" where
  "shape_is W h ys \<longleftrightarrow> is_shape (w_ctx W) h \<and> w_shape W (the h) = ys"

definition world_ok :: "world \<Rightarrow> bool" where
  "world_ok W \<longleftrightarrow> store_ok (w_ctx W) \<and>
     (\<forall>i < length (ic_dims (w_ctx W)). 0 \<le> w_dim W i \<and>
        (ic_dims (w_ctx W) ! i \<noteq> - 1 \<longrightarrow> w_dim W i = ic_dims (w_ctx W) ! i)) \<and>
     (\<forall>i < length (ic_shapes (w_ctx W)). list_all (\<lambda>y. 0 \<le> y) (w_shape W i) \<and>
        (is_rank (ic_shapes (w_ctx W) ! i) \<noteq> - 1 \<longrightarrow>
           w_shape W i = map (\<lambda>h. w_dim W (the h)) (is_dims (ic_shapes (w_ctx W) ! i))))"

text \<open>A later context has more dimensions and shapes and is otherwise the same.\<close>

definition grows :: "inference_context \<Rightarrow> inference_context \<Rightarrow> bool" where
  "grows c c' \<longleftrightarrow> (\<exists>ds ss. c' = c\<lparr>ic_dims := ic_dims c @ ds, ic_shapes := ic_shapes c @ ss\<rparr>)"

definition extends :: "world \<Rightarrow> world \<Rightarrow> bool" where
  "extends W W' \<longleftrightarrow> grows (w_ctx W) (w_ctx W') \<and>
     (\<forall>i < length (ic_dims (w_ctx W)). w_dim W' i = w_dim W i) \<and>
     (\<forall>i < length (ic_shapes (w_ctx W)). w_shape W' i = w_shape W i)"

lemma growsI:
  "c' = c\<lparr>ic_dims := ic_dims c @ ds, ic_shapes := ic_shapes c @ ss\<rparr> \<Longrightarrow> grows c c'"
  unfolding grows_def by blast

lemma grows_refl [simp]: "grows c c"
  by (rule growsI [where ds = "[]" and ss = "[]"]) simp

lemma grows_trans:
  assumes "grows c c'" "grows c' c''"
  shows "grows c c''"
proof -
  from assms obtain ds ss ds' ss' where
    "c' = c\<lparr>ic_dims := ic_dims c @ ds, ic_shapes := ic_shapes c @ ss\<rparr>"
    "c'' = c'\<lparr>ic_dims := ic_dims c' @ ds', ic_shapes := ic_shapes c' @ ss'\<rparr>" unfolding grows_def by blast
  then show ?thesis by (intro growsI [where ds = "ds @ ds'" and ss = "ss @ ss'"]) simp
qed

lemma grows_lists:
  "grows c c' \<Longrightarrow> (\<exists>ds. ic_dims c' = ic_dims c @ ds) \<and> (\<exists>ss. ic_shapes c' = ic_shapes c @ ss)"
  by (auto simp: grows_def)

lemma grows_handles:
  assumes "grows c c'"
  shows "is_dim c h \<Longrightarrow> is_dim c' h" "is_shape c h \<Longrightarrow> is_shape c' h"
  using grows_lists [OF assms] by (auto simp: is_dim_def is_shape_def split: option.splits)

lemma extends_refl [simp]: "extends W W"
  by (simp add: extends_def)

lemma extends_trans:
  assumes "extends W W'" "extends W' W''"
  shows "extends W W''"
proof -
  have g: "grows (w_ctx W) (w_ctx W')" "grows (w_ctx W') (w_ctx W'')" using assms by (simp_all add: extends_def)
  from grows_lists [OF g(1)] have "length (ic_dims (w_ctx W)) \<le> length (ic_dims (w_ctx W'))"
    "length (ic_shapes (w_ctx W)) \<le> length (ic_shapes (w_ctx W'))" by auto
  with assms grows_trans [OF g] show ?thesis by (simp add: extends_def)
qed

lemma extends_keeps:
  assumes "extends W W'"
  shows "dim_is W h y \<Longrightarrow> dim_is W' h y" "shape_is W h ys \<Longrightarrow> shape_is W' h ys"
  using assms grows_handles [of "w_ctx W" "w_ctx W'"]
  by (auto simp: extends_def dim_is_def shape_is_def is_dim_def is_shape_def split: option.splits)

section \<open>The rules\<close>

definition outcome :: "world \<Rightarrow> 'a iop \<Rightarrow> ('a \<Rightarrow> world \<Rightarrow> bool) \<Rightarrow> bool" where
  "outcome W m Q \<longleftrightarrow> (\<exists>x W'. m (w_ctx W) = ret (x, w_ctx W') \<and> extends W W' \<and> world_ok W' \<and> Q x W')"

lemma outcome_ret: "world_ok W \<Longrightarrow> Q x W \<Longrightarrow> outcome W (sret x) Q"
  by (force simp: outcome_def sret_def)

lemma outcome_bnd:
  assumes "outcome W m P" "\<And>x W'. extends W W' \<Longrightarrow> world_ok W' \<Longrightarrow> P x W' \<Longrightarrow> outcome W' (f x) Q"
  shows "outcome W (sbnd m f) Q"
proof -
  from assms(1) obtain x W' where 1: "m (w_ctx W) = ret (x, w_ctx W')" "extends W W'" "world_ok W'" "P x W'"
    by (auto simp: outcome_def)
  from assms(2) [OF 1(2-4)] obtain y W'' where
    "f x (w_ctx W') = ret (y, w_ctx W'')" "extends W' W''" "world_ok W''" "Q y W''" by (auto simp: outcome_def)
  with 1 show ?thesis by (auto simp: outcome_def sbnd_def intro: extends_trans)
qed

lemma outcome_read:
  assumes "f (w_ctx W) = ret x" "outcome W (g x) Q"
  shows "outcome W (sbnd (sread f) g) Q"
  using assms by (simp add: outcome_def sbnd_def sread_def)

lemma outcome_mono: "outcome W m P \<Longrightarrow> (\<And>x W'. extends W W' \<Longrightarrow> P x W' \<Longrightarrow> Q x W') \<Longrightarrow> outcome W m Q"
  by (auto simp: outcome_def)

text \<open>The allocations.\<close>

lemma shape_wf_more: "shape_wf c sh \<Longrightarrow> grows c c' \<Longrightarrow> shape_wf c' sh"
  by (auto simp: shape_wf_def list_all_iff intro: grows_handles(1))

lemma outcome_new_dim:
  assumes "world_ok W" "dim_wf v" "0 \<le> y" "v \<noteq> - 1 \<Longrightarrow> y = v"
  shows "outcome W (new_Dimension v) (\<lambda>h W'. dim_is W' h y)"
proof -
  let ?c = "w_ctx W" and ?n = "length (ic_dims (w_ctx W))"
  let ?c' = "?c\<lparr>ic_dims := ic_dims ?c @ [v]\<rparr>"
  let ?W = "W\<lparr>w_ctx := ?c', w_dim := (w_dim W)(?n := y)\<rparr>"
  have g: "grows ?c ?c'" by (rule growsI [where ds = "[v]" and ss = "[]"]) simp
  have wf: "list_all (shape_wf ?c) (ic_shapes ?c)" using assms(1) by (simp add: world_ok_def store_ok_def)
  have "store_ok ?c'"
    using assms(1,2) wf shape_wf_more [OF _ g] by (auto simp: world_ok_def store_ok_def list_all_iff)
  moreover have "map (\<lambda>h. ((w_dim W)(?n := y)) (the h)) (is_dims (ic_shapes ?c ! i)) =
      map (\<lambda>h. w_dim W (the h)) (is_dims (ic_shapes ?c ! i))" if "i < length (ic_shapes ?c)" for i
  proof -
    have "shape_wf ?c (ic_shapes ?c ! i)" using that wf by (simp add: list_all_length)
    then have "list_all (is_dim ?c) (is_dims (ic_shapes ?c ! i))" by (auto simp: shape_wf_def)
    then show ?thesis by (auto simp: list_all_iff is_dim_def split: option.splits)
  qed
  ultimately have "world_ok ?W"
    using assms by (auto simp: world_ok_def nth_append less_Suc_eq)
  moreover have "extends W ?W" using g by (auto simp: extends_def)
  moreover have "dim_is ?W (Some ?n) y" by (simp add: dim_is_def is_dim_def)
  moreover have "new_Dimension v ?c = ret (Some ?n, ?c')"
  proof -
    have "0 \<le> v \<or> v = - 1" using assms(2) by (auto simp: dim_wf_def)
    then show ?thesis by (simp add: new_Dimension_def kUnknownDim_def)
  qed
  ultimately show ?thesis unfolding outcome_def by force
qed

lemma outcome_UnknownDim:
  "world_ok W \<Longrightarrow> 0 \<le> y \<Longrightarrow> outcome W UnknownDim (\<lambda>h W'. dim_is W' h y)"
  by (simp add: UnknownDim_def MakeDim_def kUnknownDim_def outcome_new_dim dim_wf_def)

lemma outcome_new_shape:
  assumes "world_ok W" "shape_wf (w_ctx W) sh" "list_all (\<lambda>y. 0 \<le> y) ys"
    "is_rank sh \<noteq> - 1 \<Longrightarrow> ys = map (\<lambda>h. w_dim W (the h)) (is_dims sh)"
  shows "outcome W (\<lambda>c. ret (Some (length (ic_shapes c)), c\<lparr>ic_shapes := ic_shapes c @ [sh]\<rparr>)) (\<lambda>h W'. shape_is W' h ys)"
proof -
  let ?c = "w_ctx W" and ?n = "length (ic_shapes (w_ctx W))"
  let ?c' = "?c\<lparr>ic_shapes := ic_shapes ?c @ [sh]\<rparr>"
  let ?W = "W\<lparr>w_ctx := ?c', w_shape := (w_shape W)(?n := ys)\<rparr>"
  have g: "grows ?c ?c'" by (rule growsI [where ds = "[]" and ss = "[sh]"]) simp
  have "store_ok ?c'"
    using assms(1,2) shape_wf_more [OF _ g] by (auto simp: world_ok_def store_ok_def list_all_iff)
  then have "world_ok ?W" using assms by (auto simp: world_ok_def nth_append less_Suc_eq)
  moreover have "extends W ?W" using g by (auto simp: extends_def)
  moreover have "shape_is ?W (Some ?n) ys" by (simp add: shape_is_def is_shape_def)
  ultimately show ?thesis unfolding outcome_def by force
qed

lemma outcome_UnknownShape:
  "world_ok W \<Longrightarrow> list_all (\<lambda>y. 0 \<le> y) ys \<Longrightarrow> outcome W UnknownShape (\<lambda>h W'. shape_is W' h ys)"
  unfolding UnknownShape_def ic_kUnknownRank_def by (rule outcome_new_shape) (simp_all add: shape_wf_def)

lemma dim_is_nonneg: "world_ok W \<Longrightarrow> dim_is W h y \<Longrightarrow> 0 \<le> y"
  by (auto simp: world_ok_def dim_is_def is_dim_def split: option.splits)

lemma outcome_MakeShape:
  assumes "world_ok W" "list_all2 (dim_is W) hs ys"
  shows "outcome W (MakeShape_dims hs) (\<lambda>h W'. shape_is W' h ys)"
  unfolding MakeShape_dims_def
proof (rule outcome_new_shape [OF assms(1)])
  show "shape_wf (w_ctx W) \<lparr>is_rank = int (length hs), is_dims = hs\<rparr>"
    using assms(2) by (auto simp: shape_wf_def list_all_iff dim_is_def list_all2_conv_all_nth in_set_conv_nth)
  show "list_all (\<lambda>y. 0 \<le> y) ys"
    using assms by (auto simp: list_all_length list_all2_conv_all_nth intro: dim_is_nonneg)
  show "ys = map (\<lambda>h. w_dim W (the h)) (is_dims \<lparr>is_rank = int (length hs), is_dims = hs\<rparr>)"
    using assms(2) by (auto simp: list_all2_conv_all_nth dim_is_def intro!: nth_equalityI)
qed

lemma outcome_smap:
  assumes "world_ok W" "length xs = length ys"
    "\<And>i W'. i < length xs \<Longrightarrow> extends W W' \<Longrightarrow> world_ok W' \<Longrightarrow> outcome W' (f (xs ! i)) (\<lambda>h W''. dim_is W'' h (ys ! i))"
  shows "outcome W (smap f xs) (\<lambda>hs W'. list_all2 (dim_is W') hs ys)"
  using assms
proof (induction xs arbitrary: W ys)
  case Nil
  then show ?case by (auto intro: outcome_ret)
next
  case (Cons x xs)
  then obtain y ys' where ys: "ys = y # ys'" "length xs = length ys'" by (cases ys) auto
  have "outcome W (f x) (\<lambda>h W'. dim_is W' h y)" using Cons.prems(3) [of 0 W] Cons.prems(1) ys by simp
  then show ?case
    unfolding smap.simps ys(1)
  proof (rule outcome_bnd)
    fix h W1 assume 1: "extends W W1" "world_ok W1" "dim_is W1 h y"
    have "outcome W1 (smap f xs) (\<lambda>hs W'. list_all2 (dim_is W') hs ys')"
    proof (rule Cons.IH [OF 1(2) ys(2)])
      fix i W' assume "i < length xs" "extends W1 W'" "world_ok W'"
      with Cons.prems(3) [of "Suc i" W'] 1(1) ys(1) show "outcome W' (f (xs ! i)) (\<lambda>h W''. dim_is W'' h (ys' ! i))"
        by (auto intro: extends_trans)
    qed
    then show "outcome W1 (sbnd (smap f xs) (\<lambda>hs. sret (h # hs))) (\<lambda>hs W'. list_all2 (dim_is W') hs (y # ys'))"
      by (rule outcome_bnd) (use 1(3) extends_keeps(1) in \<open>auto intro: outcome_ret\<close>)
  qed
qed

section \<open>What a handle shows\<close>

definition dim_value :: "inference_context \<Rightarrow> handle \<Rightarrow> int" where
  "dim_value c h = ic_dims c ! the h"

definition shape_at :: "inference_context \<Rightarrow> handle \<Rightarrow> inferred_shape" where
  "shape_at c h = ic_shapes c ! the h"

text \<open>The sizes known of a shape, in the form of the view of a \<open>PartialTensorShape\<close>.\<close>

definition known :: "inference_context \<Rightarrow> handle \<Rightarrow> int list option" where
  "known c h = (if is_rank (shape_at c h) = - 1 then None else Some (map (dim_value c) (is_dims (shape_at c h))))"

lemma sop_simps [simp]:
  "sbnd (sret x) f = f x" "sbnd m f c = bnd (m c) (\<lambda>(x, c'). f x c')" "sret x c = ret (x, c)"
  "sread g c = bnd (g c) (\<lambda>x. ret (x, c))" "sCHECK True msg k = k" "sabort e c = abort e"
  by (simp_all add: sbnd_def sret_def sread_def sCHECK_def sabort_def)

lemma dim_value_wf: "store_ok c \<Longrightarrow> is_dim c h \<Longrightarrow> dim_wf (dim_value c h)"
  by (auto simp: store_ok_def is_dim_def dim_value_def list_all_length split: option.splits)

lemma shape_at_wf: "store_ok c \<Longrightarrow> is_shape c h \<Longrightarrow> shape_wf c (shape_at c h)"
  by (auto simp: store_ok_def is_shape_def shape_at_def list_all_length split: option.splits)

lemma shape_at_dims: "store_ok c \<Longrightarrow> is_shape c h \<Longrightarrow> list_all (is_dim c) (is_dims (shape_at c h))"
  using shape_at_wf [of c h] by (auto simp: shape_wf_def)

lemma Value_of_dim [simp]: "is_dim c h \<Longrightarrow> Value_of (Dim_arg h) c = ret (dim_value c h)"
  by (auto simp: Value_of_def dim_ref_def list_at_def is_dim_def dim_value_def split: option.splits)

lemma shape_ref_at [simp]: "is_shape c h \<Longrightarrow> shape_ref h c = ret (shape_at c h)"
  by (auto simp: shape_ref_def list_at_def is_shape_def shape_at_def split: option.splits)

lemma Rank_at [simp]: "is_shape c h \<Longrightarrow> Rank h c = ret (is_rank (shape_at c h))"
  by (auto simp: Rank_def is_shape_def split: option.splits)

lemma RankKnown_at [simp]: "is_shape c h \<Longrightarrow> RankKnown h c = ret (is_rank (shape_at c h) \<noteq> - 1)"
  by (auto simp: RankKnown_def ic_kUnknownRank_def) (simp add: is_shape_def)

lemma known_rank:
  assumes "store_ok c" "is_shape c h" "is_rank (shape_at c h) \<noteq> - 1"
  shows "is_rank (shape_at c h) = int (length (is_dims (shape_at c h)))"
  using shape_at_wf [OF assms(1,2)] assms(3) by (simp add: shape_wf_def)

lemma Dim_at:
  assumes "store_ok c" "is_shape c h" "is_rank (shape_at c h) \<noteq> - 1" "0 \<le> i" "i < is_rank (shape_at c h)"
  shows "Dim h i c = ret (is_dims (shape_at c h) ! nat i, c)"
  using assms known_rank [OF assms(1-3)] by (simp add: Dim_def ic_kUnknownRank_def list_at_def)

lemma Dim_nat:
  assumes "store_ok c" "is_shape c h" "is_rank (shape_at c h) \<noteq> - 1" "i < length (is_dims (shape_at c h))"
  shows "Dim h (int i) c = ret (is_dims (shape_at c h) ! i, c)" "is_dim c (is_dims (shape_at c h) ! i)"
  using Dim_at [OF assms(1-3), of "int i"] known_rank [OF assms(1-3)] assms(4) shape_at_dims [OF assms(1,2)]
  by (simp_all add: list_all_length)

lemma smap_same:
  assumes "\<And>x. x \<in> set xs \<Longrightarrow> f x c = ret (g x, c)"
  shows "smap f xs c = ret (map g xs, c)"
  using assms by (induction xs) auto

text \<open>In a world, a known size is the size.\<close>

lemma dim_is_value:
  assumes "world_ok W" "dim_is W h y"
  shows "dim_value (w_ctx W) h = - 1 \<or> dim_value (w_ctx W) h = y" "is_dim (w_ctx W) h"
  using assms by (auto simp: world_ok_def dim_is_def is_dim_def dim_value_def split: option.splits)

lemma shape_is_known:
  assumes "world_ok W" "shape_is W h ys" "is_rank (shape_at (w_ctx W) h) \<noteq> - 1"
  shows "list_all2 (dim_is W) (is_dims (shape_at (w_ctx W) h)) ys" "length (is_dims (shape_at (w_ctx W) h)) = length ys"
proof -
  have s: "store_ok (w_ctx W)" "is_shape (w_ctx W) h" using assms by (auto simp: world_ok_def shape_is_def)
  have "ys = map (\<lambda>d. w_dim W (the d)) (is_dims (shape_at (w_ctx W) h))"
    using assms by (auto simp: world_ok_def shape_is_def shape_at_def is_shape_def split: option.splits)
  with shape_at_dims [OF s] show "list_all2 (dim_is W) (is_dims (shape_at (w_ctx W) h)) ys"
    by (auto simp: list_all2_conv_all_nth dim_is_def list_all_length)
  then show "length (is_dims (shape_at (w_ctx W) h)) = length ys" by (rule list_all2_lengthD)
qed

lemma shape_is_ok: "world_ok W \<Longrightarrow> shape_is W h ys \<Longrightarrow> store_ok (w_ctx W) \<and> is_shape (w_ctx W) h"
  by (simp add: world_ok_def shape_is_def)

lemma shape_is_nonneg: "world_ok W \<Longrightarrow> shape_is W h ys \<Longrightarrow> list_all (\<lambda>y. 0 \<le> y) ys"
  by (auto simp: world_ok_def shape_is_def is_shape_def split: option.splits)

lemma shape_is_instance:
  assumes "world_ok W" "shape_is W h ys"
  shows "is_instance (known (w_ctx W) h) ys"
proof (cases "is_rank (shape_at (w_ctx W) h) = - 1")
  case True
  with shape_is_nonneg [OF assms] show ?thesis by (simp add: known_def is_instance_def)
next
  case False
  from shape_is_known(1) [OF assms False] have "list_all2 size_instance (map (dim_value (w_ctx W)) (is_dims (shape_at (w_ctx W) h))) ys"
    using dim_is_value(1) [OF assms(1)] by (fastforce simp: list_all2_conv_all_nth size_instance_def)
  with False shape_is_nonneg [OF assms] show ?thesis by (simp add: known_def is_instance_def)
qed

section \<open>Merging\<close>

definition pick_dim :: "inference_context \<Rightarrow> handle \<Rightarrow> handle \<Rightarrow> handle" where
  "pick_dim c d0 d1 = (if d0 = d1 \<or> dim_value c d1 = - 1 then d0 else if dim_value c d0 = - 1 then d1 else d0)"

lemma compatible_values:
  assumes "dim_wf a" "dim_wf b"
  shows "compatible a b \<longleftrightarrow> a = - 1 \<or> b = - 1 \<or> a = b"
  using assms by (auto simp: compatible_def dim_wf_def)

lemma Merge_dim_eq:
  assumes "store_ok c" "is_dim c d0" "is_dim c d1"
  shows "if compatible (dim_value c d0) (dim_value c d1) then Merge_dim d0 d1 c = ret ((OK, pick_dim c d0 d1), c)
    else \<exists>msg. Merge_dim d0 d1 c = ret ((InvalidArgument msg, None), c)"
  using assms compatible_values [OF dim_value_wf [OF assms(1,2)] dim_value_wf [OF assms(1,3)]]
  by (auto simp: Merge_dim_def pick_dim_def kUnknownDim_def)

lemma pick_dim_value:
  assumes "store_ok c" "is_dim c d0" "is_dim c d1" "compatible (dim_value c d0) (dim_value c d1)"
  shows "is_dim c (pick_dim c d0 d1)" "dim_value c (pick_dim c d0 d1) = merge_size (dim_value c d0) (dim_value c d1)"
proof -
  show "is_dim c (pick_dim c d0 d1)" using assms by (simp add: pick_dim_def)
  show "dim_value c (pick_dim c d0 d1) = merge_size (dim_value c d0) (dim_value c d1)"
    using dim_value_wf [OF assms(1,2)] dim_value_wf [OF assms(1,3)] assms(4)
    by (auto simp: pick_dim_def merge_size_def dim_wf_def compatible_def)
qed

text \<open>The first list is known wherever the second is.\<close>

definition tells_all :: "int list \<Rightarrow> int list \<Rightarrow> bool" where
  "tells_all vs ws \<longleftrightarrow> (\<forall>i < length vs. vs ! i = - 1 \<longrightarrow> ws ! i = - 1)"

text \<open>Two shapes of the same known rank: their dimensions and the sizes known of them.\<close>

definition two_shapes ::
  "inference_context \<Rightarrow> handle \<Rightarrow> handle \<Rightarrow> handle list \<Rightarrow> handle list \<Rightarrow> int list \<Rightarrow> int list \<Rightarrow> bool" where
  "two_shapes c s0 s1 ds es vs ws \<longleftrightarrow> store_ok c \<and> is_shape c s0 \<and> is_shape c s1 \<and>
     is_rank (shape_at c s0) \<noteq> - 1 \<and> is_rank (shape_at c s1) \<noteq> - 1 \<and>
     is_rank (shape_at c s0) = is_rank (shape_at c s1) \<and>
     ds = is_dims (shape_at c s0) \<and> es = is_dims (shape_at c s1) \<and> vs = map (dim_value c) ds \<and> ws = map (dim_value c) es"

lemma two_shapes_facts:
  assumes "two_shapes c s0 s1 ds es vs ws"
  shows "store_ok c" "is_shape c s0" "is_shape c s1" "is_rank (shape_at c s0) \<noteq> - 1" "is_rank (shape_at c s1) \<noteq> - 1"
    "is_rank (shape_at c s0) = is_rank (shape_at c s1)" "ds = is_dims (shape_at c s0)" "es = is_dims (shape_at c s1)"
    "vs = map (dim_value c) ds" "ws = map (dim_value c) es"
  using assms by (simp_all add: two_shapes_def)

lemma two_shapes_lengths:
  assumes "two_shapes c s0 s1 ds es vs ws"
  shows "length es = length ds" "length vs = length ds" "length ws = length ds"
    "is_rank (shape_at c s0) = int (length ds)" "[0..is_rank (shape_at c s0) - 1] = map int [0..<length ds]"
proof -
  note f = two_shapes_facts [OF assms]
  show "length es = length ds" "length vs = length ds" "length ws = length ds" "is_rank (shape_at c s0) = int (length ds)"
    using known_rank [OF f(1,2,4)] known_rank [OF f(1,3,5)] f(6-10) by simp_all
  then show "[0..is_rank (shape_at c s0) - 1] = map int [0..<length ds]" by (simp add: upto_upt)
qed

lemma two_shapes_at:
  assumes "two_shapes c s0 s1 ds es vs ws" "i < length ds"
  shows "Dim s0 (int i) c = ret (ds ! i, c)" "Dim s1 (int i) c = ret (es ! i, c)" "is_dim c (ds ! i)" "is_dim c (es ! i)"
    "dim_value c (ds ! i) = vs ! i" "dim_value c (es ! i) = ws ! i" "dim_wf (vs ! i)" "dim_wf (ws ! i)"
    "compatible (vs ! i) (ws ! i) \<longleftrightarrow> vs ! i = - 1 \<or> ws ! i = - 1 \<or> vs ! i = ws ! i"
proof -
  note f = two_shapes_facts [OF assms(1)] and l = two_shapes_lengths [OF assms(1)]
  show d: "Dim s0 (int i) c = ret (ds ! i, c)" "Dim s1 (int i) c = ret (es ! i, c)" "is_dim c (ds ! i)" "is_dim c (es ! i)"
    using Dim_nat [OF f(1,2,4)] Dim_nat [OF f(1,3,5)] assms(2) l(1) f(7,8) by simp_all
  show v: "dim_value c (ds ! i) = vs ! i" "dim_value c (es ! i) = ws ! i"
    using assms(2) l f(9,10) by simp_all
  show w: "dim_wf (vs ! i)" "dim_wf (ws ! i)" using dim_value_wf [OF f(1) d(3)] dim_value_wf [OF f(1) d(4)] v by simp_all
  show "compatible (vs ! i) (ws ! i) \<longleftrightarrow> vs ! i = - 1 \<or> ws ! i = - 1 \<or> vs ! i = ws ! i"
    by (rule compatible_values [OF w])
qed

lemma Merge_scan_eq:
  assumes "two_shapes c s0 s1 ds es vs ws" "set js \<subseteq> {..<length ds}"
  shows "if \<forall>i \<in> set js. compatible (vs ! i) (ws ! i)
    then Merge_scan s0 s1 (map int js) flags c =
      ret ((OK, fst flags \<and> (\<forall>i \<in> set js. vs ! i = - 1 \<longrightarrow> ws ! i = - 1),
                snd flags \<and> (\<forall>i \<in> set js. ws ! i = - 1 \<longrightarrow> vs ! i = - 1)), c)
    else \<exists>msg fs. Merge_scan s0 s1 (map int js) flags c = ret ((InvalidArgument msg, fs), c)"
  using assms(2)
proof (induction js arbitrary: flags)
  case (Cons i js)
  then have i: "i < length ds" and js: "set js \<subseteq> {..<length ds}" by simp_all
  note a = two_shapes_at [OF assms(1) i]
  note IH = Cons.IH [OF js]
  have eq: "ds ! i = es ! i \<Longrightarrow> vs ! i = ws ! i" using a(5,6) by simp
  show ?case
  proof (cases "compatible (vs ! i) (ws ! i)")
    case False
    then have ne: "vs ! i \<noteq> - 1" "ws ! i \<noteq> - 1" "vs ! i \<noteq> ws ! i" using a(9) by auto
    then have "ds ! i \<noteq> es ! i" using eq by auto
    with a ne have "\<exists>msg. Merge_scan s0 s1 (map int (i # js)) flags c = ret ((InvalidArgument msg, flags), c)"
      by (auto simp: kUnknownDim_def)
    with False show ?thesis by auto
  next
    case True
    define fs where "fs = (fst flags \<and> (vs ! i = - 1 \<longrightarrow> ws ! i = - 1), snd flags \<and> (ws ! i = - 1 \<longrightarrow> vs ! i = - 1))"
    have fst_fs: "fst fs = (fst flags \<and> (vs ! i = - 1 \<longrightarrow> ws ! i = - 1))"
      and snd_fs: "snd fs = (snd flags \<and> (ws ! i = - 1 \<longrightarrow> vs ! i = - 1))" by (simp_all add: fs_def)
    have step: "Merge_scan s0 s1 (map int (i # js)) flags c = Merge_scan s0 s1 (map int js) fs c"
      using True a eq by (cases flags) (auto simp: kUnknownDim_def fs_def)
    show ?thesis
    proof (cases "\<forall>i \<in> set js. compatible (vs ! i) (ws ! i)")
      case all: True
      with IH [of fs] have "Merge_scan s0 s1 (map int js) fs c =
        ret ((OK, fst fs \<and> (\<forall>i \<in> set js. vs ! i = - 1 \<longrightarrow> ws ! i = - 1),
                  snd fs \<and> (\<forall>i \<in> set js. ws ! i = - 1 \<longrightarrow> vs ! i = - 1)), c)" by simp
      then show ?thesis unfolding step using True all by (simp add: fst_fs snd_fs conj_assoc)
    next
      case False
      with IH [of fs] have "\<exists>msg fs'. Merge_scan s0 s1 (map int js) fs c = ret ((InvalidArgument msg, fs'), c)" by auto
      moreover from False have "\<not> (\<forall>i \<in> set (i # js). compatible (vs ! i) (ws ! i))" by simp
      ultimately show ?thesis unfolding step by auto
    qed
  qed
qed auto

lemma Merge_at_eq:
  assumes "two_shapes c s0 s1 ds es vs ws" "\<forall>i < length ds. compatible (vs ! i) (ws ! i)"
  shows "smap (Merge_at s0 s1) (map int [0..<length ds]) c = ret (map2 (pick_dim c) ds es, c)"
proof -
  have "Merge_at s0 s1 (int i) c = ret (pick_dim c (ds ! i) (es ! i), c)" if "i < length ds" for i
    using two_shapes_at [OF assms(1) that] assms(2) that
      Merge_dim_eq [OF two_shapes_facts(1) [OF assms(1)] two_shapes_at(3,4) [OF assms(1) that]]
    by (simp add: Merge_at_def TF_CHECK_OK_def TfCheckOpHelper_def)
  then have "smap (Merge_at s0 s1) (map int [0..<length ds]) c =
      ret (map (\<lambda>i. pick_dim c (ds ! nat i) (es ! nat i)) (map int [0..<length ds]), c)"
    by (intro smap_same) auto
  also have "map (\<lambda>i. pick_dim c (ds ! nat i) (es ! nat i)) (map int [0..<length ds]) = map2 (pick_dim c) ds es"
    using two_shapes_lengths(1) [OF assms(1)] by (intro nth_equalityI) auto
  finally show ?thesis .
qed

lemma Merge_shape_eq:
  assumes "two_shapes c s0 s1 ds es vs ws" "s0 \<noteq> s1"
  shows "if list_all2 compatible vs ws then Merge_shape s0 s1 c =
      (if tells_all vs ws then ret ((OK, s0), c)
       else if tells_all ws vs then ret ((OK, s1), c)
       else ReturnCreatedShape (map2 (pick_dim c) ds es) c)
    else \<exists>msg. Merge_shape s0 s1 c = ret ((InvalidArgument msg, None), c)"
proof -
  note f = two_shapes_facts [OF assms(1)] and l = two_shapes_lengths [OF assms(1)]
  have all_compatible: "list_all2 compatible vs ws \<longleftrightarrow> (\<forall>i < length ds. compatible (vs ! i) (ws ! i))"
    by (simp add: list_all2_conv_all_nth l(2,3))
  have sub: "set [0..<length ds] \<subseteq> {..<length ds}" by auto
  have bounds: "(\<forall>i \<in> set [0..<length ds]. P i) \<longleftrightarrow> (\<forall>i < length ds. P i)" for P by auto
  have scan: "if \<forall>i < length ds. compatible (vs ! i) (ws ! i)
    then Merge_scan s0 s1 (map int [0..<length ds]) (True, True) c =
      ret ((OK, tells_all vs ws, tells_all ws vs), c)
    else \<exists>msg fs. Merge_scan s0 s1 (map int [0..<length ds]) (True, True) c = ret ((InvalidArgument msg, fs), c)"
    using Merge_scan_eq [OF assms(1) sub, of "(True, True)"] unfolding bounds fst_conv snd_conv simp_thms tells_all_def l(2,3) .
  show ?thesis
  proof (cases "list_all2 compatible vs ws")
    case True
    then have all: "\<forall>i < length ds. compatible (vs ! i) (ws ! i)" using all_compatible by blast
    with scan Merge_at_eq [OF assms(1) all] True assms(2) f(2-6) l(5) show ?thesis
      by (simp add: Merge_shape_def)
  next
    case False
    then have "\<not> (\<forall>i < length ds. compatible (vs ! i) (ws ! i))" using all_compatible by blast
    with scan False assms(2) f(2-6) l(5) show ?thesis by (auto simp: Merge_shape_def)
  qed
qed

lemma created_shape:
  assumes "store_ok c" "list_all (is_dim c) hs"
  shows "\<exists>h c'. ReturnCreatedShape hs c = ret ((OK, h), c') \<and> grows c c' \<and> store_ok c' \<and> is_shape c' h \<and>
    known c' h = Some (map (dim_value c) hs)"
proof -
  let ?sh = "\<lparr>is_rank = int (length hs), is_dims = hs\<rparr>"
  let ?c' = "c\<lparr>ic_shapes := ic_shapes c @ [?sh]\<rparr>" and ?h = "Some (length (ic_shapes c))"
  have g: "grows c ?c'" by (rule growsI [where ds = "[]" and ss = "[?sh]"]) simp
  have sh: "shape_wf c ?sh" using assms(2) by (simp add: shape_wf_def)
  have "store_ok ?c'"
    using assms(1) sh shape_wf_more [OF _ g] by (auto simp: store_ok_def list_all_iff)
  moreover have "known ?c' ?h = Some (map (dim_value c) hs)"
    by (simp add: known_def shape_at_def dim_value_def)
  moreover have "is_shape ?c' ?h" by (simp add: is_shape_def)
  ultimately show ?thesis using g by (auto simp: ReturnCreatedShape_def MakeShape_dims_def)
qed

lemma merge_view_tells:
  assumes "list_all dim_wf vs" "list_all dim_wf ws" "list_all2 compatible vs ws"
  shows "tells_all vs ws \<Longrightarrow> map2 merge_size vs ws = vs" "tells_all ws vs \<Longrightarrow> map2 merge_size vs ws = ws"
proof -
  have l: "length ws = length vs" using assms(3) by (simp add: list_all2_lengthD)
  have e: "merge_size (vs ! i) (ws ! i) = (if vs ! i = - 1 then ws ! i else vs ! i)"
    "vs ! i = - 1 \<or> ws ! i = - 1 \<or> vs ! i = ws ! i" if "i < length vs" for i
    using assms that compatible_values [of "vs ! i" "ws ! i"] l
    by (auto simp: merge_size_def dim_wf_def list_all_length list_all2_conv_all_nth)
  show "map2 merge_size vs ws = vs" if "tells_all vs ws"
    using that l e by (intro nth_equalityI) (auto simp: tells_all_def)
  show "map2 merge_size vs ws = ws" if "tells_all ws vs"
    using that l e by (intro nth_equalityI) (auto simp: tells_all_def)
qed

lemma merge_view_self: "merge_view v v = v"
proof (cases v)
  case (Some vs)
  have "map2 merge_size vs vs = vs" by (intro nth_equalityI) (auto simp: merge_size_def)
  with Some show ?thesis by simp
qed simp

lemma Merge_shape_view:
  assumes "store_ok c" "is_shape c s0" "is_shape c s1"
  shows "\<exists>st h c'. Merge_shape s0 s1 c = ret ((st, h), c') \<and> grows c c' \<and> store_ok c' \<and>
    (ok st \<longleftrightarrow> (\<exists>ds. is_instance (known c s0) ds \<and> is_instance (known c s1) ds)) \<and>
    (ok st \<longrightarrow> is_shape c' h \<and> known c' h = merge_view (known c s0) (known c s1))"
proof -
  consider (same) "s0 = s1 \<or> is_rank (shape_at c s1) = - 1"
    | (one) "s0 \<noteq> s1" "is_rank (shape_at c s1) \<noteq> - 1" "is_rank (shape_at c s0) = - 1"
    | (ranks) "s0 \<noteq> s1" "is_rank (shape_at c s0) \<noteq> - 1" "is_rank (shape_at c s1) \<noteq> - 1"
        "is_rank (shape_at c s0) \<noteq> is_rank (shape_at c s1)"
    | (both) "s0 \<noteq> s1" "is_rank (shape_at c s0) \<noteq> - 1" "is_rank (shape_at c s1) \<noteq> - 1"
        "is_rank (shape_at c s0) = is_rank (shape_at c s1)" by blast
  then show ?thesis
  proof cases
    case same
    have v: "s0 = s1 \<or> known c s1 = None" using same by (auto simp: known_def)
    have eq: "Merge_shape s0 s1 c = ret ((OK, s0), c)" using same assms(3) by (auto simp: Merge_shape_def)
    have "\<exists>ds. is_instance (known c s0) ds \<and> is_instance (known c s1) ds"
      unfolding compatible_iff using v
      by (auto simp: compatible_def list_all2_conv_all_nth split: option.splits)
    moreover have "merge_view (known c s0) (known c s1) = known c s0"
      using v merge_view_self by (cases "known c s0") auto
    ultimately show ?thesis using eq assms by simp
  next
    case one
    then have "Merge_shape s0 s1 c = ret ((OK, s1), c)" using assms by (simp add: Merge_shape_def)
    moreover have "known c s0 = None" using one by (simp add: known_def)
    ultimately show ?thesis using assms unfolding compatible_iff by simp
  next
    case ranks
    then have "\<exists>msg. Merge_shape s0 s1 c = ret ((InvalidArgument msg, None), c)" using assms by (auto simp: Merge_shape_def)
    moreover have "length (is_dims (shape_at c s0)) \<noteq> length (is_dims (shape_at c s1))"
      using known_rank [OF assms(1,2) ranks(2)] known_rank [OF assms(1,3) ranks(3)] ranks(4) by simp
    then have "\<not> (\<exists>ds. is_instance (known c s0) ds \<and> is_instance (known c s1) ds)"
      unfolding compatible_iff using ranks(2,3) by (auto simp: known_def dest: list_all2_lengthD)
    ultimately show ?thesis using assms(1) by auto
  next
    case both
    let ?ds = "is_dims (shape_at c s0)" and ?es = "is_dims (shape_at c s1)"
    let ?vs = "map (dim_value c) ?ds" and ?ws = "map (dim_value c) ?es"
    have ts: "two_shapes c s0 s1 ?ds ?es ?vs ?ws" using assms both by (simp add: two_shapes_def)
    note l = two_shapes_lengths [OF ts] and a = two_shapes_at [OF ts]
    have k: "known c s0 = Some ?vs" "known c s1 = Some ?ws" using both by (simp_all add: known_def)
    have wf: "list_all dim_wf ?vs" "list_all dim_wf ?ws" using a(7,8) l(1) by (simp_all add: list_all_length)
    show ?thesis
    proof (cases "list_all2 compatible ?vs ?ws")
      case True
      have "list_all (is_dim c) (map2 (pick_dim c) ?ds ?es)"
        using a(3,4) l(1) by (auto simp: list_all_length pick_dim_def)
      note new = created_shape [OF assms(1) this]
      have "dim_value c (pick_dim c (?ds ! i) (?es ! i)) = merge_size (?vs ! i) (?ws ! i)" if "i < length ?ds" for i
      proof -
        have "compatible (dim_value c (?ds ! i)) (dim_value c (?es ! i))"
          using True that a(5,6) [OF that] l(2) by (metis list_all2_nthD)
        from pick_dim_value(2) [OF assms(1) a(3,4) [OF that] this] show ?thesis unfolding a(5,6) [OF that] .
      qed
      then have sizes_new: "map (dim_value c) (map2 (pick_dim c) ?ds ?es) = map2 merge_size ?vs ?ws"
        using l(1) by (intro nth_equalityI) simp_all
      have meet: "(\<exists>ds. is_instance (known c s0) ds \<and> is_instance (known c s1) ds) = True"
        unfolding compatible_iff k using True by simp
      have view: "merge_view (known c s0) (known c s1) = Some (map2 merge_size ?vs ?ws)"
        by (simp only: k merge_view.simps)
      have eq: "Merge_shape s0 s1 c = (if tells_all ?vs ?ws then ret ((OK, s0), c)
          else if tells_all ?ws ?vs then ret ((OK, s1), c) else ReturnCreatedShape (map2 (pick_dim c) ?ds ?es) c)"
        using Merge_shape_eq [OF ts both(1)] True by (simp only: if_True)
      show ?thesis
      proof (cases "tells_all ?vs ?ws \<or> tells_all ?ws ?vs")
        case True
        then obtain h where "Merge_shape s0 s1 c = ret ((OK, h), c)" "is_shape c h" "known c h = Some (map2 merge_size ?vs ?ws)"
          using eq assms k merge_view_tells [OF wf \<open>list_all2 compatible ?vs ?ws\<close>] by (cases "tells_all ?vs ?ws") fastforce+
        then show ?thesis unfolding meet view using assms(1) by (auto intro!: exI [of _ OK])
      next
        case False
        with eq new obtain h c' where "Merge_shape s0 s1 c = ret ((OK, h), c')" "grows c c'" "store_ok c'" "is_shape c' h"
          "known c' h = Some (map2 merge_size ?vs ?ws)" unfolding sizes_new by auto
        then show ?thesis unfolding meet view by (auto intro!: exI [of _ OK])
      qed
    next
      case False
      with Merge_shape_eq [OF ts both(1)] k assms(1) show ?thesis unfolding compatible_iff by auto
    qed
  qed
qed

section \<open>Soundness of merging and relaxing\<close>

lemma outcome_eq:
  "m (w_ctx W) = ret (x, w_ctx W) \<Longrightarrow> world_ok W \<Longrightarrow> Q x W \<Longrightarrow> outcome W m Q"
  unfolding outcome_def by force

lemma outcome_cong: "outcome W m' Q \<Longrightarrow> m (w_ctx W) = m' (w_ctx W) \<Longrightarrow> outcome W m Q"
  by (simp add: outcome_def)

lemma outcome_created:
  assumes "world_ok W" "list_all2 (dim_is W) hs ys"
  shows "outcome W (ReturnCreatedShape hs) (\<lambda>(st, h) W'. ok st \<and> shape_is W' h ys)"
  unfolding ReturnCreatedShape_def
  by (rule outcome_bnd [OF outcome_MakeShape [OF assms]]) (auto intro: outcome_ret)

lemma outcome_unknown:
  "world_ok W \<Longrightarrow> list_all (\<lambda>y. 0 \<le> y) ys \<Longrightarrow>
    outcome W ReturnUnknownShape (\<lambda>(st, h) W'. ok st \<and> shape_is W' h ys)"
  unfolding ReturnUnknownShape_def
  by (rule outcome_bnd [OF outcome_UnknownShape]) (auto intro: outcome_ret)

lemma shape_is_fun: "shape_is W h ys \<Longrightarrow> shape_is W h zs \<Longrightarrow> ys = zs"
  by (simp add: shape_is_def)

lemma dim_is_fun: "dim_is W h y \<Longrightarrow> dim_is W h z \<Longrightarrow> y = z"
  by (simp add: dim_is_def)

lemma Merge_shape_sound:
  assumes "world_ok W" "shape_is W s0 ys" "shape_is W s1 ys"
  shows "outcome W (Merge_shape s0 s1) (\<lambda>(st, h) W'. ok st \<and> shape_is W' h ys)"
proof -
  let ?c = "w_ctx W"
  have s: "store_ok ?c" "is_shape ?c s0" "is_shape ?c s1" using shape_is_ok assms by auto
  show ?thesis
  proof (cases "s0 = s1 \<or> is_rank (shape_at ?c s1) = - 1")
    case True
    then have "Merge_shape s0 s1 ?c = ret ((OK, s0), ?c)" using s by (auto simp: Merge_shape_def)
    with assms show ?thesis by (intro outcome_eq) auto
  next
    case k1: False
    show ?thesis
    proof (cases "is_rank (shape_at ?c s0) = - 1")
      case True
      then have "Merge_shape s0 s1 ?c = ret ((OK, s1), ?c)" using s k1 by (simp add: Merge_shape_def)
      with assms show ?thesis by (intro outcome_eq) auto
    next
      case k0: False
      let ?ds = "is_dims (shape_at ?c s0)" and ?es = "is_dims (shape_at ?c s1)"
      let ?vs = "map (dim_value ?c) ?ds" and ?ws = "map (dim_value ?c) ?es"
      note d0 = shape_is_known [OF assms(1,2) k0] and d1 = shape_is_known [OF assms(1,3)]
      have d1: "list_all2 (dim_is W) ?es ys" "length ?es = length ys" using shape_is_known [OF assms(1,3)] k1 by auto
      have ts: "two_shapes ?c s0 s1 ?ds ?es ?vs ?ws"
        using s k0 k1 known_rank [OF s(1,2) k0] known_rank [OF s(1,3)] d0(2) d1(2) by (auto simp: two_shapes_def)
      have "\<exists>ds. is_instance (known ?c s0) ds \<and> is_instance (known ?c s1) ds"
        using shape_is_instance [OF assms(1,2)] shape_is_instance [OF assms(1,3)] by blast
      then have comp: "list_all2 compatible ?vs ?ws" unfolding compatible_iff using k0 k1 by (simp add: known_def)
      have picked: "list_all2 (dim_is W) (map2 (pick_dim ?c) ?ds ?es) ys"
        using d0 d1 by (auto simp: list_all2_conv_all_nth pick_dim_def)
      have "Merge_shape s0 s1 ?c = (if tells_all ?vs ?ws then ret ((OK, s0), ?c)
          else if tells_all ?ws ?vs then ret ((OK, s1), ?c) else ReturnCreatedShape (map2 (pick_dim ?c) ?ds ?es) ?c)"
        using Merge_shape_eq [OF ts] comp k1 by simp
      then consider "Merge_shape s0 s1 ?c = ret ((OK, s0), ?c)" | "Merge_shape s0 s1 ?c = ret ((OK, s1), ?c)"
        | "Merge_shape s0 s1 ?c = ReturnCreatedShape (map2 (pick_dim ?c) ?ds ?es) ?c" by (auto split: if_splits)
      then show ?thesis
      proof cases
        case 3
        show ?thesis by (rule outcome_cong [OF outcome_created [OF assms(1) picked]]) (rule 3)
      qed (use assms in \<open>auto intro!: outcome_eq\<close>)
    qed
  qed
qed

lemma grows_shape_at:
  assumes "grows c c'" "is_shape c h"
  shows "shape_at c' h = shape_at c h"
  using grows_lists [OF assms(1)] assms(2) by (auto simp: shape_at_def is_shape_def nth_append split: option.splits)

lemma outcome_Dim:
  assumes "world_ok W" "shape_is W h ys" "is_rank (shape_at (w_ctx W) h) \<noteq> - 1" "i < length ys"
  shows "outcome W (Dim h (int i)) (\<lambda>d W'. W' = W \<and> dim_is W d (ys ! i))"
proof -
  note k = shape_is_known [OF assms(1-3)] and s = shape_is_ok [OF assms(1,2)]
  have "Dim h (int i) (w_ctx W) = ret (is_dims (shape_at (w_ctx W) h) ! i, w_ctx W)"
    using Dim_nat(1) [OF _ _ assms(3)] s k(2) assms(4) by simp
  moreover have "dim_is W (is_dims (shape_at (w_ctx W) h) ! i) (ys ! i)"
    using k(1) assms(4) by (simp add: list_all2_conv_all_nth)
  ultimately show ?thesis using assms(1) by (intro outcome_eq) auto
qed

lemma outcome_Relax_dim:
  assumes "world_ok W" "dim_is W d0 y" "dim_is W d1 z" "t = y \<or> t = z"
  shows "outcome W (Relax_dim d0 d1) (\<lambda>h W'. dim_is W' h t)"
proof -
  note v0 = dim_is_value [OF assms(1,2)] and v1 = dim_is_value [OF assms(1,3)]
  have t: "0 \<le> t" using assms dim_is_nonneg by auto
  let ?same = "d0 = d1 \<or> dim_value (w_ctx W) d0 = dim_value (w_ctx W) d1 \<and> dim_value (w_ctx W) d0 \<noteq> - 1"
  have eq: "Relax_dim d0 d1 (w_ctx W) = (if ?same then ret (d0, w_ctx W) else UnknownDim (w_ctx W))"
    using v0(2) v1(2) by (auto simp: Relax_dim_def kUnknownDim_def)
  show ?thesis
  proof (cases ?same)
    case True
    then have "y = z" using v0(1) v1(1) assms(2,3) dim_is_fun [of W d0 y z] by auto
    with True eq assms show ?thesis by (intro outcome_eq) auto
  next
    case False
    with eq show ?thesis by (intro outcome_cong [OF outcome_UnknownDim [OF assms(1) t]]) simp
  qed
qed

lemma Relax_scan_same:
  assumes "two_shapes c s0 s1 ds es vs ws" "set js \<subseteq> {..<length ds}"
  shows "\<exists>b. Relax_scan s0 s1 (map int js) c = ret (b, c) \<and>
    (b \<longrightarrow> (\<forall>i \<in> set js. ds ! i = es ! i \<or> vs ! i = ws ! i \<and> vs ! i \<noteq> - 1))"
  using assms(2)
proof (induction js)
  case (Cons i js)
  then have i: "i < length ds" by simp
  note a = two_shapes_at [OF assms(1) i]
  from Cons obtain b where b: "Relax_scan s0 s1 (map int js) c = ret (b, c)"
    "b \<longrightarrow> (\<forall>i \<in> set js. ds ! i = es ! i \<or> vs ! i = ws ! i \<and> vs ! i \<noteq> - 1)" by auto
  show ?case
  proof (cases "ds ! i = es ! i \<or> vs ! i = ws ! i \<and> vs ! i \<noteq> - 1")
    case True
    then have "Relax_scan s0 s1 (map int (i # js)) c = ret (b, c)" using a b(1) by (auto simp: kUnknownDim_def)
    with True b(2) show ?thesis by simp
  next
    case False
    then have "Relax_scan s0 s1 (map int (i # js)) c = ret (False, c)" using a by (auto simp: kUnknownDim_def)
    then show ?thesis by (intro exI [of _ False]) simp
  qed
qed auto

lemma Relax_shape_sound:
  assumes "world_ok W" "shape_is W s0 ys" "shape_is W s1 zs" "us = ys \<or> us = zs"
  shows "outcome W (Relax_shape s0 s1) (\<lambda>h W'. shape_is W' h us)"
proof -
  let ?c = "w_ctx W"
  have s: "store_ok ?c" "is_shape ?c s0" "is_shape ?c s1" using shape_is_ok assms by auto
  have us: "list_all (\<lambda>y. 0 \<le> y) us" using assms shape_is_nonneg by auto
  show ?thesis
  proof (cases "s0 = s1")
    case True
    then have "us = ys" using shape_is_fun assms by auto
    with True assms show ?thesis by (auto simp: Relax_shape_def intro: outcome_ret)
  next
    case ne: False
    show ?thesis
    proof (cases "is_rank (shape_at ?c s0) = - 1 \<or> is_rank (shape_at ?c s1) = - 1 \<or>
        is_rank (shape_at ?c s0) \<noteq> is_rank (shape_at ?c s1)")
      case True
      then have "Relax_shape s0 s1 ?c = UnknownShape ?c" using s ne by (auto simp: Relax_shape_def)
      then show ?thesis by (rule outcome_cong [OF outcome_UnknownShape [OF assms(1) us]])
    next
      case False
      then have k: "is_rank (shape_at ?c s0) \<noteq> - 1" "is_rank (shape_at ?c s1) \<noteq> - 1"
        "is_rank (shape_at ?c s0) = is_rank (shape_at ?c s1)" by auto
      let ?ds = "is_dims (shape_at ?c s0)" and ?es = "is_dims (shape_at ?c s1)"
      have ts: "two_shapes ?c s0 s1 ?ds ?es (map (dim_value ?c) ?ds) (map (dim_value ?c) ?es)"
        using s k by (simp add: two_shapes_def)
      note l = two_shapes_lengths [OF ts] and d0 = shape_is_known [OF assms(1,2) k(1)] and d1 = shape_is_known [OF assms(1,3) k(2)]
      have len: "length us = length ?ds" "length ys = length ?ds" "length zs = length ?ds" using assms(4) l(1) d0(2) d1(2) by auto
      have "set [0..<length ?ds] \<subseteq> {..<length ?ds}" by auto
      from Relax_scan_same [OF ts this] obtain b where b: "Relax_scan s0 s1 (map int [0..<length ?ds]) ?c = ret (b, ?c)"
        "b \<Longrightarrow> i < length ?ds \<Longrightarrow> ?ds ! i = ?es ! i \<or>
           dim_value ?c (?ds ! i) = dim_value ?c (?es ! i) \<and> dim_value ?c (?ds ! i) \<noteq> - 1" for i
        using l(1) by auto
      have eq: "Relax_shape s0 s1 ?c = (if b then ret (s0, ?c)
          else sbnd (smap (Relax_at s0 s1) (map int [0..<length ?ds])) MakeShape_dims ?c)"
        using s ne k l(5) b(1) by (simp add: Relax_shape_def)
      show ?thesis
      proof (cases b)
        case True
        have "ys ! i = zs ! i" if "i < length ?ds" for i
          using b(2) [OF True that] that d0(1) d1(1) len(2,3) dim_is_value(1) [OF assms(1), of "?ds ! i" "ys ! i"]
            dim_is_value(1) [OF assms(1), of "?es ! i" "zs ! i"] dim_is_fun [of W "?ds ! i" "ys ! i" "zs ! i"] l(1)
          by (auto simp: list_all2_conv_all_nth)
        then have "us = ys" using assms(4) len(2,3) by (metis nth_equalityI)
        with eq True assms(1,2) show ?thesis by (intro outcome_eq) auto
      next
        case False
        have "outcome W (smap (Relax_at s0 s1) (map int [0..<length ?ds])) (\<lambda>hs W'. list_all2 (dim_is W') hs us)"
        proof (rule outcome_smap [OF assms(1)])
          fix i W' assume i: "i < length (map int [0..<length ?ds])" "extends W W'" "world_ok W'"
          have g: "grows ?c (w_ctx W')" using i(2) by (simp add: extends_def)
          have sh: "shape_is W' s0 ys" "shape_is W' s1 zs" using extends_keeps(2) [OF i(2)] assms(2,3) by auto
          have r: "is_rank (shape_at (w_ctx W') s0) \<noteq> - 1" "is_rank (shape_at (w_ctx W') s1) \<noteq> - 1"
            using k grows_shape_at [OF g] s by auto
          have i': "i < length ys" "i < length zs" using i(1) len by auto
          have "outcome W' (Relax_at s0 s1 (int i)) (\<lambda>h W''. dim_is W'' h (us ! i))"
            unfolding Relax_at_def
            by (rule outcome_bnd [OF outcome_Dim [OF i(3) sh(1) r(1) i'(1)]], elim conjE, hypsubst,
                rule outcome_bnd [OF outcome_Dim [OF i(3) sh(2) r(2) i'(2)]], elim conjE, hypsubst,
                rule outcome_Relax_dim) (use i(3) assms(4) in auto)
          then show "outcome W' (Relax_at s0 s1 (map int [0..<length ?ds] ! i)) (\<lambda>h W''. dim_is W'' h (us ! i))"
            using i(1) by simp
        qed (simp add: len)
        then have "outcome W (sbnd (smap (Relax_at s0 s1) (map int [0..<length ?ds])) MakeShape_dims) (\<lambda>h W'. shape_is W' h us)"
          by (rule outcome_bnd) (auto intro: outcome_MakeShape)
        then show ?thesis by (rule outcome_cong) (simp only: eq False if_False)
      qed
    qed
  qed
qed

section \<open>Properties\<close>

text \<open>A context with nothing but dimensions and shapes.\<close>

definition plain_context :: "int list \<Rightarrow> inferred_shape list \<Rightarrow> inference_context" where
  "plain_context ds ss = \<lparr>ic_shapes = ss, ic_dims = ds, ic_inputs = [], ic_input_tensors = [], ic_requested = [],
     ic_outputs = [], ic_as_shapes = [], ic_requested_partial = [], ic_input_handles = [], ic_output_handles = [],
     ic_node_name = [], ic_node_op = [], ic_input_names = [], ic_output_names = [], ic_construction_status = OK\<rparr>"

text \<open>
  C11. \<open>InferenceContext::Merge\<close> on shapes always returns. It fails exactly when no full shape is an
  instance of both arguments, and otherwise shows what \<open>PartialTensorShape::MergeWith\<close> computes from
  the two. The result stands for the common shape: whatever sizes the two shapes have at run time, if they are the
  same, the call succeeds and the handle it returns has these sizes.
\<close>

theorem Merge_sound:
  assumes "world_ok W" "shape_is W s0 ys" "shape_is W s1 zs"
  shows "\<exists>st h c'. Merge_shape s0 s1 (w_ctx W) = ret ((st, h), c') \<and> store_ok c' \<and>
    (ok st \<longleftrightarrow> (\<exists>ds. is_instance (known (w_ctx W) s0) ds \<and> is_instance (known (w_ctx W) s1) ds)) \<and>
    (ok st \<longrightarrow> known c' h = merge_view (known (w_ctx W) s0) (known (w_ctx W) s1)) \<and>
    (ys = zs \<longrightarrow> ok st \<and> (\<exists>W'. w_ctx W' = c' \<and> extends W W' \<and> world_ok W' \<and> shape_is W' h ys))"
proof -
  have "store_ok (w_ctx W)" "is_shape (w_ctx W) s0" "is_shape (w_ctx W) s1" using assms shape_is_ok by auto
  from Merge_shape_view [OF this] obtain st h c' where r: "Merge_shape s0 s1 (w_ctx W) = ret ((st, h), c')" "store_ok c'"
    "ok st \<longleftrightarrow> (\<exists>ds. is_instance (known (w_ctx W) s0) ds \<and> is_instance (known (w_ctx W) s1) ds)"
    "ok st \<longrightarrow> known c' h = merge_view (known (w_ctx W) s0) (known (w_ctx W) s1)" by blast
  have "ok st \<and> (\<exists>W'. w_ctx W' = c' \<and> extends W W' \<and> world_ok W' \<and> shape_is W' h ys)" if "ys = zs"
  proof -
    have "shape_is W s1 ys" using assms(3) that by simp
    from Merge_shape_sound [OF assms(1,2) this] show ?thesis unfolding outcome_def r(1) by auto
  qed
  with r show ?thesis by blast
qed

theorem Merge_sound_witness:
  "\<exists>st h c'. Merge_shape (Some 0) (Some 1) (plain_context [2, - 1, - 1, 3]
      [\<lparr>is_rank = 2, is_dims = [Some 0, Some 1]\<rparr>, \<lparr>is_rank = 2, is_dims = [Some 2, Some 3]\<rparr>]) = ret ((st, h), c') \<and>
    ok st \<and> known c' h = Some [2, 3]"
proof -
  let ?c = "plain_context [2, - 1, - 1, 3]
      [\<lparr>is_rank = 2, is_dims = [Some 0, Some 1]\<rparr>, \<lparr>is_rank = 2, is_dims = [Some 2, Some 3]\<rparr>]"
  let ?W = "\<lparr>w_ctx = ?c, w_dim = (!) [2, 3, 2, 3], w_shape = (\<lambda>i. [2, 3])\<rparr>"
  have "world_ok ?W"
    by (simp add: world_ok_def store_ok_def plain_context_def dim_wf_def shape_wf_def is_dim_def less_Suc_eq all_conj_distrib
        numeral_eq_Suc)
  moreover have "shape_is ?W (Some 0) [2, 3]" "shape_is ?W (Some 1) [2, 3]"
    by (simp_all add: shape_is_def is_shape_def plain_context_def)
  moreover have "known ?c (Some 0) = Some [2, - 1]" "known ?c (Some 1) = Some [- 1, 3]"
    by (simp_all add: known_def shape_at_def dim_value_def plain_context_def)
  ultimately show ?thesis using Merge_sound [of ?W "Some 0" "[2, 3]" "Some 1" "[2, 3]"]
    by (auto simp: merge_size_def)
qed

text \<open>
  C29. \<open>Relax\<close> on shapes always returns one handle that stands for both arguments: whatever sizes
  they have at run time, the result can have those of the first and can have those of the second.
\<close>

theorem Relax_sound:
  assumes "world_ok W" "shape_is W s0 ys" "shape_is W s1 zs"
  shows "\<exists>h c'. Relax_shape s0 s1 (w_ctx W) = ret (h, c') \<and>
    (\<forall>us. us = ys \<or> us = zs \<longrightarrow>
       (\<exists>W'. w_ctx W' = c' \<and> extends W W' \<and> world_ok W' \<and> shape_is W' h us))"
proof -
  from Relax_shape_sound [OF assms disjI1 [OF refl]] obtain h and W1 :: world where
    1: "Relax_shape s0 s1 (w_ctx W) = ret (h, w_ctx W1)" unfolding outcome_def by blast
  have "\<exists>W'. w_ctx W' = w_ctx W1 \<and> extends W W' \<and> world_ok W' \<and> shape_is W' h us" if "us = ys \<or> us = zs" for us
    using Relax_shape_sound [OF assms that] 1 unfolding outcome_def by auto
  with 1 show ?thesis by blast
qed

theorem Relax_sound_witness:
  "\<exists>h c'. Relax_shape (Some 0) (Some 1) (plain_context [2, 5, 2, - 1]
      [\<lparr>is_rank = 2, is_dims = [Some 0, Some 1]\<rparr>, \<lparr>is_rank = 2, is_dims = [Some 2, Some 3]\<rparr>]) = ret (h, c') \<and>
    (\<exists>W'. w_ctx W' = c' \<and> world_ok W' \<and> shape_is W' h [2, 5]) \<and> (\<exists>W'. w_ctx W' = c' \<and> world_ok W' \<and> shape_is W' h [2, 7])"
proof -
  let ?c = "plain_context [2, 5, 2, - 1]
      [\<lparr>is_rank = 2, is_dims = [Some 0, Some 1]\<rparr>, \<lparr>is_rank = 2, is_dims = [Some 2, Some 3]\<rparr>]"
  let ?W = "\<lparr>w_ctx = ?c, w_dim = (!) [2, 5, 2, 7], w_shape = (!) [[2, 5], [2, 7]]\<rparr>"
  have "world_ok ?W"
    by (simp add: world_ok_def store_ok_def plain_context_def dim_wf_def shape_wf_def is_dim_def less_Suc_eq all_conj_distrib
        numeral_eq_Suc)
  moreover have "shape_is ?W (Some 0) [2, 5]" "shape_is ?W (Some 1) [2, 7]"
    by (simp_all add: shape_is_def is_shape_def plain_context_def)
  ultimately obtain h c' where "Relax_shape (Some 0) (Some 1) ?c = ret (h, c')"
    "us = [2, 5] \<or> us = [2, 7] \<Longrightarrow> \<exists>W'. w_ctx W' = c' \<and> extends ?W W' \<and> world_ok W' \<and> shape_is W' h us" for us
    using Relax_sound [of ?W "Some 0" "[2, 5]" "Some 1" "[2, 7]"] unfolding world.simps by blast
  then show ?thesis by blast
qed

end
