(* ===== verification/Shape_Arithmetic.thy ===== *)
theory Shape_Arithmetic
  imports Shape_Semantics
begin

text \<open>
  Soundness of the other operations of \<open>InferenceContext\<close>: asserting ranks and sizes, parts of
  shapes, and arithmetic on dimensions. The six arithmetic operations share a contract, the locale
  \<open>dim_operation\<close>: in every world where the run-time result exists the call succeeds and its
  result has that size.
\<close>

section \<open>Asserting ranks and sizes\<close>

lemma Rank_is:
  assumes "world_ok W" "shape_is W h ys"
  shows "\<exists>r. Rank h (w_ctx W) = ret r \<and> RankKnown h (w_ctx W) = ret (r \<noteq> - 1) \<and> is_rank (shape_at (w_ctx W) h) = r \<and>
    (r = - 1 \<or> r = int (length ys))"
proof (cases "is_rank (shape_at (w_ctx W) h) = - 1")
  case True
  then show ?thesis using shape_is_ok [OF assms] by simp
next
  case False
  then show ?thesis
    using shape_is_ok [OF assms] shape_is_known(2) [OF assms False] known_rank [OF _ _ False] by simp
qed

lemma Value_is:
  assumes "world_ok W" "dim_is W h y"
  shows "\<exists>v. Value_of (Dim_arg h) (w_ctx W) = ret v \<and> (v = - 1 \<or> v = y) \<and> dim_wf v"
  using dim_is_value [OF assms] dim_value_wf assms(1) by (auto simp: world_ok_def)

lemma outcome_unknown_dims:
  assumes "world_ok W" "list_all (\<lambda>y. 0 \<le> y) ys" "n = int (length ys)"
  shows "outcome W (smap (\<lambda>i. UnknownDim) [0..n - 1]) (\<lambda>hs W'. list_all2 (dim_is W') hs ys)"
  by (rule outcome_smap) (use assms in \<open>auto simp: list_all_length intro: outcome_UnknownDim\<close>)

lemma WithRank_sound:
  assumes "world_ok W" "shape_is W s ys" "rank = int (length ys)" "rank \<le> kint32max"
  shows "outcome W (WithRank s rank out) (\<lambda>(st, h) W'. ok st \<and> shape_is W' h ys)"
proof -
  from Rank_is [OF assms(1,2)] obtain r where r: "Rank s (w_ctx W) = ret r" "r = - 1 \<or> r = rank" using assms(3) by auto
  show ?thesis
  proof (cases "r = rank")
    case True
    with r assms show ?thesis by (intro outcome_eq) (auto simp: WithRank_def)
  next
    case False
    with r(2) have "r = - 1" by simp
    then have eq: "WithRank s rank out (w_ctx W) =
        sbnd (smap (\<lambda>i. UnknownDim) [0..rank - 1]) (\<lambda>ds. sbnd (MakeShape_dims ds) (\<lambda>s. sret (OK, s))) (w_ctx W)"
      using r(1) False assms(3,4) by (simp add: WithRank_def ic_kUnknownRank_def)
    have "outcome W (sbnd (smap (\<lambda>i. UnknownDim) [0..rank - 1]) (\<lambda>ds. sbnd (MakeShape_dims ds) (\<lambda>s. sret (OK, s))))
        (\<lambda>(st, h) W'. ok st \<and> shape_is W' h ys)"
      by (rule outcome_bnd [OF outcome_unknown_dims [OF assms(1) shape_is_nonneg [OF assms(1,2)] assms(3)]],
          rule outcome_bnd [OF outcome_MakeShape]) (auto intro: outcome_ret)
    then show ?thesis by (rule outcome_cong) (rule eq)
  qed
qed

lemma WithRankAtLeast_sound:
  assumes "world_ok W" "shape_is W s ys" "rank \<le> int (length ys)" "rank \<le> kint32max"
  shows "outcome W (WithRankAtLeast s rank out) (\<lambda>(st, h) W'. ok st \<and> shape_is W' h ys)"
proof -
  from Rank_is [OF assms(1,2)] obtain r where r: "Rank s (w_ctx W) = ret r" "r = - 1 \<or> r = int (length ys)" by auto
  then have "WithRankAtLeast s rank out (w_ctx W) = (if r \<ge> rank then ret ((OK, s), w_ctx W) else ReturnUnknownShape (w_ctx W))"
    using assms(3,4) by (auto simp: WithRankAtLeast_def ic_kUnknownRank_def)
  with assms(1,2) show ?thesis
    by (cases "r \<ge> rank") (auto intro: outcome_eq outcome_cong [OF outcome_unknown [OF assms(1) shape_is_nonneg [OF assms(1,2)]]])
qed

lemma WithRankAtMost_sound:
  assumes "world_ok W" "shape_is W s ys" "int (length ys) \<le> rank" "rank \<le> kint32max"
  shows "outcome W (WithRankAtMost s rank out) (\<lambda>(st, h) W'. ok st \<and> shape_is W' h ys)"
proof -
  from Rank_is [OF assms(1,2)] obtain r where r: "Rank s (w_ctx W) = ret r" "r = - 1 \<or> r = int (length ys)" by auto
  then have "WithRankAtMost s rank out (w_ctx W) = (if r \<noteq> - 1 then ret ((OK, s), w_ctx W) else ReturnUnknownShape (w_ctx W))"
    using assms(3,4) by (auto simp: WithRankAtMost_def ic_kUnknownRank_def)
  with assms(1,2) show ?thesis
    by (cases "r \<noteq> - 1") (auto intro: outcome_eq outcome_cong [OF outcome_unknown [OF assms(1) shape_is_nonneg [OF assms(1,2)]]])
qed

lemma outcome_const:
  assumes "world_ok W" "0 \<le> v" "v < 2 ^ 63"
  shows "outcome W (sbnd (MakeDim (Const_arg v)) (\<lambda>h. sret (OK, h))) (\<lambda>(st, h) W'. ok st \<and> dim_is W' h v)"
  by (rule outcome_bnd [where P = "\<lambda>h W'. dim_is W' h v"])
    (use assms in \<open>auto simp: MakeDim_def dim_wf_def intro: outcome_new_dim outcome_ret\<close>)

lemma outcome_fresh:
  assumes "world_ok W" "0 \<le> y"
  shows "outcome W (sbnd UnknownDim (\<lambda>d. sret (OK, d))) (\<lambda>(st, h) W'. ok st \<and> dim_is W' h y)"
  by (rule outcome_bnd [OF outcome_UnknownDim [OF assms]]) (auto intro: outcome_ret)

lemma WithValue_sound:
  assumes "world_ok W" "dim_is W d v" "v < 2 ^ 63"
  shows "outcome W (WithValue d v) (\<lambda>(st, h) W'. ok st \<and> dim_is W' h v)"
proof -
  from Value_is [OF assms(1,2)] obtain x where x: "Value_of (Dim_arg d) (w_ctx W) = ret x" "x = - 1 \<or> x = v" by auto
  have v: "0 \<le> v" by (rule dim_is_nonneg [OF assms(1,2)])
  show ?thesis
  proof (cases "x = v")
    case True
    with x assms show ?thesis by (intro outcome_eq) (auto simp: WithValue_def)
  next
    case False
    with x have "WithValue d v (w_ctx W) = sbnd (MakeDim (Const_arg v)) (\<lambda>h. sret (OK, h)) (w_ctx W)"
      by (auto simp: WithValue_def kUnknownDim_def)
    then show ?thesis by (rule outcome_cong [OF outcome_const [OF assms(1) v assms(3)]])
  qed
qed

section \<open>Parts of a shape\<close>

lemma outcome_dims:
  assumes "world_ok W" "shape_is W s ys" "is_rank (shape_at (w_ctx W) s) \<noteq> - 1" "0 \<le> a" "a \<le> b" "b \<le> int (length ys)"
  shows "outcome W (smap (Dim s) [a..b - 1]) (\<lambda>hs W'. W' = W \<and> list_all2 (dim_is W) hs (take (nat (b - a)) (drop (nat a) ys)))"
proof -
  let ?hs = "is_dims (shape_at (w_ctx W) s)"
  note k = shape_is_known [OF assms(1-3)] and s = shape_is_ok [OF assms(1,2)]
  have upt: "[a..b - 1] = map int [nat a..<nat b]"
  proof (rule nth_equalityI)
    show "length [a..b - 1] = length (map int [nat a..<nat b])" using assms(4,5) by (simp add: nat_diff_distrib)
    fix i assume "i < length [a..b - 1]"
    then show "[a..b - 1] ! i = map int [nat a..<nat b] ! i" using assms(4,5) by (auto simp: nat_diff_distrib)
  qed
  have "Dim s (int i) (w_ctx W) = ret (?hs ! i, w_ctx W)" if "i < nat b" for i
    using Dim_nat(1) [OF _ _ assms(3)] s k(2) assms(6) that by simp
  then have "smap (Dim s) [a..b - 1] (w_ctx W) = ret (map (\<lambda>i. ?hs ! nat i) [a..b - 1], w_ctx W)"
    using upt by (intro smap_same) auto
  moreover have "list_all2 (dim_is W) (map (\<lambda>i. ?hs ! nat i) [a..b - 1]) (take (nat (b - a)) (drop (nat a) ys))"
    using k assms(4-6) unfolding upt by (auto simp: list_all2_conv_all_nth nat_diff_distrib nat_add_distrib)
  ultimately show ?thesis using assms(1) by (intro outcome_eq) auto
qed

text \<open>The index that \<open>Subshape\<close> computes from its arguments, counting from the end when negative.\<close>

definition slice_index :: "nat \<Rightarrow> int \<Rightarrow> int" where
  "slice_index n i = (if i > int n then int n else if i < 0 then int n + i else i)"

lemma Subshape_sound:
  assumes "world_ok W" "shape_is W s ys" "length ys < 2 ^ 31" "b_in \<le> kint64max"
    "0 \<le> slice_index (length ys) a_in" "slice_index (length ys) a_in \<le> slice_index (length ys) b_in"
  shows "outcome W (Subshape s a_in b_in) (\<lambda>(st, h) W'. ok st \<and>
    shape_is W' h (take (nat (slice_index (length ys) b_in - slice_index (length ys) a_in))
      (drop (nat (slice_index (length ys) a_in)) ys)))" (is "outcome W _ (\<lambda>(st, h) W'. ok st \<and> shape_is W' h ?part)")
proof -
  let ?n = "length ys" and ?a = "slice_index (length ys) a_in" and ?b = "slice_index (length ys) b_in"
  from Rank_is [OF assms(1,2)] obtain r where r: "Rank s (w_ctx W) = ret r" "RankKnown s (w_ctx W) = ret (r \<noteq> - 1)"
    "is_rank (shape_at (w_ctx W) s) = r" "r = - 1 \<or> r = int ?n" by auto
  show ?thesis
  proof (cases "a_in = 0 \<and> (r \<noteq> - 1 \<and> b_in \<ge> r \<or> b_in = kint64max)")
    case True
    then have "b_in \<ge> int ?n" using r(4) assms(3) by (auto simp: kint64max_def)
    then have "?part = ys" using True by (auto simp: slice_index_def)
    moreover have "Subshape s a_in b_in (w_ctx W) = ret ((OK, s), w_ctx W)" using True r by (simp add: Subshape_def)
    ultimately show ?thesis using assms(1,2) by (intro outcome_eq) auto
  next
    case False
    show ?thesis
    proof (cases "r = - 1")
      case True
      have "list_all (\<lambda>y. 0 \<le> y) ?part"
        using shape_is_nonneg [OF assms(1,2)] by (auto simp: list_all_iff dest!: in_set_takeD in_set_dropD)
      moreover have "Subshape s a_in b_in (w_ctx W) = ReturnUnknownShape (w_ctx W)" using True False r by (auto simp: Subshape_def)
      ultimately show ?thesis by (intro outcome_cong [OF outcome_unknown [OF assms(1)]]) auto
    next
      case known: False
      with r(4) have rn: "r = int ?n" by simp
      have b: "?b \<le> int ?n" by (auto simp: slice_index_def)
      have eq: "Subshape s a_in b_in (w_ctx W) = sbnd (smap (Dim s) [?a..?b - 1]) ReturnCreatedShape (w_ctx W)"
        using r known False assms(5,6) rn by (auto simp: Subshape_def Let_def slice_index_def)
      have "outcome W (sbnd (smap (Dim s) [?a..?b - 1]) ReturnCreatedShape) (\<lambda>(st, h) W'. ok st \<and> shape_is W' h ?part)"
        by (rule outcome_bnd [OF outcome_dims [OF assms(1,2) _ assms(5,6) b]])
          (use r known in \<open>auto intro: outcome_created\<close>)
      then show ?thesis by (rule outcome_cong) (rule eq)
    qed
  qed
qed

lemma Concatenate_sound:
  assumes "world_ok W" "shape_is W s1 ys" "shape_is W s2 zs"
  shows "outcome W (ic_Concatenate s1 s2) (\<lambda>(st, h) W'. ok st \<and> shape_is W' h (ys @ zs))"
proof -
  from Rank_is [OF assms(1,2)] obtain r1 where r1: "Rank s1 (w_ctx W) = ret r1" "RankKnown s1 (w_ctx W) = ret (r1 \<noteq> - 1)"
    "is_rank (shape_at (w_ctx W) s1) = r1" "r1 = - 1 \<or> r1 = int (length ys)" by auto
  from Rank_is [OF assms(1,3)] obtain r2 where r2: "Rank s2 (w_ctx W) = ret r2" "RankKnown s2 (w_ctx W) = ret (r2 \<noteq> - 1)"
    "is_rank (shape_at (w_ctx W) s2) = r2" "r2 = - 1 \<or> r2 = int (length zs)" by auto
  show ?thesis
  proof (cases "r1 = - 1 \<or> r2 = - 1")
    case True
    then have "ic_Concatenate s1 s2 (w_ctx W) = ReturnUnknownShape (w_ctx W)" using r1 r2 by (auto simp: ic_Concatenate_def)
    moreover have "list_all (\<lambda>y. 0 \<le> y) (ys @ zs)" using shape_is_nonneg assms by simp
    ultimately show ?thesis by (intro outcome_cong [OF outcome_unknown [OF assms(1)]]) auto
  next
    case False
    then have n: "r1 = int (length ys)" "r2 = int (length zs)" using r1(4) r2(4) by auto
    have eq: "ic_Concatenate s1 s2 (w_ctx W) = sbnd (smap (Dim s1) [0..r1 - 1]) (\<lambda>ds1.
        sbnd (smap (Dim s2) [0..r2 - 1]) (\<lambda>ds2. ReturnCreatedShape (ds1 @ ds2))) (w_ctx W)"
      using False r1 r2 by (simp add: ic_Concatenate_def)
    have d: "outcome W (smap (Dim s1) [0..r1 - 1]) (\<lambda>hs W'. W' = W \<and> list_all2 (dim_is W) hs ys)"
      "outcome W (smap (Dim s2) [0..r2 - 1]) (\<lambda>hs W'. W' = W \<and> list_all2 (dim_is W) hs zs)"
      using outcome_dims [OF assms(1,2), of 0 r1] outcome_dims [OF assms(1,3), of 0 r2] r1(3) r2(3) False n by auto
    have "outcome W (sbnd (smap (Dim s1) [0..r1 - 1]) (\<lambda>ds1.
        sbnd (smap (Dim s2) [0..r2 - 1]) (\<lambda>ds2. ReturnCreatedShape (ds1 @ ds2))))
        (\<lambda>(st, h) W'. ok st \<and> shape_is W' h (ys @ zs))"
      by (rule outcome_bnd [OF d(1)], elim conjE, hypsubst, rule outcome_bnd [OF d(2)])
        (auto intro: outcome_created list_all2_appendI)
    then show ?thesis by (rule outcome_cong) (rule eq)
  qed
qed

lemma ReplaceDim_sound:
  assumes "world_ok W" "shape_is W s ys" "dim_is W d y"
    "i = (if i_in < 0 then int (length ys) + i_in else i_in)" "0 \<le> i" "i < int (length ys)"
  shows "outcome W (ReplaceDim s i_in d) (\<lambda>(st, h) W'. ok st \<and> shape_is W' h (ys[nat i := y]))"
proof -
  from Rank_is [OF assms(1,2)] obtain r where r: "RankKnown s (w_ctx W) = ret (r \<noteq> - 1)"
    "is_rank (shape_at (w_ctx W) s) = r" "r = - 1 \<or> r = int (length ys)" by auto
  let ?hs = "is_dims (shape_at (w_ctx W) s)"
  show ?thesis
  proof (cases "r = - 1")
    case True
    then have "ReplaceDim s i_in d (w_ctx W) = ReturnUnknownShape (w_ctx W)" using r by (simp add: ReplaceDim_def)
    moreover have "list_all (\<lambda>y. 0 \<le> y) (ys[nat i := y])"
      using shape_is_nonneg [OF assms(1,2)] dim_is_nonneg [OF assms(1,3)]
      by (auto simp: list_all_iff dest!: set_update_subset_insert [THEN subsetD])
    ultimately show ?thesis by (intro outcome_cong [OF outcome_unknown [OF assms(1)]]) auto
  next
    case False
    with r shape_is_known [OF assms(1,2)] have k: "list_all2 (dim_is W) ?hs ys" "length ?hs = length ys" by auto
    have "ReplaceDim s i_in d (w_ctx W) = ReturnCreatedShape (?hs[nat i := d]) (w_ctx W)"
      using r False k(2) assms(4-6) shape_is_ok [OF assms(1,2)]
      by (cases "i_in < 0") (simp_all add: ReplaceDim_def Let_def)
    moreover have "list_all2 (dim_is W) (?hs[nat i := d]) (ys[nat i := y])"
      using k(1) assms(3) by (rule list_all2_update_cong)
    ultimately show ?thesis by (intro outcome_cong [OF outcome_created [OF assms(1)]]) auto
  qed
qed

section \<open>Arithmetic on dimensions\<close>

text \<open>The argument of an operation: a dimension with its size, or a size.\<close>

definition arg_is :: "world \<Rightarrow> dim_or_const \<Rightarrow> int \<Rightarrow> bool" where
  "arg_is W e y \<longleftrightarrow> (case e of Dim_arg h \<Rightarrow> dim_is W h y | Const_arg v \<Rightarrow> v = y \<and> 0 \<le> y \<and> y < 2 ^ 63)"

lemma arg_is_value:
  assumes "world_ok W" "arg_is W e y"
  shows "\<exists>v. Value_of e (w_ctx W) = ret v \<and> (v = - 1 \<or> v = y) \<and> dim_wf v" "0 \<le> y"
  using Value_is [OF assms(1)] dim_is_nonneg [OF assms(1)] assms(2)
  by (auto simp: arg_is_def Value_of_def dim_wf_def split: dim_or_const.splits)

lemma arg_is_later: "arg_is W e y \<Longrightarrow> extends W W' \<Longrightarrow> arg_is W' e y"
  using extends_keeps(1) by (auto simp: arg_is_def split: dim_or_const.splits)

lemma outcome_arg:
  assumes "world_ok W" "arg_is W e y"
  shows "outcome W (sbnd (MakeDim e) (\<lambda>d. sret (OK, d))) (\<lambda>(st, h) W'. ok st \<and> dim_is W' h y)"
proof (cases e)
  case (Dim_arg h)
  then have "h \<noteq> None" "dim_is W h y" using assms(2) by (auto simp: arg_is_def dim_is_def is_dim_def split: option.splits)
  then show ?thesis using Dim_arg assms(1) by (intro outcome_eq) (auto simp: MakeDim_def)
next
  case (Const_arg v)
  then show ?thesis using outcome_const [OF assms(1), of y] assms(2) by (simp add: arg_is_def)
qed

lemma outcome_handle:
  "world_ok W \<Longrightarrow> dim_is W d y \<Longrightarrow> outcome W (sret (OK, d)) (\<lambda>(st, h) W'. ok st \<and> dim_is W' h y)"
  by (rule outcome_ret) auto

text \<open>
  The interface of an operation on two dimensions: \<open>result a b\<close> is the size it has at run
  time, if there is one. A shape function may chain calls; each is given what the one before returned.
\<close>

locale dim_operation =
  fixes oper :: "handle \<Rightarrow> dim_or_const \<Rightarrow> (status \<times> handle) iop"
    and result :: "int \<Rightarrow> int \<Rightarrow> int option"
  assumes oper_sound: "world_ok W \<Longrightarrow> dim_is W d a \<Longrightarrow> arg_is W e b \<Longrightarrow> result a b = Some y \<Longrightarrow>
    outcome W (oper d e) (\<lambda>(st, h) W'. ok st \<and> dim_is W' h y)"
begin

fun chain :: "handle \<Rightarrow> dim_or_const list \<Rightarrow> (status \<times> handle) iop" where
  "chain d [] = sret (OK, d)"
| "chain d (e # es) = sbnd (oper d e) (\<lambda>(st, h). if ok st then chain h es else sret (st, h))"

fun chain_result :: "int \<Rightarrow> int list \<Rightarrow> int option" where
  "chain_result a [] = Some a"
| "chain_result a (b # bs) = Option.bind (result a b) (\<lambda>y. chain_result y bs)"

lemma chain_sound:
  assumes "world_ok W" "dim_is W d a" "list_all2 (arg_is W) es bs" "chain_result a bs = Some y"
  shows "outcome W (chain d es) (\<lambda>(st, h) W'. ok st \<and> dim_is W' h y)"
  using assms
proof (induction es arbitrary: W d a bs)
  case Nil
  then show ?case by (auto intro!: outcome_eq)
next
  case (Cons e es)
  then obtain b bs' where bs: "bs = b # bs'" "arg_is W e b" "list_all2 (arg_is W) es bs'" by (auto simp: list_all2_Cons1)
  from Cons.prems(4) obtain r where r: "result a b = Some r" "chain_result r bs' = Some y"
    by (auto simp: bs(1) bind_eq_Some_conv)
  show ?case
    unfolding chain.simps
  proof (rule outcome_bnd [OF oper_sound [OF Cons.prems(1,2) bs(2) r(1)]], goal_cases)
    case (1 x W')
    obtain st h where x: "x = (st, h)" by (cases x)
    have "list_all2 (arg_is W') es bs'"
      using bs(3) by (rule list_all2_mono) (rule arg_is_later [OF _ 1(1)])
    then show ?case using Cons.IH [of W' h r bs'] r(2) 1 by (simp add: x)
  qed
qed

end

definition divide_result :: "bool \<Rightarrow> int \<Rightarrow> int \<Rightarrow> int option" where
  "divide_result evenly a b = (if b > 0 \<and> (evenly \<longrightarrow> b dvd a) then Some (a div b) else None)"

definition add_result :: "int \<Rightarrow> int \<Rightarrow> int option" where
  "add_result a b = (if a + b < 2 ^ 63 then Some (a + b) else None)"

definition subtract_result :: "int \<Rightarrow> int \<Rightarrow> int option" where
  "subtract_result a b = (if a \<ge> b then Some (a - b) else None)"

definition multiply_result :: "int \<Rightarrow> int \<Rightarrow> int option" where
  "multiply_result a b = (if a * b < 2 ^ 63 then Some (a * b) else None)"

lemma outcome_read_values:
  assumes "world_ok W" "dim_is W d a" "arg_is W e b"
    "\<And>v w. Value_of (Dim_arg d) (w_ctx W) = ret v \<Longrightarrow> Value_of e (w_ctx W) = ret w \<Longrightarrow> v = - 1 \<or> v = a \<and> v < 2 ^ 63 \<Longrightarrow>
      w = - 1 \<or> w = b \<and> w < 2 ^ 63 \<Longrightarrow> 0 \<le> a \<Longrightarrow> 0 \<le> b \<Longrightarrow> outcome W (g v w) Q"
  shows "outcome W (sbnd (sread (Value_of (Dim_arg d))) (\<lambda>v. sbnd (sread (Value_of e)) (g v))) Q"
proof -
  from Value_is [OF assms(1,2)] obtain v where v: "Value_of (Dim_arg d) (w_ctx W) = ret v" "v = - 1 \<or> v = a" "dim_wf v" by blast
  from arg_is_value [OF assms(1,3)] obtain w where w: "Value_of e (w_ctx W) = ret w" "w = - 1 \<or> w = b" "dim_wf w" by blast
  have "outcome W (g v w) Q"
    using assms(4) [OF v(1) w(1)] v(2,3) w(2,3) dim_is_nonneg [OF assms(1,2)] arg_is_value(2) [OF assms(1,3)]
    by (auto simp: dim_wf_def)
  then show ?thesis by (intro outcome_read [of _ _ v] outcome_read [of _ _ w] v w)
qed

lemma sum_u64:
  assumes "0 \<le> a" "a < 2 ^ 63" "0 \<le> b" "b < 2 ^ 63"
  shows "sint (word_of_int a + word_of_int b :: u64) = (if a + b < 2 ^ 63 then a + b else a + b - 2 ^ 64)"
proof -
  have "uint (word_of_int a + word_of_int b :: u64) = a + b"
    using assms by (simp add: uint_word_ariths uint_word_of_int mod_pos_pos_trivial)
  then show ?thesis by (simp add: sint_u64)
qed

interpretation add_op: dim_operation "\<lambda>d e. Add_dim d e None" add_result
proof unfold_locales
  fix W d a e b y
  assume w: "world_ok W" and d: "dim_is W d a" and e: "arg_is W e b" and r: "add_result a b = Some y"
  then have y: "y = a + b" "a + b < 2 ^ 63" by (auto simp: add_result_def split: if_splits)
  show "outcome W (Add_dim d e None) (\<lambda>(st, h) W'. ok st \<and> dim_is W' h y)"
    unfolding Add_dim_def
  proof (rule outcome_read_values [OF w d e])
    fix v x assume v: "v = - 1 \<or> v = a \<and> v < 2 ^ 63" and x: "x = - 1 \<or> x = b \<and> x < 2 ^ 63" and n: "0 \<le> a" "0 \<le> b"
    have s: "sint (word_of_int a + word_of_int b :: u64) = y" if "v = a" "x = b"
      using sum_u64 [of a b] v x n y that by auto
    have m: "arg_is W (Dim_arg d) a" using d by (simp add: arg_is_def)
    show "outcome W (if v = 0 then sbnd (MakeDim e) (\<lambda>d. sret (OK, d))
        else if x = 0 then sbnd (MakeDim (Dim_arg d)) (\<lambda>d. sret (OK, d))
        else if v = kUnknownDim \<or> x = kUnknownDim then sbnd UnknownDim (\<lambda>d. sret (OK, d))
        else let sum = sint (word_of_int v + word_of_int x :: u64) in
          if sum < 0 then sret (InvalidArgument (''Dimension size overflow from adding '' @ int_text v @ '' and '' @ int_text x), None)
          else sbnd (MakeDim (Const_arg sum)) (\<lambda>d. sret (OK, d))) (\<lambda>(st, h) W'. ok st \<and> dim_is W' h y)"
      using v x n s y outcome_arg [OF w e] outcome_arg [OF w m] outcome_fresh [OF w, of y] outcome_const [OF w, of y]
      by (auto simp: kUnknownDim_def Let_def)
  qed
qed

interpretation subtract_op: dim_operation "\<lambda>d e. Subtract_dim d e None" subtract_result
proof unfold_locales
  fix W d a e b y
  assume w: "world_ok W" and d: "dim_is W d a" and e: "arg_is W e b" and r: "subtract_result a b = Some y"
  then have y: "y = a - b" "b \<le> a" by (auto simp: subtract_result_def split: if_splits)
  have m: "arg_is W (Dim_arg d) a" using d by (simp add: arg_is_def)
  show "outcome W (Subtract_dim d e None) (\<lambda>(st, h) W'. ok st \<and> dim_is W' h y)"
    unfolding Subtract_dim_def
    by (rule outcome_read_values [OF w d e])
      (use y outcome_arg [OF w m] outcome_fresh [OF w, of y] outcome_const [OF w, of y] in \<open>auto simp: kUnknownDim_def\<close>)
qed

interpretation multiply_op: dim_operation "\<lambda>d e. Multiply_dim d e None" multiply_result
proof unfold_locales
  fix W d a e b y
  assume w: "world_ok W" and d: "dim_is W d a" and e: "arg_is W e b" and r: "multiply_result a b = Some y"
  then have y: "y = a * b" "a * b < 2 ^ 63" by (auto simp: multiply_result_def split: if_splits)
  show "outcome W (Multiply_dim d e None) (\<lambda>(st, h) W'. ok st \<and> dim_is W' h y)"
    unfolding Multiply_dim_def
  proof (rule outcome_read_values [OF w d e])
    fix v x assume v: "v = - 1 \<or> v = a \<and> v < 2 ^ 63" and x: "x = - 1 \<or> x = b \<and> x < 2 ^ 63" and n: "0 \<le> a" "0 \<le> b"
    have known: "outcome W (sbnd (sread (\<lambda>c. int64 (a * b))) (\<lambda>product. if product < 0
        then sret (InvalidArgument (''Negative dimension size caused by overflow when multiplying '' @ int_text a @ '' and '' @ int_text b), None)
        else sbnd (MakeDim (Const_arg product)) (\<lambda>d. sret (OK, d)))) (\<lambda>(st, h) W'. ok st \<and> dim_is W' h y)"
    proof (rule outcome_read [where x = y])
      have p: "0 \<le> a * b" using n by simp
      with y show "int64 (a * b) = ret y" by (simp add: int64_def)
      show "outcome W (if y < 0
          then sret (InvalidArgument (''Negative dimension size caused by overflow when multiplying '' @ int_text a @ '' and '' @ int_text b), None)
          else sbnd (MakeDim (Const_arg y)) (\<lambda>d. sret (OK, d))) (\<lambda>(st, h) W'. ok st \<and> dim_is W' h y)"
        using outcome_const [OF w, of y] p y by (auto simp: not_less)
    qed
    show "outcome W (if v = 0 then sret (OK, d) else if x = 0 then sbnd (MakeDim e) (\<lambda>d. sret (OK, d))
        else if v = 1 then sbnd (MakeDim e) (\<lambda>d. sret (OK, d)) else if x = 1 then sret (OK, d)
        else if v = kUnknownDim \<or> x = kUnknownDim then sbnd UnknownDim (\<lambda>d. sret (OK, d))
        else sbnd (sread (\<lambda>c. int64 (v * x))) (\<lambda>product. if product < 0
          then sret (InvalidArgument (''Negative dimension size caused by overflow when multiplying '' @ int_text v @ '' and '' @ int_text x), None)
          else sbnd (MakeDim (Const_arg product)) (\<lambda>d. sret (OK, d)))) (\<lambda>(st, h) W'. ok st \<and> dim_is W' h y)"
      using v x n y known outcome_arg [OF w e] outcome_handle [OF w d] outcome_fresh [OF w, of y]
      by (auto simp: kUnknownDim_def)
  qed
qed

interpretation min_op: dim_operation Min_dim "\<lambda>a b. Some (min a b)"
proof unfold_locales
  fix W d a e b y
  assume w: "world_ok W" and d: "dim_is W d a" and e: "arg_is W e b" and "Some (min a b) = Some y"
  then have y: "y = min a b" by simp
  show "outcome W (Min_dim d e) (\<lambda>(st, h) W'. ok st \<and> dim_is W' h y)"
    unfolding Min_dim_def
    by (rule outcome_read_values [OF w d e])
      (use y outcome_arg [OF w e] outcome_handle [OF w d] outcome_fresh [OF w, of y] in \<open>auto simp: kUnknownDim_def min_def\<close>)
qed

interpretation max_op: dim_operation Max_dim "\<lambda>a b. Some (max a b)"
proof unfold_locales
  fix W d a e b y
  assume w: "world_ok W" and d: "dim_is W d a" and e: "arg_is W e b" and "Some (max a b) = Some y"
  then have y: "y = max a b" by simp
  show "outcome W (Max_dim d e) (\<lambda>(st, h) W'. ok st \<and> dim_is W' h y)"
    unfolding Max_dim_def
    by (rule outcome_read_values [OF w d e])
      (use y outcome_arg [OF w e] outcome_handle [OF w d] outcome_fresh [OF w, of y] in \<open>auto simp: kUnknownDim_def max_def\<close>)
qed

lemma arg_is_dim: "arg_is W (Dim_arg d) y = dim_is W d y"
  by (simp add: arg_is_def)

lemma int_quotient:
  assumes "0 \<le> (a :: int)" "0 < b"
  shows "a sdiv b = a div b" "a smod b = a mod b" "0 \<le> a div b" "a div b \<le> a"
  using assms zdiv_mono2 [of a 1 b]
  by (auto simp: signed_divide_int_def signed_modulo_int_def pos_imp_zdiv_nonneg_iff sgn_if)

interpretation divide_op: dim_operation "\<lambda>d e. Divide_dim d e evenly None" "divide_result evenly" for evenly
proof unfold_locales
  fix W d a e b y
  assume w: "world_ok W" and d: "dim_is W d a" and e: "arg_is W e b" and r: "divide_result evenly a b = Some y"
  then have y: "y = a div b" "0 < b" "evenly \<Longrightarrow> a mod b = 0"
    by (auto simp: divide_result_def dvd_eq_mod_eq_0 split: if_splits)
  from Value_is [OF w d] obtain v where v: "Value_of (Dim_arg d) (w_ctx W) = ret v" "v = - 1 \<or> v = a" "dim_wf v" by blast
  from arg_is_value [OF w e] obtain x where x: "Value_of e (w_ctx W) = ret x" "x = - 1 \<or> x = b" by blast
  have n: "0 \<le> a" using dim_is_nonneg [OF w d] .
  note q = int_quotient [OF n y(2)]
  have u: "x = b \<or> (case e of Dim_arg h \<Rightarrow> h \<noteq> None \<and> x = kUnknownDim | Const_arg k \<Rightarrow> False)"
    using x e by (auto simp: Value_of_def arg_is_def dim_is_def is_dim_def kUnknownDim_def split: dim_or_const.splits option.splits)
  show "outcome W (Divide_dim d e evenly None) (\<lambda>(st, h) W'. ok st \<and> dim_is W' h y)"
    unfolding Divide_dim_def
  proof (rule outcome_read [where x = x])
    show "Value_of e (w_ctx W) = ret x" by (rule x(1))
  next
    show "outcome W (if x = 1 then sret (OK, d) else sbnd (sread (Value_of (Dim_arg d))) (\<lambda>v.
       if v = kUnknownDim \<or> (case e of Dim_arg h \<Rightarrow> h \<noteq> None \<and> x = kUnknownDim | Const_arg k \<Rightarrow> False) then
         sbnd UnknownDim (\<lambda>d. sret (OK, d))
       else if x \<le> 0 then sret (InvalidArgument (''Divisor must be positive but is '' @ int_text x), None)
       else if evenly \<and> v smod x \<noteq> 0 then
         sret (InvalidArgument (''Dimension size must be evenly divisible by '' @ int_text x @ '' but is '' @ int_text v), None)
       else sbnd (MakeDim (Const_arg (v sdiv x))) (\<lambda>d. sret (OK, d)))) (\<lambda>(st, h) W'. ok st \<and> dim_is W' h y)"
    proof (cases "x = 1")
      case True
      with x(2) y(1) outcome_handle [OF w d] show ?thesis by simp
    next
      case False
      have "outcome W (if v = kUnknownDim \<or> (case e of Dim_arg h \<Rightarrow> h \<noteq> None \<and> x = kUnknownDim | Const_arg k \<Rightarrow> False) then
         sbnd UnknownDim (\<lambda>d. sret (OK, d))
       else if x \<le> 0 then sret (InvalidArgument (''Divisor must be positive but is '' @ int_text x), None)
       else if evenly \<and> v smod x \<noteq> 0 then
         sret (InvalidArgument (''Dimension size must be evenly divisible by '' @ int_text x @ '' but is '' @ int_text v), None)
       else sbnd (MakeDim (Const_arg (v sdiv x))) (\<lambda>d. sret (OK, d))) (\<lambda>(st, h) W'. ok st \<and> dim_is W' h y)"
        using v(2,3) u y n q outcome_fresh [OF w, of y] outcome_const [OF w, of y] by (auto simp: kUnknownDim_def dim_wf_def)
      then show ?thesis using False v(1) by (simp add: outcome_read [where x = v])
    qed
  qed
qed

section \<open>Properties\<close>

text \<open>
  C12. The arithmetic on dimensions computes the sizes of run time. Whatever sizes a dimension and the
  second argument have, known or unknown to the context, \<open>Min\<close> and \<open>Max\<close> succeed and so do \<open>Add\<close>,
  \<open>Subtract\<close>, \<open>Multiply\<close> and \<open>Divide\<close> whenever the result is a size (the sum and the product
  fit in 64 bits, the difference is not negative, the divisor is positive and, if so asked, divides evenly); the
  dimension they return has that size.
\<close>

theorem dimension_arithmetic_sound:
  assumes "world_ok W" "dim_is W d a" "arg_is W e b"
  shows "outcome W (Min_dim d e) (\<lambda>(st, h) W'. ok st \<and> dim_is W' h (min a b)) \<and>
    outcome W (Max_dim d e) (\<lambda>(st, h) W'. ok st \<and> dim_is W' h (max a b)) \<and>
    (a + b < 2 ^ 63 \<longrightarrow> outcome W (Add_dim d e None) (\<lambda>(st, h) W'. ok st \<and> dim_is W' h (a + b))) \<and>
    (b \<le> a \<longrightarrow> outcome W (Subtract_dim d e None) (\<lambda>(st, h) W'. ok st \<and> dim_is W' h (a - b))) \<and>
    (a * b < 2 ^ 63 \<longrightarrow> outcome W (Multiply_dim d e None) (\<lambda>(st, h) W'. ok st \<and> dim_is W' h (a * b))) \<and>
    (b > 0 \<and> (evenly \<longrightarrow> b dvd a) \<longrightarrow>
       outcome W (Divide_dim d e evenly None) (\<lambda>(st, h) W'. ok st \<and> dim_is W' h (a div b)))"
  using min_op.oper_sound [OF assms] max_op.oper_sound [OF assms] add_op.oper_sound [OF assms]
    subtract_op.oper_sound [OF assms] multiply_op.oper_sound [OF assms] divide_op.oper_sound [OF assms]
  by (intro conjI impI) (simp_all add: add_result_def subtract_result_def multiply_result_def divide_result_def)

theorem dimension_arithmetic_sound_witness:
  "\<exists>W. w_ctx W = plain_context [- 1] [] \<and> dim_is W (Some 0) 12 \<and>
    outcome W (Divide_dim (Some 0) (Const_arg 4) True None) (\<lambda>(st, h) W'. ok st \<and> dim_is W' h 3)"
proof -
  let ?W = "\<lparr>w_ctx = plain_context [- 1] [], w_dim = (\<lambda>i. 12), w_shape = (\<lambda>i. [])\<rparr>"
  have "world_ok ?W" by (simp add: world_ok_def store_ok_def plain_context_def dim_wf_def)
  moreover have d: "dim_is ?W (Some 0) 12" by (simp add: dim_is_def is_dim_def plain_context_def)
  moreover have "arg_is ?W (Const_arg 4) 4" by (simp add: arg_is_def)
  ultimately have "outcome ?W (Divide_dim (Some 0) (Const_arg 4) True None) (\<lambda>(st, h) W'. ok st \<and> dim_is W' h (12 div 4))"
    using dimension_arithmetic_sound [of ?W "Some 0" 12 "Const_arg 4" 4 True] by simp
  with d show ?thesis by (intro exI [of _ ?W]) simp
qed

lemma slice_index_simps:
  "slice_index n 0 = 0" "k \<le> n \<Longrightarrow> slice_index n (int k) = int k" "n < 2 ^ 31 \<Longrightarrow> slice_index n kint64max = int n"
  by (auto simp: slice_index_def kint64max_def)

text \<open>
  Cutting a shape at a dimension with two calls of \<open>Subshape\<close> and joining the parts with
  \<open>Concatenate\<close> gives the shape back: all three calls succeed, and whatever sizes the shape has at run time, the
  parts have those before and from the cut and the result has all of them.
\<close>

theorem split_concatenate_sound:
  assumes "world_ok W" "shape_is W s ys" "length ys < 2 ^ 31" "k \<le> length ys"
  shows "outcome W (sbnd (Subshape s 0 (int k)) (\<lambda>(st1, front). sbnd (Subshape_from s (int k)) (\<lambda>(st2, rest).
      sbnd (ic_Concatenate front rest) (\<lambda>(st3, joined). sret (st1, st2, st3, front, rest, joined)))))
    (\<lambda>(st1, st2, st3, front, rest, joined) W'. ok st1 \<and> ok st2 \<and> ok st3 \<and>
       shape_is W' front (take k ys) \<and> shape_is W' rest (drop k ys) \<and> shape_is W' joined ys)"
proof -
  have front: "outcome W (Subshape s 0 (int k)) (\<lambda>(st, h) W'. ok st \<and> shape_is W' h (take k ys))"
    using Subshape_sound [OF assms(1-3), of "int k" 0] assms(3,4) by (simp add: slice_index_simps kint64max_def)
  show ?thesis
  proof (rule outcome_bnd [OF front], goal_cases)
    case (1 x W1)
    obtain st1 f where x: "x = (st1, f)" by (cases x)
    note outer = 1(3)
    have "outcome W1 (Subshape_from s (int k)) (\<lambda>(st, h) W'. ok st \<and> shape_is W' h (drop k ys))"
      using Subshape_sound [OF 1(2) extends_keeps(2) [OF 1(1) assms(2)] assms(3), of kint64max "int k"] assms(3,4)
      by (simp add: slice_index_simps Subshape_from_def)
    then show ?case
      unfolding x prod.case
    proof (rule outcome_bnd, goal_cases)
      case (1 y W2)
      obtain st2 r where y: "y = (st2, r)" by (cases y)
      have f: "ok st1" "shape_is W2 f (take k ys)" using outer extends_keeps(2) [OF 1(1)] by (auto simp: x)
      have r: "ok st2" "shape_is W2 r (drop k ys)" using 1(3) by (simp_all add: y)
      have "outcome W2 (ic_Concatenate f r) (\<lambda>(st, h) W'. ok st \<and> shape_is W' h ys)"
        using Concatenate_sound [OF 1(2) f(2) r(2)] by simp
      then show ?case
        unfolding y prod.case by (rule outcome_bnd) (use f r extends_keeps(2) in \<open>auto intro!: outcome_ret\<close>)
    qed
  qed
qed

theorem split_concatenate_sound_witness:
  "\<exists>W. w_ctx W = plain_context [2, - 1] [\<lparr>is_rank = 2, is_dims = [Some 0, Some 1]\<rparr>] \<and>
    outcome W (sbnd (Subshape (Some 0) 0 1) (\<lambda>(st1, front). sbnd (Subshape_from (Some 0) 1) (\<lambda>(st2, rest).
      sbnd (ic_Concatenate front rest) (\<lambda>(st3, joined). sret (st1, st2, st3, front, rest, joined)))))
    (\<lambda>(st1, st2, st3, front, rest, joined) W'. ok st1 \<and> ok st2 \<and> ok st3 \<and>
       shape_is W' front [2] \<and> shape_is W' rest [7] \<and> shape_is W' joined [2, 7])"
proof -
  let ?W = "\<lparr>w_ctx = plain_context [2, - 1] [\<lparr>is_rank = 2, is_dims = [Some 0, Some 1]\<rparr>],
    w_dim = (!) [2, 7], w_shape = (\<lambda>i. [2, 7])\<rparr>"
  have "world_ok ?W"
    by (simp add: world_ok_def store_ok_def plain_context_def dim_wf_def shape_wf_def is_dim_def less_Suc_eq all_conj_distrib
        numeral_eq_Suc)
  moreover have "shape_is ?W (Some 0) [2, 7]" by (simp add: shape_is_def is_shape_def plain_context_def)
  ultimately show ?thesis using split_concatenate_sound [of ?W "Some 0" "[2, 7]" 1] by (intro exI [of _ ?W]) simp
qed

end
