(* ===== verification/Inference_Context.thy ===== *)
theory Inference_Context
  imports Shape_Arithmetic
begin

text \<open>
  The rest of \<^verbatim>\<open>tensorflow/core/framework/shape_inference.cc\<close> and its header: constructing a
  context for a node, running a shape function in it, the inputs and outputs, shapes made from protos, partial
  shapes and tensors, and the shapes and types behind resource handles.

  A tensor that is known while shapes are inferred is a \<^typ>\<open>host_tensor\<close>: its shape, its type and its
  elements. The result of \<open>NameRangesForNode\<close> (a status and the ranges of the named inputs
  and outputs), the texts of \<open>Tensor::SummarizeValue\<close> and \<open>DataTypeString\<close> are arguments; so is
  the \<open>memory\<close> of a temporary \<open>PartialTensorShape\<close>, whose first contents mean nothing.
\<close>

section \<open>Inputs and outputs\<close>

definition list_put :: "'a list \<Rightarrow> int \<Rightarrow> 'a \<Rightarrow> 'a list res" where
  "list_put xs i v =
     (if 0 \<le> i \<and> i < int (length xs) then ret (xs[nat i := v]) else abort (Undefined ''index of std::vector''))"

definition resized :: "nat \<Rightarrow> 'a \<Rightarrow> 'a list \<Rightarrow> 'a list" where
  "resized n v xs = take n xs @ replicate (n - length xs) v"

definition input_at :: "int \<Rightarrow> inference_context \<Rightarrow> handle res" where
  "input_at idx c = list_at (ic_inputs c) idx"

definition output_at :: "int \<Rightarrow> inference_context \<Rightarrow> handle res" where
  "output_at idx c = list_at (ic_outputs c) idx"

definition set_output_at :: "int \<Rightarrow> handle \<Rightarrow> unit iop" where
  "set_output_at idx shape = (\<lambda>c. bnd (list_put (ic_outputs c) idx shape) (\<lambda>os. ret ((), c\<lparr>ic_outputs := os\<rparr>)))"

fun put_outputs :: "int \<Rightarrow> handle list \<Rightarrow> unit iop" where
  "put_outputs i [] = sret ()"
| "put_outputs i (s # ss) = sbnd (set_output_at i s) (\<lambda>_. put_outputs (i + 1) ss)"

definition set_output_named :: "string \<Rightarrow> handle list \<Rightarrow> status iop" where
  "set_output_named output_name shapes = (\<lambda>c.
     case map_of (ic_output_names c) output_name of
       None \<Rightarrow> ret (InvalidArgument (''Unknown output name: '' @ output_name), c)
     | Some (start, finish) \<Rightarrow>
         if finish - start \<noteq> int (length shapes) then
           ret (InvalidArgument (''Must have exactly '' @ int_text (int (length shapes)) @ '' shapes.''), c)
         else sbnd (put_outputs start shapes) (\<lambda>_. sret OK) c)"

definition input_named :: "string \<Rightarrow> handle list \<Rightarrow> inference_context \<Rightarrow> (status \<times> handle list) res" where
  "input_named input_name out c =
     (case map_of (ic_input_names c) input_name of
        None \<Rightarrow> ret (InvalidArgument (''Unknown input name: '' @ input_name), out)
      | Some (start, finish) \<Rightarrow> bnd (mapM (list_at (ic_inputs c)) [start..finish - 1]) (\<lambda>hs. ret (OK, hs)))"

definition output_named :: "string \<Rightarrow> handle list \<Rightarrow> inference_context \<Rightarrow> (status \<times> handle list) res" where
  "output_named output_name out c =
     (case map_of (ic_output_names c) output_name of
        None \<Rightarrow> ret (InvalidArgument (''Unknown output name: '' @ output_name), out)
      | Some (start, finish) \<Rightarrow> bnd (mapM (list_at (ic_outputs c)) [start..finish - 1]) (\<lambda>hs. ret (OK, hs)))"

definition input_tensor :: "int \<Rightarrow> host_tensor option iop" where
  "input_tensor idx = (\<lambda>c. bnd (list_put (ic_requested c) idx True) (\<lambda>r.
     bnd (list_at (ic_input_tensors c) idx) (\<lambda>t. ret (t, c\<lparr>ic_requested := r\<rparr>))))"

definition MergeInput :: "int \<Rightarrow> handle \<Rightarrow> bool iop" where
  "MergeInput idx shape = sbnd (sread (input_at idx)) (\<lambda>existing. sbnd (Merge_shape existing shape) (\<lambda>(st, new_shape).
     if \<not> ok st \<or> existing = new_shape then sret False
     else (\<lambda>c. bnd (list_put (ic_inputs c) idx new_shape) (\<lambda>is. ret (True, c\<lparr>ic_inputs := is\<rparr>)))))"

definition RelaxInput :: "int \<Rightarrow> handle \<Rightarrow> bool iop" where
  "RelaxInput idx shape = sbnd (sread (input_at idx)) (\<lambda>existing. sbnd (Relax_shape existing shape) (\<lambda>new_shape.
     if existing = new_shape then sret False
     else (\<lambda>c. bnd (list_put (ic_inputs c) idx new_shape) (\<lambda>is. ret (True, c\<lparr>ic_inputs := is\<rparr>)))))"

section \<open>Shapes from other descriptions\<close>

definition MakeShapeFromPartialTensorShape :: "tensor_shape_rep \<Rightarrow> (status \<times> handle) iop" where
  "MakeShapeFromPartialTensorShape partial_shape =
     (if dims True partial_shape = - 1 then ReturnUnknownShape
      else sbnd (smap (\<lambda>i. sbnd (sread (\<lambda>c. dim_size True partial_shape i)) (\<lambda>v. MakeDim (Const_arg v)))
          [0..dims True partial_shape - 1]) ReturnCreatedShape)"

definition MakeShapeFromTensorShape :: "bytes \<Rightarrow> tensor_shape_rep \<Rightarrow> (status \<times> handle) iop" where
  "MakeShapeFromTensorShape memory shape =
     sbnd (sread (\<lambda>c. bnd (dim_sizes False shape) (new_shape True memory))) MakeShapeFromPartialTensorShape"

definition MakeShapeFromShapeProto :: "bytes \<Rightarrow> shape_proto \<Rightarrow> (status \<times> handle) iop" where
  "MakeShapeFromShapeProto memory proto =
     sbnd (sread (\<lambda>c. IsValidShape True proto)) (\<lambda>st.
     if \<not> ok st then sret (st, None)
     else sbnd (sread (\<lambda>c. shape_of_proto True memory proto)) MakeShapeFromPartialTensorShape)"

fun tensor_dims :: "int list \<Rightarrow> (status \<times> handle list) iop" where
  "tensor_dims [] = sret (OK, [])"
| "tensor_dims (val # vals) =
     (if val < - 1 then sret (InvalidArgument (''Invalid value in tensor used for shape: '' @ int_text val), [])
      else sbnd (MakeDim (Const_arg val)) (\<lambda>d. sbnd (tensor_dims vals) (\<lambda>(st, ds). sret (st, d # ds))))"

definition MakeShapeFromTensor ::
  "(byte \<Rightarrow> string) \<Rightarrow> host_tensor option \<Rightarrow> handle \<Rightarrow> handle \<Rightarrow> (status \<times> handle) iop" where
  "MakeShapeFromTensor DataTypeString tensor tensor_shape out =
     (case tensor of
        None \<Rightarrow>
          sbnd (Dim tensor_shape 0) (\<lambda>shape_dim. sbnd (sread (Value_of (Dim_arg shape_dim))) (\<lambda>num_dims.
          if num_dims = kUnknownDim then ReturnUnknownShape
          else sbnd (smap (\<lambda>i. UnknownDim) [0..num_dims - 1]) ReturnCreatedShape))
      | Some t \<Rightarrow>
          if length (ht_shape t) \<noteq> 1 then
            sret (InvalidArgument (''Input tensor must be rank 1, but was rank '' @ int_text (int (length (ht_shape t)))), None)
          else if ht_dtype t = DT_INT32 \<or> ht_dtype t = DT_INT64 then
            sbnd (tensor_dims (ht_flat t)) (\<lambda>(st, ds). if \<not> ok st then sret (st, out) else ReturnCreatedShape ds)
          else sret (InvalidArgument (''Input tensor must be int32 or int64, but was '' @ DataTypeString (ht_dtype t)), None))"

definition MakeShapeFromShapeTensor :: "(byte \<Rightarrow> string) \<Rightarrow> int \<Rightarrow> handle \<Rightarrow> (status \<times> handle) iop" where
  "MakeShapeFromShapeTensor DataTypeString input_idx out =
     sbnd (sread (input_at input_idx)) (\<lambda>s. sbnd (WithRank s 1 None) (\<lambda>(st, input_shape).
     if \<not> ok st then sret (st, out)
     else sbnd (\<lambda>c. bnd (list_put (ic_requested_partial c) input_idx True) (\<lambda>r. ret ((), c\<lparr>ic_requested_partial := r\<rparr>))) (\<lambda>_.
       sbnd (sread (\<lambda>c. if input_idx < int (length (ic_as_shapes c)) then list_at (ic_as_shapes c) input_idx else ret None)) (\<lambda>as_shape.
       sbnd (sread (RankKnown as_shape)) (\<lambda>known.
       if known then sret (OK, as_shape)
       else sbnd (input_tensor input_idx) (\<lambda>t. MakeShapeFromTensor DataTypeString t input_shape out))))))"

definition GetScalarFromTensor :: "host_tensor \<Rightarrow> (status \<times> int option) res" where
  "GetScalarFromTensor t =
     (if length (ht_shape t) \<noteq> 0 then
        ret (InvalidArgument (''Input must be scalar but has rank '' @ int_text (int (length (ht_shape t)))), None)
      else if ht_dtype t = DT_INT32 \<or> ht_dtype t = DT_INT64 then bnd (list_at (ht_flat t) 0) (\<lambda>v. ret (OK, Some v))
      else ret (InvalidArgument ''Scalar input for dim size must be int32 or int64'', None))"

definition MakeDimForScalarInput :: "int \<Rightarrow> handle \<Rightarrow> (status \<times> handle) iop" where
  "MakeDimForScalarInput idx out = sbnd (input_tensor idx) (\<lambda>tensor. case tensor of
     None \<Rightarrow> sbnd UnknownDim (\<lambda>d. sret (OK, d))
   | Some t \<Rightarrow> sbnd (sread (\<lambda>c. GetScalarFromTensor t)) (\<lambda>(st, v).
       if \<not> ok st then sret (st, out)
       else let val = the v in
         if val < 0 then
           sret (InvalidArgument (''Dimension size, given by scalar input '' @ int_text idx @ '', must be non-negative but is '' @
             int_text val), out)
         else sbnd (MakeDim (Const_arg val)) (\<lambda>d. sret (OK, d))))"

definition MakeDimForScalarInputWithNegativeIndexing :: "int \<Rightarrow> int \<Rightarrow> handle \<Rightarrow> (status \<times> handle) iop" where
  "MakeDimForScalarInputWithNegativeIndexing idx input_rank out = sbnd (input_tensor idx) (\<lambda>tensor. case tensor of
     None \<Rightarrow> sbnd UnknownDim (\<lambda>d. sret (OK, d))
   | Some t \<Rightarrow> sbnd (sread (\<lambda>c. GetScalarFromTensor t)) (\<lambda>(st, v).
       if \<not> ok st then sret (st, out)
       else let val = the v;
         bad = InvalidArgument (''Dimension size, given by scalar input '' @ int_text val @ '' must be in range [-'' @
           int_text input_rank @ '', '' @ int_text input_rank @ '')'') in
         if val < 0 then
           (if input_rank < 0 then sbnd UnknownDim (\<lambda>d. sret (OK, d))
            else if val + input_rank < 0 then sret (bad, out)
            else sbnd (MakeDim (Const_arg (val + input_rank))) (\<lambda>d. sret (OK, d)))
         else if input_rank \<ge> 0 \<and> val \<ge> input_rank then sret (bad, out)
         else sbnd (MakeDim (Const_arg val)) (\<lambda>d. sret (OK, d))))"

section \<open>Construction\<close>

record node_ranges =
  nr_status :: status
  nr_inputs :: name_ranges
  nr_outputs :: name_ranges

definition blank_context :: "string \<Rightarrow> string \<Rightarrow> int list \<Rightarrow> inferred_shape list \<Rightarrow> inference_context" where
  "blank_context name op ds ss = \<lparr>ic_shapes = ss, ic_dims = ds, ic_inputs = [], ic_input_tensors = [], ic_requested = [],
     ic_outputs = [], ic_as_shapes = [], ic_requested_partial = [], ic_input_handles = [], ic_output_handles = [],
     ic_node_name = name, ic_node_op = op, ic_input_names = [], ic_output_names = [], ic_construction_status = OK\<rparr>"

definition ranges_end :: "name_ranges \<Rightarrow> int" where
  "ranges_end names = foldl max 0 (map (\<lambda>(name, start, finish). finish) names)"

definition PreInputInit ::
  "node_ranges \<Rightarrow> host_tensor option list \<Rightarrow> handle list \<Rightarrow> inference_context \<Rightarrow> inference_context" where
  "PreInputInit ranges input_tensors as_shapes c =
     (let c1 = c\<lparr>ic_input_tensors := input_tensors, ic_as_shapes := as_shapes, ic_input_names := nr_inputs ranges,
           ic_output_names := nr_outputs ranges, ic_construction_status := nr_status ranges\<rparr> in
      if \<not> ok (nr_status ranges) then c1
      else let num_outputs = nat (ranges_end (nr_outputs ranges)) in
        c1\<lparr>ic_outputs := ic_outputs c1 @ replicate num_outputs None,
           ic_output_handles := resized num_outputs None (ic_output_handles c1)\<rparr>)"

definition PostInputInit :: "shape_and_type list option list \<Rightarrow> inference_context \<Rightarrow> inference_context res" where
  "PostInputInit handle_data c =
     (let n = length (ic_inputs c); expected = ranges_end (ic_input_names c) in
      if handle_data \<noteq> [] \<and> length handle_data \<noteq> n then
        ret (c\<lparr>ic_construction_status := InvalidArgument (''Wrong number of handle shapes passed; expected '' @
          int_text (int n) @ '' got '' @ int_text (int (length handle_data)))\<rparr>)
      else
        let c1 = c\<lparr>ic_input_handles := (if handle_data = [] then resized n None (ic_input_handles c) else handle_data)\<rparr> in
        if int n \<noteq> expected then
          ret (c1\<lparr>ic_construction_status := InvalidArgument (''Wrong number of inputs passed: '' @ int_text (int n) @
            '' while '' @ int_text expected @ '' expected based on NodeDef'')\<rparr>)
        else CHECK (length (ic_input_tensors c) \<le> n) ''input_tensors_.size() <= inputs_.size()''
          (ret (c1\<lparr>ic_input_tensors := resized n None (ic_input_tensors c), ic_requested := resized n False (ic_requested c),
             ic_requested_partial := resized n False (ic_requested_partial c)\<rparr>)))"

text \<open>The loops of the constructors, which stop at the first error; the handles made before it are returned.\<close>

fun make_shapes :: "('p \<Rightarrow> (status \<times> handle) iop) \<Rightarrow> 'p list \<Rightarrow> (status \<times> handle list) iop" where
  "make_shapes mk [] = sret (OK, [])"
| "make_shapes mk (p # ps) = sbnd (mk p) (\<lambda>(st, h).
     if \<not> ok st then sret (st, [])
     else sbnd (make_shapes mk ps) (\<lambda>(st', hs). sret (st', h # hs)))"

fun make_handle_data ::
  "('p \<Rightarrow> (status \<times> handle) iop) \<Rightarrow> nat \<Rightarrow> ('p \<times> byte) list option list \<Rightarrow> (status \<times> shape_and_type list option list) iop" where
  "make_handle_data mk room [] = sret (OK, replicate room None)"
| "make_handle_data mk room (None # vs) =
     sbnd (make_handle_data mk (room - 1) vs) (\<lambda>(st, hs). sret (st, if room = 0 then hs else None # hs))"
| "make_handle_data mk room (Some v # vs) =
     (if room = 0 then sabort (Undefined ''index of std::vector'')
      else sbnd (make_shapes mk (map fst v)) (\<lambda>(st, hs).
        if \<not> ok st then sret (st, [])
        else sbnd (make_handle_data mk (room - 1) vs) (\<lambda>(st', rest).
          sret (st', Some (map2 (\<lambda>h (p, t). \<lparr>sat_shape = h, sat_dtype = t\<rparr>) hs v) # rest))))"

text \<open>The constructors from protos and from partial shapes, which have the same text: the inputs, and the whole.\<close>

definition construct_inputs ::
  "('p \<Rightarrow> (status \<times> handle) iop) \<Rightarrow> 'p list \<Rightarrow> ('p \<times> byte) list option list \<Rightarrow> inference_context \<Rightarrow> inference_context res" where
  "construct_inputs mk input_shapes handles c2 =
     bnd (make_shapes mk input_shapes c2) (\<lambda>((st', is), c3).
       let c4 = c3\<lparr>ic_inputs := ic_inputs c3 @ is, ic_construction_status := st'\<rparr> in
       if \<not> ok st' then ret c4
       else bnd (make_handle_data mk (length input_shapes) handles c4) (\<lambda>((st'', handle_data), c5).
         let c6 = c5\<lparr>ic_construction_status := st''\<rparr> in
         if \<not> ok st'' then ret c6 else PostInputInit handle_data c6))"

definition construct ::
  "('p \<Rightarrow> (status \<times> handle) iop) \<Rightarrow> string \<Rightarrow> string \<Rightarrow> node_ranges \<Rightarrow> 'p list \<Rightarrow> host_tensor option list \<Rightarrow> 'p list \<Rightarrow>
   ('p \<times> byte) list option list \<Rightarrow> inference_context res" where
  "construct mk name op ranges input_shapes input_tensors as_shapes handles =
     bnd (make_shapes mk as_shapes (blank_context name op [] [])) (\<lambda>((st, hs), c1).
     if \<not> ok st then ret (c1\<lparr>ic_construction_status := st\<rparr>)
     else let c2 = PreInputInit ranges input_tensors hs c1 in
       if \<not> ok (ic_construction_status c2) then ret c2
       else construct_inputs mk input_shapes handles c2)"

definition InferenceContext_protos ::
  "bytes \<Rightarrow> string \<Rightarrow> string \<Rightarrow> node_ranges \<Rightarrow> shape_proto list \<Rightarrow> host_tensor option list \<Rightarrow> shape_proto list \<Rightarrow>
   (shape_proto \<times> byte) list option list \<Rightarrow> inference_context res" where
  "InferenceContext_protos memory = construct (MakeShapeFromShapeProto memory)"

definition InferenceContext_partial ::
  "string \<Rightarrow> string \<Rightarrow> node_ranges \<Rightarrow> tensor_shape_rep list \<Rightarrow> host_tensor option list \<Rightarrow> tensor_shape_rep list \<Rightarrow>
   (tensor_shape_rep \<times> byte) list option list \<Rightarrow> inference_context res" where
  "InferenceContext_partial = construct MakeShapeFromPartialTensorShape"

text \<open>
  The constructor from handles. The dimensions and shapes they point to belong to other contexts; they are the first
  elements of the stores here.
\<close>

definition InferenceContext_handles ::
  "int list \<Rightarrow> inferred_shape list \<Rightarrow> string \<Rightarrow> string \<Rightarrow> node_ranges \<Rightarrow> handle list \<Rightarrow> host_tensor option list \<Rightarrow> handle list \<Rightarrow>
   shape_and_type list option list \<Rightarrow> inference_context res" where
  "InferenceContext_handles ds ss name op ranges input_shapes input_tensors as_shapes handles =
     (let c = PreInputInit ranges input_tensors as_shapes (blank_context name op ds ss) in
      if \<not> ok (ic_construction_status c) then ret c
      else PostInputInit handles (c\<lparr>ic_inputs := input_shapes\<rparr>))"

section \<open>Running a shape function\<close>

definition join_with :: "string \<Rightarrow> string list \<Rightarrow> string" where
  "join_with sep ts = concat (case ts of [] \<Rightarrow> [] | t # rest \<Rightarrow> t # map (\<lambda>u. sep @ u) rest)"

text \<open>What \<open>AttachContext\<close> says of input \<open>i\<close>: its partial shape on the right, its tensor on the left.\<close>

definition input_note :: "(host_tensor \<Rightarrow> string) \<Rightarrow> inference_context \<Rightarrow> int \<Rightarrow> (string + string) option res" where
  "input_note SummarizeValue c i =
     bnd (list_at (ic_requested_partial c) i) (\<lambda>partial.
     bnd (if partial \<and> i < int (length (ic_as_shapes c)) then list_at (ic_as_shapes c) i else ret None) (\<lambda>as_shape.
     bnd (RankKnown as_shape c) (\<lambda>known.
     if known then bnd (ic_DebugString as_shape c) (\<lambda>t. ret (Some (Inr (''input['' @ int_text i @ ''] = '' @ t))))
     else bnd (list_at (ic_requested c) i) (\<lambda>requested.
       bnd (if requested \<and> i < int (length (ic_input_tensors c)) then list_at (ic_input_tensors c) i else ret None) (\<lambda>t.
       ret (map_option (\<lambda>t. Inl (''input['' @ int_text i @ ''] = <'' @ SummarizeValue t @ ''>'')) t))))))"

definition AttachContext :: "(host_tensor \<Rightarrow> string) \<Rightarrow> status \<Rightarrow> inference_context \<Rightarrow> status res" where
  "AttachContext SummarizeValue st c =
     bnd (mapM (\<lambda>s. ic_DebugString s c) (ic_inputs c)) (\<lambda>input_shapes.
     bnd (mapM (input_note SummarizeValue c) [0..int (length (ic_inputs c)) - 1]) (\<lambda>notes.
     let from_tensors = concat (map (\<lambda>n. case n of Some (Inl t) \<Rightarrow> [t] | _ \<Rightarrow> []) notes);
         as_shapes = concat (map (\<lambda>n. case n of Some (Inr t) \<Rightarrow> [t] | _ \<Rightarrow> []) notes);
         quote = [CHR 0x27];
         error_context = '' for '' @ quote @ ic_node_name c @ quote @ '' (op: '' @ quote @ ic_node_op c @ quote @
           '') with input shapes: '' @ join_with '', '' input_shapes @
           (if from_tensors \<noteq> [] then '' and with computed input tensors: '' @ join_with '', '' from_tensors else []) @
           (if as_shapes \<noteq> [] then '' and with input tensors computed as partial shapes: '' @ join_with '','' as_shapes else []) @
           ''.''
       in new_Status (status_code st) (error_message st @ error_context)))"

definition Run :: "(host_tensor \<Rightarrow> string) \<Rightarrow> status iop \<Rightarrow> status iop" where
  "Run SummarizeValue fn = sbnd fn (\<lambda>st.
     if \<not> ok st then sread (AttachContext SummarizeValue st)
     else (\<lambda>c. DCHECK (list_all (\<lambda>h. h \<noteq> None) (ic_outputs c)) ''output(i).IsSet()'' (ret (st, c))))"

section \<open>Shapes and types behind resource handles\<close>

text \<open>
  The loops of \<open>MergeHandleShapesAndTypes\<close> and \<open>RelaxHandleShapesAndMergeTypes\<close> differ in how a
  stored shape and a new one are combined. Its value is the new elements and whether one was refined, or
  \<^const>\<open>None\<close> when types differ.
\<close>

fun combine_loop ::
  "(handle \<Rightarrow> handle \<Rightarrow> handle iop) \<Rightarrow> shape_and_type list \<Rightarrow> shape_and_type list \<Rightarrow> (shape_and_type list \<times> bool) option iop" where
  "combine_loop combine (new # news) (existing # exs) =
     (if sat_dtype new \<noteq> sat_dtype existing \<and> sat_dtype existing \<noteq> DT_INVALID then sret None
      else sbnd (combine (sat_shape existing) (sat_shape new)) (\<lambda>h.
        let refined = (sat_dtype new \<noteq> sat_dtype existing \<or> sat_shape existing \<noteq> h) in
        sbnd (combine_loop combine news exs) (\<lambda>r. sret (map_option (\<lambda>(vs, refined').
          (\<lparr>sat_shape = h, sat_dtype = sat_dtype new\<rparr> # vs, refined \<or> refined')) r))))"
| "combine_loop combine news exs = sret (Some ([], False))"

text \<open>The value is \<open>to_update\<close> at the end and what the function returns.\<close>

definition combine_handles ::
  "(handle \<Rightarrow> handle \<Rightarrow> handle iop) \<Rightarrow> shape_and_type list \<Rightarrow> shape_and_type list \<Rightarrow> (shape_and_type list \<times> bool) iop" where
  "combine_handles combine news to_update =
     (if length news \<noteq> length to_update then sret (to_update, False)
      else sbnd (combine_loop combine news to_update) (\<lambda>r. sret (case r of
        Some (vs, True) \<Rightarrow> (vs, True) | _ \<Rightarrow> (to_update, False))))"

definition merge_or_keep :: "handle \<Rightarrow> handle \<Rightarrow> handle iop" where
  "merge_or_keep existing new = sbnd (Merge_shape existing new) (\<lambda>(st, h). sret (if ok st then h else existing))"

definition MergeHandleShapesAndTypes :: "shape_and_type list \<Rightarrow> shape_and_type list \<Rightarrow> (shape_and_type list \<times> bool) iop" where
  "MergeHandleShapesAndTypes = combine_handles merge_or_keep"

definition RelaxHandleShapesAndMergeTypes :: "shape_and_type list \<Rightarrow> shape_and_type list \<Rightarrow> (shape_and_type list \<times> bool) iop" where
  "RelaxHandleShapesAndMergeTypes = combine_handles Relax_shape"

text \<open>One slot of a vector of handle data: set when it is null, combined otherwise.\<close>

definition update_slot ::
  "(shape_and_type list \<Rightarrow> shape_and_type list \<Rightarrow> (shape_and_type list \<times> bool) iop) \<Rightarrow>
   (inference_context \<Rightarrow> shape_and_type list option list) \<Rightarrow>
   (shape_and_type list option list \<Rightarrow> inference_context \<Rightarrow> inference_context) \<Rightarrow> int \<Rightarrow> shape_and_type list \<Rightarrow> bool iop" where
  "update_slot update slots set_slots idx news =
     sbnd (sread (\<lambda>c. list_at (slots c) idx)) (\<lambda>slot.
     sbnd (case slot of None \<Rightarrow> sret (news, True) | Some existing \<Rightarrow> update news existing) (\<lambda>(vs, changed).
     (\<lambda>c. ret (changed, set_slots ((slots c)[nat idx := Some vs]) c))))"

definition MergeOutputHandleShapesAndTypes :: "int \<Rightarrow> shape_and_type list \<Rightarrow> bool iop" where
  "MergeOutputHandleShapesAndTypes =
     update_slot MergeHandleShapesAndTypes ic_output_handles (\<lambda>v c. c\<lparr>ic_output_handles := v\<rparr>)"

definition MergeInputHandleShapesAndTypes :: "int \<Rightarrow> shape_and_type list \<Rightarrow> bool iop" where
  "MergeInputHandleShapesAndTypes =
     update_slot MergeHandleShapesAndTypes ic_input_handles (\<lambda>v c. c\<lparr>ic_input_handles := v\<rparr>)"

definition RelaxOutputHandleShapesAndMergeTypes :: "int \<Rightarrow> shape_and_type list \<Rightarrow> bool iop" where
  "RelaxOutputHandleShapesAndMergeTypes =
     update_slot RelaxHandleShapesAndMergeTypes ic_output_handles (\<lambda>v c. c\<lparr>ic_output_handles := v\<rparr>)"

definition RelaxInputHandleShapesAndMergeTypes :: "int \<Rightarrow> shape_and_type list \<Rightarrow> bool iop" where
  "RelaxInputHandleShapesAndMergeTypes =
     update_slot RelaxHandleShapesAndMergeTypes ic_input_handles (\<lambda>v c. c\<lparr>ic_input_handles := v\<rparr>)"

definition set_output_handle_shapes_and_types :: "int \<Rightarrow> shape_and_type list \<Rightarrow> unit iop" where
  "set_output_handle_shapes_and_types idx vs =
     (\<lambda>c. bnd (list_put (ic_output_handles c) idx (Some vs)) (\<lambda>hs. ret ((), c\<lparr>ic_output_handles := hs\<rparr>)))"

section \<open>What a made shape shows\<close>

definition displays :: "inference_context \<Rightarrow> handle \<Rightarrow> int list option \<Rightarrow> bool" where
  "displays c h v \<longleftrightarrow> is_shape c h \<and> known c h = v"

lemma grows_nth:
  assumes "grows c c'"
  shows "is_dim c d \<Longrightarrow> dim_value c' d = dim_value c d" "is_shape c h \<Longrightarrow> shape_at c' h = shape_at c h"
  using grows_lists [OF assms]
  by (auto simp: dim_value_def shape_at_def is_dim_def is_shape_def nth_append split: option.splits)

lemma displays_later:
  assumes "displays c h v" "store_ok c" "grows c c'"
  shows "displays c' h v"
proof -
  have h: "is_shape c h" "known c h = v" using assms(1) by (simp_all add: displays_def)
  have "map (dim_value c') (is_dims (shape_at c h)) = map (dim_value c) (is_dims (shape_at c h))"
    using shape_at_dims [OF assms(2) h(1)] grows_nth(1) [OF assms(3)] by (auto simp: list_all_iff)
  then show ?thesis using h grows_nth(2) [OF assms(3) h(1)] grows_handles(2) [OF assms(3) h(1)]
    by (auto simp: displays_def known_def)
qed

lemma store_ok_cong: "ic_dims c' = ic_dims c \<Longrightarrow> ic_shapes c' = ic_shapes c \<Longrightarrow> store_ok c' = store_ok c"
  by (simp add: store_ok_def shape_wf_def [abs_def] is_dim_def [abs_def])

lemma displays_cong: "ic_dims c' = ic_dims c \<Longrightarrow> ic_shapes c' = ic_shapes c \<Longrightarrow> displays c' h v = displays c h v"
  by (cases h) (auto simp: displays_def is_shape_def known_def shape_at_def dim_value_def [abs_def])

text \<open>New dimensions with the given sizes, and a shape of them.\<close>

definition with_shape :: "inference_context \<Rightarrow> int list \<Rightarrow> inference_context" where
  "with_shape c vs = c\<lparr>ic_dims := ic_dims c @ vs, ic_shapes := ic_shapes c @
     [\<lparr>is_rank = int (length vs), is_dims = map Some [length (ic_dims c)..<length (ic_dims c) + length vs]\<rparr>]\<rparr>"

lemma smap_new_dims:
  assumes "\<And>x c. x \<in> set xs \<Longrightarrow> f x c = MakeDim (Const_arg (g x)) c" "list_all dim_wf (map g xs)"
  shows "smap f xs c = ret (map Some [length (ic_dims c)..<length (ic_dims c) + length xs], c\<lparr>ic_dims := ic_dims c @ map g xs\<rparr>)"
  using assms
proof (induction xs arbitrary: c)
  case (Cons x xs)
  have "dim_wf (g x)" using Cons.prems(2) by simp
  then have "g x \<ge> 0 \<or> g x = - 1" by (auto simp: dim_wf_def)
  then have x: "f x c = ret (Some (length (ic_dims c)), c\<lparr>ic_dims := ic_dims c @ [g x]\<rparr>)"
    using Cons.prems(1) [of x] by (simp add: MakeDim_def new_Dimension_def kUnknownDim_def)
  show ?case using Cons.IH [of "c\<lparr>ic_dims := ic_dims c @ [g x]\<rparr>"] Cons.prems x by (simp add: upt_conv_Cons del: upt_Suc)
qed simp

lemma with_shape_spec:
  assumes "store_ok c" "list_all dim_wf vs"
  shows "grows c (with_shape c vs)" "store_ok (with_shape c vs)" "displays (with_shape c vs) (Some (length (ic_shapes c))) (Some vs)"
proof -
  let ?c = "with_shape c vs"
  show g: "grows c ?c" unfolding with_shape_def by (rule growsI) simp
  have "shape_wf ?c sh" if "sh \<in> set (ic_shapes c)" for sh
    using that assms(1) shape_wf_more [OF _ g] by (auto simp: store_ok_def list_all_iff)
  moreover have "shape_wf ?c \<lparr>is_rank = int (length vs), is_dims = map Some [length (ic_dims c)..<length (ic_dims c) + length vs]\<rparr>"
    by (auto simp: shape_wf_def list_all_iff is_dim_def with_shape_def)
  ultimately show "store_ok ?c" using assms by (auto simp: store_ok_def list_all_iff with_shape_def)
  show "displays ?c (Some (length (ic_shapes c))) (Some vs)"
    by (auto simp: displays_def is_shape_def known_def shape_at_def dim_value_def with_shape_def intro!: nth_equalityI)
qed

definition makes :: "(status \<times> handle) iop \<Rightarrow> inference_context \<Rightarrow> bool \<Rightarrow> int list option \<Rightarrow> bool" where
  "makes m c good v \<longleftrightarrow> (\<exists>st h c'. m c = ret ((st, h), c') \<and> grows c c' \<and> store_ok c' \<and> (ok st \<longleftrightarrow> good) \<and>
     (good \<longrightarrow> displays c' h v))"

lemma created_makes:
  assumes "store_ok c" "list_all dim_wf (map g xs)" "\<And>x c. x \<in> set xs \<Longrightarrow> f x c = MakeDim (Const_arg (g x)) c"
  shows "makes (sbnd (smap f xs) ReturnCreatedShape) c True (Some (map g xs))"
  using with_shape_spec [OF assms(1,2)] smap_new_dims [OF assms(3,2), of c]
  by (auto simp: makes_def ReturnCreatedShape_def MakeShape_dims_def with_shape_def OK_def ok_def)

lemma unknown_makes:
  assumes "store_ok c"
  shows "makes ReturnUnknownShape c True None"
proof -
  let ?c = "c\<lparr>ic_shapes := ic_shapes c @ [\<lparr>is_rank = - 1, is_dims = []\<rparr>]\<rparr>"
  have g: "grows c ?c" by (rule growsI [where ds = "[]"]) simp
  have "store_ok ?c" using assms shape_wf_more [OF _ g] by (auto simp: store_ok_def list_all_iff shape_wf_def)
  with g show ?thesis
    by (auto simp: makes_def ReturnUnknownShape_def UnknownShape_def ic_kUnknownRank_def OK_def ok_def displays_def
        is_shape_def known_def shape_at_def)
qed

lemma MakeShapeFromPartial_makes:
  assumes "rep_ok True p" "store_ok c"
  shows "makes (MakeShapeFromPartialTensorShape p) c True (view True p)"
proof (cases "unknown_rank True p")
  case True
  then show ?thesis using unknown_makes [OF assms(2)] unknown_facts [OF True]
    by (simp add: MakeShapeFromPartialTensorShape_def view_def)
next
  case False
  then have d: "denotes True p (sizes True p)" using assms(1) by (simp add: denotes_def view_def)
  let ?ds = "sizes True p" and ?n = "length (sizes True p)"
  note f = denotes_facts [OF d]
  have wf: "list_all dim_wf ?ds" using f(5) by (auto simp: shape_valid_def list_all_iff size_ok_def dim_wf_def)
  have "map (\<lambda>i. ?ds ! nat i) [0..int ?n - 1] = ?ds" by (auto simp: upto_upt intro!: nth_equalityI)
  moreover have "makes (sbnd (smap (\<lambda>i. sbnd (sread (\<lambda>c. dim_size True p i)) (\<lambda>v. MakeDim (Const_arg v)))
      [0..int ?n - 1]) ReturnCreatedShape) c True (Some (map (\<lambda>i. ?ds ! nat i) [0..int ?n - 1]))"
    by (rule created_makes [OF assms(2)]) (use wf calculation dim_size_denotes [OF d] in auto)
  ultimately show ?thesis using False f(7) by (simp add: MakeShapeFromPartialTensorShape_def view_def)
qed

definition proto_view :: "shape_proto \<Rightarrow> int list option" where
  "proto_view proto = (if sp_unknown_rank proto then None else Some (sp_dim proto))"

lemma MakeShapeFromProto_makes:
  assumes "list_all int64_size (sp_dim proto)" "length memory = 12" "store_ok c"
  shows "makes (MakeShapeFromShapeProto memory proto) c (proto_valid True proto) (proto_view proto)"
proof -
  from IsValid_spec(2) [OF assms(1)] obtain st where st: "IsValidShape True proto = ret st" "ok st \<longleftrightarrow> proto_valid True proto"
    by blast
  show ?thesis
  proof (cases "proto_valid True proto")
    case True
    from shape_of_proto_spec [OF assms(2) True] obtain s where s: "shape_of_proto True memory proto = ret s" "rep_ok True s"
      "view True s = proto_view proto" by (auto simp: proto_view_def)
    with MakeShapeFromPartial_makes [OF s(2) assms(3)] st True show ?thesis by (simp add: makes_def MakeShapeFromShapeProto_def)
  next
    case False
    with st assms(3) show ?thesis by (simp add: makes_def MakeShapeFromShapeProto_def)
  qed
qed

section \<open>Construction from descriptions of shapes\<close>

text \<open>
  The interface of a description of shapes, as the constructors use it: on a \<open>sane\<close> description (one the
  program can have in memory) \<open>mk\<close> returns, with an error exactly when the description is not \<open>good\<close>,
  and otherwise with a shape of which the context knows what the description says.
\<close>

lemma grows_fields:
  assumes "grows c c'"
  shows "ic_inputs c' = ic_inputs c" "ic_input_tensors c' = ic_input_tensors c" "ic_requested c' = ic_requested c"
    "ic_outputs c' = ic_outputs c" "ic_as_shapes c' = ic_as_shapes c" "ic_requested_partial c' = ic_requested_partial c"
    "ic_input_handles c' = ic_input_handles c" "ic_output_handles c' = ic_output_handles c"
    "ic_input_names c' = ic_input_names c" "ic_output_names c' = ic_output_names c"
    "ic_construction_status c' = ic_construction_status c"
  using assms by (auto simp: grows_def)

lemma displays_list:
  assumes "list_all2 (\<lambda>h p. displays c h (f p)) hs ps" "store_ok c" "grows c c'"
  shows "list_all2 (\<lambda>h p. displays c' h (f p)) hs ps"
  using assms(1) by (rule list_all2_mono) (rule displays_later [OF _ assms(2,3)])

lemma PostInputInit_spec:
  assumes "length hdat = length (ic_inputs c)" "length (ic_input_tensors c) \<le> length (ic_inputs c)" "ok (ic_construction_status c)"
    "ic_requested c = []" "ic_requested_partial c = []"
  shows "\<exists>c'. PostInputInit hdat c = ret c' \<and>
    (ok (ic_construction_status c') \<longleftrightarrow> int (length (ic_inputs c)) = ranges_end (ic_input_names c)) \<and>
    ic_dims c' = ic_dims c \<and> ic_shapes c' = ic_shapes c \<and> ic_inputs c' = ic_inputs c \<and> ic_outputs c' = ic_outputs c \<and>
    ic_as_shapes c' = ic_as_shapes c \<and> ic_output_handles c' = ic_output_handles c \<and> ic_input_handles c' = hdat \<and>
    (ok (ic_construction_status c') \<longrightarrow> ic_input_tensors c' = resized (length (ic_inputs c)) None (ic_input_tensors c) \<and>
       ic_requested c' = replicate (length (ic_inputs c)) False \<and> ic_requested_partial c' = replicate (length (ic_inputs c)) False)"
  using assms by (auto simp: PostInputInit_def Let_def resized_def InvalidArgument_def ok_def)

definition all_described :: "('p \<Rightarrow> bool) \<Rightarrow> ('p \<times> byte) list option list \<Rightarrow> bool" where
  "all_described P handles \<longleftrightarrow> list_all (\<lambda>v. case v of None \<Rightarrow> True | Some xs \<Rightarrow> list_all (\<lambda>(p, t). P p) xs) handles"

definition handle_displays ::
  "('p \<Rightarrow> int list option) \<Rightarrow> inference_context \<Rightarrow> shape_and_type list option \<Rightarrow> ('p \<times> byte) list option \<Rightarrow> bool" where
  "handle_displays shown c hs v \<longleftrightarrow>
     rel_option (list_all2 (\<lambda>s (p, t). displays c (sat_shape s) (shown p) \<and> sat_dtype s = t)) hs v"

locale shape_maker =
  fixes mk :: "'p \<Rightarrow> (status \<times> handle) iop"
    and sane :: "'p \<Rightarrow> bool" and good :: "'p \<Rightarrow> bool" and shown :: "'p \<Rightarrow> int list option"
  assumes mk_makes: "sane p \<Longrightarrow> store_ok c \<Longrightarrow> makes (mk p) c (good p) (shown p)"
begin

lemma make_shapes_spec:
  assumes "list_all sane ps" "store_ok c"
  shows "\<exists>st hs c'. make_shapes mk ps c = ret ((st, hs), c') \<and> grows c c' \<and> store_ok c' \<and> (ok st \<longleftrightarrow> list_all good ps) \<and>
    (ok st \<longrightarrow> list_all2 (\<lambda>h p. displays c' h (shown p)) hs ps)"
  using assms
proof (induction ps arbitrary: c)
  case Nil
  then show ?case by (simp add: OK_def ok_def)
next
  case (Cons p ps)
  from mk_makes [of p c] Cons.prems obtain st h c1 where
    1: "mk p c = ret ((st, h), c1)" "grows c c1" "store_ok c1" "ok st \<longleftrightarrow> good p" "good p \<longrightarrow> displays c1 h (shown p)"
    by (auto simp: makes_def)
  show ?case
  proof (cases "ok st")
    case False
    with 1 show ?thesis by simp
  next
    case True
    from Cons.IH [OF _ 1(3)] Cons.prems obtain st' hs c2 where
      2: "make_shapes mk ps c1 = ret ((st', hs), c2)" "grows c1 c2" "store_ok c2" "ok st' \<longleftrightarrow> list_all good ps"
        "ok st' \<longrightarrow> list_all2 (\<lambda>h p. displays c2 h (shown p)) hs ps" by auto
    have "displays c2 h (shown p)" using 1 True displays_later [OF _ 1(3) 2(2)] by blast
    with True 1 2 grows_trans [OF 1(2) 2(2)] show ?thesis by auto
  qed
qed

lemma make_handle_data_spec:
  assumes "all_described sane vs" "length vs \<le> room" "store_ok c"
  shows "\<exists>st hs c'. make_handle_data mk room vs c = ret ((st, hs), c') \<and> grows c c' \<and> store_ok c' \<and>
    (ok st \<longleftrightarrow> all_described good vs) \<and>
    (ok st \<longrightarrow> list_all2 (handle_displays shown c') hs (vs @ replicate (room - length vs) None))"
  using assms
proof (induction vs arbitrary: c room)
  case Nil
  then show ?case by (simp add: OK_def ok_def all_described_def handle_displays_def list_all2_conv_all_nth)
next
  case (Cons v vs)
  then obtain r where r: "room = Suc r" "length vs \<le> r" by (cases room) auto
  show ?case
  proof (cases v)
    case None
    with Cons.IH [of r c] Cons.prems r show ?thesis by (auto simp: all_described_def handle_displays_def)
  next
    case (Some xs)
    have "list_all sane (map fst xs)" using Cons.prems(1) Some by (auto simp: all_described_def list_all_iff)
    from make_shapes_spec [OF this Cons.prems(3)] obtain st hs c1 where
      1: "make_shapes mk (map fst xs) c = ret ((st, hs), c1)" "grows c c1" "store_ok c1" "ok st \<longleftrightarrow> list_all (\<lambda>(p, t). good p) xs"
        "ok st \<longrightarrow> list_all2 (\<lambda>h p. displays c1 h (shown p)) hs (map fst xs)"
      by (auto simp: list_all_iff case_prod_unfold)
    show ?thesis
    proof (cases "ok st")
      case False
      with 1 Some r show ?thesis by (simp add: all_described_def)
    next
      case True
      from Cons.IH [of r c1] Cons.prems(1) r 1(3) obtain st' rest c2 where
        2: "make_handle_data mk r vs c1 = ret ((st', rest), c2)" "grows c1 c2" "store_ok c2" "ok st' \<longleftrightarrow> all_described good vs"
          "ok st' \<longrightarrow> list_all2 (handle_displays shown c2) rest (vs @ replicate (r - length vs) None)"
        by (auto simp: all_described_def)
      let ?new = "map2 (\<lambda>h (p, t). \<lparr>sat_shape = h, sat_dtype = t\<rparr>) hs xs"
      have l: "list_all2 (\<lambda>h p. displays c2 h (shown p)) hs (map fst xs)"
        using 1(5) True by (auto elim!: list_all2_mono intro: displays_later [OF _ 1(3) 2(2)])
      then have "handle_displays shown c2 (Some ?new) (Some xs)"
        by (auto simp: handle_displays_def list_all2_conv_all_nth case_prod_unfold)
      with True 1 2 r Some grows_trans [OF 1(2) 2(2)] show ?thesis by (auto simp: all_described_def)
    qed
  qed
qed

lemma construct_inputs_spec:
  assumes "list_all sane ps" "all_described sane vs" "length vs \<le> length ps" "length (ic_input_tensors c) \<le> length ps" "store_ok c"
    "ic_inputs c = []" "ic_requested c = []" "ic_requested_partial c = []"
  shows "\<exists>c'. construct_inputs mk ps vs c = ret c' \<and>
    (ok (ic_construction_status c') \<longleftrightarrow>
       list_all good ps \<and> all_described good vs \<and> int (length ps) = ranges_end (ic_input_names c)) \<and>
    (ok (ic_construction_status c') \<longrightarrow> store_ok c' \<and> (\<forall>h v. displays c h v \<longrightarrow> displays c' h v) \<and>
       list_all2 (\<lambda>h p. displays c' h (shown p)) (ic_inputs c') ps \<and>
       list_all2 (handle_displays shown c') (ic_input_handles c') (vs @ replicate (length ps - length vs) None) \<and>
       ic_outputs c' = ic_outputs c \<and> ic_as_shapes c' = ic_as_shapes c \<and> ic_output_handles c' = ic_output_handles c \<and>
       ic_input_tensors c' = resized (length ps) None (ic_input_tensors c) \<and>
       ic_requested c' = replicate (length ps) False \<and> ic_requested_partial c' = replicate (length ps) False)"
proof -
  from make_shapes_spec [OF assms(1,5)] obtain st hs c3 where
    3: "make_shapes mk ps c = ret ((st, hs), c3)" "grows c c3" "store_ok c3" "ok st \<longleftrightarrow> list_all good ps"
      "ok st \<longrightarrow> list_all2 (\<lambda>h p. displays c3 h (shown p)) hs ps" by blast
  define c4 where "c4 = c3\<lparr>ic_inputs := hs, ic_construction_status := st\<rparr>"
  have d4: "displays c4 = displays c3" by (intro ext displays_cong) (simp_all add: c4_def)
  have s4: "store_ok c4" using 3(3) store_ok_cong [of c4 c3] by (simp add: c4_def)
  from make_handle_data_spec [OF assms(2,3) s4] obtain st' hdat c5 where
    5: "make_handle_data mk (length ps) vs c4 = ret ((st', hdat), c5)" "grows c4 c5" "store_ok c5" "ok st' \<longleftrightarrow> all_described good vs"
      "ok st' \<longrightarrow> list_all2 (handle_displays shown c5) hdat (vs @ replicate (length ps - length vs) None)" by blast
  define c6 where "c6 = c5\<lparr>ic_construction_status := st'\<rparr>"
  have run: "construct_inputs mk ps vs c = (if \<not> ok st then ret c4 else if \<not> ok st' then ret c6 else PostInputInit hdat c6)"
    using 3(1) 5(1) assms(6) grows_fields(1) [OF 3(2)] by (simp add: construct_inputs_def c4_def c6_def Let_def)
  show ?thesis
  proof (cases "ok st \<and> ok st'")
    case False
    with run 3(4) 5(4) show ?thesis by (auto simp: c4_def c6_def)
  next
    case True
    note f = grows_fields [OF 3(2)] grows_fields [OF 5(2)]
    have l: "length hs = length ps" "length hdat = length ps" using True 3(5) 5(5) assms(3) by (auto dest!: list_all2_lengthD)
    have "length hdat = length (ic_inputs c6)" "length (ic_input_tensors c6) \<le> length (ic_inputs c6)" "ok (ic_construction_status c6)"
      "ic_requested c6 = []" "ic_requested_partial c6 = []"
      using l True assms(4,7,8) by (simp_all add: c6_def f, simp_all add: c4_def f)
    from PostInputInit_spec [OF this] obtain c' where
      c': "PostInputInit hdat c6 = ret c'" "ok (ic_construction_status c') \<longleftrightarrow> int (length (ic_inputs c6)) = ranges_end (ic_input_names c6)"
        "ic_dims c' = ic_dims c6" "ic_shapes c' = ic_shapes c6" "ic_inputs c' = ic_inputs c6" "ic_outputs c' = ic_outputs c6"
        "ic_as_shapes c' = ic_as_shapes c6" "ic_output_handles c' = ic_output_handles c6" "ic_input_handles c' = hdat"
        "ok (ic_construction_status c') \<longrightarrow> ic_input_tensors c' = resized (length (ic_inputs c6)) None (ic_input_tensors c6) \<and>
           ic_requested c' = replicate (length (ic_inputs c6)) False \<and> ic_requested_partial c' = replicate (length (ic_inputs c6)) False"
      by blast
    have same: "ic_inputs c6 = hs" "ic_outputs c6 = ic_outputs c" "ic_as_shapes c6 = ic_as_shapes c"
      "ic_output_handles c6 = ic_output_handles c" "ic_input_tensors c6 = ic_input_tensors c" "ic_input_names c6 = ic_input_names c"
      by (simp_all add: c6_def f, simp_all add: c4_def f)
    have dims: "ic_dims c' = ic_dims c5" "ic_shapes c' = ic_shapes c5" using c'(3,4) by (simp_all add: c6_def)
    have d: "displays c' = displays c5" by (intro ext displays_cong dims)
    have "store_ok c'" using 5(3) store_ok_cong [OF dims] by simp
    moreover have "displays c' h v" if "displays c h v" for h v
      using displays_later [OF displays_later [OF that assms(5) 3(2), folded d4] s4 5(2)] d by simp
    moreover have "list_all2 (\<lambda>h p. displays c' h (shown p)) hs ps"
      using displays_list [of c4, OF _ s4 5(2)] 3(5) True d d4 by simp
    moreover have "list_all2 (handle_displays shown c') hdat (vs @ replicate (length ps - length vs) None)"
      using 5(5) True d by (simp add: handle_displays_def [abs_def])
    ultimately show ?thesis using run True c' same 3(4) 5(4) l by auto
  qed
qed

lemma construct_spec:
  assumes "list_all sane ps" "list_all sane qs" "all_described sane vs" "length vs \<le> length ps" "length ts \<le> length ps"
  shows "\<exists>c. construct mk name op ranges ps ts qs vs = ret c \<and>
    (ok (ic_construction_status c) \<longleftrightarrow> list_all good qs \<and> ok (nr_status ranges) \<and> list_all good ps \<and> all_described good vs \<and>
       int (length ps) = ranges_end (nr_inputs ranges)) \<and>
    (ok (ic_construction_status c) \<longrightarrow> store_ok c \<and>
       list_all2 (\<lambda>h p. displays c h (shown p)) (ic_inputs c) ps \<and>
       list_all2 (\<lambda>h p. displays c h (shown p)) (ic_as_shapes c) qs \<and>
       list_all2 (handle_displays shown c) (ic_input_handles c) (vs @ replicate (length ps - length vs) None) \<and>
       ic_outputs c = replicate (nat (ranges_end (nr_outputs ranges))) None \<and>
       ic_output_handles c = replicate (nat (ranges_end (nr_outputs ranges))) None \<and>
       ic_input_tensors c = resized (length ps) None ts \<and>
       ic_requested c = replicate (length ps) False \<and> ic_requested_partial c = replicate (length ps) False)"
proof -
  let ?b = "blank_context name op [] []"
  have "store_ok ?b" by (simp add: store_ok_def blank_context_def)
  from make_shapes_spec [OF assms(2) this] obtain st hs c1 where
    1: "make_shapes mk qs ?b = ret ((st, hs), c1)" "grows ?b c1" "store_ok c1" "ok st \<longleftrightarrow> list_all good qs"
      "ok st \<longrightarrow> list_all2 (\<lambda>h p. displays c1 h (shown p)) hs qs" by blast
  define c2 where "c2 = PreInputInit ranges ts hs c1"
  have f2: "ic_dims c2 = ic_dims c1" "ic_shapes c2 = ic_shapes c1" "ic_construction_status c2 = nr_status ranges"
    "ic_as_shapes c2 = hs" "ic_input_names c2 = nr_inputs ranges" "ic_input_tensors c2 = ts" "ic_inputs c2 = []"
    "ic_requested c2 = []" "ic_requested_partial c2 = []"
    using grows_fields [OF 1(2)] by (simp_all add: c2_def PreInputInit_def Let_def blank_context_def)
  have run: "construct mk name op ranges ps ts qs vs =
      (if \<not> ok st then ret (c1\<lparr>ic_construction_status := st\<rparr>) else if \<not> ok (nr_status ranges) then ret c2
       else construct_inputs mk ps vs c2)"
    using 1(1) f2(3) by (simp add: construct_def c2_def [symmetric] Let_def)
  show ?thesis
  proof (cases "ok st \<and> ok (nr_status ranges)")
    case False
    with run 1(4) f2(3) show ?thesis by auto
  next
    case True
    have o2: "ic_outputs c2 = replicate (nat (ranges_end (nr_outputs ranges))) None"
      "ic_output_handles c2 = replicate (nat (ranges_end (nr_outputs ranges))) None"
      using grows_fields [OF 1(2)] True by (simp_all add: c2_def PreInputInit_def Let_def blank_context_def resized_def)
    have d2: "list_all2 (\<lambda>h p. displays c2 h (shown p)) hs qs" using 1(5) True displays_cong [OF f2(1,2)] by simp
    have s2: "store_ok c2" using 1(3) store_ok_cong [OF f2(1,2)] by simp
    from construct_inputs_spec [OF assms(1,3,4) _ s2 f2(7-9)] assms(5) f2(6) obtain c' where
      c': "construct_inputs mk ps vs c2 = ret c'"
        "ok (ic_construction_status c') \<longleftrightarrow> list_all good ps \<and> all_described good vs \<and> int (length ps) = ranges_end (nr_inputs ranges)"
        "ok (ic_construction_status c') \<longrightarrow> store_ok c' \<and> (\<forall>h v. displays c2 h v \<longrightarrow> displays c' h v) \<and>
       list_all2 (\<lambda>h p. displays c' h (shown p)) (ic_inputs c') ps \<and>
       list_all2 (handle_displays shown c') (ic_input_handles c') (vs @ replicate (length ps - length vs) None) \<and>
       ic_outputs c' = ic_outputs c2 \<and> ic_as_shapes c' = hs \<and> ic_output_handles c' = ic_output_handles c2 \<and>
       ic_input_tensors c' = resized (length ps) None ts \<and>
       ic_requested c' = replicate (length ps) False \<and> ic_requested_partial c' = replicate (length ps) False"
      using f2(4,5) by auto
    have "list_all2 (\<lambda>h p. displays c' h (shown p)) hs qs" if "ok (ic_construction_status c')"
      using d2 c'(3) that by (auto elim: list_all2_mono)
    then show ?thesis using run True c' o2 1(4) by auto
  qed
qed

end

interpretation partial_maker: shape_maker MakeShapeFromPartialTensorShape "rep_ok True" "\<lambda>p. True" "view True"
  by unfold_locales (rule MakeShapeFromPartial_makes)

interpretation proto_maker: shape_maker "MakeShapeFromShapeProto memory"
    "\<lambda>proto. list_all int64_size (sp_dim proto) \<and> length memory = 12" "proto_valid True" proto_view for memory
  by unfold_locales (use MakeShapeFromProto_makes in blast)

section \<open>Updating handle data\<close>

lemma world_exists:
  assumes "store_ok c"
  shows "\<exists>W :: world. w_ctx W = c \<and> world_ok W"
proof -
  let ?d = "\<lambda>i. if ic_dims c ! i = - 1 then 0 else ic_dims c ! i"
  let ?W = "\<lparr>w_ctx = c, w_dim = ?d, w_shape = (\<lambda>i. map (\<lambda>h. ?d (the h)) (is_dims (ic_shapes c ! i)))\<rparr>"
  have wf: "0 \<le> ?d i" if "i < length (ic_dims c)" for i
    using assms that by (force simp: store_ok_def list_all_length dim_wf_def)
  have "list_all (\<lambda>y. 0 \<le> y) (map (\<lambda>h. ?d (the h)) (is_dims (ic_shapes c ! i)))" if "i < length (ic_shapes c)" for i
  proof -
    have "shape_wf c (ic_shapes c ! i)" using assms that by (simp add: store_ok_def list_all_length)
    then have "list_all (is_dim c) (is_dims (ic_shapes c ! i))" by (auto simp: shape_wf_def)
    then show ?thesis using wf by (force simp: list_all_iff is_dim_def split: option.splits)
  qed
  then have "world_ok ?W" using assms wf by (auto simp: world_ok_def)
  then show ?thesis by (intro exI [of _ ?W]) simp
qed

text \<open>The interface of the two ways to combine a stored shape with a new one.\<close>

definition sats_ok :: "inference_context \<Rightarrow> shape_and_type list \<Rightarrow> bool" where
  "sats_ok c vs \<longleftrightarrow> list_all (\<lambda>s. is_shape c (sat_shape s)) vs"

lemma sats_ok_later: "sats_ok c vs \<Longrightarrow> grows c c' \<Longrightarrow> sats_ok c' vs"
  by (auto simp: sats_ok_def list_all_iff intro: grows_handles(2))

text \<open>An operation on slot \<open>idx\<close> of the handle data returns whether it changed anything, and changes no other slot.\<close>

definition reports ::
  "bool iop \<Rightarrow> (inference_context \<Rightarrow> shape_and_type list option list) \<Rightarrow> int \<Rightarrow> inference_context \<Rightarrow> bool" where
  "reports m slots idx c \<longleftrightarrow> (\<exists>b c' vs. m c = ret (b, c') \<and> store_ok c' \<and> sats_ok c' vs \<and>
     slots c' = (slots c)[nat idx := Some vs] \<and> (b \<longleftrightarrow> slots c' \<noteq> slots c))"

locale shape_combiner =
  fixes combine :: "handle \<Rightarrow> handle \<Rightarrow> handle iop"
  assumes combine_ok: "store_ok c \<Longrightarrow> is_shape c a \<Longrightarrow> is_shape c b \<Longrightarrow>
    \<exists>h c'. combine a b c = ret (h, c') \<and> grows c c' \<and> store_ok c' \<and> is_shape c' h"
begin

lemma combine_loop_spec:
  assumes "store_ok c" "sats_ok c news" "sats_ok c olds" "length news = length olds"
  shows "\<exists>r c'. combine_loop combine news olds c = ret (r, c') \<and> grows c c' \<and> store_ok c' \<and>
    (case r of None \<Rightarrow> True | Some (vs, refined) \<Rightarrow> sats_ok c' vs \<and> length vs = length olds \<and> (refined \<longleftrightarrow> vs \<noteq> olds))"
  using assms(4,1-3)
proof (induction news olds arbitrary: c rule: list_induct2)
  case Nil
  then show ?case by (simp add: sats_ok_def)
next
  case (Cons new news existing olds)
  show ?case
  proof (cases "sat_dtype new \<noteq> sat_dtype existing \<and> sat_dtype existing \<noteq> DT_INVALID")
    case True
    with Cons.prems(1) show ?thesis by simp
  next
    case False
    from combine_ok [of c "sat_shape existing" "sat_shape new"] Cons.prems obtain h c1 where
      1: "combine (sat_shape existing) (sat_shape new) c = ret (h, c1)" "grows c c1" "store_ok c1" "is_shape c1 h"
      by (auto simp: sats_ok_def)
    from Cons.IH [OF 1(3)] Cons.prems(2,3) sats_ok_later [OF _ 1(2)] obtain r c2 where
      2: "combine_loop combine news olds c1 = ret (r, c2)" "grows c1 c2" "store_ok c2"
        "case r of None \<Rightarrow> True | Some (vs, refined) \<Rightarrow> sats_ok c2 vs \<and> length vs = length olds \<and> (refined \<longleftrightarrow> vs \<noteq> olds)"
      by (auto simp: sats_ok_def)
    have "\<lparr>sat_shape = h, sat_dtype = sat_dtype new\<rparr> \<noteq> existing \<longleftrightarrow> sat_dtype new \<noteq> sat_dtype existing \<or> sat_shape existing \<noteq> h"
      by (cases existing) auto
    with False 1 2 grows_trans [OF 1(2) 2(2)] grows_handles(2) [OF 2(2) 1(4)] show ?thesis
      by (cases r) (auto simp: Let_def sats_ok_def)
  qed
qed

lemma combine_handles_spec:
  assumes "store_ok c" "sats_ok c news" "sats_ok c olds"
  shows "\<exists>vs b c'. combine_handles combine news olds c = ret ((vs, b), c') \<and> grows c c' \<and> store_ok c' \<and> sats_ok c' vs \<and>
    (b \<longleftrightarrow> vs \<noteq> olds)"
proof (cases "length news = length olds")
  case False
  then show ?thesis using assms by (simp add: combine_handles_def)
next
  case True
  from combine_loop_spec [OF assms True] obtain r c' where
    "combine_loop combine news olds c = ret (r, c')" "grows c c'" "store_ok c'"
    "case r of None \<Rightarrow> True | Some (vs, refined) \<Rightarrow> sats_ok c' vs \<and> length vs = length olds \<and> (refined \<longleftrightarrow> vs \<noteq> olds)" by blast
  with True sats_ok_later [OF assms(3)] show ?thesis
    by (auto simp: combine_handles_def split: option.splits bool.splits)
qed

lemma update_slot_spec:
  assumes "store_ok c" "sats_ok c news" "0 \<le> idx" "idx < int (length (slots c))"
    "\<And>olds. slots c ! nat idx = Some olds \<Longrightarrow> sats_ok c olds"
    "\<And>c v. slots (set_slots v c) = v \<and> ic_dims (set_slots v c) = ic_dims c \<and> ic_shapes (set_slots v c) = ic_shapes c"
    "\<And>c c'. grows c c' \<Longrightarrow> slots c' = slots c"
  shows "reports (update_slot (combine_handles combine) slots set_slots idx news) slots idx c"
proof -
  have "\<exists>vs b c'. (case slots c ! nat idx of None \<Rightarrow> sret (news, True) | Some olds \<Rightarrow> combine_handles combine news olds) c = ret ((vs, b), c') \<and>
      grows c c' \<and> store_ok c' \<and> sats_ok c' vs \<and> (b \<longleftrightarrow> Some vs \<noteq> slots c ! nat idx)"
    using combine_handles_spec [OF assms(1,2) assms(5)] assms(1,2) by (cases "slots c ! nat idx") auto
  then obtain vs b c' where
    1: "(case slots c ! nat idx of None \<Rightarrow> sret (news, True) | Some olds \<Rightarrow> combine_handles combine news olds) c = ret ((vs, b), c')"
      "grows c c'" "store_ok c'" "sats_ok c' vs" "b \<longleftrightarrow> Some vs \<noteq> slots c ! nat idx" by blast
  let ?c = "set_slots ((slots c)[nat idx := Some vs]) c'"
  have "update_slot (combine_handles combine) slots set_slots idx news c = ret (b, ?c)"
    using 1(1,2) assms(3,4,7) by (simp add: update_slot_def list_at_def)
  moreover have "store_ok ?c" using 1(3) store_ok_cong [of ?c c'] assms(6) by blast
  moreover have "sats_ok ?c vs" using 1(4) assms(6) [of "(slots c)[nat idx := Some vs]" c']
    by (auto simp: sats_ok_def is_shape_def list_all_iff split: option.splits)
  moreover have "(slots c)[nat idx := Some vs] = slots c \<longleftrightarrow> Some vs = slots c ! nat idx"
    using assms(3,4) by (metis list_update_id nat_less_iff nth_list_update_eq)
  ultimately show ?thesis
    using 1(5) assms(6) unfolding reports_def by (intro exI [of _ b] exI [of _ ?c] exI [of _ vs]) auto
qed

end

interpretation merge_combiner: shape_combiner merge_or_keep
proof unfold_locales
  fix c a b
  assume "store_ok c" "is_shape c a" "is_shape c b"
  from Merge_shape_view [OF this] obtain st h c' where "Merge_shape a b c = ret ((st, h), c')" "grows c c'" "store_ok c'"
    "ok st \<longrightarrow> is_shape c' h" by blast
  with \<open>is_shape c a\<close> show "\<exists>h c'. merge_or_keep a b c = ret (h, c') \<and> grows c c' \<and> store_ok c' \<and> is_shape c' h"
    by (auto simp: merge_or_keep_def intro: grows_handles(2))
qed

interpretation relax_combiner: shape_combiner Relax_shape
proof unfold_locales
  fix c a b
  assume c: "store_ok c" and "is_shape c a" "is_shape c b"
  from world_exists [OF c] obtain W :: world where W: "w_ctx W = c" "world_ok W" by blast
  then have "shape_is W a (w_shape W (the a))" "shape_is W b (w_shape W (the b))"
    using \<open>is_shape c a\<close> \<open>is_shape c b\<close> by (simp_all add: shape_is_def)
  from Relax_shape_sound [OF W(2) this disjI1 [OF refl]] W show
    "\<exists>h c'. Relax_shape a b c = ret (h, c') \<and> grows c c' \<and> store_ok c' \<and> is_shape c' h"
    unfolding outcome_def by (auto simp: extends_def world_ok_def shape_is_def)
qed

section \<open>Errors of a shape function\<close>

lemma mapM_returns: "(\<And>x. x \<in> set xs \<Longrightarrow> \<exists>y. f x = ret y) \<Longrightarrow> \<exists>ys. mapM f xs = ret ys"
  by (induction xs) (auto, metis bnd_ret)

lemma ic_DebugString_returns:
  assumes "store_ok c" "is_shape c h"
  shows "\<exists>t. ic_DebugString h c = ret t"
proof -
  have "\<exists>t. dim_DebugString d c = ret t" if "d \<in> set (is_dims (shape_at c h))" for d
    using shape_at_dims [OF assms] that by (simp add: dim_DebugString_def list_all_iff)
  then have "\<exists>ts. mapM (\<lambda>d. dim_DebugString d c) (is_dims (shape_at c h)) = ret ts" by (rule mapM_returns)
  then show ?thesis using assms by (auto simp: ic_DebugString_def)
qed

text \<open>The vectors that \<open>AttachContext\<close> reads have their elements; a partial value of an input may be missing.\<close>

definition context_ok :: "inference_context \<Rightarrow> bool" where
  "context_ok c \<longleftrightarrow> store_ok c \<and> list_all (is_shape c) (ic_inputs c) \<and> list_all (\<lambda>h. h = None \<or> is_shape c h) (ic_as_shapes c) \<and>
     length (ic_requested c) = length (ic_inputs c) \<and> length (ic_requested_partial c) = length (ic_inputs c)"

lemma input_note_returns:
  assumes "context_ok c" "0 \<le> i" "i < int (length (ic_inputs c))"
  shows "\<exists>n. input_note SummarizeValue c i = ret n"
proof -
  have "\<exists>h. (if ic_requested_partial c ! nat i \<and> i < int (length (ic_as_shapes c)) then list_at (ic_as_shapes c) i else ret None) = ret h \<and>
      (h = None \<or> is_shape c h)"
    using assms by (auto simp: list_at_def context_ok_def list_all_length nat_less_iff)
  then obtain h where h: "(if ic_requested_partial c ! nat i \<and> i < int (length (ic_as_shapes c)) then list_at (ic_as_shapes c) i
      else ret None) = ret h" "h = None \<or> is_shape c h" by blast
  have "\<exists>t. (if ic_requested c ! nat i \<and> i < int (length (ic_input_tensors c)) then list_at (ic_input_tensors c) i else ret None) = ret t"
    using assms(2) by (auto simp: list_at_def)
  then obtain t where "(if ic_requested c ! nat i \<and> i < int (length (ic_input_tensors c)) then list_at (ic_input_tensors c) i
      else ret None) = ret t" by blast
  moreover have "\<exists>k. RankKnown h c = ret k \<and> (k \<longrightarrow> is_shape c h)" using h(2) by (auto simp: RankKnown_def)
  moreover have "list_at (ic_requested_partial c) i = ret (ic_requested_partial c ! nat i)" "list_at (ic_requested c) i = ret (ic_requested c ! nat i)"
    using assms by (simp_all add: list_at_def context_ok_def)
  moreover have "store_ok c" using assms(1) by (simp add: context_ok_def)
  ultimately show ?thesis
    using h(1) ic_DebugString_returns [of c h] by (auto simp: input_note_def)
qed

text \<open>An error gets a longer message and keeps its code.\<close>

lemma AttachContext_returns:
  assumes "context_ok c" "\<not> ok st" "status_code st \<noteq> OK_code"
  shows "\<exists>msg. AttachContext SummarizeValue st c = ret (Some \<lparr>state_code = status_code st, state_msg = error_message st @ msg\<rparr>)"
proof -
  have "\<exists>ts. mapM (\<lambda>s. ic_DebugString s c) (ic_inputs c) = ret ts"
    by (rule mapM_returns) (use assms(1) ic_DebugString_returns in \<open>auto simp: context_ok_def list_all_iff\<close>)
  moreover have "\<exists>ns. mapM (input_note SummarizeValue c) [0..int (length (ic_inputs c)) - 1] = ret ns"
    by (rule mapM_returns) (use input_note_returns [OF assms(1)] in auto)
  ultimately show ?thesis using assms(3) by (auto simp: AttachContext_def new_Status_def Let_def)
qed

section \<open>Properties\<close>

text \<open>
  The operations that merge or relax the shapes and types behind a resource handle always return, whatever
  is stored and passed: they return true exactly when the stored vector changed, touch only the slot they are
  given, and every stored shape is one of the context.
\<close>

theorem handle_updates_report:
  assumes "store_ok c" "sats_ok c news" "0 \<le> idx"
    "list_all (\<lambda>v. case v of None \<Rightarrow> True | Some olds \<Rightarrow> sats_ok c olds) (ic_input_handles c @ ic_output_handles c)"
  shows "(idx < int (length (ic_output_handles c)) \<longrightarrow>
      reports (MergeOutputHandleShapesAndTypes idx news) ic_output_handles idx c \<and>
      reports (RelaxOutputHandleShapesAndMergeTypes idx news) ic_output_handles idx c) \<and>
    (idx < int (length (ic_input_handles c)) \<longrightarrow>
      reports (MergeInputHandleShapesAndTypes idx news) ic_input_handles idx c \<and>
      reports (RelaxInputHandleShapesAndMergeTypes idx news) ic_input_handles idx c)"
proof -
  have "sats_ok c olds" if "Some olds \<in> set (ic_input_handles c @ ic_output_handles c)" for olds
    using assms(4) that by (force simp: list_all_iff)
  then have "idx < int (length (ic_output_handles c)) \<Longrightarrow> ic_output_handles c ! nat idx = Some olds \<Longrightarrow> sats_ok c olds"
    "idx < int (length (ic_input_handles c)) \<Longrightarrow> ic_input_handles c ! nat idx = Some olds \<Longrightarrow> sats_ok c olds" for olds
    using assms(3) nth_mem [of "nat idx"] by (fastforce simp: nat_less_iff)+
  then show ?thesis
    using assms(1-3) grows_fields(7,8)
    unfolding MergeOutputHandleShapesAndTypes_def RelaxOutputHandleShapesAndMergeTypes_def MergeInputHandleShapesAndTypes_def
      RelaxInputHandleShapesAndMergeTypes_def MergeHandleShapesAndTypes_def RelaxHandleShapesAndMergeTypes_def
    by (auto intro!: merge_combiner.update_slot_spec relax_combiner.update_slot_spec)
qed

theorem handle_updates_report_witness:
  "\<exists>vs c'. MergeOutputHandleShapesAndTypes 0 [\<lparr>sat_shape = Some 1, sat_dtype = 1\<rparr>]
      ((plain_context [2, - 1] [\<lparr>is_rank = 1, is_dims = [Some 1]\<rparr>, \<lparr>is_rank = 1, is_dims = [Some 0]\<rparr>])
        \<lparr>ic_output_handles := [Some [\<lparr>sat_shape = Some 0, sat_dtype = 1\<rparr>]]\<rparr>) = ret (True, c') \<and>
    ic_output_handles c' = [Some vs] \<and> vs \<noteq> [\<lparr>sat_shape = Some 0, sat_dtype = 1\<rparr>]"
proof -
  let ?c = "(plain_context [2, - 1] [\<lparr>is_rank = 1, is_dims = [Some 1]\<rparr>, \<lparr>is_rank = 1, is_dims = [Some 0]\<rparr>])
        \<lparr>ic_output_handles := [Some [\<lparr>sat_shape = Some 0, sat_dtype = 1\<rparr>]]\<rparr>"
  let ?m = "MergeOutputHandleShapesAndTypes 0 [\<lparr>sat_shape = Some 1, sat_dtype = 1\<rparr>]"
  have "store_ok ?c" by (simp add: store_ok_def plain_context_def dim_wf_def shape_wf_def is_dim_def)
  moreover have "sats_ok ?c [\<lparr>sat_shape = Some 1, sat_dtype = 1\<rparr>]" by (simp add: sats_ok_def is_shape_def plain_context_def)
  moreover have "list_all (\<lambda>v. case v of None \<Rightarrow> True | Some olds \<Rightarrow> sats_ok ?c olds) (ic_input_handles ?c @ ic_output_handles ?c)"
    by (simp add: sats_ok_def is_shape_def plain_context_def)
  ultimately have "reports ?m ic_output_handles 0 ?c"
    using handle_updates_report [of ?c "[\<lparr>sat_shape = Some 1, sat_dtype = 1\<rparr>]" 0] by simp
  moreover have "\<exists>c'. ?m ?c = ret (True, c')"
    by (simp add: MergeOutputHandleShapesAndTypes_def update_slot_def MergeHandleShapesAndTypes_def combine_handles_def
        merge_or_keep_def Merge_shape_def RankKnown_def Rank_def shape_ref_def list_at_def plain_context_def Dim_def Let_def
        Value_of_def dim_ref_def kUnknownDim_def ic_kUnknownRank_def OK_def ok_def)
  ultimately show ?thesis by (auto simp: reports_def)
qed

text \<open>
  C28. Constructing a context from protos always returns. Its construction status is OK exactly when the names of
  the inputs and outputs could be resolved, every proto is valid and the number of inputs is that of the node; the
  context then knows of every input, of every partial value of an input and of every shape behind a resource handle what the proto
  says, has no outputs set, and no tensor is marked as requested.
\<close>

theorem InferenceContext_constructs:
  assumes "length memory = 12" "list_all (\<lambda>p. list_all int64_size (sp_dim p)) ps" "list_all (\<lambda>p. list_all int64_size (sp_dim p)) qs"
    "all_described (\<lambda>p. list_all int64_size (sp_dim p)) vs" "length vs \<le> length ps" "length ts \<le> length ps"
  shows "\<exists>c. InferenceContext_protos memory name op ranges ps ts qs vs = ret c \<and>
    (ok (ic_construction_status c) \<longleftrightarrow> list_all (proto_valid True) qs \<and> ok (nr_status ranges) \<and> list_all (proto_valid True) ps \<and>
       all_described (proto_valid True) vs \<and> int (length ps) = ranges_end (nr_inputs ranges)) \<and>
    (ok (ic_construction_status c) \<longrightarrow> store_ok c \<and>
       list_all2 (\<lambda>h p. displays c h (proto_view p)) (ic_inputs c) ps \<and>
       list_all2 (\<lambda>h p. displays c h (proto_view p)) (ic_as_shapes c) qs \<and>
       list_all2 (handle_displays proto_view c) (ic_input_handles c) (vs @ replicate (length ps - length vs) None) \<and>
       ic_outputs c = replicate (nat (ranges_end (nr_outputs ranges))) None \<and>
       ic_output_handles c = replicate (nat (ranges_end (nr_outputs ranges))) None \<and>
       ic_input_tensors c = resized (length ps) None ts \<and>
       ic_requested c = replicate (length ps) False \<and> ic_requested_partial c = replicate (length ps) False)"
  unfolding InferenceContext_protos_def
  by (rule proto_maker.construct_spec) (use assms in \<open>simp_all add: all_described_def\<close>)

theorem InferenceContext_constructs_witness:
  "\<exists>c h. InferenceContext_protos (replicate 12 0) ''n'' ''DecodeReplays''
      \<lparr>nr_status = OK, nr_inputs = [(''records'', 0, 1)], nr_outputs = [(''scores'', 1, 2), (''features'', 0, 1)]\<rparr>
      [unnamed_proto [2, - 1] False] [] [] [] = ret c \<and>
    ok (ic_construction_status c) \<and> ic_inputs c = [h] \<and> displays c h (Some [2, - 1]) \<and> ic_outputs c = [None, None]"
proof -
  let ?r = "\<lparr>nr_status = OK, nr_inputs = [(''records'', 0, 1)], nr_outputs = [(''scores'', 1, 2), (''features'', 0, 1)]\<rparr>"
  let ?ps = "[unnamed_proto [2, - 1] False]"
  have e: "ranges_end (nr_inputs ?r) = 1" "ranges_end (nr_outputs ?r) = 2" by (simp_all add: ranges_end_def)
  have v: "list_all (proto_valid True) ?ps"
    by (simp add: proto_valid_def shape_valid_def size_ok_def elements_of_def le_Suc_eq all_conj_distrib)
  show ?thesis
    using InferenceContext_constructs [of "replicate 12 0" ?ps "[]" "[]" "[]" "''n''" "''DecodeReplays''" ?r] e v
    by (auto simp: int64_size_def all_described_def proto_view_def OK_def ok_def list_all2_Cons2 numeral_2_eq_2)
qed

end
