(* ===== verification/Node_Ranges.thy ===== *)
theory Node_Ranges
  imports Inference_Context "HOL-Library.AList"
begin

text \<open>
  The ranges of the named inputs and outputs of a node, \<open>NameRangesForNode\<close> in
  \<^verbatim>\<open>tensorflow/core/framework/node_def_util.cc\<close>, and that through them the names of a context reach every input
  and output once.

  The attributes of a node are arguments: \<open>GetNodeAttr\<close> gives an integer attribute and \<open>Find\<close> the number of types in
  a list of types, each with a status; so is the text of the definition of the operation for the error message.
\<close>

record arg_def =
  arg_name :: string
  arg_number_attr :: string
  arg_type_list_attr :: string
  arg_type_attr :: string
  arg_type :: byte

type_synonym attr_lookup = "string \<Rightarrow> status \<times> int"

definition ComputeArgRange :: "attr_lookup \<Rightarrow> attr_lookup \<Rightarrow> string \<Rightarrow> arg_def \<Rightarrow> status \<times> int" where
  "ComputeArgRange GetNodeAttr Find op_text arg =
     (if arg_number_attr arg \<noteq> [] then GetNodeAttr (arg_number_attr arg)
      else if arg_type_list_attr arg \<noteq> [] then Find (arg_type_list_attr arg)
      else if arg_type_attr arg \<noteq> [] \<or> arg_type arg \<noteq> DT_INVALID then (OK, 1)
      else (InvalidArgument (''Argument '' @ [CHR 0x27] @ arg_name arg @ [CHR 0x27] @ '' incorrectly specified in op definition: '' @
        op_text), 0))"

fun NameRangesHelper ::
  "(arg_def \<Rightarrow> status \<times> int) \<Rightarrow> arg_def list \<Rightarrow> int \<Rightarrow> name_ranges \<Rightarrow> (status \<times> name_ranges) res" where
  "NameRangesHelper arg_range [] start result = ret (OK, result)"
| "NameRangesHelper arg_range (arg # args) start result =
     (let (st, num) = arg_range arg in
      if \<not> ok st then ret (st, result)
      else bnd (int32 (start + num)) (\<lambda>finish.
        NameRangesHelper arg_range args finish (AList.update (arg_name arg) (start, finish) result)))"

definition NameRangesForNode ::
  "attr_lookup \<Rightarrow> attr_lookup \<Rightarrow> string \<Rightarrow> arg_def list \<Rightarrow> arg_def list \<Rightarrow> node_ranges res" where
  "NameRangesForNode GetNodeAttr Find op_text input_args output_args =
     (let arg_range = ComputeArgRange GetNodeAttr Find op_text in
      bnd (NameRangesHelper arg_range input_args 0 []) (\<lambda>(st, inputs).
      if \<not> ok st then ret \<lparr>nr_status = st, nr_inputs = inputs, nr_outputs = []\<rparr>
      else bnd (NameRangesHelper arg_range output_args 0 []) (\<lambda>(st', outputs).
        ret \<lparr>nr_status = st', nr_inputs = inputs, nr_outputs = outputs\<rparr>)))"

section \<open>The ranges of a list of arguments\<close>

text \<open>The ranges that the arguments should have, in their order.\<close>

fun layout_args :: "(arg_def \<Rightarrow> int) \<Rightarrow> arg_def list \<Rightarrow> int \<Rightarrow> name_ranges" where
  "layout_args width [] start = []"
| "layout_args width (arg # args) start =
     (arg_name arg, start, start + width arg) # layout_args width args (start + width arg)"

definition total_width :: "(arg_def \<Rightarrow> int) \<Rightarrow> arg_def list \<Rightarrow> int" where
  "total_width width args = sum_list (map width args)"

lemma layout_names [simp]: "map fst (layout_args width args start) = map arg_name args"
  by (induction args arbitrary: start) auto

lemma AList_update_fresh: "k \<notin> set (map fst al) \<Longrightarrow> AList.update k v al = al @ [(k, v)]"
  by (induction al) auto

lemma NameRangesHelper_spec:
  assumes "\<And>a. a \<in> set args \<Longrightarrow> arg_range a = (OK, width a) \<and> 0 \<le> width a" "distinct (map arg_name args)"
    "set (map fst result) \<inter> arg_name ` set args = {}" "0 \<le> start" "start + total_width width args < 2 ^ 31"
  shows "NameRangesHelper arg_range args start result = ret (OK, result @ layout_args width args start)"
  using assms
proof (induction args arbitrary: start result)
  case (Cons a args)
  have w: "0 \<le> width b" if "b \<in> set args" for b using Cons.prems(1) that by simp
  then have t: "0 \<le> total_width width args" by (auto simp: total_width_def intro!: sum_list_nonneg)
  have "arg_range a = (OK, width a)" "0 \<le> width a" using Cons.prems(1) by auto
  moreover have "int32 (start + width a) = ret (start + width a)"
    using Cons.prems(4,5) t calculation(2) by (simp add: int32_def total_width_def)
  moreover have "AList.update (arg_name a) (start, start + width a) result = result @ [(arg_name a, start, start + width a)]"
    using Cons.prems(3) by (intro AList_update_fresh) auto
  moreover have "NameRangesHelper arg_range args (start + width a) (result @ [(arg_name a, start, start + width a)]) =
      ret (OK, (result @ [(arg_name a, start, start + width a)]) @ layout_args width args (start + width a))"
    using Cons.prems calculation(2) by (intro Cons.IH) (auto simp: total_width_def)
  ultimately show ?case by (simp add: OK_def ok_def)
qed simp

lemma layout_end:
  assumes "\<And>a. a \<in> set args \<Longrightarrow> 0 \<le> width a" "0 \<le> start"
  shows "foldl max start (map (\<lambda>(name, s, finish). finish) (layout_args width args start)) = start + total_width width args"
  using assms by (induction args arbitrary: start) (simp_all add: total_width_def)

lemma layout_slices:
  assumes "\<And>a. a \<in> set args \<Longrightarrow> 0 \<le> width a" "0 \<le> start" "start + total_width width args \<le> int (length xs)"
  shows "concat (map (\<lambda>(name, s, finish). take (nat (finish - s)) (drop (nat s) xs)) (layout_args width args start)) =
    take (nat (total_width width args)) (drop (nat start) xs)"
  using assms
proof (induction args arbitrary: start)
  case (Cons a args)
  have t: "0 \<le> width a" "0 \<le> total_width width args" using Cons.prems(1) by (auto simp: total_width_def intro!: sum_list_nonneg)
  have "nat (width a + total_width width args) = nat (width a) + nat (total_width width args)" using t by (rule nat_add_distrib)
  moreover have "nat (start + width a) = nat start + nat (width a)" using t(1) Cons.prems(2) by (simp add: nat_add_distrib)
  ultimately show ?case using Cons.IH [of "start + width a"] Cons.prems t
    by (simp add: total_width_def take_add add.commute)
qed (simp add: total_width_def)

section \<open>Names in a context\<close>

lemma mapM_list_at:
  assumes "0 \<le> s" "s \<le> f" "f \<le> int (length xs)"
  shows "mapM (list_at xs) [s..f - 1] = ret (take (nat (f - s)) (drop (nat s) xs))"
proof -
  have "mapM (list_at xs) [s..f - 1] = ret (map (\<lambda>i. xs ! nat i) [s..f - 1])"
    by (rule mapM_ret) (use assms in \<open>auto simp: list_at_def\<close>)
  also have "map (\<lambda>i. xs ! nat i) [s..f - 1] = take (nat (f - s)) (drop (nat s) xs)"
    using assms by (intro nth_equalityI) (auto simp: nat_add_distrib)
  finally show ?thesis .
qed

lemma layout_entry:
  assumes "e \<in> set (layout_args width args start)" "\<And>a. a \<in> set args \<Longrightarrow> 0 \<le> width a" "0 \<le> start"
  shows "0 \<le> fst (snd e) \<and> fst (snd e) \<le> snd (snd e) \<and> snd (snd e) \<le> start + total_width width args"
  using assms
proof (induction args arbitrary: start)
  case (Cons a args)
  have "0 \<le> width a" "0 \<le> total_width width args" using Cons.prems(2) by (auto simp: total_width_def intro!: sum_list_nonneg)
  with Cons.IH [of "start + width a"] Cons.prems show ?case by (auto simp: total_width_def)
qed simp

lemma input_names_slices:
  assumes "list_all (\<lambda>e. map_of (ic_input_names c) (fst e) = Some (snd e)) (layout_args width args start)"
    "\<And>a. a \<in> set args \<Longrightarrow> 0 \<le> width a" "0 \<le> start" "start + total_width width args \<le> int (length (ic_inputs c))"
  shows "mapM (\<lambda>a. input_named (arg_name a) [] c) args = ret (map (\<lambda>(name, s, f). (OK, take (nat (f - s)) (drop (nat s) (ic_inputs c))))
    (layout_args width args start))"
  using assms
proof (induction args arbitrary: start)
  case (Cons a args)
  have t: "0 \<le> width a" "0 \<le> total_width width args" using Cons.prems(2) by (auto simp: total_width_def intro!: sum_list_nonneg)
  have "input_named (arg_name a) [] c = ret (OK, take (nat (width a)) (drop (nat start) (ic_inputs c)))"
    using Cons.prems t mapM_list_at [of start "start + width a" "ic_inputs c"] by (simp add: input_named_def total_width_def)
  with Cons.IH [of "start + width a"] Cons.prems t show ?case by (simp add: total_width_def)
qed simp

lemma put_outputs_spec:
  assumes "0 \<le> i" "i + int (length ss) \<le> int (length (ic_outputs c))"
  shows "put_outputs i ss c =
    ret ((), c\<lparr>ic_outputs := take (nat i) (ic_outputs c) @ ss @ drop (nat i + length ss) (ic_outputs c)\<rparr>)"
  using assms
proof (induction ss arbitrary: i c)
  case (Cons s ss)
  have i: "nat i < length (ic_outputs c)" using Cons.prems by auto
  let ?c = "c\<lparr>ic_outputs := (ic_outputs c)[nat i := s]\<rparr>"
  have "set_output_at i s c = ret ((), ?c)" using Cons.prems i by (simp add: set_output_at_def list_put_def)
  moreover have "take (nat (i + 1)) ((ic_outputs c)[nat i := s]) = take (nat i) (ic_outputs c) @ [s]"
    using i Cons.prems(1) by (simp add: nat_add_distrib take_Suc_conv_app_nth)
  moreover have "drop (nat (i + 1) + length ss) ((ic_outputs c)[nat i := s]) = drop (nat i + length (s # ss)) (ic_outputs c)"
    using Cons.prems(1) by (simp add: nat_add_distrib)
  ultimately show ?case using Cons.IH [of "i + 1" ?c] Cons.prems by simp
qed simp

lemma set_named_outputs:
  assumes "list_all (\<lambda>e. map_of (ic_output_names c) (fst e) = Some (snd e)) (layout_args width args start)"
    "0 \<le> start" "start + total_width width args \<le> int (length (ic_outputs c))" "map (\<lambda>hs. int (length hs)) hss = map width args"
  shows "\<exists>c'. smap (\<lambda>(a, hs). set_output_named (arg_name a) hs) (zip args hss) c = ret (replicate (length args) OK, c') \<and>
    ic_outputs c' = take (nat start) (ic_outputs c) @ concat hss @ drop (nat (start + total_width width args)) (ic_outputs c) \<and>
    ic_output_names c' = ic_output_names c"
  using assms
proof (induction args arbitrary: start c hss)
  case Nil
  then show ?case by (simp add: total_width_def)
next
  case (Cons a args)
  then obtain hs hss' where hss: "hss = hs # hss'" "int (length hs) = width a" "map (\<lambda>hs. int (length hs)) hss' = map width args"
    by (cases hss) auto
  have t: "0 \<le> total_width width args" unfolding total_width_def hss(3) [symmetric] by (rule sum_list_nonneg) auto
  have w: "start + int (length hs) \<le> int (length (ic_outputs c))" using Cons.prems(3) hss(2) t by (simp add: total_width_def)
  let ?os = "take (nat start) (ic_outputs c) @ hs @ drop (nat start + length hs) (ic_outputs c)"
  let ?c = "c\<lparr>ic_outputs := ?os\<rparr>"
  have len: "length ?os = length (ic_outputs c)" using w Cons.prems(2) by simp
  have "set_output_named (arg_name a) hs c = ret (OK, ?c)"
    using Cons.prems(1) hss(2) put_outputs_spec [OF Cons.prems(2) w] by (simp add: set_output_named_def)
  moreover from Cons.IH [of ?c "start + width a" hss'] Cons.prems hss(2,3) t len obtain c' where
    "smap (\<lambda>(a, hs). set_output_named (arg_name a) hs) (zip args hss') ?c = ret (replicate (length args) OK, c')"
    "ic_outputs c' = take (nat (start + width a)) ?os @ concat hss' @ drop (nat (start + width a + total_width width args)) ?os"
    "ic_output_names c' = ic_output_names c" by (auto simp: total_width_def)
  moreover have "nat (start + width a) = nat start + length hs" using hss(2) Cons.prems(2) by linarith
  moreover have "nat (start + width a + total_width width args) = nat start + length hs + nat (total_width width args)"
    using hss(2) Cons.prems(2) t by linarith
  moreover have "nat (start + total_width width (a # args)) = nat start + length hs + nat (total_width width args)"
    using hss(2) Cons.prems(2) t by (simp add: total_width_def)
  ultimately show ?case using w Cons.prems(2) hss(1) by (simp add: add.commute add.left_commute)
qed

section \<open>Properties\<close>

text \<open>
  C30. For arguments with different names whose numbers are defined, \<open>NameRangesHelper\<close> gives ranges through which
  the names of a context reach every input and every output exactly once and in order: the lists that
  \<open>input(name)\<close> returns for the arguments are, one after the other, the inputs of the context, and setting the outputs of
  every name sets the outputs to the concatenation of the lists given.
\<close>

theorem names_cover:
  assumes "\<And>a. a \<in> set args \<Longrightarrow> ComputeArgRange GetNodeAttr Find op_text a = (OK, width a) \<and> 0 \<le> width a"
    "distinct (map arg_name args)" "total_width width args < 2 ^ 31"
  shows "\<exists>r. NameRangesHelper (ComputeArgRange GetNodeAttr Find op_text) args 0 [] = ret (OK, r) \<and>
    ranges_end r = total_width width args \<and>
    (\<forall>c. ic_input_names c = r \<and> int (length (ic_inputs c)) = ranges_end r \<longrightarrow>
      (\<exists>hss. mapM (\<lambda>a. input_named (arg_name a) [] c) args = ret (map (Pair OK) hss) \<and> concat hss = ic_inputs c)) \<and>
    (\<forall>c hss. ic_output_names c = r \<and> int (length (ic_outputs c)) = ranges_end r \<and> map (\<lambda>hs. int (length hs)) hss = map width args \<longrightarrow>
      (\<exists>c'. smap (\<lambda>(a, hs). set_output_named (arg_name a) hs) (zip args hss) c = ret (replicate (length args) OK, c') \<and>
         ic_outputs c' = concat hss))"
proof -
  let ?r = "layout_args width args 0"
  have w: "0 \<le> width a" if "a \<in> set args" for a using assms(1) that by blast
  have run: "NameRangesHelper (ComputeArgRange GetNodeAttr Find op_text) args 0 [] = ret (OK, ?r)"
    using NameRangesHelper_spec [where args = args and width = width and result = "[]" and start = 0] assms by simp
  have "distinct (map fst ?r)" using assms(2) by simp
  then have entries: "list_all (\<lambda>e. map_of ?r (fst e) = Some (snd e)) ?r" by (auto simp: list_all_iff)
  have e: "ranges_end ?r = total_width width args" using layout_end [of args width 0] w by (simp add: ranges_end_def)
  have i: "\<exists>hss. mapM (\<lambda>a. input_named (arg_name a) [] c) args = ret (map (Pair OK) hss) \<and> concat hss = ic_inputs c"
    if "ic_input_names c = ?r" "int (length (ic_inputs c)) = ranges_end ?r" for c
    using input_names_slices [of c width args 0] entries w layout_slices [of args width 0 "ic_inputs c"] that e
    by (intro exI [of _ "map (\<lambda>(name, s, f). take (nat (f - s)) (drop (nat s) (ic_inputs c))) ?r"]) (simp add: case_prod_unfold comp_def)
  have o: "\<exists>c'. smap (\<lambda>(a, hs). set_output_named (arg_name a) hs) (zip args hss) c = ret (replicate (length args) OK, c') \<and>
      ic_outputs c' = concat hss"
    if "ic_output_names c = ?r" "int (length (ic_outputs c)) = ranges_end ?r" "map (\<lambda>hs. int (length hs)) hss = map width args" for c hss
    using set_named_outputs [of c width args 0 hss] entries that e by auto
  show ?thesis using run e i o by blast
qed

theorem names_cover_witness:
  "\<exists>r. NameRangesHelper (ComputeArgRange (\<lambda>a. (OK, 2)) (\<lambda>a. (OK, 0)) [])
      [\<lparr>arg_name = ''x'', arg_number_attr = [], arg_type_list_attr = [], arg_type_attr = [], arg_type = 1\<rparr>,
       \<lparr>arg_name = ''ys'', arg_number_attr = ''N'', arg_type_list_attr = [], arg_type_attr = [], arg_type = 1\<rparr>] 0 [] = ret (OK, r) \<and>
    ranges_end r = 3"
proof -
  let ?args = "[\<lparr>arg_name = ''x'', arg_number_attr = [], arg_type_list_attr = [], arg_type_attr = [], arg_type = 1\<rparr>,
       \<lparr>arg_name = ''ys'', arg_number_attr = ''N'', arg_type_list_attr = [], arg_type_attr = [], arg_type = 1\<rparr>]"
  let ?width = "\<lambda>a :: arg_def. if arg_number_attr a = [] then 1 else 2 :: int"
  have t: "total_width ?width ?args = 3" by (simp add: total_width_def)
  have p: "ComputeArgRange (\<lambda>a. (OK, 2)) (\<lambda>a. (OK, 0)) [] a = (OK, ?width a) \<and> 0 \<le> ?width a" if "a \<in> set ?args" for a
    using that by (auto simp: ComputeArgRange_def DT_INVALID_def)
  have d: "distinct (map arg_name ?args)" "total_width ?width ?args < 2 ^ 31" using t by simp_all
  from names_cover [OF p d] show ?thesis unfolding t by blast
qed

end
