(* ===== verification/Replay_Ops.thy ===== *)
theory Replay_Ops
  imports Feature Worker Node_Ranges
begin

text \<open>
  The TensorFlow operation \<open>DecodeReplays\<close>: \<^verbatim>\<open>gomoku/networks/replay_ops_kernel.cc\<close>, its shape function and its
  kernel.

  A tensor is its flat buffer, row-major. Protobuf parsing and the allocation of the outputs
  are parameters: \<open>parse\<close> fails on some strings, \<open>alloc\<close> gives a buffer with arbitrary
  contents for a \<open>TensorShape\<close>, or an error status. An error status of the kernel (\<open>OP_REQUIRES\<close>) is
  \<^const>\<open>Inl\<close>. The number of samples is an \<open>int\<close>: a sum that leaves it is undefined.
\<close>

section \<open>The shape function\<close>

definition DecodeReplays_shape_fn :: "status iop" where
  "DecodeReplays_shape_fn =
     sbnd (sread (input_at 0)) (\<lambda>s. sbnd (WithRankAtMost s 1 None) (\<lambda>(st, records).
     if \<not> ok st then sret st
     else sbnd UnknownDim (\<lambda>rebatch_dim.
       sbnd (MakeShape_list [Dim_arg rebatch_dim, Const_arg kWidth, Const_arg kHeight, Const_arg (int (length DefaultFeatures))])
         (\<lambda>board_shape.
       sbnd (set_output_at 0 board_shape) (\<lambda>_.
       sbnd (MakeShape_list [Dim_arg rebatch_dim]) (\<lambda>score_shape.
       sbnd (sread (RankKnown board_shape)) (\<lambda>known.
       sCHECK known ''c->RankKnown(board_shape)''
         (sbnd (set_output_at 1 score_shape) (\<lambda>_. sret OK)))))))))"

section \<open>The kernel\<close>

definition t4_index :: "nat \<Rightarrow> int \<Rightarrow> int \<Rightarrow> int \<Rightarrow> int \<Rightarrow> nat" where
  "t4_index F i x y j = ((nat i * 19 + nat x) * 19 + nat y) * F + nat j"

text \<open>\<open>features->tensor<float, 4>()(i, x, y, j) = v\<close>\<close>

definition t4_set :: "nat \<Rightarrow> fp list \<Rightarrow> int \<Rightarrow> int \<Rightarrow> int \<Rightarrow> int \<Rightarrow> fp \<Rightarrow> fp list res" where
  "t4_set F t i x y j v =
     (if 0 \<le> i \<and> Inside (x, y) \<and> 0 \<le> j \<and> j < int F \<and> t4_index F i x y j < length t
      then ret (t[t4_index F i x y j := v]) else abort (Undefined ''tensor index''))"

definition vec_set :: "fp list \<Rightarrow> int \<Rightarrow> fp \<Rightarrow> fp list res" where
  "vec_set t i v =
     (if 0 \<le> i \<and> i < int (length t) then ret (t[nat i := v]) else abort (Undefined ''tensor index''))"

definition write_feature ::
  "nat \<Rightarrow> board \<Rightarrow> int \<Rightarrow> string \<times> (board \<Rightarrow> feature_matrix res) \<Rightarrow> fp list \<times> int \<Rightarrow> (fp list \<times> int) res" where
  "write_feature F b i named_feature = (\<lambda>(features, j).
     bnd (snd named_feature b) (\<lambda>matrix.
     bnd (Iter (\<lambda>x y t. bnd (mat_at matrix x y) (t4_set F t i x y j)) features) (\<lambda>features'.
     ret (features', j + 1))))"

definition WriteOutput ::
  "(string \<times> (board \<Rightarrow> feature_matrix res)) list \<Rightarrow> board \<Rightarrow> fp \<Rightarrow> fp list \<times> fp list \<Rightarrow> int \<Rightarrow>
   (fp list \<times> fp list) res" where
  "WriteOutput fs b score = (\<lambda>(features, scores) i.
     bnd (foldM (write_feature (length fs) b i) fs (features, 0)) (\<lambda>(features', j).
     bnd (PlayerMap_at \<lparr>pm_first = score, pm_second = fp_sub float32 (Fin 1) score\<rparr> (CurrentPlayer b))
       (\<lambda>s. bnd (vec_set scores i s) (\<lambda>scores'. ret (features', scores')))))"

definition write_moves ::
  "(string \<times> (board \<Rightarrow> feature_matrix res)) list \<Rightarrow> fp \<Rightarrow> vector2i list \<Rightarrow>
   board \<times> (fp list \<times> fp list) \<times> int \<Rightarrow> (board \<times> (fp list \<times> fp list) \<times> int) res" where
  "write_moves fs score = foldM (\<lambda>move (b, out, i).
     bnd (ApplyMove b move) (\<lambda>b'.
     bnd (WriteOutput fs b' score out i) (\<lambda>out'. ret (b', out', i + 1))))"

definition write_recording ::
  "(string \<times> (board \<Rightarrow> feature_matrix res)) list \<Rightarrow> recording \<Rightarrow>
   (fp list \<times> fp list) \<times> int \<Rightarrow> ((fp list \<times> fp list) \<times> int) res" where
  "write_recording fs r = (\<lambda>(out, i).
     bnd (WriteOutput fs new_board (rec_score r) out i) (\<lambda>out1.
     bnd (write_moves fs (rec_score r) (rec_moves r) (new_board, out1, i + 1)) (\<lambda>(b, out2, i2).
     ret (out2, i2))))"

text \<open>The parsing loop, with the recordings and the number of samples so far.\<close>

fun parse_loop ::
  "(string \<Rightarrow> recording option) \<Rightarrow> string list \<Rightarrow> recording list \<Rightarrow> int \<Rightarrow> (status + recording list \<times> int) res" where
  "parse_loop parse [] recordings samples = ret (Inr (recordings, samples))"
| "parse_loop parse (record # records) recordings samples =
     (case parse record of
        None \<Rightarrow> ret (Inl (InvalidArgument ''DecodeReplay couldn't deserialize a Recording.''))
      | Some r \<Rightarrow> bnd (int32 (samples + (int (length (rec_moves r)) + 1))) (parse_loop parse records (recordings @ [r])))"

definition output_shapes :: "bytes \<Rightarrow> int \<Rightarrow> (tensor_shape_rep \<times> tensor_shape_rep) res" where
  "output_shapes memory samples =
     bnd (new_shape False memory [samples, kWidth, kHeight, int (length DefaultFeatures)]) (\<lambda>features_shape.
     bnd (new_shape False memory [samples]) (\<lambda>score_shape. ret (features_shape, score_shape)))"

definition Compute ::
  "(string \<Rightarrow> recording option) \<Rightarrow> (tensor_shape_rep \<Rightarrow> status + fp list) \<Rightarrow> bytes \<Rightarrow> string list \<Rightarrow>
   (status + fp list \<times> fp list) res" where
  "Compute parse alloc memory records =
     bnd (parse_loop parse records [] 0) (\<lambda>parsed. case parsed of
        Inl st \<Rightarrow> ret (Inl st)
      | Inr (recordings, samples) \<Rightarrow>
          bnd (output_shapes memory samples) (\<lambda>(features_shape, score_shape).
          case alloc features_shape of
             Inl st \<Rightarrow> ret (Inl st)
           | Inr features \<Rightarrow>
               (case alloc score_shape of
                  Inl st \<Rightarrow> ret (Inl st)
                | Inr scores \<Rightarrow>
                    bnd (foldM (write_recording DefaultFeatures) recordings ((features, scores), 0))
                      (\<lambda>(out, i). ret (Inr out)))))"

section \<open>The layout of the tensor\<close>

lemma radix_inj:
  fixes n :: nat
  assumes "a * n + b = a' * n + b'" "b < n" "b' < n"
  shows "a = a'" "b = b'"
proof -
  have "(a * n + b) div n = a" "(a' * n + b') div n = a'" "(a * n + b) mod n = b" "(a' * n + b') mod n = b'"
    using assms(2,3) by (simp_all add: div_mult_self3 add.commute)
  with assms(1) show "a = a'" "b = b'" by simp_all
qed

lemma t4_index_inj:
  assumes "t4_index F i x y j = t4_index F i' x' y' j'" "0 \<le> i" "0 \<le> i'" "Inside (x, y)" "Inside (x', y')"
    "0 \<le> j" "j < int F" "0 \<le> j'" "j' < int F"
  shows "i = i' \<and> x = x' \<and> y = y' \<and> j = j'"
proof -
  have b: "nat x < 19" "nat x' < 19" "nat y < 19" "nat y' < 19" "nat j < F" "nat j' < F"
    "0 \<le> x" "0 \<le> y" "0 \<le> x'" "0 \<le> y'"
    using assms(4-9) by (auto simp: Inside_def)
  note 1 = radix_inj [OF assms(1) [unfolded t4_index_def] b(5,6)]
  note 2 = radix_inj [OF 1(1) b(3,4)]
  note 3 = radix_inj [OF 2(1) b(1,2)]
  from 1(2) 2(2) 3 b assms(2,3,6,8) show ?thesis by (simp add: eq_nat_nat_iff)
qed

lemma t4_index_bound:
  assumes "0 \<le> i" "i < int n" "Inside (x, y)" "0 \<le> j" "j < int F"
  shows "t4_index F i x y j < n * 361 * F"
proof -
  have "nat i < n" "nat x < 19" "nat y < 19" "nat j < F" using assms by (auto simp: Inside_def)
  then have "(nat i * 19 + nat x) * 19 + nat y < n * 361" by auto
  then have "((nat i * 19 + nat x) * 19 + nat y + 1) * F \<le> n * 361 * F" by (intro mult_right_mono) auto
  with \<open>nat j < F\<close> show ?thesis by (simp add: t4_index_def algebra_simps)
qed

text \<open>A tensor of \<open>n\<close> samples, read at valid positions.\<close>

definition t4_valid :: "nat \<Rightarrow> nat \<Rightarrow> int \<Rightarrow> int \<Rightarrow> int \<Rightarrow> int \<Rightarrow> bool" where
  "t4_valid F n i x y j \<longleftrightarrow> 0 \<le> i \<and> i < int n \<and> Inside (x, y) \<and> 0 \<le> j \<and> j < int F"

definition t4_is :: "nat \<Rightarrow> nat \<Rightarrow> fp list \<Rightarrow> (int \<Rightarrow> int \<Rightarrow> int \<Rightarrow> int \<Rightarrow> fp) \<Rightarrow> bool" where
  "t4_is F n t f \<longleftrightarrow> length t = n * 361 * F \<and>
     (\<forall>i x y j. t4_valid F n i x y j \<longrightarrow> t ! t4_index F i x y j = f i x y j)"

lemma t4_is_cong:
  assumes "t4_is F n t f" "\<And>i x y j. t4_valid F n i x y j \<Longrightarrow> f i x y j = g i x y j"
  shows "t4_is F n t g"
  using assms by (simp add: t4_is_def)

lemma t4_set_is:
  assumes "t4_is F n t f" "t4_valid F n i x y j"
  shows "\<exists>t'. t4_set F t i x y j v = ret t' \<and>
    t4_is F n t' (\<lambda>i' x' y' j'. if (i', x', y', j') = (i, x, y, j) then v else f i' x' y' j')"
proof -
  have b: "t4_index F i x y j < length t"
    using assms t4_index_bound by (auto simp: t4_valid_def t4_is_def)
  have "t[t4_index F i x y j := v] ! t4_index F i' x' y' j' =
      (if (i', x', y', j') = (i, x, y, j) then v else f i' x' y' j')"
    if "t4_valid F n i' x' y' j'" for i' x' y' j'
    using assms that b t4_index_inj [of F i' x' y' j' i x y j]
    by (auto simp: t4_is_def t4_valid_def nth_list_update)
  with assms b show ?thesis by (auto simp: t4_set_def t4_is_def t4_valid_def)
qed

lemma Iter_t4_is:
  assumes "t4_is F n t f" "0 \<le> i" "i < int n" "0 \<le> j" "j < int F" "length m = 361"
  shows "\<exists>t'. Iter (\<lambda>x y t. bnd (mat_at m x y) (t4_set F t i x y j)) t = ret t' \<and>
    t4_is F n t' (\<lambda>i' x y j'. if i' = i \<and> j' = j then m ! mat_index x y else f i' x y j')"
proof -
  have "t4_is F n t f \<Longrightarrow> set ps \<subseteq> {p. Inside p} \<Longrightarrow>
     \<exists>t'. foldM (\<lambda>(x, y) t. bnd (mat_at m x y) (t4_set F t i x y j)) ps t = ret t' \<and>
      t4_is F n t' (\<lambda>i' x y j'. if i' = i \<and> j' = j \<and> (x, y) \<in> set ps
        then m ! mat_index x y else f i' x y j')" for ps f
  proof (induction ps arbitrary: t f)
    case (Cons p ps)
    obtain a b where p: "p = (a, b)" by (cases p)
    with Cons.prems have ab: "Inside (a, b)" by simp
    have "t4_valid F n i a b j" using ab assms by (simp add: t4_valid_def)
    from t4_set_is [OF Cons.prems(1) this, of "m ! mat_index a b"] obtain t1 where
      t1: "t4_set F t i a b j (m ! mat_index a b) = ret t1" "t4_is F n t1 (\<lambda>i' x' y' j'.
        if (i', x', y', j') = (i, a, b, j) then m ! mat_index a b else f i' x' y' j')" by blast
    from Cons.IH [OF t1(2)] Cons.prems(2) obtain t2 where
      t2: "foldM (\<lambda>(x, y) t. bnd (mat_at m x y) (t4_set F t i x y j)) ps t1 = ret t2"
      "t4_is F n t2 (\<lambda>i' x y j'. if i' = i \<and> j' = j \<and> (x, y) \<in> set ps then m ! mat_index x y
        else if (i', x, y, j') = (i, a, b, j) then m ! mat_index a b else f i' x y j')" by auto
    show ?case
      using t1(1) t2 mat_at_ret [OF assms(6) ab]
      by (auto simp: p intro!: t4_is_cong [OF t2(2)])
  qed simp
  from this [OF assms(1), of all_fields] obtain t' where
    t': "Iter (\<lambda>x y t. bnd (mat_at m x y) (t4_set F t i x y j)) t = ret t'"
    "t4_is F n t' (\<lambda>i' x y j'. if i' = i \<and> j' = j \<and> (x, y) \<in> set all_fields
        then m ! mat_index x y else f i' x y j')"
    by (auto simp: Iter_def set_all_fields)
  have "t4_is F n t' (\<lambda>i' x y j'. if i' = i \<and> j' = j then m ! mat_index x y else f i' x y j')"
    by (rule t4_is_cong [OF t'(2)]) (simp add: set_all_fields t4_valid_def)
  with t'(1) show ?thesis by blast
qed

section \<open>One sample\<close>

text \<open>What the features and the score of a history are.\<close>

definition feature_value :: "vector2i list \<Rightarrow> int \<Rightarrow> int \<Rightarrow> int \<Rightarrow> fp" where
  "feature_value hs x y j =
     (let stone = stone_after hs (x, y) in
      if j = 0 then indicator (stone = mover (length hs))
      else if j = 1 then indicator (stone = NONE)
      else indicator (stone = opponent (mover (length hs))))"

definition score_value :: "vector2i list \<Rightarrow> fp \<Rightarrow> fp" where
  "score_value hs score = (if even (length hs) then score else fp_sub float32 (Fin 1) score)"

lemma DefaultFeatures_length [simp]: "length DefaultFeatures = 3"
  by (simp add: DefaultFeatures_def)

lemma write_features:
  assumes "t4_is 3 n t f" "0 \<le> i" "i < int n"
  shows "\<exists>t'. foldM (write_feature 3 (board_of hs) i) DefaultFeatures (t, 0) = ret (t', 3) \<and>
    t4_is 3 n t' (\<lambda>i' x y j. if i' = i then feature_value hs x y j else f i' x y j)"
proof -
  let ?m = "\<lambda>P. mat_of (\<lambda>p. indicator (P (stone_after hs p)))"
  let ?it = "\<lambda>P j. Iter (\<lambda>x y t. bnd (mat_at (?m P) x y) (t4_set 3 t i x y j))"
  let ?me = "\<lambda>s. s = mover (length hs)" and ?no = "\<lambda>s. s = NONE" and ?op = "\<lambda>s. s = opponent (mover (length hs))"
  from Iter_t4_is [OF assms, of 0 "?m ?me"] obtain t1 where t1: "?it ?me 0 t = ret t1"
    "t4_is 3 n t1 (\<lambda>i' x y j'. if i' = i \<and> j' = 0 then ?m ?me ! mat_index x y else f i' x y j')" by auto
  from Iter_t4_is [OF t1(2) assms(2,3), of 1 "?m ?no"] obtain t2 where t2: "?it ?no 1 t1 = ret t2"
    "t4_is 3 n t2 (\<lambda>i' x y j'. if i' = i \<and> j' = 1 then ?m ?no ! mat_index x y else
       if i' = i \<and> j' = 0 then ?m ?me ! mat_index x y else f i' x y j')" by auto
  from Iter_t4_is [OF t2(2) assms(2,3), of 2 "?m ?op"] obtain t3 where t3: "?it ?op 2 t2 = ret t3"
    "t4_is 3 n t3 (\<lambda>i' x y j'. if i' = i \<and> j' = 2 then ?m ?op ! mat_index x y else
       if i' = i \<and> j' = 1 then ?m ?no ! mat_index x y else
       if i' = i \<and> j' = 0 then ?m ?me ! mat_index x y else f i' x y j')" by auto
  have "foldM (write_feature 3 (board_of hs) i) DefaultFeatures (t, 0) = ret (t3, 3)"
    using t1(1) t2(1) t3(1)
    by (simp add: DefaultFeatures_def write_feature_def StoneMatrix_board_of PlayerMap_at_mover)
  moreover have "t4_is 3 n t3 (\<lambda>i' x y j. if i' = i then feature_value hs x y j else f i' x y j)"
    by (rule t4_is_cong [OF t3(2)]) (auto simp: feature_value_def Let_def mat_of_nth t4_valid_def)
  ultimately show ?thesis by blast
qed

lemma WriteOutput_board_of:
  assumes "t4_is 3 n t f" "length s = n" "0 \<le> i" "i < int n"
  shows "\<exists>t'. WriteOutput DefaultFeatures (board_of hs) score (t, s) i =
      ret (t', s[nat i := score_value hs score]) \<and>
    t4_is 3 n t' (\<lambda>i' x y j. if i' = i then feature_value hs x y j else f i' x y j)"
proof -
  from write_features [OF assms(1,3,4), of hs] obtain t' where
    t': "foldM (write_feature 3 (board_of hs) i) DefaultFeatures (t, 0) = ret (t', 3)"
    "t4_is 3 n t' (\<lambda>i' x y j. if i' = i then feature_value hs x y j else f i' x y j)" by blast
  have "PlayerMap_at \<lparr>pm_first = score, pm_second = fp_sub float32 (Fin 1) score\<rparr> (mover (length hs)) =
    ret (score_value hs score)" by (simp add: mover_def score_value_def)
  with t' assms(2-4) show ?thesis by (simp add: WriteOutput_def vec_set_def)
qed

section \<open>All samples\<close>

text \<open>The positions of a game, each with the score of the game; \<open>from\<close> is the history so far.\<close>

fun positions :: "vector2i list \<Rightarrow> vector2i list \<Rightarrow> vector2i list list" where
  "positions hs [] = []"
| "positions hs (m # ms) = (hs @ [m]) # positions (hs @ [m]) ms"

definition game_samples :: "recording \<Rightarrow> (vector2i list \<times> fp) list" where
  "game_samples r = map (\<lambda>hs. (hs, rec_score r)) ([] # positions [] (rec_moves r))"

definition samples_are :: "nat \<Rightarrow> (vector2i list \<times> fp) list \<Rightarrow> fp list \<times> fp list \<Rightarrow> bool" where
  "samples_are n st = (\<lambda>(t, s). length t = n * 361 * 3 \<and> length s = n \<and> length st \<le> n \<and>
     (\<forall>i < length st. s ! i = score_value (fst (st ! i)) (snd (st ! i)) \<and>
        (\<forall>x y j. t4_valid 3 n (int i) x y j \<longrightarrow>
           t ! t4_index 3 (int i) x y j = feature_value (fst (st ! i)) x y j)))"

lemma length_positions [simp]: "length (positions hs ms) = length ms"
  by (induction ms arbitrary: hs) auto

lemma WriteOutput_samples:
  assumes "samples_are n st out" "length st < n"
  shows "\<exists>out'. WriteOutput DefaultFeatures (board_of hs) score out (int (length st)) = ret out' \<and>
    samples_are n (st @ [(hs, score)]) out'"
proof -
  obtain t s where out: "out = (t, s)" by (cases out)
  let ?f = "\<lambda>i x y j. t ! t4_index 3 i x y j"
  have t: "t4_is 3 n t ?f" and s: "length s = n" using assms(1) by (simp_all add: samples_are_def t4_is_def out)
  from WriteOutput_board_of [OF t s, of "int (length st)" hs score] assms(2) obtain t' where
    t': "WriteOutput DefaultFeatures (board_of hs) score (t, s) (int (length st)) =
      ret (t', s[length st := score_value hs score])"
    "t4_is 3 n t' (\<lambda>i' x y j. if i' = int (length st) then feature_value hs x y j else ?f i' x y j)" by auto
  have "samples_are n (st @ [(hs, score)]) (t', s[length st := score_value hs score])"
    using assms t'(2)
    by (auto simp: samples_are_def out t4_is_def nth_append nth_list_update less_Suc_eq)
  with t'(1) out show ?thesis by blast
qed

lemma write_moves_samples:
  assumes "samples_are n st out" "length st + length ms \<le> n" "legal_history (hs @ ms)"
  shows "\<exists>out'. write_moves DefaultFeatures score ms (board_of hs, out, int (length st)) =
      ret (board_of (hs @ ms), out', int (length st + length ms)) \<and>
    samples_are n (st @ map (\<lambda>h. (h, score)) (positions hs ms)) out'"
  using assms
proof (induction ms arbitrary: hs st out)
  case (Cons m ms)
  have m: "Inside m" "m \<notin> set hs" using Cons.prems(3) by (auto simp: legal_history_def)
  from WriteOutput_samples [OF Cons.prems(1), of "hs @ [m]" score] Cons.prems(2) obtain out1 where
    o1: "WriteOutput DefaultFeatures (board_of (hs @ [m])) score out (int (length st)) = ret out1"
      "samples_are n (st @ [(hs @ [m], score)]) out1" by auto
  from Cons.IH [OF o1(2), of "hs @ [m]"] Cons.prems o1(1) m show ?case
    by (auto simp: write_moves_def ApplyMove_legal algebra_simps)
qed (simp add: write_moves_def)

lemma write_recording_samples:
  assumes "samples_are n st out" "length st + length (game_samples r) \<le> n" "legal_history (rec_moves r)"
  shows "\<exists>out'. write_recording DefaultFeatures r (out, int (length st)) =
      ret (out', int (length (st @ game_samples r))) \<and> samples_are n (st @ game_samples r) out'"
proof -
  from WriteOutput_samples [OF assms(1), of "[]" "rec_score r"] assms(2) obtain out1 where
    o1: "WriteOutput DefaultFeatures (board_of []) (rec_score r) out (int (length st)) = ret out1"
      "samples_are n (st @ [([], rec_score r)]) out1" by (auto simp: game_samples_def)
  from write_moves_samples [OF o1(2), of "rec_moves r" "[]" "rec_score r"] assms(2,3) o1(1) show ?thesis
    by (auto simp: write_recording_def new_board_eq game_samples_def algebra_simps)
qed

lemma write_all_samples:
  assumes "samples_are n st out" "length st + length (concat (map game_samples rs)) \<le> n"
    "list_all (\<lambda>r. legal_history (rec_moves r)) rs"
  shows "\<exists>out'. foldM (write_recording DefaultFeatures) rs (out, int (length st)) =
      ret (out', int (length st + length (concat (map game_samples rs)))) \<and>
    samples_are n (st @ concat (map game_samples rs)) out'"
  using assms
proof (induction rs arbitrary: st out)
  case (Cons r rs)
  from write_recording_samples [OF Cons.prems(1), of r] Cons.prems(2,3) obtain out1 where
    o1: "write_recording DefaultFeatures r (out, int (length st)) =
      ret (out1, int (length (st @ game_samples r)))" "samples_are n (st @ game_samples r) out1" by auto
  from Cons.IH [OF o1(2)] Cons.prems(2,3) o1(1) show ?case by (auto simp: algebra_simps)
qed simp

text \<open>The number of samples of the records, and what the parsing loop does.\<close>

definition sample_count :: "(string \<Rightarrow> recording option) \<Rightarrow> string list \<Rightarrow> nat" where
  "sample_count parse records = length (concat (map (\<lambda>r. game_samples (the (parse r))) records))"

lemma sample_count_Cons [simp]:
  "sample_count parse [] = 0"
  "sample_count parse (r # records) = length (rec_moves (the (parse r))) + 1 + sample_count parse records"
  by (simp_all add: sample_count_def game_samples_def)

lemma parse_loop_ok:
  assumes "list_all (\<lambda>r. parse r \<noteq> None) records" "0 \<le> k" "k + int (sample_count parse records) < 2 ^ 31"
  shows "parse_loop parse records rs k = ret (Inr (rs @ map (\<lambda>r. the (parse r)) records, k + int (sample_count parse records)))"
  using assms by (induction records arbitrary: rs k) (auto simp: int32_def)

lemma parse_loop_bad:
  assumes "\<not> (list_all (\<lambda>r. parse r \<noteq> None) records \<and> k + int (sample_count parse records) < 2 ^ 31)" "0 \<le> k" "k < 2 ^ 31"
  shows "parse_loop parse records rs k = ret (Inl (InvalidArgument ''DecodeReplay couldn't deserialize a Recording.'')) \<or>
    parse_loop parse records rs k = abort (Undefined ''signed overflow'')"
  using assms
proof (induction records arbitrary: rs k)
  case (Cons r records)
  show ?case
  proof (cases "parse r")
    case (Some g)
    let ?k = "k + (int (length (rec_moves g)) + 1)"
    show ?thesis
    proof (cases "?k < 2 ^ 31")
      case True
      with Cons.IH [of ?k "rs @ [g]"] Cons.prems Some show ?thesis by (auto simp: int32_def)
    qed (use Some in \<open>auto simp: int32_def\<close>)
  qed simp
qed simp

lemma output_shapes_spec:
  assumes "length memory = 12" "0 \<le> n" "n < 2 ^ 31"
  shows "\<exists>fs ss. output_shapes memory n = ret (fs, ss) \<and> denotes False fs [n, 19, 19, 3] \<and> denotes False ss [n]"
proof -
  have "shape_valid False [n, 19, 19, 3]" "shape_valid False [n]"
    using assms by (auto simp: shape_valid_def size_ok_def elements_of_def le_Suc_eq)
  moreover have "list_all (arg_ok False) [n, 19, 19, 3]" "list_all (arg_ok False) [n]" using assms by (simp_all add: arg_ok_def)
  ultimately show ?thesis
    using AddDims_yields [OF blank_denotes [OF assms(1)], of False "[n, 19, 19, 3]"]
      AddDims_yields [OF blank_denotes [OF assms(1)], of False "[n]"]
    by (auto simp: yields_def output_shapes_def new_shape_def)
qed

definition alloc_ok :: "(tensor_shape_rep \<Rightarrow> status + fp list) \<Rightarrow> bool" where
  "alloc_ok alloc \<longleftrightarrow> (\<forall>s ds t. denotes False s ds \<and> alloc s = Inr t \<longrightarrow> length t = nat (prod_list ds))"

lemma Compute_samples:
  assumes "alloc_ok alloc" "\<forall>s. \<exists>t. alloc s = Inr t" "length memory = 12"
    "list_all (\<lambda>r. \<exists>g. parse r = Some g \<and> legal_history (rec_moves g)) records" "sample_count parse records < 2 ^ 31"
  shows "\<exists>features scores. Compute parse alloc memory records = ret (Inr (features, scores)) \<and>
    samples_are (sample_count parse records) (concat (map (\<lambda>r. game_samples (the (parse r))) records)) (features, scores)"
proof -
  let ?rs = "map (\<lambda>r. the (parse r)) records" and ?st = "concat (map (\<lambda>r. game_samples (the (parse r))) records)"
  let ?n = "sample_count parse records"
  have n: "length ?st = ?n" by (simp add: sample_count_def)
  have st: "?st = concat (map game_samples ?rs)" by (simp add: comp_def)
  from output_shapes_spec [OF assms(3), of "int ?n"] assms(5) obtain fs ss where
    o: "output_shapes memory (int ?n) = ret (fs, ss)" "denotes False fs [int ?n, 19, 19, 3]" "denotes False ss [int ?n]" by auto
  obtain t s where t: "alloc fs = Inr t" and s: "alloc ss = Inr s" using assms(2) by blast
  have len: "length t = ?n * 361 * 3" "length s = ?n"
    using assms(1) o(2,3) t s unfolding alloc_ok_def by (force simp: nat_mult_distrib)+
  have start: "samples_are ?n [] (t, s)" using len by (simp add: samples_are_def)
  have legal: "list_all (\<lambda>r. legal_history (rec_moves r)) ?rs" using assms(4) by (auto simp: list_all_iff)
  from write_all_samples [OF start, of ?rs] legal st n obtain features scores where
    "foldM (write_recording DefaultFeatures) ?rs ((t, s), 0) = ret ((features, scores), int ?n)"
    "samples_are ?n ?st (features, scores)" by auto
  moreover have "list_all (\<lambda>r. parse r \<noteq> None) records" using assms(4) by (auto simp: list_all_iff)
  from parse_loop_ok [OF this, of 0 "[]"] assms(5) have
    "parse_loop parse records [] 0 = ret (Inr (?rs, int ?n))" by simp
  ultimately show ?thesis using t s o(1) by (simp add: Compute_def)
qed

text \<open>A replay that was written out passed every check of the board on the way.\<close>

lemma write_moves_ApplyMoves:
  "write_moves fs score ms (b, out, i) = ret (b', out', i') \<Longrightarrow> ApplyMoves ms b = ret b'"
proof (induction ms arbitrary: b out i)
  case (Cons m ms)
  from Cons.prems obtain b1 out1 where
    "ApplyMove b m = ret b1" "write_moves fs score ms (b1, out1, i + 1) = ret (b', out', i')"
    by (auto simp: write_moves_def bnd_eq_ret)
  with Cons.IH show ?case by (simp add: ApplyMoves_def)
qed (simp add: write_moves_def ApplyMoves_def)

lemma write_recording_legal:
  assumes "write_recording fs r st = ret st'"
  shows "legal_history (rec_moves r)"
proof -
  from assms obtain out i b out' i' where
    "write_moves fs (rec_score r) (rec_moves r) (new_board, out, i) = ret (b, out', i')"
    by (auto simp: write_recording_def bnd_eq_ret case_prod_unfold)
  from write_moves_ApplyMoves [OF this] show ?thesis
    using ApplyMoves_board_of [of "[]"] by (simp add: new_board_eq)
qed

lemma write_recordings_legal:
  "foldM (write_recording fs) rs st = ret st' \<Longrightarrow> list_all (\<lambda>r. legal_history (rec_moves r)) rs"
  by (induction rs arbitrary: st) (auto simp: bnd_eq_ret dest: write_recording_legal)

section \<open>Properties\<close>

text \<open>
  The score of the player to move in the position \<open>hs\<close> of a recorded game. For a whole game with its right result that
  somebody won it is what the operation documents: 1 if the player to move won, 0 otherwise. For a drawn one the
  documentation asks for 0; the recorded score is 0 and the value is 0 where the first player is to move and 1 where the
  second is. Any other recorded score \<open>p\<close> becomes \<open>p\<close> for the first player and \<open>1 - p\<close> for the second.
\<close>

definition position_score :: "recording \<Rightarrow> vector2i list \<Rightarrow> fp" where
  "position_score g hs =
     (if right_result g then
        if winner_of (rec_moves g) \<noteq> NONE then
          if winner_of (rec_moves g) = mover (length hs) then Fin 1 else Fin 0
        else if mover (length hs) = FIRST then Fin 0 else Fin 1
      else if mover (length hs) = FIRST then rec_score g else fp_sub float32 (Fin 1) (rec_score g))"

definition game_scores :: "recording \<Rightarrow> fp list" where
  "game_scores g = map (position_score g) ([] # positions [] (rec_moves g))"

lemma score_value_position: "score_value hs (rec_score g) = position_score g hs"
proof -
  have "fp_sub float32 (Fin 1) (Fin 1) = Fin 0" "fp_sub float32 (Fin 1) (Fin 0) = Fin 1"
    using to_fp_unit [of float32 0] to_fp_unit [of float32 1] by (simp_all add: fp_sub_def)
  moreover have "winner_of (rec_moves g) = FIRST \<or> winner_of (rec_moves g) = SECOND \<or> winner_of (rec_moves g) = NONE"
    by (cases "winner_of (rec_moves g)") auto
  ultimately show ?thesis by (auto simp: score_value_def position_score_def right_result_def mover_def)
qed

lemma samples_scores:
  assumes "samples_are (length (concat (map game_samples gs))) (concat (map game_samples gs)) (features, scores)"
  shows "scores = concat (map game_scores gs)"
proof -
  let ?st = "concat (map game_samples gs)"
  have "scores = map (\<lambda>(hs, p). score_value hs p) ?st"
    using assms by (intro nth_equalityI) (auto simp: samples_are_def case_prod_unfold)
  moreover have "map (\<lambda>(hs, p). score_value hs p) (game_samples g) = game_scores g" for g
    by (simp add: game_samples_def game_scores_def score_value_position)
  ultimately show ?thesis by (simp add: map_concat comp_def)
qed

text \<open>
  C5. When every record parses to a legal game and the outputs can be
  allocated, \<open>Compute\<close> returns one sample for every position of every game, in order (the
  empty board included): at sample \<open>i\<close>, field \<open>(x, y)\<close>, feature 0 is the stone of the player
  to move, feature 1 the free fields and feature 2 the opponent's stones. The scores are those of the player to move
  (\<open>position_score\<close>): for whole games with their right result that were won, 1 if that player won and 0 if not, as documented. They
  differ from the documentation (``1.0 if the current player won that game or 0.0 otherwise'') for drawn games, where
  the positions with the second player to move get 1. All of both buffers is written.
\<close>

theorem Compute_decodes:
  assumes "alloc_ok alloc" "\<forall>s. \<exists>t. alloc s = Inr t" "length memory = 12"
    "list_all (\<lambda>r. \<exists>g. parse r = Some g \<and> legal_history (rec_moves g)) records" "sample_count parse records < 2 ^ 31"
  shows "\<exists>features scores. Compute parse alloc memory records = ret (Inr (features, scores)) \<and>
    samples_are (sample_count parse records) (concat (map (\<lambda>r. game_samples (the (parse r))) records)) (features, scores) \<and>
    scores = concat (map (\<lambda>r. game_scores (the (parse r))) records)"
proof -
  let ?gs = "map (\<lambda>r. the (parse r)) records"
  from Compute_samples [OF assms] obtain features scores where
    1: "Compute parse alloc memory records = ret (Inr (features, scores))"
      "samples_are (sample_count parse records) (concat (map (\<lambda>r. game_samples (the (parse r))) records)) (features, scores)" by blast
  then have "samples_are (length (concat (map game_samples ?gs))) (concat (map game_samples ?gs)) (features, scores)"
    by (simp add: sample_count_def comp_def)
  from samples_scores [OF this] 1 show ?thesis by (auto simp: comp_def)
qed

theorem Compute_decodes_witness:
  "\<exists>features scores. Compute (\<lambda>r. Some \<lparr>rec_moves = [(3, 4), (5, 6)], rec_score = Fin 1\<rparr>)
      (\<lambda>s. Inr (replicate (nat (prod_list (sizes False s))) NaN)) (replicate 12 0) [''game''] = ret (Inr (features, scores)) \<and>
    samples_are 3 [([], Fin 1), ([(3, 4)], Fin 1), ([(3, 4), (5, 6)], Fin 1)] (features, scores) \<and>
    scores = [Fin 1, Fin 0, Fin 1]"
proof -
  let ?parse = "\<lambda>r :: string. Some \<lparr>rec_moves = [(3, 4), (5, 6)], rec_score = Fin 1\<rparr>"
  let ?alloc = "\<lambda>s. Inr (replicate (nat (prod_list (sizes False s))) NaN) :: status + fp list"
  have "alloc_ok ?alloc" by (auto simp: alloc_ok_def denotes_facts(3))
  moreover have "legal_history [(3, 4), (5, 6)]" by (simp add: legal_history_def Inside_def)
  moreover have "fp_sub float32 (Fin 1) (Fin 1) = Fin 0" using to_fp_unit [of float32 0] by (simp add: fp_sub_def)
  ultimately show ?thesis
    using Compute_decodes [of ?alloc "replicate 12 0" ?parse "[''game'']"]
    by (simp add: game_samples_def game_scores_def numeral_3_eq_3 score_value_def flip: score_value_position)
qed



section \<open>Shapes declared and shapes allocated\<close>

text \<open>
  The operation as the graph sees it: a context for a node with the input \<open>records\<close> of a given partial shape and the outputs
  \<open>features\<close> and \<open>scores\<close>, in which the shape function runs.
\<close>

definition plain_arg :: "string \<Rightarrow> byte \<Rightarrow> arg_def" where
  "plain_arg name t = \<lparr>arg_name = name, arg_number_attr = [], arg_type_list_attr = [], arg_type_attr = [], arg_type = t\<rparr>"

definition DT_FLOAT :: byte where "DT_FLOAT = 1"
definition DT_STRING :: byte where "DT_STRING = 7"

definition DecodeReplays_inputs :: "arg_def list" where
  "DecodeReplays_inputs = [plain_arg ''records'' DT_STRING]"

definition DecodeReplays_outputs :: "arg_def list" where
  "DecodeReplays_outputs = [plain_arg ''features'' DT_FLOAT, plain_arg ''scores'' DT_FLOAT]"

definition infer_DecodeReplays ::
  "attr_lookup \<Rightarrow> attr_lookup \<Rightarrow> (host_tensor \<Rightarrow> string) \<Rightarrow> string \<Rightarrow> tensor_shape_rep \<Rightarrow> (status \<times> inference_context) res" where
  "infer_DecodeReplays GetNodeAttr Find SummarizeValue name records =
     bnd (NameRangesForNode GetNodeAttr Find ''DecodeReplays'' DecodeReplays_inputs DecodeReplays_outputs) (\<lambda>ranges.
     bnd (InferenceContext_partial name ''DecodeReplays'' ranges [records] [] [] [])
       (Run SummarizeValue DecodeReplays_shape_fn))"

lemma DecodeReplays_names:
  "NameRangesForNode GetNodeAttr Find ''DecodeReplays'' DecodeReplays_inputs DecodeReplays_outputs = ret
     \<lparr>nr_status = OK, nr_inputs = [(''records'', 0, 1)], nr_outputs = [(''features'', 0, 1), (''scores'', 1, 2)]\<rparr>"
  by (simp add: NameRangesForNode_def DecodeReplays_inputs_def DecodeReplays_outputs_def plain_arg_def ComputeArgRange_def DT_STRING_def
      DT_FLOAT_def DT_INVALID_def int32_def OK_def ok_def Let_def)

lemma shape_fn_runs:
  assumes "store_ok c" "ic_inputs c = [h]" "is_shape c h" "ic_outputs c = [a, b]"
    "case known c h of None \<Rightarrow> True | Some ds \<Rightarrow> length ds \<le> 1"
  shows "\<exists>c' f s d. DecodeReplays_shape_fn c = ret (OK, c') \<and> ic_outputs c' = [f, s] \<and> f \<noteq> None \<and> s \<noteq> None \<and>
    displays c' f (Some [- 1, 19, 19, 3]) \<and> displays c' s (Some [- 1]) \<and>
    is_dims (shape_at c' f) ! 0 = d \<and> is_dims (shape_at c' s) ! 0 = d"
proof -
  have r: "Rank h c = ret (is_rank (shape_at c h))" using assms(3) by simp
  have k: "is_rank (shape_at c h) = - 1 \<or> is_rank (shape_at c h) \<le> 1"
    using assms(5) known_rank [OF assms(1,3)] by (auto simp: known_def split: if_splits)
  obtain rec c1 where 1: "WithRankAtMost h 1 None c = ret ((OK, rec), c1)" "grows c c1"
  proof (cases "is_rank (shape_at c h) = - 1")
    case True
    let ?c = "c\<lparr>ic_shapes := ic_shapes c @ [\<lparr>is_rank = - 1, is_dims = []\<rparr>]\<rparr>"
    have "grows c ?c" by (rule growsI [where ds = "[]"]) simp
    with True r show ?thesis by (intro that [of _ ?c])
      (simp_all add: WithRankAtMost_def kint32max_def ic_kUnknownRank_def ReturnUnknownShape_def UnknownShape_def)
  next
    case False
    with r k show ?thesis by (intro that [of h c]) (auto simp: WithRankAtMost_def kint32max_def ic_kUnknownRank_def)
  qed
  have o: "ic_outputs c1 = [a, b]" using assms(4) grows_fields(4) [OF 1(2)] by simp
  show ?thesis
    using 1(1) assms(2) o
    by (simp add: DecodeReplays_shape_fn_def input_at_def list_at_def UnknownDim_def MakeDim_def new_Dimension_def kUnknownDim_def
        MakeShape_list_def MakeShape_dims_def kWidth_def kHeight_def set_output_at_def list_put_def RankKnown_def Rank_def
        shape_ref_def ic_kUnknownRank_def displays_def is_shape_def known_def shape_at_def dim_value_def nth_append OK_def ok_def)
qed

lemma shape_fn_rejects:
  assumes "store_ok c" "ic_inputs c = [h]" "is_shape c h" "known c h = Some ds" "length ds > 1"
  shows "\<exists>msg. DecodeReplays_shape_fn c = ret (InvalidArgument msg, c)"
proof -
  have "is_rank (shape_at c h) = int (length ds)"
    using assms(4) known_rank [OF assms(1,3)] by (auto simp: known_def split: if_splits)
  then show ?thesis using assms(2,3,5)
    by (simp add: DecodeReplays_shape_fn_def input_at_def list_at_def WithRankAtMost_def kint32max_def ic_kUnknownRank_def
        InvalidArgument_def ok_def)
qed

lemma small_instance:
  "(\<exists>ds. is_instance v ds \<and> length ds \<le> 1) \<longleftrightarrow> (case v of None \<Rightarrow> True | Some vs \<Rightarrow> length vs \<le> 1)"
proof (cases v)
  case None
  then show ?thesis by (auto simp: is_instance_def intro!: exI [of _ "[]"])
next
  case (Some vs)
  have "is_instance (Some vs) (map (max 0) vs)"
    by (auto simp: is_instance_def size_instance_def list_all_iff list_all2_conv_all_nth max_def)
  then show ?thesis using Some by (auto simp: is_instance_def dest: list_all2_lengthD intro!: exI [of _ "map (max 0) vs"])
qed

lemma parse_loop_range:
  assumes "parse_loop parse records rs k = ret (Inr (rs', n))" "0 \<le> k" "k < 2 ^ 31"
  shows "0 \<le> n \<and> n < 2 ^ 31"
  using assms by (induction records arbitrary: rs k) (auto simp: int32_def split: option.splits if_splits)

text \<open>
  C6. The shapes that \<open>DecodeReplays\<close> declares are those it delivers. For an input of any partial shape inference
  returns; it accepts exactly the shapes that can be of rank at most 1. It then declares \<open>features\<close> as
  [?, 19, 19, 3] and \<open>scores\<close> as [?], with one dimension for the number of samples, and whatever records the kernel
  parses, the shapes it allocates for its outputs are instances of the declared ones, with the same first size.
\<close>

theorem DecodeReplays_well_typed:
  assumes "rep_ok True records_shape" "length memory = 12"
  shows "\<exists>st c. infer_DecodeReplays GetNodeAttr Find SummarizeValue name records_shape = ret (st, c) \<and>
    (ok st \<longleftrightarrow> (\<exists>ds. is_instance (view True records_shape) ds \<and> length ds \<le> 1)) \<and>
    (ok st \<longrightarrow> (\<exists>f s. ic_outputs c = [f, s] \<and>
       known c f = Some [- 1, 19, 19, 3] \<and> known c s = Some [- 1] \<and> is_dims (shape_at c f) ! 0 = is_dims (shape_at c s) ! 0 \<and>
       (\<forall>parse records rs samples. parse_loop parse records [] 0 = ret (Inr (rs, samples)) \<longrightarrow>
          (\<exists>fs ss. output_shapes memory samples = ret (fs, ss) \<and> is_instance (known c f) (sizes False fs) \<and>
             is_instance (known c s) (sizes False ss) \<and> sizes False fs ! 0 = sizes False ss ! 0))))"
proof -
  let ?r = "\<lparr>nr_status = OK, nr_inputs = [(''records'', 0, 1)], nr_outputs = [(''features'', 0, 1), (''scores'', 1, 2)]\<rparr>"
  from partial_maker.construct_spec [of "[records_shape]" "[]" "[]" "[]" name "''DecodeReplays''" ?r] assms(1)
  obtain c0 h where c0: "InferenceContext_partial name ''DecodeReplays'' ?r [records_shape] [] [] [] = ret c0"
    "store_ok c0" "ic_inputs c0 = [h]" "displays c0 h (view True records_shape)" "ic_outputs c0 = [None, None]" "context_ok c0"
    by (auto simp: InferenceContext_partial_def all_described_def ranges_end_def OK_def ok_def
        list_all2_Cons2 numeral_2_eq_2 context_ok_def displays_def)
  have h: "is_shape c0 h" "known c0 h = view True records_shape" using c0(4) by (simp_all add: displays_def)
  have fits: "(\<exists>ds. is_instance (view True records_shape) ds \<and> length ds \<le> 1) \<longleftrightarrow>
      (case view True records_shape of None \<Rightarrow> True | Some ds \<Rightarrow> length ds \<le> 1)" by (rule small_instance)
  show ?thesis
  proof (cases "case view True records_shape of None \<Rightarrow> True | Some ds \<Rightarrow> length ds \<le> 1")
    case True
    from shape_fn_runs [OF c0(2,3) h(1) c0(5)] True h(2) obtain c f s d where
      c: "DecodeReplays_shape_fn c0 = ret (OK, c)" "ic_outputs c = [f, s]" "f \<noteq> None" "s \<noteq> None"
        "displays c f (Some [- 1, 19, 19, 3])" "displays c s (Some [- 1])"
        "is_dims (shape_at c f) ! 0 = d" "is_dims (shape_at c s) ! 0 = d" by auto
    have "\<exists>fs ss. output_shapes memory samples = ret (fs, ss) \<and> is_instance (known c f) (sizes False fs) \<and>
        is_instance (known c s) (sizes False ss) \<and> sizes False fs ! 0 = sizes False ss ! 0"
      if "parse_loop parse records [] 0 = ret (Inr (rs, samples))" for parse records rs samples
      using parse_loop_range [OF that] output_shapes_spec [OF assms(2), of samples] c(5,6)
      by (auto simp: displays_def is_instance_def size_instance_def denotes_facts(3))
    then show ?thesis using c0(1) c fits True
      by (auto simp: infer_DecodeReplays_def DecodeReplays_names Run_def displays_def OK_def ok_def)
  next
    case False
    then obtain ds where "known c0 h = Some ds" "length ds > 1" using h(2) by (auto split: option.splits)
    from shape_fn_rejects [OF c0(2,3) h(1) this] obtain msg where r: "DecodeReplays_shape_fn c0 = ret (InvalidArgument msg, c0)" by blast
    have "\<not> ok (InvalidArgument msg)" "status_code (InvalidArgument msg) \<noteq> OK_code"
      by (simp_all add: InvalidArgument_def ok_def status_code_def INVALID_ARGUMENT_def OK_code_def)
    with AttachContext_returns [OF c0(6) this, of SummarizeValue] r c0(1) fits False show ?thesis
      by (auto simp: infer_DecodeReplays_def DecodeReplays_names Run_def ok_def)
  qed
qed

theorem DecodeReplays_well_typed_witness:
  "\<exists>shape st c f s. rep_ok True shape \<and> view True shape = Some [- 1] \<and>
    infer_DecodeReplays (\<lambda>a. (OK, 0)) (\<lambda>a. (OK, 0)) (\<lambda>t. []) ''decode'' shape = ret (st, c) \<and> ok st \<and> ic_outputs c = [f, s] \<and>
    known c f = Some [- 1, 19, 19, 3] \<and>
    (\<exists>fs ss. output_shapes (replicate 12 0) 0 = ret (fs, ss) \<and> is_instance (known c f) (sizes False fs))"
proof -
  have "length (replicate 12 (0 :: byte)) = 12" "proto_valid True (unnamed_proto [- 1] False)"
    by (simp_all add: proto_valid_def shape_valid_def size_ok_def elements_of_def le_Suc_eq)
  from shape_of_proto_spec [OF this] obtain shape where sh: "rep_ok True shape" "view True shape = Some [- 1]" by auto
  have fits: "\<exists>ds. is_instance (view True shape) ds \<and> length ds \<le> 1" unfolding small_instance sh(2) by simp
  from DecodeReplays_well_typed [OF sh(1), of "replicate 12 0" "\<lambda>a. (OK, 0)" "\<lambda>a. (OK, 0)" "\<lambda>t. []" "''decode''"] obtain st c where
    1: "infer_DecodeReplays (\<lambda>a. (OK, 0)) (\<lambda>a. (OK, 0)) (\<lambda>t. []) ''decode'' shape = ret (st, c)"
    and st: "ok st \<longleftrightarrow> (\<exists>ds. is_instance (view True shape) ds \<and> length ds \<le> 1)"
    and out: "ok st \<longrightarrow> (\<exists>f s. ic_outputs c = [f, s] \<and>
       known c f = Some [- 1, 19, 19, 3] \<and> known c s = Some [- 1] \<and> is_dims (shape_at c f) ! 0 = is_dims (shape_at c s) ! 0 \<and>
       (\<forall>parse records rs samples. parse_loop parse records [] 0 = ret (Inr (rs, samples)) \<longrightarrow>
          (\<exists>fs ss. output_shapes (replicate 12 0) samples = ret (fs, ss) \<and> is_instance (known c f) (sizes False fs) \<and>
             is_instance (known c s) (sizes False ss) \<and> sizes False fs ! 0 = sizes False ss ! 0)))"
    unfolding length_replicate by blast
  have ok: "ok st" using st fits by blast
  from mp [OF out ok] obtain f s where 3: "ic_outputs c = [f, s]" "known c f = Some [- 1, 19, 19, 3]"
    and 2: "\<And>parse records rs samples. parse_loop parse records [] 0 = ret (Inr (rs, samples)) \<Longrightarrow>
      \<exists>fs ss. output_shapes (replicate 12 0) samples = ret (fs, ss) \<and> is_instance (known c f) (sizes False fs) \<and>
        is_instance (known c s) (sizes False ss) \<and> sizes False fs ! 0 = sizes False ss ! 0" by blast
  from 2 [of "\<lambda>r. None" "[]" "[]" 0] have
    "\<exists>fs ss. output_shapes (replicate 12 0) 0 = ret (fs, ss) \<and> is_instance (known c f) (sizes False fs)" by auto
  with sh 1 ok 3 show ?thesis by blast
qed

end
