(* ===== verification/Input_Stream.thy ===== *)
theory Input_Stream
  imports Status Coding
begin

text \<open>
  Byte streams over files: \<^verbatim>\<open>tensorflow/core/lib/io/inputstream_interface.cc\<close>,
  \<^verbatim>\<open>random_inputstream.cc\<close> and \<^verbatim>\<open>buffered_inputstream.cc\<close>.

  \<open>RandomAccessFile::Read\<close> is a parameter (\<^verbatim>\<open>platform/file_system.h\<close> says what it does);
  a string that a method writes through a pointer is an argument and a result. The virtual
  methods of \<open>InputStreamInterface\<close> are the operations of the locale \<^verbatim>\<open>input_stream\<close>; its
  contract describes a stream by the bytes of the file and a position in them. The file
  stream satisfies it, and a buffered stream does whenever the stream below it does.
  Files are shorter than $2^{63}$ bytes, so that positions fit in \<open>int64\<close>.
\<close>

type_synonym file_read = "u64 \<Rightarrow> nat \<Rightarrow> status \<times> bytes"
type_synonym 's read_op = "int \<Rightarrow> bytes \<Rightarrow> 's \<Rightarrow> (status \<times> bytes \<times> 's) res"
type_synonym 's skip_op = "int \<Rightarrow> 's \<Rightarrow> (status \<times> 's) res"

section \<open>The default \<open>SkipNBytes\<close>\<close>

definition kMaxSkipSize :: int where
  "kMaxSkipSize = 8 * 1024 * 1024"

function skip_loop :: "'s read_op \<Rightarrow> int \<Rightarrow> bytes \<Rightarrow> 's \<Rightarrow> (status \<times> 's) res" where
  "skip_loop ReadNBytes bytes_to_skip unused s =
     (if bytes_to_skip > 0 then
        let bytes_to_read = min kMaxSkipSize bytes_to_skip in
        bnd (ReadNBytes bytes_to_read unused s) (\<lambda>(st, unused', s').
        if \<not> ok st then ret (st, s')
        else skip_loop ReadNBytes (bytes_to_skip - bytes_to_read) unused' s')
      else ret (OK, s))"
  by pat_completeness auto
termination
  by (relation "measure (\<lambda>(_, n, _, _). nat n)") (auto simp: kMaxSkipSize_def)

declare skip_loop.simps [simp del]

definition default_SkipNBytes :: "'s read_op \<Rightarrow> 's skip_op" where
  "default_SkipNBytes ReadNBytes bytes_to_skip s =
     (if bytes_to_skip < 0 then ret (InvalidArgument ''Can't skip a negative number of bytes'', s)
      else skip_loop ReadNBytes bytes_to_skip [] s)"

section \<open>\<open>RandomAccessInputStream\<close>\<close>

record random_access_stream =
  ras_file :: file_read
  ras_pos :: int

definition RandomAccessInputStream :: "file_read \<Rightarrow> random_access_stream" where
  "RandomAccessInputStream file = \<lparr>ras_file = file, ras_pos = 0\<rparr>"

definition RandomAccess_ReadNBytes :: "random_access_stream read_op" where
  "RandomAccess_ReadNBytes bytes_to_read result s =
     (if bytes_to_read < 0 then
        ret (InvalidArgument ''Cannot read negative number of bytes'', result, s)
      else
        let (st, data) = ras_file s (word_of_int (ras_pos s)) (nat bytes_to_read) in
        if ok st \<or> IsOutOfRange st then
          let s' = s\<lparr>ras_pos := ras_pos s + int (length data)\<rparr> in
          if int (length data) < bytes_to_read then ret (OutOfRange ''reached end of file'', data, s')
          else ret (OK, data, s')
        else ret (st, data, s))"

definition RandomAccess_Tell :: "random_access_stream \<Rightarrow> int" where
  "RandomAccess_Tell s = ras_pos s"

definition RandomAccess_Seek :: "int \<Rightarrow> random_access_stream \<Rightarrow> status \<times> random_access_stream" where
  "RandomAccess_Seek position s = (OK, s\<lparr>ras_pos := position\<rparr>)"

definition RandomAccess_Reset :: "random_access_stream \<Rightarrow> status \<times> random_access_stream" where
  "RandomAccess_Reset = RandomAccess_Seek 0"

section \<open>\<open>BufferedInputStream\<close>\<close>

record 's buffered =
  bs_input_stream :: 's
  bs_size :: nat
  bs_buf :: bytes
  bs_pos :: nat
  bs_limit :: nat

definition BufferedInputStream :: "'s \<Rightarrow> nat \<Rightarrow> 's buffered" where
  "BufferedInputStream input_stream buffer_size =
     \<lparr>bs_input_stream = input_stream, bs_size = buffer_size, bs_buf = [], bs_pos = 0, bs_limit = 0\<rparr>"

definition FillBuffer :: "'s read_op \<Rightarrow> 's buffered \<Rightarrow> (status \<times> 's buffered) res" where
  "FillBuffer ReadNBytes b =
     bnd (ReadNBytes (int (bs_size b)) (bs_buf b) (bs_input_stream b)) (\<lambda>(s, buf, is).
     ret (s, b\<lparr>bs_input_stream := is, bs_buf := buf, bs_pos := 0, bs_limit := length buf\<rparr>))"

text \<open>
  The invariant of the class is \<open>pos_ \<le> limit_ \<le> buf_.size()\<close>; indexing the buffer outside
  of it is undefined. \<open>refill\<close> is the beginning of the loop bodies: the buffer is filled when
  it is used up, and \<^const>\<open>None\<close> says that there was no data left.
\<close>

definition refill ::
  "'s read_op \<Rightarrow> status \<Rightarrow> 's buffered \<Rightarrow> (status \<times> 's buffered \<times> bool) res" where
  "refill ReadNBytes s b =
     (if bs_pos b = bs_limit b then
        bnd (FillBuffer ReadNBytes b) (\<lambda>(s', b'). ret (s', b', bs_limit b' \<noteq> 0))
      else if bs_pos b < bs_limit b \<and> bs_limit b \<le> length (bs_buf b) then ret (s, b, True)
      else abort (Undefined ''buffer index''))"

lemma refill_ready:
  "refill ReadNBytes s b = ret (s', b', True) \<Longrightarrow> bs_pos b' < bs_limit b' \<and> bs_limit b' \<le> length (bs_buf b')"
  by (auto simp: refill_def FillBuffer_def bnd_eq_ret split: if_splits)

function read_loop ::
  "'s read_op \<Rightarrow> nat \<Rightarrow> status \<Rightarrow> bytes \<Rightarrow> 's buffered \<Rightarrow> (status \<times> bytes \<times> 's buffered) res" where
  "read_loop ReadNBytes bytes_to_read s result b =
     (if length result < bytes_to_read then
        bnd (refill ReadNBytes s b) (\<lambda>(s', b', more).
        if more then
          let bytes_to_copy = min (bs_limit b' - bs_pos b') (bytes_to_read - length result) in
          read_loop ReadNBytes bytes_to_read s' (result @ take bytes_to_copy (drop (bs_pos b') (bs_buf b')))
            (b'\<lparr>bs_pos := bs_pos b' + bytes_to_copy\<rparr>)
        else ret (s', result, b'))
      else ret (s, result, b))"
  by pat_completeness auto
termination
proof (relation "measure (\<lambda>(_, n, _, r, _). n - length r)", simp, clarsimp)
  fix ReadNBytes :: "'s read_op" and n s and result :: bytes and b :: "'s buffered" and s' b'
  assume "length result < n" "refill ReadNBytes s b = ret (s', b', True)"
  with refill_ready [of ReadNBytes s b s' b'] show
    "n - (length result + min (length (bs_buf b') - bs_pos b') (min (bs_limit b' - bs_pos b') (n - length result)))
       < n - length result"
    by auto
qed

declare read_loop.simps [simp del]

definition Buffered_ReadNBytes :: "'s read_op \<Rightarrow> 's buffered read_op" where
  "Buffered_ReadNBytes ReadNBytes bytes_to_read result b =
     (if bytes_to_read < 0 then
        ret (InvalidArgument (''Can't read a negative number of bytes: '' @
               FastInt64ToBufferLeft (word_of_int bytes_to_read)), result, b)
      else
        bnd (read_loop ReadNBytes (nat bytes_to_read) OK [] b) (\<lambda>(s, result', b').
        if IsOutOfRange s \<and> int (length result') = bytes_to_read then ret (OK, result', b')
        else ret (s, result', b')))"

definition Buffered_SkipNBytes :: "'s skip_op \<Rightarrow> 's buffered skip_op" where
  "Buffered_SkipNBytes SkipNBytes bytes_to_skip b =
     (if bytes_to_skip < 0 then
        ret (InvalidArgument (''Can only skip forward, not '' @
               FastInt64ToBufferLeft (word_of_int bytes_to_skip)), b)
      else if int (bs_pos b) + bytes_to_skip < int (bs_limit b) then
        ret (OK, b\<lparr>bs_pos := bs_pos b + nat bytes_to_skip\<rparr>)
      else
        bnd (SkipNBytes (bytes_to_skip - int (bs_limit b - bs_pos b)) (bs_input_stream b)) (\<lambda>(s, is).
        ret (s, b\<lparr>bs_input_stream := is, bs_pos := 0, bs_limit := 0\<rparr>)))"

definition Buffered_Tell :: "('s \<Rightarrow> int) \<Rightarrow> 's buffered \<Rightarrow> int" where
  "Buffered_Tell Tell b = Tell (bs_input_stream b) - int (bs_limit b - bs_pos b)"

definition Buffered_Reset :: "('s \<Rightarrow> status \<times> 's) \<Rightarrow> 's buffered \<Rightarrow> status \<times> 's buffered" where
  "Buffered_Reset Reset b =
     (let (s, is) = Reset (bs_input_stream b) in
      if \<not> ok s then (s, b\<lparr>bs_input_stream := is\<rparr>)
      else (OK, b\<lparr>bs_input_stream := is, bs_pos := 0, bs_limit := 0\<rparr>))"

definition Buffered_Seek ::
  "'s skip_op \<Rightarrow> ('s \<Rightarrow> int) \<Rightarrow> ('s \<Rightarrow> status \<times> 's) \<Rightarrow> 's buffered skip_op" where
  "Buffered_Seek SkipNBytes Tell Reset position b =
     (if position < 0 then
        ret (InvalidArgument (''Seeking to a negative position: '' @
               FastInt64ToBufferLeft (word_of_int position)), b)
      else
        let bufpos = Buffered_Tell Tell b in
        if position < bufpos then
          let (s, b') = Buffered_Reset Reset b in
          if \<not> ok s then ret (s, b') else Buffered_SkipNBytes SkipNBytes position b'
        else Buffered_SkipNBytes SkipNBytes (position - bufpos) b)"
text \<open>
  The loops of \<open>ReadLineHelper\<close> and \<open>ReadAll\<close> end only if the stream below does. A line feed
  is byte 10, a carriage return byte 13.
\<close>

partial_function (option) line_loop ::
  "'s read_op \<Rightarrow> bool \<Rightarrow> status \<Rightarrow> bytes \<Rightarrow> 's buffered \<Rightarrow> (fatal + status \<times> bytes \<times> 's buffered) option" where
  "line_loop ReadNBytes include_eol s result b =
     bnd (refill ReadNBytes s b) (\<lambda>(s', b', more).
     if more then
       let c = bs_buf b' ! bs_pos b'; b'' = b'\<lparr>bs_pos := bs_pos b' + 1\<rparr> in
       if c = 10 then ret (OK, if include_eol then result @ [c] else result, b'')
       else line_loop ReadNBytes include_eol s' (if c \<noteq> 13 then result @ [c] else result) b''
     else ret (if IsOutOfRange s' \<and> result \<noteq> [] then OK else s', result, b'))"

definition ReadLineHelper ::
  "'s read_op \<Rightarrow> bool \<Rightarrow> 's buffered \<Rightarrow> (status \<times> bytes \<times> 's buffered) res" where
  "ReadLineHelper ReadNBytes include_eol b = line_loop ReadNBytes include_eol OK [] b"

definition ReadLine :: "'s read_op \<Rightarrow> 's buffered \<Rightarrow> (status \<times> bytes \<times> 's buffered) res" where
  "ReadLine ReadNBytes = ReadLineHelper ReadNBytes False"

definition ReadLineAsString :: "'s read_op \<Rightarrow> 's buffered \<Rightarrow> (bytes \<times> 's buffered) res" where
  "ReadLineAsString ReadNBytes b = bnd (ReadLineHelper ReadNBytes True b) (\<lambda>(_, result, b'). ret (result, b'))"

partial_function (option) all_loop ::
  "'s read_op \<Rightarrow> bytes \<Rightarrow> status \<Rightarrow> 's buffered \<Rightarrow> (fatal + status \<times> bytes \<times> 's buffered) option" where
  "all_loop ReadNBytes result status b =
     (if ok status then
        bnd (FillBuffer ReadNBytes b) (\<lambda>(status', b').
        if bs_limit b' = 0 then ret (status', result, b')
        else all_loop ReadNBytes (result @ bs_buf b') status' (b'\<lparr>bs_pos := bs_limit b'\<rparr>))
      else ret (status, result, b))"

definition ReadAll :: "'s read_op \<Rightarrow> 's buffered \<Rightarrow> (status \<times> bytes \<times> 's buffered) res" where
  "ReadAll ReadNBytes b = bnd (all_loop ReadNBytes [] OK b) (\<lambda>(status, result, b').
     ret (if IsOutOfRange status then OK else status, result, b'))"

section \<open>The contract of a stream\<close>

text \<open>
  \<open>stands s d p\<close>: the stream \<open>s\<close> reads the bytes \<open>d\<close> and stands before the byte with index \<open>p\<close>.
  A call that wants more bytes than there are delivers the rest and \<open>OUT_OF_RANGE\<close>.
\<close>

definition right_status :: "bool \<Rightarrow> status \<Rightarrow> bool" where
  "right_status enough st = (if enough then st = OK else IsOutOfRange st)"

definition fine :: "status \<Rightarrow> bool" where
  "fine st \<longleftrightarrow> st = OK \<or> IsOutOfRange st"

lemma right_status_fine: "right_status c st \<Longrightarrow> fine st"
  by (simp add: right_status_def fine_def split: if_splits)

definition buffered_at :: "('s \<Rightarrow> bytes \<Rightarrow> nat \<Rightarrow> bool) \<Rightarrow> 's buffered \<Rightarrow> bytes \<Rightarrow> nat \<Rightarrow> bool" where
  "buffered_at stands b d p \<longleftrightarrow>
     0 < bs_size b \<and> bs_pos b \<le> bs_limit b \<and> bs_limit b \<le> length (bs_buf b) \<and>
     stands (bs_input_stream b) d (p + (bs_limit b - bs_pos b)) \<and>
     take (bs_limit b - bs_pos b) (drop (bs_pos b) (bs_buf b)) = take (bs_limit b - bs_pos b) (drop p d)"

text \<open>A line as \<open>ReadLineHelper\<close> sees it: the text without carriage returns, and the bytes it takes.\<close>

definition line_text :: "bool \<Rightarrow> bytes \<Rightarrow> bytes" where
  "line_text include_eol rest = filter (\<lambda>c. c \<noteq> 13) (takeWhile (\<lambda>c. c \<noteq> 10) rest) @
     (if include_eol \<and> 10 \<in> set rest then [10] else [])"

definition line_bytes :: "bytes \<Rightarrow> nat" where
  "line_bytes rest = length (takeWhile (\<lambda>c. c \<noteq> 10) rest) + (if 10 \<in> set rest then 1 else 0)"

lemma line_Cons [simp]:
  "line_text eol (10 # rest) = (if eol then [10] else [])" "line_bytes (10 # rest) = 1"
  "c \<noteq> 10 \<Longrightarrow> line_text eol (c # rest) = (if c \<noteq> 13 then c # line_text eol rest else line_text eol rest)"
  "c \<noteq> 10 \<Longrightarrow> line_bytes (c # rest) = Suc (line_bytes rest)"
  "line_text eol [] = []" "line_bytes [] = 0"
  by (auto simp: line_text_def line_bytes_def)

lemma line_bytes_le: "line_bytes rest \<le> length rest"
  by (induction rest) (auto simp: line_bytes_def)

lemma take_split: "c \<le> k \<Longrightarrow> take c (drop p d) @ take (k - c) (drop (p + c) d) = take k (drop p d)"
  using take_add [of c "k - c" "drop p d"] by (simp add: add.commute)

locale byte_source =
  fixes ReadNBytes :: "'s read_op"
    and stands :: "'s \<Rightarrow> bytes \<Rightarrow> nat \<Rightarrow> bool"
  assumes at_le: "stands s d p \<Longrightarrow> p \<le> length d"
    and read: "stands s d p \<Longrightarrow> 0 \<le> n \<Longrightarrow>
      \<exists>st s'. ReadNBytes n result s = ret (st, take (nat n) (drop p d), s') \<and>
        stands s' d (min (length d) (p + nat n)) \<and> right_status (p + nat n \<le> length d) st"
begin

lemma skip_loop_at:
  "stands s d p \<Longrightarrow> \<exists>st s'. skip_loop ReadNBytes n unused s = ret (st, s') \<and>
     stands s' d (min (length d) (p + nat n)) \<and> right_status (p + nat n \<le> length d) st"
proof (induction "nat n" arbitrary: n s p unused rule: less_induct)
  case less
  show ?case
  proof (cases "n > 0")
    case False
    with less(2) at_le [OF less(2)] show ?thesis
      by (auto simp: skip_loop.simps [of _ n] right_status_def min_absorb2)
  next
    case True
    let ?m = "min kMaxSkipSize n"
    have m: "0 < ?m" "?m \<le> n" using True by (auto simp: kMaxSkipSize_def)
    from less(2) read [of s d p ?m unused] m obtain st s' where
      r: "ReadNBytes ?m unused s = ret (st, take (nat ?m) (drop p d), s')"
      "stands s' d (min (length d) (p + nat ?m))" "right_status (p + nat ?m \<le> length d) st" by auto
    show ?thesis
    proof (cases "p + nat ?m \<le> length d")
      case True
      have e: "nat n = nat ?m + nat (n - ?m)" using m by linarith
      from True r(2) have "stands s' d (p + nat ?m)" by (simp only: min_absorb2)
      with less(1) [of "n - ?m" s' "p + nat ?m" "take (nat ?m) (drop p d)"] m \<open>n > 0\<close> obtain st' s'' where
        "skip_loop ReadNBytes (n - ?m) (take (nat ?m) (drop p d)) s' = ret (st', s'')"
        "stands s'' d (min (length d) (p + nat ?m + nat (n - ?m)))"
        "right_status (p + nat ?m + nat (n - ?m) \<le> length d) st'" by auto
      with True r(1,3) \<open>n > 0\<close> show ?thesis
        by (simp add: skip_loop.simps [of _ n] right_status_def e add.assoc)
    next
      case False
      with r m \<open>n > 0\<close> show ?thesis
        by (auto simp: skip_loop.simps [of _ n] right_status_def min_def ok_OK)
    qed
  qed
qed

lemma FillBuffer_at:
  assumes "stands (bs_input_stream b) d p" "0 < bs_size b"
  shows "\<exists>s' b'. FillBuffer ReadNBytes b = ret (s', b') \<and> buffered_at stands b' d p \<and> bs_pos b' = 0 \<and>
    bs_limit b' = length (bs_buf b') \<and> bs_buf b' = take (bs_size b) (drop p d) \<and> bs_size b' = bs_size b \<and>
    right_status (p + bs_size b \<le> length d) s'"
proof -
  from read [OF assms(1), of "int (bs_size b)" "bs_buf b"] obtain st s' where
    r: "ReadNBytes (int (bs_size b)) (bs_buf b) (bs_input_stream b) = ret (st, take (bs_size b) (drop p d), s')"
      "stands s' d (min (length d) (p + bs_size b))" "right_status (p + bs_size b \<le> length d) st" by auto
  have "min (length d) (p + bs_size b) = p + min (bs_size b) (length d - p)"
    using at_le [OF assms(1)] by linarith
  with r assms(2) show ?thesis by (simp add: FillBuffer_def buffered_at_def min.commute)
qed

lemma refill_at:
  assumes "buffered_at stands b d p" "fine s"
  shows "\<exists>s' b'. refill ReadNBytes s b = ret (s', b', p < length d) \<and> buffered_at stands b' d p \<and> fine s' \<and>
    (p < length d \<longrightarrow> bs_pos b' < bs_limit b') \<and> (\<not> p < length d \<longrightarrow> IsOutOfRange s')"
proof (cases "bs_pos b = bs_limit b")
  case True
  with assms(1) have "stands (bs_input_stream b) d p" "0 < bs_size b" by (auto simp: buffered_at_def)
  from FillBuffer_at [OF this] True \<open>0 < bs_size b\<close> show ?thesis
    by (auto simp: refill_def right_status_def fine_def split: if_splits)
next
  case False
  with assms at_le show ?thesis by (fastforce simp: refill_def buffered_at_def)
qed

lemma buffered_le:
  assumes "buffered_at stands b d p"
  shows "p + (bs_limit b - bs_pos b) \<le> length d"
  using assms at_le unfolding buffered_at_def by blast

lemma buffered_advance:
  assumes "buffered_at stands b d p" "k \<le> bs_limit b - bs_pos b"
  shows "buffered_at stands (b\<lparr>bs_pos := bs_pos b + k\<rparr>) d (p + k)"
    "take k (drop (bs_pos b) (bs_buf b)) = take k (drop p d)"
proof -
  let ?n = "bs_limit b - bs_pos b"
  from assms(1) have t: "take ?n (drop (bs_pos b) (bs_buf b)) = take ?n (drop p d)"
    by (simp add: buffered_at_def)
  have "take k (take ?n (drop (bs_pos b) (bs_buf b))) = take k (take ?n (drop p d))" by (simp only: t)
  with assms(2) show "take k (drop (bs_pos b) (bs_buf b)) = take k (drop p d)" by (simp add: min_absorb1)
  have "drop k (take ?n (drop (bs_pos b) (bs_buf b))) = drop k (take ?n (drop p d))" by (simp only: t)
  then have "take (?n - k) (drop (bs_pos b + k) (bs_buf b)) = take (?n - k) (drop (p + k) d)"
    by (simp add: drop_take add.commute)
  moreover have e: "bs_limit b - (bs_pos b + k) = ?n - k" "p + k + (?n - k) = p + ?n" using assms(2) by auto
  ultimately have "take (bs_limit b - (bs_pos b + k)) (drop (bs_pos b + k) (bs_buf b)) =
      take (bs_limit b - (bs_pos b + k)) (drop (p + k) d)" by (simp only: e)
  moreover have "stands (bs_input_stream b) d (p + k + (bs_limit b - (bs_pos b + k)))"
    using assms(1) unfolding buffered_at_def e by blast
  moreover have "bs_pos b + k \<le> bs_limit b" using assms unfolding buffered_at_def by linarith
  moreover have "0 < bs_size b" "bs_limit b \<le> length (bs_buf b)" using assms(1) by (simp_all add: buffered_at_def)
  ultimately show "buffered_at stands (b\<lparr>bs_pos := bs_pos b + k\<rparr>) d (p + k)"
    by (cases b) (simp only: buffered_at_def buffered.select_convs buffered.update_convs)
qed

lemma read_loop_at:
  assumes "buffered_at stands b d p" "fine s"
  shows "\<exists>s' b'. read_loop ReadNBytes n s result b = ret (s', result @ take (n - length result) (drop p d), b') \<and>
    buffered_at stands b' d (min (length d) (p + (n - length result))) \<and> fine s' \<and>
    (length d < p + (n - length result) \<longrightarrow> IsOutOfRange s')"
  using assms
proof (induction "n - length result" arbitrary: s result b p rule: less_induct)
  case less
  note at = less(2) and fine = less(3)
  let ?k = "n - length result"
  have le: "p \<le> length d" using buffered_le [OF at] by simp
  show ?case
  proof (cases "length result < n")
    case False
    with at fine le show ?thesis by (simp add: read_loop.simps [of _ n] min_absorb2)
  next
    case True
    from refill_at [OF at fine] obtain s' b' where
      r: "refill ReadNBytes s b = ret (s', b', p < length d)" "buffered_at stands b' d p" "fine s'"
        "p < length d \<longrightarrow> bs_pos b' < bs_limit b'" "\<not> p < length d \<longrightarrow> IsOutOfRange s'" by blast
    show ?thesis
    proof (cases "p < length d")
      case False
      with r le True show ?thesis by (simp add: read_loop.simps [of _ n])
    next
      case more: True
      let ?c = "min (bs_limit b' - bs_pos b') ?k"
      let ?result = "result @ take ?c (drop p d)"
      have c: "0 < ?c" "?c \<le> ?k" "?c \<le> bs_limit b' - bs_pos b'" using r(4) more True by auto
      note adv = buffered_advance [OF r(2) c(3)]
      have "?c \<le> length d - p" using buffered_le [OF r(2)] c(3) by linarith
      then have len: "length ?result = length result + ?c" by simp
      have k: "n - length ?result < ?k" "n - length ?result = ?k - ?c" unfolding len using c(1) True by linarith+
      from less(1) [OF k(1) adv(1) r(3), unfolded k(2)] obtain s'' b'' where
        "read_loop ReadNBytes n s' ?result (b'\<lparr>bs_pos := bs_pos b' + ?c\<rparr>) =
           ret (s'', ?result @ take (?k - ?c) (drop (p + ?c) d), b'')"
        "buffered_at stands b'' d (min (length d) (p + ?c + (?k - ?c)))" "fine s''"
        "length d < p + ?c + (?k - ?c) \<longrightarrow> IsOutOfRange s''" by blast
      moreover have "p + ?c + (?k - ?c) = p + ?k"
        "take ?c (drop p d) @ take (?k - ?c) (drop (p + ?c) d) = take ?k (drop p d)"
        using c(2) take_split [OF c(2)] by simp_all
      ultimately show ?thesis
        using True more r(1) adv(2) by (simp add: read_loop.simps [of _ n s] Let_def)
    qed
  qed
qed

lemma Buffered_ReadNBytes_at:
  assumes "buffered_at stands b d p" "0 \<le> n"
  shows "\<exists>st b'. Buffered_ReadNBytes ReadNBytes n result b = ret (st, take (nat n) (drop p d), b') \<and>
    buffered_at stands b' d (min (length d) (p + nat n)) \<and> right_status (p + nat n \<le> length d) st"
proof -
  have "fine OK" by (simp add: fine_def)
  from read_loop_at [OF assms(1) this, of "nat n" "[]"] obtain s' b' where
    r: "read_loop ReadNBytes (nat n) OK [] b = ret (s', take (nat n) (drop p d), b')"
      "buffered_at stands b' d (min (length d) (p + nat n))" "fine s'"
      "length d < p + nat n \<longrightarrow> IsOutOfRange s'" by auto
  have "int (length (take (nat n) (drop p d))) = n \<longleftrightarrow> p + nat n \<le> length d"
    using assms(2) buffered_le [OF assms(1)] by auto
  with r assms(2) show ?thesis
    by (auto simp: Buffered_ReadNBytes_def right_status_def fine_def simp del: length_take)
qed

lemma line_loop_at:
  assumes "buffered_at stands b d p" "fine s"
  shows "\<exists>s' b'. line_loop ReadNBytes eol s result b = ret (s', result @ line_text eol (drop p d), b') \<and>
    buffered_at stands b' d (p + line_bytes (drop p d)) \<and>
    right_status (10 \<in> set (drop p d) \<or> result @ line_text eol (drop p d) \<noteq> []) s'"
  using assms
proof (induction "length d - p" arbitrary: s result b p rule: less_induct)
  case less
  from refill_at [OF less(2,3)] obtain s' b' where
    r: "refill ReadNBytes s b = ret (s', b', p < length d)" "buffered_at stands b' d p" "fine s'"
      "p < length d \<longrightarrow> bs_pos b' < bs_limit b'" "\<not> p < length d \<longrightarrow> IsOutOfRange s'" by blast
  show ?case
  proof (cases "p < length d")
    case False
    with r show ?thesis by (subst line_loop.simps) (auto simp: right_status_def)
  next
    case True
    let ?c = "bs_buf b' ! bs_pos b'" and ?b = "b'\<lparr>bs_pos := bs_pos b' + 1\<rparr>"
    from r(4) True have one: "1 \<le> bs_limit b' - bs_pos b'" by simp
    note adv = buffered_advance [OF r(2) one]
    from r(2,4) True have "bs_pos b' < length (bs_buf b')" by (auto simp: buffered_at_def)
    with adv(2) True have c: "?c = d ! p" by (simp add: take_Suc_conv_app_nth take_Suc hd_drop_conv_nth)
    have rest: "drop p d = ?c # drop (p + 1) d" unfolding c using True by (simp add: Cons_nth_drop_Suc)
    show ?thesis
    proof (cases "?c = 10")
      case eol: True
      with True r(1) adv(1) rest show ?thesis
        by (subst line_loop.simps) (simp add: right_status_def)
    next
      case False
      let ?result = "if ?c \<noteq> 13 then result @ [?c] else result"
      have "length d - (p + 1) < length d - p" using True by simp
      from less(1) [OF this adv(1) r(3), of ?result] obtain s'' b'' where
        "line_loop ReadNBytes eol s' ?result ?b = ret (s'', ?result @ line_text eol (drop (p + 1) d), b'')"
        "buffered_at stands b'' d (p + 1 + line_bytes (drop (p + 1) d))"
        "right_status (10 \<in> set (drop (p + 1) d) \<or> ?result @ line_text eol (drop (p + 1) d) \<noteq> []) s''" by blast
      moreover have "?result @ line_text eol (drop (p + 1) d) = result @ line_text eol (drop p d)"
        "p + line_bytes (drop p d) = p + 1 + line_bytes (drop (p + 1) d)"
        "10 \<in> set (drop p d) \<longleftrightarrow> 10 \<in> set (drop (p + 1) d)"
        unfolding rest using False by auto
      ultimately show ?thesis
        using True False r(1) by (subst line_loop.simps) (auto simp del: append_is_Nil_conv)
    qed
  qed
qed

lemma all_loop_at:
  assumes "stands (bs_input_stream b) d q" "0 < bs_size b"
  shows "\<exists>s' b'. all_loop ReadNBytes result OK b = ret (s', result @ drop q d, b') \<and>
    buffered_at stands b' d (length d) \<and> IsOutOfRange s'"
  using assms
proof (induction "length d - q" arbitrary: result b q rule: less_induct)
  case less
  from FillBuffer_at [OF less(2,3)] obtain s' b' where
    r: "FillBuffer ReadNBytes b = ret (s', b')" "buffered_at stands b' d q" "bs_pos b' = 0"
      "bs_limit b' = length (bs_buf b')" "bs_buf b' = take (bs_size b) (drop q d)" "bs_size b' = bs_size b"
      "right_status (q + bs_size b \<le> length d) s'" by blast
  have q: "q \<le> length d" by (rule at_le [OF less(2)])
  show ?case
  proof (cases "q < length d")
    case False
    with r q less(3) show ?thesis by (subst all_loop.simps) (auto simp: right_status_def)
  next
    case True
    let ?b = "b'\<lparr>bs_pos := bs_limit b'\<rparr>"
    have lim: "bs_limit b' = min (bs_size b) (length d - q)" "bs_limit b' \<noteq> 0"
      using r(4,5) less(3) True by (auto simp: min.commute)
    from r(3) have "bs_limit b' \<le> bs_limit b' - bs_pos b'" by simp
    from buffered_advance(1) [OF r(2) this] r(3) have at: "buffered_at stands ?b d (q + bs_limit b')" by simp
    show ?thesis
    proof (cases "q + bs_size b \<le> length d")
      case more: True
      have "length d - (q + bs_size b) < length d - q" using True less(3) by linarith
      moreover have "stands (bs_input_stream ?b) d (q + bs_size b)"
        using at lim(1) more unfolding buffered_at_def by (simp add: min_absorb1 le_diff_conv2)
      ultimately obtain s'' b'' where
        "all_loop ReadNBytes (result @ bs_buf b') OK ?b = ret (s'', (result @ bs_buf b') @ drop (q + bs_size b) d, b'')"
        "buffered_at stands b'' d (length d)" "IsOutOfRange s''"
        using less(1) [of "q + bs_size b" ?b "result @ bs_buf b'"] less(3) r(6) by auto
      moreover have "bs_buf b' @ drop (q + bs_size b) d = drop q d"
        unfolding r(5) using append_take_drop_id [of "bs_size b" "drop q d"] by (simp add: add.commute)
      ultimately show ?thesis
        using r(1,7) more lim(2) by (subst all_loop.simps) (auto simp: right_status_def)
    next
      case False
      with r(7) have s': "IsOutOfRange s'" "\<not> ok s'" by (auto simp: right_status_def ok_OK)
      have "q + bs_limit b' = length d" "bs_buf b' = drop q d" using lim(1) False True r(5) by auto
      with s' at r(1) lim(2) show ?thesis
        by (subst all_loop.simps) (simp add: all_loop.simps [of _ _ s'])
    qed
  qed
qed

end
locale input_stream = byte_source +
  fixes SkipNBytes :: "'s skip_op"
    and Tell :: "'s \<Rightarrow> int"
    and Reset :: "'s \<Rightarrow> status \<times> 's"
  assumes skip: "stands s d p \<Longrightarrow> 0 \<le> n \<Longrightarrow>
      \<exists>st s'. SkipNBytes n s = ret (st, s') \<and> stands s' d (min (length d) (p + nat n)) \<and>
        right_status (p + nat n \<le> length d) st"
    and tell: "stands s d p \<Longrightarrow> Tell s = int p"
    and reset: "stands s d p \<Longrightarrow> \<exists>s'. Reset s = (OK, s') \<and> stands s' d 0"
begin

lemma Buffered_SkipNBytes_at:
  assumes "buffered_at stands b d p" "0 \<le> n"
  shows "\<exists>st b'. Buffered_SkipNBytes SkipNBytes n b = ret (st, b') \<and>
    buffered_at stands b' d (min (length d) (p + nat n)) \<and> right_status (p + nat n \<le> length d) st"
proof (cases "int (bs_pos b) + n < int (bs_limit b)")
  case True
  then have k: "nat n \<le> bs_limit b - bs_pos b" using assms(2) by linarith
  from buffered_advance(1) [OF assms(1) k] buffered_le [OF assms(1)] k True assms(2) show ?thesis
    by (auto simp: Buffered_SkipNBytes_def right_status_def min_absorb2)
next
  case False
  let ?l = "bs_limit b - bs_pos b"
  from assms(1) have at: "stands (bs_input_stream b) d (p + ?l)" and size: "0 < bs_size b"
    unfolding buffered_at_def by blast+
  have n: "0 \<le> n - int ?l" "p + ?l + nat (n - int ?l) = p + nat n" using False assms(2) by linarith+
  from skip [OF at n(1), unfolded n(2)] obtain st s' where
    "SkipNBytes (n - int ?l) (bs_input_stream b) = ret (st, s')" "stands s' d (min (length d) (p + nat n))"
    "right_status (p + nat n \<le> length d) st" by blast
  with False assms(2) size show ?thesis
    by (simp add: Buffered_SkipNBytes_def buffered_at_def)
qed

lemma Buffered_Tell_at: "buffered_at stands b d p \<Longrightarrow> Buffered_Tell Tell b = int p"
  using tell by (auto simp: buffered_at_def Buffered_Tell_def)

lemma Buffered_Reset_at:
  "buffered_at stands b d p \<Longrightarrow> \<exists>b'. Buffered_Reset Reset b = (OK, b') \<and> buffered_at stands b' d 0"
  using reset by (fastforce simp: buffered_at_def Buffered_Reset_def)

lemma Buffered_Seek_at:
  assumes "buffered_at stands b d p" "0 \<le> n"
  shows "\<exists>st b'. Buffered_Seek SkipNBytes Tell Reset n b = ret (st, b') \<and>
    buffered_at stands b' d (min (length d) (nat n)) \<and> right_status (nat n \<le> length d) st"
proof (cases "n < int p")
  case True
  from Buffered_Reset_at [OF assms(1)] obtain b' where
    b': "Buffered_Reset Reset b = (OK, b')" "buffered_at stands b' d 0" by blast
  with Buffered_SkipNBytes_at [OF b'(2) assms(2)] True assms(2) Buffered_Tell_at [OF assms(1)] show ?thesis
    by (simp add: Buffered_Seek_def)
next
  case False
  then have "0 \<le> n - int p" "p + nat (n - int p) = nat n" by linarith+
  from Buffered_SkipNBytes_at [OF assms(1) this(1), unfolded this(2)] False assms(2)
    Buffered_Tell_at [OF assms(1)] show ?thesis
    by (simp add: Buffered_Seek_def)
qed

lemma buffered_stream:
  "input_stream (Buffered_ReadNBytes ReadNBytes) (buffered_at stands) (Buffered_SkipNBytes SkipNBytes)
     (Buffered_Tell Tell) (Buffered_Reset Reset)"
proof
  fix b d p
  assume "buffered_at stands b d p"
  from buffered_le [OF this] show "p \<le> length d" by simp
qed (simp_all add: Buffered_ReadNBytes_at Buffered_SkipNBytes_at Buffered_Tell_at Buffered_Reset_at)

end

section \<open>Streams over files\<close>

text \<open>
  What \<^verbatim>\<open>platform/file_system.h\<close> promises of \<open>RandomAccessFile::Read\<close> on a file without
  input/output errors.
\<close>

definition good_file :: "bytes \<Rightarrow> file_read \<Rightarrow> bool" where
  "good_file d file \<longleftrightarrow> length d < 2 ^ 63 \<and>
     (\<forall>offset n. snd (file offset n) = take n (drop (unat offset) d) \<and>
        right_status (n \<le> length d - unat offset) (fst (file offset n)))"

definition file_of :: "bytes \<Rightarrow> file_read" where
  "file_of d offset n =
     (if n \<le> length d - unat offset then OK else OutOfRange ''Read less bytes than requested'',
      take n (drop (unat offset) d))"

lemma good_file_of: "length d < 2 ^ 63 \<Longrightarrow> good_file d (file_of d)"
  by (simp add: good_file_def file_of_def right_status_def)

definition random_access_at :: "random_access_stream \<Rightarrow> bytes \<Rightarrow> nat \<Rightarrow> bool" where
  "random_access_at s d p \<longleftrightarrow> good_file d (ras_file s) \<and> ras_pos s = int p \<and> p \<le> length d"

lemma RandomAccess_ReadNBytes_at:
  assumes "random_access_at s d p" "0 \<le> n"
  shows "\<exists>st s'. RandomAccess_ReadNBytes n result s = ret (st, take (nat n) (drop p d), s') \<and>
    random_access_at s' d (min (length d) (p + nat n)) \<and> right_status (p + nat n \<le> length d) st"
proof -
  from assms(1) have f: "good_file d (ras_file s)" "ras_pos s = int p" "p \<le> length d" "length d < 2 ^ 63"
    by (auto simp: random_access_at_def good_file_def)
  then have u: "unat (word_of_int (ras_pos s) :: u64) = p"
    by (simp add: unat_of_nat)
  obtain st where st: "ras_file s (word_of_int (ras_pos s)) (nat n) = (st, take (nat n) (drop p d))"
    "right_status (nat n \<le> length d - p) st"
    using f(1) unfolding good_file_def by (metis u prod.collapse)
  let ?s = "s\<lparr>ras_pos := int p + int (length (take (nat n) (drop p d)))\<rparr>"
  have "int (length (take (nat n) (drop p d))) < n \<longleftrightarrow> \<not> p + nat n \<le> length d"
    using f(3) assms(2) unfolding length_take length_drop by linarith
  with st(1) right_status_fine [OF st(2)] assms(2) f(2)
  have "RandomAccess_ReadNBytes n result s =
      ret (if p + nat n \<le> length d then OK else OutOfRange ''reached end of file'', take (nat n) (drop p d), ?s)"
    by (simp add: RandomAccess_ReadNBytes_def fine_def ok_OK Let_def)
  moreover have "random_access_at ?s d (min (length d) (p + nat n))"
    using f by (auto simp: random_access_at_def)
  ultimately show ?thesis by (auto simp: right_status_def)
qed

interpretation random_access_source: byte_source RandomAccess_ReadNBytes random_access_at
  by unfold_locales (simp add: random_access_at_def, rule RandomAccess_ReadNBytes_at)

interpretation random_access: input_stream RandomAccess_ReadNBytes random_access_at
  "default_SkipNBytes RandomAccess_ReadNBytes" RandomAccess_Tell RandomAccess_Reset
proof
  fix s d p and n :: int
  assume at: "random_access_at s d p"
  then show "RandomAccess_Tell s = int p" by (simp add: random_access_at_def RandomAccess_Tell_def)
  from at show "\<exists>s'. RandomAccess_Reset s = (OK, s') \<and> random_access_at s' d 0"
    by (simp add: random_access_at_def RandomAccess_Reset_def RandomAccess_Seek_def)
  assume "0 \<le> n"
  with random_access_source.skip_loop_at [OF at, of n "[]"] show
    "\<exists>st s'. default_SkipNBytes RandomAccess_ReadNBytes n s = ret (st, s') \<and>
      random_access_at s' d (min (length d) (p + nat n)) \<and> right_status (p + nat n \<le> length d) st"
    by (simp add: default_SkipNBytes_def)
qed

abbreviation file_stream_at :: "random_access_stream buffered \<Rightarrow> bytes \<Rightarrow> nat \<Rightarrow> bool" where
  "file_stream_at \<equiv> buffered_at random_access_at"

interpretation buffered_file: input_stream "Buffered_ReadNBytes RandomAccess_ReadNBytes" file_stream_at
  "Buffered_SkipNBytes (default_SkipNBytes RandomAccess_ReadNBytes)" "Buffered_Tell RandomAccess_Tell"
  "Buffered_Reset RandomAccess_Reset"
  by (rule random_access.buffered_stream)
section \<open>Sequences of calls\<close>

text \<open>
  The abstract stream: the bytes of the file and a position. An observation is the status
  code, the bytes of the call and the position that \<open>Tell\<close> reports afterwards.
\<close>

datatype stream_call = Read int | Skip int | SeekTo int

definition call_result :: "bytes \<Rightarrow> nat \<Rightarrow> int \<Rightarrow> error_code \<times> nat" where
  "call_result d p n =
     (if n < 0 then (INVALID_ARGUMENT, p)
      else (if nat n \<le> length d then OK_code else OUT_OF_RANGE, min (length d) (nat n)))"

fun spec_call :: "bytes \<Rightarrow> nat \<Rightarrow> stream_call \<Rightarrow> error_code \<times> bytes \<times> nat" where
  "spec_call d p (Read n) =
     (if n < 0 then (INVALID_ARGUMENT, [], p)
      else (fst (call_result d p (int p + n)), take (nat n) (drop p d), snd (call_result d p (int p + n))))"
| "spec_call d p (Skip n) =
     (if n < 0 then (INVALID_ARGUMENT, [], p)
      else (fst (call_result d p (int p + n)), [], snd (call_result d p (int p + n))))"
| "spec_call d p (SeekTo n) = (fst (call_result d p n), [], snd (call_result d p n))"

fun spec_calls :: "bytes \<Rightarrow> nat \<Rightarrow> stream_call list \<Rightarrow> (error_code \<times> bytes \<times> int) list" where
  "spec_calls d p [] = []"
| "spec_calls d p (c # cs) =
     (let (code, r, p') = spec_call d p c in (code, r, int p') # spec_calls d p' cs)"

fun do_call ::
  "stream_call \<Rightarrow> random_access_stream buffered \<Rightarrow> (status \<times> bytes \<times> random_access_stream buffered) res" where
  "do_call (Read n) b = Buffered_ReadNBytes RandomAccess_ReadNBytes n [] b"
| "do_call (Skip n) b =
     bnd (Buffered_SkipNBytes (default_SkipNBytes RandomAccess_ReadNBytes) n b) (\<lambda>(s, b'). ret (s, [], b'))"
| "do_call (SeekTo n) b =
     bnd (Buffered_Seek (default_SkipNBytes RandomAccess_ReadNBytes) RandomAccess_Tell RandomAccess_Reset n b)
       (\<lambda>(s, b'). ret (s, [], b'))"

fun do_calls ::
  "stream_call list \<Rightarrow> random_access_stream buffered \<Rightarrow> (error_code \<times> bytes \<times> int) list res" where
  "do_calls [] b = ret []"
| "do_calls (c # cs) b =
     bnd (do_call c b) (\<lambda>(s, r, b').
     bnd (do_calls cs b') (\<lambda>rest. ret ((status_code s, r, Buffered_Tell RandomAccess_Tell b') # rest)))"

lemma right_status_code:
  "right_status c st \<Longrightarrow> status_code st = (if c then OK_code else OUT_OF_RANGE)"
  by (auto simp: right_status_def status_code_def OK_def IsOutOfRange_def split: if_splits)

lemma InvalidArgument_code [simp]: "status_code (InvalidArgument m) = INVALID_ARGUMENT"
  by (simp add: status_code_def InvalidArgument_def)

lemma do_call_refines:
  assumes "file_stream_at b d p"
  shows "\<exists>s b'. do_call c b = ret (s, fst (snd (spec_call d p c)), b') \<and>
    status_code s = fst (spec_call d p c) \<and> file_stream_at b' d (snd (snd (spec_call d p c)))"
proof (cases c)
  case (Read n)
  show ?thesis
  proof (cases "n < 0")
    case False
    with buffered_file.read [OF assms, of n "[]"] show ?thesis
      by (auto simp: Read call_result_def nat_add_distrib dest: right_status_code)
  qed (simp add: Read Buffered_ReadNBytes_def assms)
next
  case (Skip n)
  show ?thesis
  proof (cases "n < 0")
    case False
    with buffered_file.skip [OF assms, of n] show ?thesis
      by (auto simp: Skip call_result_def nat_add_distrib dest: right_status_code)
  qed (simp add: Skip Buffered_SkipNBytes_def assms)
next
  case (SeekTo n)
  show ?thesis
  proof (cases "n < 0")
    case False
    with random_access.Buffered_Seek_at [OF assms, of n] show ?thesis
      by (auto simp: SeekTo call_result_def dest: right_status_code)
  qed (simp add: SeekTo Buffered_Seek_def call_result_def assms)
qed

lemma do_calls_refines: "file_stream_at b d p \<Longrightarrow> do_calls cs b = ret (spec_calls d p cs)"
proof (induction cs arbitrary: b p)
  case (Cons c cs)
  from do_call_refines [OF Cons(2), of c] obtain s b' where
    c: "do_call c b = ret (s, fst (snd (spec_call d p c)), b')" "status_code s = fst (spec_call d p c)"
      "file_stream_at b' d (snd (snd (spec_call d p c)))" by blast
  from Cons(1) [OF c(3)] buffered_file.tell [OF c(3)] c(1,2) show ?case
    by (simp add: case_prod_beta)
qed simp

lemma new_stream_at:
  "good_file d file \<Longrightarrow> 0 < bytes \<Longrightarrow> file_stream_at (BufferedInputStream (RandomAccessInputStream file) bytes) d 0"
  by (simp add: buffered_at_def BufferedInputStream_def RandomAccessInputStream_def random_access_at_def)

section \<open>Properties\<close>

text \<open>
  C33. Buffering is invisible: on a file without input/output errors, a
  \<open>BufferedInputStream\<close> over a \<open>RandomAccessInputStream\<close> with any buffer size answers every
  sequence of \<open>ReadNBytes\<close>, \<open>SkipNBytes\<close> and \<open>Seek\<close> calls with the status code, the bytes
  and the position of a plain position in the bytes of the file, negative arguments and the
  end of the file included.
\<close>

theorem buffered_stream_refines:
  assumes "good_file d file" "0 < bytes"
  shows "do_calls cs (BufferedInputStream (RandomAccessInputStream file) bytes) = ret (spec_calls d 0 cs)"
  by (rule do_calls_refines [OF new_stream_at [OF assms]])

theorem buffered_stream_refines_witness:
  "do_calls [Read 2, SeekTo 5, Skip (- 1), SeekTo 1, Read 9]
     (BufferedInputStream (RandomAccessInputStream (file_of [1, 2, 3])) 2) =
   ret [(OK_code, [1, 2], 2), (OUT_OF_RANGE, [], 3), (INVALID_ARGUMENT, [], 3), (OK_code, [], 1),
        (OUT_OF_RANGE, [2, 3], 3)]"
  using buffered_stream_refines [OF good_file_of, of "[1, 2, 3]" 2 "[Read 2, SeekTo 5, Skip (- 1), SeekTo 1, Read 9]"]
  by (simp add: call_result_def)

text \<open>
  \<open>ReadLine\<close> always returns. It delivers the bytes up to the next line feed
  or the end of the file without any carriage return, moves behind the line feed, and
  reports \<open>OUT_OF_RANGE\<close> exactly if there is no line feed and no other byte to deliver.
\<close>

theorem ReadLine_reads:
  assumes "file_stream_at b d p"
  shows "\<exists>s b'. ReadLine RandomAccess_ReadNBytes b =
      ret (s, filter (\<lambda>c. c \<noteq> 13) (takeWhile (\<lambda>c. c \<noteq> 10) (drop p d)), b') \<and>
    file_stream_at b' d (p + line_bytes (drop p d)) \<and>
    right_status (10 \<in> set (drop p d) \<or> filter (\<lambda>c. c \<noteq> 13) (takeWhile (\<lambda>c. c \<noteq> 10) (drop p d)) \<noteq> []) s"
  using random_access_source.line_loop_at [OF assms, of OK False "[]"]
  by (simp add: ReadLine_def ReadLineHelper_def line_text_def fine_def)

theorem ReadLine_reads_witness:
  "\<exists>s b'. ReadLine RandomAccess_ReadNBytes (BufferedInputStream (RandomAccessInputStream (file_of [65, 13, 66, 10, 67])) 2) =
      ret (s, [65, 66], b') \<and> file_stream_at b' [65, 13, 66, 10, 67] (Suc (Suc (Suc (Suc 0)))) \<and> right_status True s"
  using ReadLine_reads [OF new_stream_at [OF good_file_of], of "[65, 13, 66, 10, 67]" 2]
  by (simp add: line_bytes_def)

text \<open>
  \<open>ReadAll\<close> returns with success, but the bytes that a previous call
  left in the buffer are missing from its result: it starts where the stream below stands.
\<close>

theorem ReadAll_skips_buffer:
  assumes "file_stream_at b d p"
  shows "\<exists>b'. ReadAll RandomAccess_ReadNBytes b = ret (OK, drop (p + (bs_limit b - bs_pos b)) d, b') \<and>
    file_stream_at b' d (length d)"
proof -
  from assms have "random_access_at (bs_input_stream b) d (p + (bs_limit b - bs_pos b))" "0 < bs_size b"
    unfolding buffered_at_def by blast+
  from random_access_source.all_loop_at [OF this, of "[]"] show ?thesis by (auto simp: ReadAll_def)
qed

theorem ReadAll_skips_buffer_witness:
  "\<exists>b'. ReadAll RandomAccess_ReadNBytes
      \<lparr>bs_input_stream = \<lparr>ras_file = file_of [1, 2, 3], ras_pos = 2\<rparr>, bs_size = 2, bs_buf = [1, 2],
       bs_pos = 1, bs_limit = 2\<rparr> = ret (OK, [3], b') \<and> file_stream_at b' [1, 2, 3] 3"
  using ReadAll_skips_buffer [of "\<lparr>bs_input_stream = \<lparr>ras_file = file_of [1, 2, 3], ras_pos = 2\<rparr>, bs_size = 2,
      bs_buf = [1, 2], bs_pos = 1, bs_limit = 2\<rparr>" "[1, 2, 3]" 1]
  by (simp add: buffered_at_def random_access_at_def good_file_of)

end
