(* ===== verification/Input_Buffer.thy ===== *)
theory Input_Buffer
  imports Input_Stream
begin

text \<open>
  \<open>InputBuffer\<close>: a read buffer directly on a file
  (\<^verbatim>\<open>tensorflow/core/lib/io/inputbuffer.h\<close>, \<^verbatim>\<open>inputbuffer.cc\<close>).

  The pointers \<open>pos_\<close> and \<open>limit_\<close> into the array \<open>buf_\<close> are offsets from \<open>buf_\<close>. The bytes
  written through \<open>char* result\<close> are a list. \<open>InputBuffer\<close> and \<open>BufferedInputStream\<close> have
  the same purpose; they differ at the end of the file (\<open>Seek\<close> does not look at the size)
  and in how lines lose their carriage returns.
\<close>

record input_buffer =
  ib_file :: file_read
  ib_file_pos :: int
  ib_size :: nat
  ib_buf :: bytes
  ib_pos :: nat
  ib_limit :: nat

definition InputBuffer :: "file_read \<Rightarrow> nat \<Rightarrow> input_buffer" where
  "InputBuffer file buffer_bytes =
     \<lparr>ib_file = file, ib_file_pos = 0, ib_size = buffer_bytes, ib_buf = replicate buffer_bytes 0,
      ib_pos = 0, ib_limit = 0\<rparr>"

definition InputBuffer_FillBuffer :: "input_buffer \<Rightarrow> status \<times> input_buffer" where
  "InputBuffer_FillBuffer b =
     (let (s, data) = ib_file b (word_of_int (ib_file_pos b)) (ib_size b) in
      (s, b\<lparr>ib_buf := data @ drop (length data) (ib_buf b), ib_pos := 0, ib_limit := length data,
            ib_file_pos := ib_file_pos b + int (length data)\<rparr>))"

text \<open>The unread part of the buffer; a position outside of the array is undefined.\<close>

definition ib_unread :: "input_buffer \<Rightarrow> bytes" where
  "ib_unread b = take (ib_limit b - ib_pos b) (drop (ib_pos b) (ib_buf b))"

definition strip_cr :: "bytes \<Rightarrow> bytes" where
  "strip_cr result = (if result \<noteq> [] \<and> last result = 13 then butlast result else result)"

partial_function (option) InputBuffer_line_loop ::
  "bytes \<Rightarrow> input_buffer \<Rightarrow> (fatal + status \<times> bytes \<times> input_buffer) option" where
  "InputBuffer_line_loop result b =
     (let remain = ib_unread b; line = takeWhile (\<lambda>c. c \<noteq> 10) remain in
      if 10 \<in> set remain then
        ret (OK, strip_cr (result @ line), b\<lparr>ib_pos := ib_pos b + length line + 1\<rparr>)
      else
        let (s, b') = InputBuffer_FillBuffer b; result' = result @ remain in
        if ib_limit b' \<noteq> 0 then InputBuffer_line_loop result' b'
        else ret (if IsOutOfRange s \<and> strip_cr result' \<noteq> [] then OK else s, strip_cr result', b'))"

definition InputBuffer_ReadLine :: "input_buffer \<Rightarrow> (status \<times> bytes \<times> input_buffer) res" where
  "InputBuffer_ReadLine b = InputBuffer_line_loop [] b"

text \<open>
  The loops of \<open>ReadNBytes\<close> and \<open>SkipNBytes\<close>, which begin alike. Each round takes at least
  one byte or ends; \<open>pos_\<close> beyond \<open>limit_\<close> cannot happen.
\<close>

definition ib_refill :: "status \<Rightarrow> input_buffer \<Rightarrow> status \<times> input_buffer \<times> bool" where
  "ib_refill s b =
     (if ib_pos b = ib_limit b then
        let (s', b') = InputBuffer_FillBuffer b in (s', b', ib_limit b' \<noteq> 0)
      else (s, b, True))"

function InputBuffer_read_loop ::
  "nat \<Rightarrow> status \<Rightarrow> bytes \<Rightarrow> input_buffer \<Rightarrow> (status \<times> bytes \<times> input_buffer) res" where
  "InputBuffer_read_loop bytes_to_read status result b =
     (if length result < bytes_to_read then
        let (status', b', more) = ib_refill status b in
        if \<not> more then ret (status', result, b')
        else if ib_unread b' = [] then abort (Undefined ''pos_ beyond limit_'')
        else
          let bytes_to_copy = min (ib_limit b' - ib_pos b') (bytes_to_read - length result) in
          InputBuffer_read_loop bytes_to_read status' (result @ take bytes_to_copy (ib_unread b'))
            (b'\<lparr>ib_pos := ib_pos b' + bytes_to_copy\<rparr>)
      else ret (status, result, b))"
  by pat_completeness auto
termination
  by (relation "measure (\<lambda>(n, _, r, _). n - length r)") (auto simp: ib_unread_def)

declare InputBuffer_read_loop.simps [simp del]

definition InputBuffer_ReadNBytes :: "int \<Rightarrow> input_buffer \<Rightarrow> (status \<times> bytes \<times> input_buffer) res" where
  "InputBuffer_ReadNBytes bytes_to_read b =
     (if bytes_to_read < 0 then
        ret (InvalidArgument (''Can't read a negative number of bytes: '' @
               FastInt64ToBufferLeft (word_of_int bytes_to_read)), [], b)
      else
        bnd (InputBuffer_read_loop (nat bytes_to_read) OK [] b) (\<lambda>(status, result, b').
        ret (if IsOutOfRange status \<and> int (length result) = bytes_to_read then OK else status, result, b')))"

function InputBuffer_skip_loop ::
  "int \<Rightarrow> status \<Rightarrow> int \<Rightarrow> input_buffer \<Rightarrow> (status \<times> int \<times> input_buffer) res" where
  "InputBuffer_skip_loop bytes_to_skip s bytes_skipped b =
     (if bytes_skipped < bytes_to_skip then
        let (s', b', more) = ib_refill s b in
        if \<not> more then ret (s', bytes_skipped, b')
        else if ib_unread b' = [] then abort (Undefined ''pos_ beyond limit_'')
        else
          let bytes_to_advance = min (int (ib_limit b' - ib_pos b')) (bytes_to_skip - bytes_skipped) in
          InputBuffer_skip_loop bytes_to_skip s' (bytes_skipped + bytes_to_advance)
            (b'\<lparr>ib_pos := ib_pos b' + nat bytes_to_advance\<rparr>)
      else ret (s, bytes_skipped, b))"
  by pat_completeness auto
termination
  by (relation "measure (\<lambda>(n, _, k, _). nat (n - k))") (auto simp: ib_unread_def)

declare InputBuffer_skip_loop.simps [simp del]

definition InputBuffer_SkipNBytes :: "int \<Rightarrow> input_buffer \<Rightarrow> (status \<times> input_buffer) res" where
  "InputBuffer_SkipNBytes bytes_to_skip b =
     (if bytes_to_skip < 0 then
        ret (InvalidArgument (''Can only skip forward, not '' @
               FastInt64ToBufferLeft (word_of_int bytes_to_skip)), b)
      else
        bnd (InputBuffer_skip_loop bytes_to_skip OK 0 b) (\<lambda>(s, bytes_skipped, b').
        ret (if IsOutOfRange s \<and> bytes_skipped = bytes_to_skip then OK else s, b')))"

definition InputBuffer_Tell :: "input_buffer \<Rightarrow> int" where
  "InputBuffer_Tell b = ib_file_pos b - int (ib_limit b - ib_pos b)"

definition InputBuffer_Seek :: "int \<Rightarrow> input_buffer \<Rightarrow> (status \<times> input_buffer) res" where
  "InputBuffer_Seek position b =
     (if position < 0 then
        ret (InvalidArgument (''Seeking to a negative position: '' @
               FastInt64ToBufferLeft (word_of_int position)), b)
      else
        let bufpos = ib_file_pos b - int (ib_limit b) in
        if bufpos \<le> position \<and> position < ib_file_pos b then
          let pos = nat (position - bufpos) in
          DCHECK (pos < ib_limit b) ''pos_ >= buf_ && pos_ < limit_'' (ret (OK, b\<lparr>ib_pos := pos\<rparr>))
        else ret (OK, b\<lparr>ib_pos := 0, ib_limit := 0, ib_file_pos := position\<rparr>))"

text \<open>The shift of the last group wraps as on two's complement machines.\<close>

fun varint_fallback_loop ::
  "nat list \<Rightarrow> u32 \<Rightarrow> input_buffer \<Rightarrow> (status \<times> u32 \<times> input_buffer) res" where
  "varint_fallback_loop [] result b =
     ret (DataLoss ''Stored data is too large to be a varint32.'', result, b)"
| "varint_fallback_loop (shift # shifts) result b =
     bnd (InputBuffer_ReadNBytes 1 b) (\<lambda>(s, p, b').
     if \<not> ok s then ret (s, result, b')
     else
       let scratch = hd p; result' = result OR push_bit shift (ucast scratch AND 127) in
       if scratch AND 128 = 0 then ret (OK, result', b')
       else varint_fallback_loop shifts result' b')"

definition ReadVarint32Fallback :: "input_buffer \<Rightarrow> (status \<times> u32 \<times> input_buffer) res" where
  "ReadVarint32Fallback b = varint_fallback_loop [0, 7, 14, 21, 28] 0 b"

definition ReadVarint32 :: "u32 \<Rightarrow> input_buffer \<Rightarrow> (status \<times> u32 \<times> input_buffer) res" where
  "ReadVarint32 result b =
     (if ib_pos b + 5 \<le> ib_limit b then
        (case GetVarint32Ptr (ib_unread b) of
           None \<Rightarrow> ret (OutOfRange ''Parsed past limit.'', result, b)
         | Some (value, rest) \<Rightarrow> ret (OK, value, b\<lparr>ib_pos := ib_limit b - length rest\<rparr>))
      else ReadVarint32Fallback b)"
section \<open>The buffer as a position in the file\<close>

definition buffer_at :: "input_buffer \<Rightarrow> bytes \<Rightarrow> nat \<Rightarrow> bool" where
  "buffer_at b d p \<longleftrightarrow>
     good_file d (ib_file b) \<and> 0 < ib_size b \<and> ib_pos b \<le> ib_limit b \<and> ib_limit b \<le> length (ib_buf b) \<and>
     (\<exists>base. ib_file_pos b = int (base + ib_limit b) \<and> p = base + ib_pos b \<and> base + ib_limit b < 2 ^ 63 \<and>
        take (ib_limit b) (ib_buf b) = take (ib_limit b) (drop base d))"

lemma buffer_atE:
  assumes "buffer_at b d p"
  obtains base where "good_file d (ib_file b)" "0 < ib_size b" "ib_pos b \<le> ib_limit b"
    "ib_limit b \<le> length (ib_buf b)" "ib_file_pos b = int (base + ib_limit b)" "p = base + ib_pos b"
    "base + ib_limit b < 2 ^ 63" "take (ib_limit b) (ib_buf b) = take (ib_limit b) (drop base d)"
    "ib_limit b \<le> length d - base"
proof -
  from assms obtain base where b: "good_file d (ib_file b)" "0 < ib_size b" "ib_pos b \<le> ib_limit b"
    "ib_limit b \<le> length (ib_buf b)" "ib_file_pos b = int (base + ib_limit b)" "p = base + ib_pos b"
    "base + ib_limit b < 2 ^ 63" "take (ib_limit b) (ib_buf b) = take (ib_limit b) (drop base d)"
    unfolding buffer_at_def by blast
  from b(8) have "length (take (ib_limit b) (ib_buf b)) = length (take (ib_limit b) (drop base d))" by simp
  with b(4) have "ib_limit b \<le> length d - base" by simp
  with b that show ?thesis by blast
qed

lemma unread_at:
  assumes "buffer_at b d p"
  shows "ib_unread b = take (ib_limit b - ib_pos b) (drop p d)" "length (ib_unread b) = ib_limit b - ib_pos b"
    "ib_limit b - ib_pos b \<le> length d - p"
proof -
  from assms show "ib_unread b = take (ib_limit b - ib_pos b) (drop p d)"
    "ib_limit b - ib_pos b \<le> length d - p"
  proof (atomize(full), elim buffer_atE)
    fix base
    assume b: "ib_pos b \<le> ib_limit b" "p = base + ib_pos b" "ib_limit b \<le> length d - base"
      "take (ib_limit b) (ib_buf b) = take (ib_limit b) (drop base d)"
    have "drop (ib_pos b) (take (ib_limit b) (ib_buf b)) = drop (ib_pos b) (take (ib_limit b) (drop base d))"
      by (simp only: b(4))
    then have "ib_unread b = take (ib_limit b - ib_pos b) (drop p d)"
      by (simp add: ib_unread_def drop_take b(2) add.commute)
    with b(1-3) show "ib_unread b = take (ib_limit b - ib_pos b) (drop p d) \<and> ib_limit b - ib_pos b \<le> length d - p"
      by simp
  qed
  then show "length (ib_unread b) = ib_limit b - ib_pos b" by simp
qed

lemma buffer_advance:
  assumes "buffer_at b d p" "k \<le> ib_limit b - ib_pos b"
  shows "buffer_at (b\<lparr>ib_pos := ib_pos b + k\<rparr>) d (p + k)"
  using assms(1)
proof (rule buffer_atE)
  fix base
  assume b: "good_file d (ib_file b)" "0 < ib_size b" "ib_pos b \<le> ib_limit b"
    "ib_limit b \<le> length (ib_buf b)" "ib_file_pos b = int (base + ib_limit b)" "p = base + ib_pos b"
    "base + ib_limit b < 2 ^ 63" "take (ib_limit b) (ib_buf b) = take (ib_limit b) (drop base d)"
  have "ib_pos b + k \<le> ib_limit b" using assms(2) b(3) by linarith
  with b show ?thesis unfolding buffer_at_def by (intro conjI exI [of _ base]) (simp_all del: of_nat_add)
qed

lemma InputBuffer_FillBuffer_at:
  assumes "buffer_at b d p" "ib_pos b = ib_limit b"
  shows "\<exists>s b'. InputBuffer_FillBuffer b = (s, b') \<and> buffer_at b' d p \<and> ib_pos b' = 0 \<and>
    ib_limit b' = length (take (ib_size b) (drop p d)) \<and> right_status (ib_size b \<le> length d - p) s"
  using assms(1)
proof (rule buffer_atE)
  fix base
  assume b: "good_file d (ib_file b)" "0 < ib_size b" "ib_file_pos b = int (base + ib_limit b)"
    "p = base + ib_pos b" "base + ib_limit b < 2 ^ 63"
  then have p: "ib_file_pos b = int p" "p < 2 ^ 63" using assms(2) by auto
  then have u: "unat (word_of_int (ib_file_pos b) :: u64) = p" by (simp add: unat_of_nat)
  let ?data = "take (ib_size b) (drop p d)"
  obtain st where st: "ib_file b (word_of_int (ib_file_pos b)) (ib_size b) = (st, ?data)"
    "right_status (ib_size b \<le> length d - p) st"
    using b(1) unfolding good_file_def by (metis u prod.collapse)
  have "length d < 2 ^ 63" using b(1) by (simp add: good_file_def)
  then have "p + length ?data < 2 ^ 63" using p(2) by auto
  with st b(1,2) p(1) show ?thesis
    by (simp add: InputBuffer_FillBuffer_def buffer_at_def min.commute)
qed

lemma ib_refill_at:
  assumes "buffer_at b d p" "fine s"
  shows "\<exists>s' b'. ib_refill s b = (s', b', p < length d) \<and> buffer_at b' d p \<and> fine s' \<and>
    (p < length d \<longrightarrow> ib_pos b' < ib_limit b' \<and> ib_unread b' \<noteq> []) \<and> (\<not> p < length d \<longrightarrow> IsOutOfRange s')"
proof (cases "ib_pos b = ib_limit b")
  case True
  from InputBuffer_FillBuffer_at [OF assms(1) True] obtain s' b' where
    f: "InputBuffer_FillBuffer b = (s', b')" "buffer_at b' d p" "ib_pos b' = 0"
      "ib_limit b' = length (take (ib_size b) (drop p d))" "right_status (ib_size b \<le> length d - p) s'" by blast
  from assms(1) have "0 < ib_size b" by (simp add: buffer_at_def)
  with f True unread_at(2) [OF f(2)] right_status_fine [OF f(5)] show ?thesis
    by (auto simp: ib_refill_def right_status_def split: if_splits)
next
  case False
  with assms(1) have "ib_pos b < ib_limit b" by (simp add: buffer_at_def)
  with False assms unread_at [OF assms(1)] show ?thesis by (auto simp: ib_refill_def)
qed
lemma InputBuffer_read_loop_at:
  assumes "buffer_at b d p" "fine s"
  shows "\<exists>s' b'. InputBuffer_read_loop n s result b = ret (s', result @ take (n - length result) (drop p d), b') \<and>
    buffer_at b' d (p + length (take (n - length result) (drop p d))) \<and> fine s' \<and>
    (length d - p < n - length result \<longrightarrow> IsOutOfRange s')"
  using assms
proof (induction "n - length result" arbitrary: s result b p rule: less_induct)
  case less
  let ?k = "n - length result"
  show ?case
  proof (cases "length result < n")
    case False
    with less(2,3) show ?thesis by (simp add: InputBuffer_read_loop.simps [of n])
  next
    case True
    from ib_refill_at [OF less(2,3)] obtain s' b' where
      r: "ib_refill s b = (s', b', p < length d)" "buffer_at b' d p" "fine s'"
        "p < length d \<longrightarrow> ib_pos b' < ib_limit b' \<and> ib_unread b' \<noteq> []" "\<not> p < length d \<longrightarrow> IsOutOfRange s'"
      by blast
    show ?thesis
    proof (cases "p < length d")
      case False
      with r True show ?thesis by (simp add: InputBuffer_read_loop.simps [of n])
    next
      case more: True
      define c where "c = min (ib_limit b' - ib_pos b') ?k"
      let ?result = "result @ take c (drop p d)"
      have c: "0 < c" "c \<le> ?k" "c \<le> ib_limit b' - ib_pos b'" using r(4) more True by (auto simp: c_def)
      note u = unread_at [OF r(2)]
      have cd: "c \<le> length d - p" using c(3) u(3) by linarith
      then have len: "length ?result = length result + c" by simp
      have k: "n - length ?result < ?k" "n - length ?result = ?k - c" unfolding len using c(1) True by linarith+
      have tk: "take c (ib_unread b') = take c (drop p d)" unfolding u(1) using c(3) by (simp add: min_absorb1)
      have step: "InputBuffer_read_loop n s result b =
          InputBuffer_read_loop n s' ?result (b'\<lparr>ib_pos := ib_pos b' + c\<rparr>)"
        unfolding tk [symmetric] using True more r(1,4)
        by (subst InputBuffer_read_loop.simps) (simp add: Let_def c_def)
      from less(1) [OF k(1) buffer_advance [OF r(2) c(3)] r(3), unfolded k(2)] obtain s'' b'' where ih:
        "InputBuffer_read_loop n s' ?result (b'\<lparr>ib_pos := ib_pos b' + c\<rparr>) =
           ret (s'', ?result @ take (?k - c) (drop (p + c) d), b'')"
        "buffer_at b'' d (p + c + length (take (?k - c) (drop (p + c) d)))" "fine s''"
        "length d - (p + c) < ?k - c \<longrightarrow> IsOutOfRange s''" by blast
      have e: "p + length (take ?k (drop p d)) = p + c + length (take (?k - c) (drop (p + c) d))"
        "length d - p < ?k \<longrightarrow> length d - (p + c) < ?k - c"
        using c cd unfolding length_take length_drop by linarith+
      show ?thesis
      proof (intro exI conjI)
        show "InputBuffer_read_loop n s result b = ret (s'', result @ take ?k (drop p d), b'')"
          unfolding step ih(1) append_assoc take_split [OF c(2)] by (rule refl)
        show "buffer_at b'' d (p + length (take ?k (drop p d)))" unfolding e(1) by (rule ih(2))
      qed (use ih(3,4) e(2) in blast)+
    qed
  qed
qed

lemma InputBuffer_ReadNBytes_at:
  assumes "buffer_at b d p" "0 \<le> n"
  shows "\<exists>s b'. InputBuffer_ReadNBytes n b = ret (s, take (nat n) (drop p d), b') \<and>
    buffer_at b' d (p + length (take (nat n) (drop p d))) \<and> right_status (nat n \<le> length d - p) s"
proof -
  have "fine OK" by (simp add: fine_def)
  from InputBuffer_read_loop_at [OF assms(1) this, of "nat n" "[]"] obtain s b' where
    r: "InputBuffer_read_loop (nat n) OK [] b = ret (s, take (nat n) (drop p d), b')"
      "buffer_at b' d (p + length (take (nat n) (drop p d)))" "fine s"
      "length d - p < nat n \<longrightarrow> IsOutOfRange s" by auto
  have "int (length (take (nat n) (drop p d))) = n \<longleftrightarrow> nat n \<le> length d - p"
    using assms(2) unfolding length_take length_drop by linarith
  with r assms(2) show ?thesis
    by (auto simp: InputBuffer_ReadNBytes_def right_status_def fine_def simp del: length_take)
qed

lemma InputBuffer_skip_loop_at:
  assumes "buffer_at b d p" "fine s" "k \<le> n"
  shows "\<exists>s' b'. InputBuffer_skip_loop n s k b = ret (s', k + min (n - k) (int (length d - p)), b') \<and>
    buffer_at b' d (p + min (nat (n - k)) (length d - p)) \<and> fine s' \<and>
    (int (length d - p) < n - k \<longrightarrow> IsOutOfRange s')"
  using assms
proof (induction "nat (n - k)" arbitrary: s k b p rule: less_induct)
  case less
  show ?case
  proof (cases "k < n")
    case False
    with less(2-4) show ?thesis by (simp add: InputBuffer_skip_loop.simps [of n])
  next
    case True
    from ib_refill_at [OF less(2,3)] obtain s' b' where
      r: "ib_refill s b = (s', b', p < length d)" "buffer_at b' d p" "fine s'"
        "p < length d \<longrightarrow> ib_pos b' < ib_limit b' \<and> ib_unread b' \<noteq> []" "\<not> p < length d \<longrightarrow> IsOutOfRange s'"
      by blast
    show ?thesis
    proof (cases "p < length d")
      case False
      with r True show ?thesis by (simp add: InputBuffer_skip_loop.simps [of n])
    next
      case more: True
      define c where "c = min (int (ib_limit b' - ib_pos b')) (n - k)"
      have c: "0 < c" "c \<le> n - k" "nat c \<le> ib_limit b' - ib_pos b'" using r(4) more True by (auto simp: c_def)
      have cd: "c \<le> int (length d - p)" using c(3) unread_at(3) [OF r(2)] by linarith
      have k: "nat (n - (k + c)) < nat (n - k)" "k + c \<le> n" using c by linarith+
      have step: "InputBuffer_skip_loop n s k b =
          InputBuffer_skip_loop n s' (k + c) (b'\<lparr>ib_pos := ib_pos b' + nat c\<rparr>)"
        using True more r(1,4) by (subst InputBuffer_skip_loop.simps) (simp add: Let_def c_def)
      from less(1) [OF k(1) buffer_advance [OF r(2) c(3)] r(3) k(2)] obtain s'' b'' where ih:
        "InputBuffer_skip_loop n s' (k + c) (b'\<lparr>ib_pos := ib_pos b' + nat c\<rparr>) =
           ret (s'', k + c + min (n - (k + c)) (int (length d - (p + nat c))), b'')"
        "buffer_at b'' d (p + nat c + min (nat (n - (k + c))) (length d - (p + nat c)))" "fine s''"
        "int (length d - (p + nat c)) < n - (k + c) \<longrightarrow> IsOutOfRange s''" by blast
      have e: "k + min (n - k) (int (length d - p)) = k + c + min (n - (k + c)) (int (length d - (p + nat c)))"
        "p + min (nat (n - k)) (length d - p) = p + nat c + min (nat (n - (k + c))) (length d - (p + nat c))"
        "int (length d - p) < n - k \<longrightarrow> int (length d - (p + nat c)) < n - (k + c)"
        using c cd by linarith+
      show ?thesis
        unfolding step ih(1) e(1,2) using ih(2-4) e(3) by blast
    qed
  qed
qed

lemma InputBuffer_SkipNBytes_at:
  assumes "buffer_at b d p" "0 \<le> n"
  shows "\<exists>s b'. InputBuffer_SkipNBytes n b = ret (s, b') \<and>
    buffer_at b' d (p + min (nat n) (length d - p)) \<and> right_status (nat n \<le> length d - p) s"
proof -
  have "fine OK" by (simp add: fine_def)
  from InputBuffer_skip_loop_at [OF assms(1) this assms(2)] obtain s b' where
    r: "InputBuffer_skip_loop n OK 0 b = ret (s, min n (int (length d - p)), b')"
      "buffer_at b' d (p + min (nat n) (length d - p))" "fine s" "int (length d - p) < n \<longrightarrow> IsOutOfRange s" by auto
  have "min n (int (length d - p)) = n \<longleftrightarrow> nat n \<le> length d - p" using assms(2) by linarith
  with r assms(2) show ?thesis
    by (auto simp: InputBuffer_SkipNBytes_def right_status_def fine_def)
qed

lemma InputBuffer_Tell_at: "buffer_at b d p \<Longrightarrow> InputBuffer_Tell b = int p"
  by (erule buffer_atE) (simp add: InputBuffer_Tell_def)

lemma InputBuffer_Seek_at:
  assumes "buffer_at b d p" "0 \<le> n" "n < 2 ^ 63"
  shows "\<exists>b'. InputBuffer_Seek n b = ret (OK, b') \<and> buffer_at b' d (nat n)"
  using assms(1)
proof (rule buffer_atE)
  fix base
  assume b: "good_file d (ib_file b)" "0 < ib_size b" "ib_pos b \<le> ib_limit b"
    "ib_limit b \<le> length (ib_buf b)" "ib_file_pos b = int (base + ib_limit b)" "p = base + ib_pos b"
    "base + ib_limit b < 2 ^ 63" "take (ib_limit b) (ib_buf b) = take (ib_limit b) (drop base d)"
  show ?thesis
  proof (cases "int base \<le> n \<and> n < ib_file_pos b")
    case True
    then have "nat (n - int base) < ib_limit b" "nat n = base + nat (n - int base)" using b(5) by linarith+
    with True assms(2) b show ?thesis
      by (auto simp: InputBuffer_Seek_def buffer_at_def intro!: exI [of _ base])
  next
    case False
    moreover have "ib_file_pos b - int (ib_limit b) = int base" using b(5) by simp
    ultimately show ?thesis using b assms(2,3)
      by (auto simp: InputBuffer_Seek_def buffer_at_def Let_def)
  qed
qed
lemma takeWhile_shorter: "x \<in> set xs \<Longrightarrow> \<not> P x \<Longrightarrow> length (takeWhile P xs) < length xs"
  by (induction xs) auto

lemma line_bytes_append:
  "10 \<notin> set xs \<Longrightarrow> line_bytes (xs @ ys) = length xs + line_bytes ys"
  "10 \<in> set xs \<Longrightarrow> line_bytes (xs @ ys) = length (takeWhile (\<lambda>c. c \<noteq> 10) xs) + 1"
  by (induction xs) (auto simp: line_bytes_def)

lemma InputBuffer_line_loop_at:
  assumes "buffer_at b d p"
  shows "\<exists>s b'. InputBuffer_line_loop result b =
      ret (s, strip_cr (result @ takeWhile (\<lambda>c. c \<noteq> 10) (drop p d)), b') \<and>
    buffer_at b' d (p + line_bytes (drop p d)) \<and>
    right_status (10 \<in> set (drop p d) \<or> strip_cr (result @ takeWhile (\<lambda>c. c \<noteq> 10) (drop p d)) \<noteq> []) s"
  using assms
proof (induction "2 * (length d - p) + (if ib_unread b = [] then 1 else 0)" arbitrary: result b p
    rule: less_induct)
  case less
  note u = unread_at [OF less(2)]
  define k where "k = ib_limit b - ib_pos b"
  have rest: "drop p d = ib_unread b @ drop (p + k) d"
    unfolding u(1) k_def using append_take_drop_id [of "ib_limit b - ib_pos b" "drop p d"] by (simp add: add.commute)
  show ?case
  proof (cases "10 \<in> set (ib_unread b)")
    case True
    let ?line = "takeWhile (\<lambda>c. c \<noteq> 10) (ib_unread b)"
    have line: "takeWhile (\<lambda>c. c \<noteq> 10) (drop p d) = ?line"
      unfolding rest by (rule takeWhile_append1 [OF True]) simp
    have "length ?line < length (ib_unread b)" by (rule takeWhile_shorter [OF True]) simp
    then have "length ?line + 1 \<le> ib_limit b - ib_pos b" using u(2) by linarith
    from buffer_advance [OF less(2) this]
    have adv: "buffer_at (b\<lparr>ib_pos := ib_pos b + length ?line + 1\<rparr>) d (p + (length ?line + 1))"
      by (simp only: add.assoc)
    have lb: "line_bytes (drop p d) = length ?line + 1"
      unfolding rest by (rule line_bytes_append(2) [OF True])
    have nl: "10 \<in> set (drop p d)" unfolding rest using True by simp
    have step: "InputBuffer_line_loop result b =
        ret (OK, strip_cr (result @ ?line), b\<lparr>ib_pos := ib_pos b + length ?line + 1\<rparr>)"
      using True by (subst InputBuffer_line_loop.simps) (simp add: Let_def)
    show ?thesis unfolding step line lb using adv nl by (auto simp: right_status_def)
  next
    case False
    let ?b = "b\<lparr>ib_pos := ib_pos b + k\<rparr>"
    have at: "buffer_at ?b d (p + k)" by (rule buffer_advance [OF less(2)]) (simp add: k_def)
    moreover have "ib_pos ?b = ib_limit ?b" using less(2) by (simp add: k_def buffer_at_def)
    ultimately obtain s b' where f: "InputBuffer_FillBuffer ?b = (s, b')" "buffer_at b' d (p + k)"
      "ib_pos b' = 0" "ib_limit b' = length (take (ib_size b) (drop (p + k) d))"
      "right_status (ib_size b \<le> length d - (p + k)) s"
      using InputBuffer_FillBuffer_at by fastforce
    from f(1) have fb: "InputBuffer_FillBuffer b = (s, b')" by (simp add: InputBuffer_FillBuffer_def)
    have size: "0 < ib_size b" using less(2) by (simp add: buffer_at_def)
    have line: "takeWhile (\<lambda>c. c \<noteq> 10) (drop p d) = ib_unread b @ takeWhile (\<lambda>c. c \<noteq> 10) (drop (p + k) d)"
      unfolding rest using False by (subst takeWhile_append2) auto
    have lb: "p + line_bytes (drop p d) = p + k + line_bytes (drop (p + k) d)"
      unfolding rest line_bytes_append(1) [OF False] using u(2) by (simp add: k_def)
    have nl: "10 \<in> set (drop p d) \<longleftrightarrow> 10 \<in> set (drop (p + k) d)" unfolding rest using False by auto
    show ?thesis
    proof (cases "ib_limit b' = 0")
      case True
      with f(4) size have "drop (p + k) d = []" by auto
      moreover from this f(5) size have "IsOutOfRange s" by (simp add: right_status_def)
      ultimately show ?thesis unfolding line lb nl
        using False True fb f(2) by (subst InputBuffer_line_loop.simps) (auto simp: right_status_def)
    next
      case more: False
      then have "ib_unread b' \<noteq> []" using unread_at(2) [OF f(2)] f(3) by auto
      moreover have "p + k < length d" using more f(4) by (cases "p + k < length d") auto
      ultimately have "2 * (length d - (p + k)) + (if ib_unread b' = [] then 1 else 0)
          < 2 * (length d - p) + (if ib_unread b = [] then 1 else 0)"
        using u(2) by (cases "ib_unread b") (auto simp: k_def)
      from less(1) [OF this f(2), of "result @ ib_unread b"] obtain s' b'' where ih:
        "InputBuffer_line_loop (result @ ib_unread b) b' =
           ret (s', strip_cr ((result @ ib_unread b) @ takeWhile (\<lambda>c. c \<noteq> 10) (drop (p + k) d)), b'')"
        "buffer_at b'' d (p + k + line_bytes (drop (p + k) d))"
        "right_status (10 \<in> set (drop (p + k) d) \<or>
           strip_cr ((result @ ib_unread b) @ takeWhile (\<lambda>c. c \<noteq> 10) (drop (p + k) d)) \<noteq> []) s'" by blast
      have step: "InputBuffer_line_loop result b = InputBuffer_line_loop (result @ ib_unread b) b'"
        using False more fb by (subst InputBuffer_line_loop.simps) (simp add: Let_def)
      show ?thesis unfolding step line lb nl using ih by auto
    qed
  qed
qed
lemma varint_test:
  fixes x :: byte
  shows "(ucast x :: u32) AND 128 = 0 \<longleftrightarrow> x AND 128 = 0" "x AND 128 = 0 \<Longrightarrow> (ucast x :: u32) AND 127 = ucast x"
proof -
  have c: "(128 :: byte) = push_bit 7 1" "(128 :: u32) = push_bit 7 1" "(127 :: u32) = mask 7"
    by (simp_all add: push_bit_eq_mult mask_eq_exp_minus_1)
  have z: "v AND push_bit 7 1 = 0 \<longleftrightarrow> \<not> bit v 7" for v :: "'a::len word"
    by (metis (no_types, opaque_lifting) and_exp_eq_0_iff_not_bit push_bit_of_1)
  show "(ucast x :: u32) AND 128 = 0 \<longleftrightarrow> x AND 128 = 0" unfolding c z by (simp add: bit_simps)
  assume "x AND 128 = 0"
  then have b: "\<not> bit x 7" unfolding c z .
  show "(ucast x :: u32) AND 127 = ucast x" unfolding c(3)
  proof (rule bit_word_eqI)
    fix n
    show "bit (ucast x AND mask 7 :: u32) n = bit (ucast x :: u32) n"
      using b by (cases "n < 7"; cases "n = 7") (auto simp: bit_simps dest: bit_imp_le_length)
  qed
qed

lemma varint_loop_prefix:
  assumes "varint_loop 28 s r (ys @ zs) = Some (v :: u32, q)" "s + 7 * j = 35" "j \<le> length ys"
  shows "\<exists>q'. varint_loop 28 s r ys = Some (v, q') \<and> q = q' @ zs"
  using assms
proof (induction j arbitrary: s r ys)
  case 0
  then show ?case by (cases "ys @ zs") auto
next
  case (Suc j)
  then obtain y ys' where y: "ys = y # ys'" by (cases ys) auto
  show ?case
  proof (cases "(ucast y :: u32) AND 128 = 0")
    case True
    with Suc(2,3) y show ?thesis by auto
  next
    case False
    with Suc(2,3) y have "varint_loop 28 (s + 7) (r OR push_bit s (ucast y AND 127)) (ys' @ zs) = Some (v, q)"
      by (simp del: push_bit_and)
    moreover have "s + 7 + 7 * j = 35" "j \<le> length ys'" "s \<le> 28" using Suc(3,4) y by simp_all
    ultimately show ?thesis using Suc(1) False y by (simp del: push_bit_and)
  qed
qed

lemma varint_loop_length: "varint_loop m s r xs = Some (v, q) \<Longrightarrow> length q \<le> length xs"
  by (induction m s r xs rule: varint_loop.induct)
    (auto simp: Let_def simp del: push_bit_and split: if_splits)

lemma varint_fallback_at:
  assumes "buffer_at b d p" "varint_loop 28 s r (drop p d) = Some (v, q)"
    "shifts = map (\<lambda>i. s + 7 * i) [0..<n]" "s + 7 * n = 35"
  shows "\<exists>b'. varint_fallback_loop shifts r b = ret (OK, v, b') \<and>
    buffer_at b' d (p + (length (drop p d) - length q))"
  using assms
proof (induction n arbitrary: s r b p shifts)
  case 0
  then show ?case by (cases "drop p d") auto
next
  case (Suc n)
  from Suc(3) obtain x xs where x: "drop p d = x # xs" by (cases "drop p d") auto
  then have p: "p < length d" "drop (p + 1) d = xs"
    by (metis drop_eq_Nil leI list.distinct(1), metis drop_Suc list.sel(3) tl_drop Suc_eq_plus1)
  from InputBuffer_ReadNBytes_at [OF Suc(2), of 1] p(1) x obtain b' where
    r: "InputBuffer_ReadNBytes 1 b = ret (OK, [x], b')" "buffer_at b' d (p + 1)"
    by (auto simp: right_status_def)
  have sh: "shifts = s # map (\<lambda>i. s + 7 + 7 * i) [0..<n]"
    unfolding Suc(4) by (simp add: map_upt_Suc del: upt_Suc)
  show ?case
  proof (cases "x AND 128 = 0")
    case True
    with Suc(3,5) r show ?thesis
      by (auto simp: x sh varint_test simp del: push_bit_and)
  next
    case False
    let ?r = "r OR push_bit s (ucast x AND 127)"
    from False Suc(3,5) have "varint_loop 28 (s + 7) ?r (drop (p + 1) d) = Some (v, q)"
      unfolding p(2) by (simp add: x varint_test split: if_splits)
    moreover have "s + 7 + 7 * n = 35" using Suc(5) by simp
    ultimately obtain b'' where ih:
      "varint_fallback_loop (map (\<lambda>i. s + 7 + 7 * i) [0..<n]) ?r b' = ret (OK, v, b'')"
      "buffer_at b'' d (p + 1 + (length (drop (p + 1) d) - length q))" using Suc(1) [OF r(2) _ refl] by blast
    have "length q \<le> length xs"
      using varint_loop_length [OF \<open>varint_loop 28 (s + 7) ?r (drop (p + 1) d) = Some (v, q)\<close>] unfolding p(2) .
    then have "p + (length (drop p d) - length q) = p + 1 + (length (drop (p + 1) d) - length q)"
      unfolding x p(2) by simp
    with ih False r(1) show ?thesis by (simp add: sh)
  qed
qed
lemma ReadVarint32_at:
  assumes "buffer_at b d p" "drop p d = EncodeVarint32 v @ rest"
  shows "\<exists>b'. ReadVarint32 result b = ret (OK, v, b') \<and> buffer_at b' d (p + length (EncodeVarint32 v))"
proof -
  from varint_roundtrip(2) [of v rest] have l: "varint_loop 28 0 0 (drop p d) = Some (v, rest)"
    by (simp add: assms(2) GetVarint32PtrFallback_def)
  have len: "length (drop p d) - length rest = length (EncodeVarint32 v)" by (simp add: assms(2))
  show ?thesis
  proof (cases "ib_pos b + 5 \<le> ib_limit b")
    case True
    note u = unread_at [OF assms(1)]
    let ?k = "ib_limit b - ib_pos b"
    have split: "drop p d = ib_unread b @ drop ?k (drop p d)" unfolding u(1) by (rule append_take_drop_id [symmetric])
    have "5 \<le> length (ib_unread b)" using True u(2) by linarith
    moreover have "varint_loop 28 0 0 (ib_unread b @ drop ?k (drop p d)) = Some (v, rest)"
      by (rule subst [OF split, of "\<lambda>x. varint_loop 28 0 0 x = Some (v, rest)"]) (rule l)
    ultimately obtain q where
      q: "varint_loop 28 0 0 (ib_unread b) = Some (v, q)" "rest = q @ drop ?k (drop p d)"
      using varint_loop_prefix [of 0 0 "ib_unread b" "drop ?k (drop p d)" v rest 5] by auto
    have "length (ib_unread b) - length q = length (EncodeVarint32 v)"
      using len arg_cong [OF split, of length] arg_cong [OF q(2), of length] by simp
    moreover have "length q \<le> ?k" using varint_loop_length [OF q(1)] u(2) by simp
    ultimately have k: "ib_limit b - length q = ib_pos b + length (EncodeVarint32 v)"
      "length (EncodeVarint32 v) \<le> ?k" using True u(2) by linarith+
    from buffer_advance [OF assms(1) k(2)] True q(1) show ?thesis
      by (simp add: ReadVarint32_def GetVarint32Ptr_eq GetVarint32PtrFallback_def k(1))
  next
    case False
    have "[0, 7, 14, 21, 28] = map (\<lambda>i. 0 + 7 * i) [0..<5]" by (simp add: upt_rec)
    from varint_fallback_at [OF assms(1) l this, unfolded len] False show ?thesis
      by (simp add: ReadVarint32_def ReadVarint32Fallback_def del: varint_fallback_loop.simps)
  qed
qed

section \<open>Sequences of calls\<close>

text \<open>The abstract buffer is a position that may lie behind the end of the file.\<close>

fun buffer_spec :: "bytes \<Rightarrow> nat \<Rightarrow> stream_call \<Rightarrow> error_code \<times> bytes \<times> nat" where
  "buffer_spec d p (Read n) =
     (if n < 0 then (INVALID_ARGUMENT, [], p)
      else (if nat n \<le> length d - p then OK_code else OUT_OF_RANGE, take (nat n) (drop p d),
            p + length (take (nat n) (drop p d))))"
| "buffer_spec d p (Skip n) =
     (if n < 0 then (INVALID_ARGUMENT, [], p)
      else (if nat n \<le> length d - p then OK_code else OUT_OF_RANGE, [], p + min (nat n) (length d - p)))"
| "buffer_spec d p (SeekTo n) = (if n < 0 then (INVALID_ARGUMENT, [], p) else (OK_code, [], nat n))"

fun buffer_specs :: "bytes \<Rightarrow> nat \<Rightarrow> stream_call list \<Rightarrow> (error_code \<times> bytes \<times> int) list" where
  "buffer_specs d p [] = []"
| "buffer_specs d p (c # cs) =
     (let (code, r, p') = buffer_spec d p c in (code, r, int p') # buffer_specs d p' cs)"

fun buffer_call :: "stream_call \<Rightarrow> input_buffer \<Rightarrow> (status \<times> bytes \<times> input_buffer) res" where
  "buffer_call (Read n) b = InputBuffer_ReadNBytes n b"
| "buffer_call (Skip n) b = bnd (InputBuffer_SkipNBytes n b) (\<lambda>(s, b'). ret (s, [], b'))"
| "buffer_call (SeekTo n) b = bnd (InputBuffer_Seek n b) (\<lambda>(s, b'). ret (s, [], b'))"

fun buffer_calls :: "stream_call list \<Rightarrow> input_buffer \<Rightarrow> (error_code \<times> bytes \<times> int) list res" where
  "buffer_calls [] b = ret []"
| "buffer_calls (c # cs) b =
     bnd (buffer_call c b) (\<lambda>(s, r, b').
     bnd (buffer_calls cs b') (\<lambda>rest. ret ((status_code s, r, InputBuffer_Tell b') # rest)))"

text \<open>Arguments of type \<open>int64\<close>.\<close>

fun int64_call :: "stream_call \<Rightarrow> bool" where
  "int64_call (Read n) \<longleftrightarrow> n < 2 ^ 63"
| "int64_call (Skip n) \<longleftrightarrow> n < 2 ^ 63"
| "int64_call (SeekTo n) \<longleftrightarrow> n < 2 ^ 63"

lemma buffer_call_refines:
  assumes "buffer_at b d p" "int64_call c"
  shows "\<exists>s b'. buffer_call c b = ret (s, fst (snd (buffer_spec d p c)), b') \<and>
    status_code s = fst (buffer_spec d p c) \<and> buffer_at b' d (snd (snd (buffer_spec d p c)))"
proof (cases c)
  case (Read n)
  show ?thesis
  proof (cases "n < 0")
    case False
    with InputBuffer_ReadNBytes_at [OF assms(1), of n] show ?thesis
      by (auto simp: Read dest: right_status_code)
  qed (simp add: Read InputBuffer_ReadNBytes_def assms)
next
  case (Skip n)
  show ?thesis
  proof (cases "n < 0")
    case False
    with InputBuffer_SkipNBytes_at [OF assms(1), of n] show ?thesis
      by (auto simp: Skip dest: right_status_code)
  qed (simp add: Skip InputBuffer_SkipNBytes_def assms)
next
  case (SeekTo n)
  show ?thesis
  proof (cases "n < 0")
    case False
    with InputBuffer_Seek_at [OF assms(1), of n] assms(2) show ?thesis
      by (auto simp: SeekTo status_code_def OK_def)
  qed (simp add: SeekTo InputBuffer_Seek_def assms)
qed

lemma buffer_calls_refines:
  "buffer_at b d p \<Longrightarrow> list_all int64_call cs \<Longrightarrow> buffer_calls cs b = ret (buffer_specs d p cs)"
proof (induction cs arbitrary: b p)
  case (Cons c cs)
  from buffer_call_refines [OF Cons(2), of c] Cons(3) obtain s b' where
    c: "buffer_call c b = ret (s, fst (snd (buffer_spec d p c)), b')" "status_code s = fst (buffer_spec d p c)"
      "buffer_at b' d (snd (snd (buffer_spec d p c)))" by auto
  from Cons(1) [OF c(3)] Cons(3) InputBuffer_Tell_at [OF c(3)] c(1,2) show ?case
    by (simp add: case_prod_beta)
qed simp

lemma InputBuffer_at: "good_file d file \<Longrightarrow> 0 < bytes \<Longrightarrow> buffer_at (InputBuffer file bytes) d 0"
  by (simp add: buffer_at_def InputBuffer_def)

section \<open>Properties\<close>

text \<open>
  C34. On a file without input/output errors, an \<open>InputBuffer\<close> of any size answers
  every sequence of \<open>ReadNBytes\<close>, \<open>SkipNBytes\<close> and \<open>Seek\<close> calls like a plain position in the
  bytes of the file; a seek inside the buffered bytes reuses them and never fails its check.
\<close>

theorem input_buffer_refines:
  assumes "good_file d file" "0 < bytes" "list_all int64_call cs"
  shows "buffer_calls cs (InputBuffer file bytes) = ret (buffer_specs d 0 cs)"
  by (rule buffer_calls_refines [OF InputBuffer_at [OF assms(1,2)] assms(3)])

theorem input_buffer_refines_witness:
  "buffer_calls [Read 2, SeekTo 5, Read 1, SeekTo 1, Read 9] (InputBuffer (file_of [1, 2, 3]) 2) =
   ret [(OK_code, [1, 2], 2), (OK_code, [], 5), (OUT_OF_RANGE, [], 5), (OK_code, [], 1), (OUT_OF_RANGE, [2, 3], 3)]"
  using input_buffer_refines [OF good_file_of, of "[1, 2, 3]" 2 "[Read 2, SeekTo 5, Read 1, SeekTo 1, Read 9]"]
  by simp

text \<open>
  The two structured readers: \<open>ReadLine\<close> always returns with the bytes up to the next
  line feed or the end, without one trailing carriage return, and reports \<open>OUT_OF_RANGE\<close>
  exactly if no line feed was found and nothing is left to deliver; \<open>ReadVarint32\<close> reads what
  \<open>EncodeVarint32\<close> wrote, whether it lies in the buffer or crosses its end.
\<close>

theorem InputBuffer_items:
  assumes "buffer_at b d p"
  shows "(\<exists>s b'. InputBuffer_ReadLine b = ret (s, strip_cr (takeWhile (\<lambda>c. c \<noteq> 10) (drop p d)), b') \<and>
      buffer_at b' d (p + line_bytes (drop p d)) \<and>
      right_status (10 \<in> set (drop p d) \<or> strip_cr (takeWhile (\<lambda>c. c \<noteq> 10) (drop p d)) \<noteq> []) s) \<and>
    (\<forall>v rest. drop p d = EncodeVarint32 v @ rest \<longrightarrow>
      (\<exists>b'. ReadVarint32 result b = ret (OK, v, b') \<and> buffer_at b' d (p + length (EncodeVarint32 v))))"
  using InputBuffer_line_loop_at [OF assms, of "[]"] ReadVarint32_at [OF assms]
  by (auto simp: InputBuffer_ReadLine_def)

theorem InputBuffer_items_witness:
  "\<exists>b'. ReadVarint32 0 (InputBuffer (file_of (EncodeVarint32 300)) 1) = ret (OK, 300, b') \<and>
     buffer_at b' (EncodeVarint32 300) (length (EncodeVarint32 300))"
proof -
  have "length (EncodeVarint32 300) < 2 ^ 63" by (simp add: EncodeVarint32_def)
  from InputBuffer_items [OF InputBuffer_at [OF good_file_of [OF this]], of 1 0, THEN conjunct2, THEN spec,
      of 300, THEN spec, of "[]"] show ?thesis by simp
qed

end
