(* ===== verification/String_Scanner.thy ===== *)
theory String_Scanner
  imports Numbers
begin

text \<open>
  Slices of strings and a scanner over them:
  \<^verbatim>\<open>tensorflow/core/lib/core/stringpiece.h\<close>, \<^verbatim>\<open>stringpiece.cc\<close> and
  \<^verbatim>\<open>tensorflow/core/lib/strings/scanner.h\<close>, \<^verbatim>\<open>scanner.cc\<close>.

  A \<open>StringPiece\<close> is an address and a size in the characters \<open>mem\<close> that it points into, so
  that pointer arithmetic between slices of one string keeps its meaning. The lemmas say what
  the operations do to the text of a slice.
\<close>

section \<open>\<open>StringPiece\<close>\<close>

record piece =
  p_data :: nat
  p_size :: nat

definition text_of :: "string \<Rightarrow> piece \<Rightarrow> string" where
  "text_of mem p = take (p_size p) (drop (p_data p) mem)"

definition piece_in :: "string \<Rightarrow> piece \<Rightarrow> bool" where
  "piece_in mem p \<longleftrightarrow> p_data p + p_size p \<le> length mem"

definition whole :: "string \<Rightarrow> piece" where
  "whole s = \<lparr>p_data = 0, p_size = length s\<rparr>"

definition p_end :: "piece \<Rightarrow> nat" where
  "p_end p = p_data p + p_size p"

definition remove_prefix :: "nat \<Rightarrow> piece \<Rightarrow> piece" where
  "remove_prefix n p = \<lparr>p_data = p_data p + n, p_size = p_size p - n\<rparr>"

definition starts_with :: "string \<Rightarrow> piece \<Rightarrow> string \<Rightarrow> bool" where
  "starts_with mem p x \<longleftrightarrow>
     p_size p \<ge> length x \<and> list_all2 (=) (take (length x) (drop (p_data p) mem)) x"

definition ends_with :: "string \<Rightarrow> piece \<Rightarrow> string \<Rightarrow> bool" where
  "ends_with mem p x \<longleftrightarrow>
     p_size p \<ge> length x \<and>
     list_all2 (=) (take (length x) (drop (p_data p + (p_size p - length x)) mem)) x"

definition Consume :: "string \<Rightarrow> string \<Rightarrow> piece \<Rightarrow> bool \<times> piece" where
  "Consume mem x p = (if starts_with mem p x then (True, remove_prefix (length x) p) else (False, p))"

text \<open>\<open>rfind\<close> walks down from the last character; \<^const>\<open>None\<close> is \<open>npos\<close>.\<close>

fun rfind_loop :: "string \<Rightarrow> nat \<Rightarrow> char \<Rightarrow> nat \<Rightarrow> nat option" where
  "rfind_loop mem data c 0 = (if mem ! data = c then Some 0 else None)"
| "rfind_loop mem data c (Suc i) = (if mem ! (data + Suc i) = c then Some (Suc i) else rfind_loop mem data c i)"

definition rfind :: "string \<Rightarrow> char \<Rightarrow> piece \<Rightarrow> nat option" where
  "rfind mem c p = (if p_size p = 0 then None else rfind_loop mem (p_data p) c (p_size p - 1))"

definition substr :: "nat \<Rightarrow> nat option \<Rightarrow> piece \<Rightarrow> piece" where
  "substr pos n p =
     (let pos' = (if pos > p_size p then p_size p else pos);
          n' = (case n of None \<Rightarrow> p_size p - pos' | Some k \<Rightarrow> if k > p_size p - pos' then p_size p - pos' else k) in
      \<lparr>p_data = p_data p + pos', p_size = n'\<rparr>)"

section \<open>\<open>Scanner\<close>\<close>

datatype char_class =
    ALL_CHARS
  | DIGIT
  | LETTER
  | LETTER_DIGIT
  | LETTER_DIGIT_DASH_UNDERSCORE
  | LETTER_DIGIT_DASH_DOT_SLASH
  | LETTER_DIGIT_DASH_DOT_SLASH_UNDERSCORE
  | LETTER_DIGIT_DOT
  | LETTER_DIGIT_DOT_PLUS_MINUS
  | LETTER_DIGIT_DOT_UNDERSCORE
  | LETTER_DIGIT_UNDERSCORE
  | LOWERLETTER
  | LOWERLETTER_DIGIT
  | LOWERLETTER_DIGIT_UNDERSCORE
  | NON_ZERO_DIGIT
  | SPACE
  | UPPERLETTER

definition IsLowerLetter :: "char \<Rightarrow> bool" where
  "IsLowerLetter ch \<longleftrightarrow> 97 \<le> ord_of ch \<and> ord_of ch \<le> 122"

definition IsUpperLetter :: "char \<Rightarrow> bool" where
  "IsUpperLetter ch \<longleftrightarrow> 65 \<le> ord_of ch \<and> ord_of ch \<le> 90"

definition IsLetter :: "char \<Rightarrow> bool" where
  "IsLetter ch \<longleftrightarrow> IsLowerLetter ch \<or> IsUpperLetter ch"

definition IsDigit :: "char \<Rightarrow> bool" where
  "IsDigit ch \<longleftrightarrow> 48 \<le> ord_of ch \<and> ord_of ch \<le> 57"

definition IsSpace :: "char \<Rightarrow> bool" where
  "IsSpace ch \<longleftrightarrow> ch \<in> {CHR '' '', CHR 0x09, CHR 0x0A, CHR 0x0B, CHR 0x0C, CHR 0x0D}"

fun Matches :: "char_class \<Rightarrow> char \<Rightarrow> bool" where
  "Matches ALL_CHARS ch \<longleftrightarrow> True"
| "Matches DIGIT ch \<longleftrightarrow> IsDigit ch"
| "Matches LETTER ch \<longleftrightarrow> IsLetter ch"
| "Matches LETTER_DIGIT ch \<longleftrightarrow> IsLetter ch \<or> IsDigit ch"
| "Matches LETTER_DIGIT_DASH_UNDERSCORE ch \<longleftrightarrow> IsLetter ch \<or> IsDigit ch \<or> ch = CHR ''-'' \<or> ch = CHR ''_''"
| "Matches LETTER_DIGIT_DASH_DOT_SLASH ch \<longleftrightarrow>
     IsLetter ch \<or> IsDigit ch \<or> ch = CHR ''-'' \<or> ch = CHR ''.'' \<or> ch = CHR ''/''"
| "Matches LETTER_DIGIT_DASH_DOT_SLASH_UNDERSCORE ch \<longleftrightarrow>
     IsLetter ch \<or> IsDigit ch \<or> ch = CHR ''-'' \<or> ch = CHR ''.'' \<or> ch = CHR ''/'' \<or> ch = CHR ''_''"
| "Matches LETTER_DIGIT_DOT ch \<longleftrightarrow> IsLetter ch \<or> IsDigit ch \<or> ch = CHR ''.''"
| "Matches LETTER_DIGIT_DOT_PLUS_MINUS ch \<longleftrightarrow>
     IsLetter ch \<or> IsDigit ch \<or> ch = CHR ''+'' \<or> ch = CHR ''-'' \<or> ch = CHR ''.''"
| "Matches LETTER_DIGIT_DOT_UNDERSCORE ch \<longleftrightarrow> IsLetter ch \<or> IsDigit ch \<or> ch = CHR ''.'' \<or> ch = CHR ''_''"
| "Matches LETTER_DIGIT_UNDERSCORE ch \<longleftrightarrow> IsLetter ch \<or> IsDigit ch \<or> ch = CHR ''_''"
| "Matches LOWERLETTER ch \<longleftrightarrow> IsLowerLetter ch"
| "Matches LOWERLETTER_DIGIT ch \<longleftrightarrow> IsLowerLetter ch \<or> IsDigit ch"
| "Matches LOWERLETTER_DIGIT_UNDERSCORE ch \<longleftrightarrow> IsLowerLetter ch \<or> IsDigit ch \<or> ch = CHR ''_''"
| "Matches NON_ZERO_DIGIT ch \<longleftrightarrow> IsDigit ch \<and> ch \<noteq> CHR ''0''"
| "Matches SPACE ch \<longleftrightarrow> IsSpace ch"
| "Matches UPPERLETTER ch \<longleftrightarrow> IsUpperLetter ch"

record scanner =
  sc_cur :: piece
  sc_capture_start :: nat
  sc_capture_end :: "nat option"
  sc_error :: bool

definition RestartCapture :: "scanner \<Rightarrow> scanner" where
  "RestartCapture s = s\<lparr>sc_capture_start := p_data (sc_cur s), sc_capture_end := None\<rparr>"

definition Scanner :: "piece \<Rightarrow> scanner" where
  "Scanner source =
     RestartCapture \<lparr>sc_cur = source, sc_capture_start = 0, sc_capture_end = None, sc_error = False\<rparr>"

definition Scan_Error :: "scanner \<Rightarrow> scanner" where
  "Scan_Error s = s\<lparr>sc_error := True\<rparr>"

definition One :: "string \<Rightarrow> char_class \<Rightarrow> scanner \<Rightarrow> scanner" where
  "One mem clz s =
     (if p_size (sc_cur s) = 0 \<or> \<not> Matches clz (mem ! p_data (sc_cur s)) then Scan_Error s
      else s\<lparr>sc_cur := remove_prefix 1 (sc_cur s)\<rparr>)"

definition ZeroOrOneLiteral :: "string \<Rightarrow> string \<Rightarrow> scanner \<Rightarrow> scanner" where
  "ZeroOrOneLiteral mem x s = s\<lparr>sc_cur := snd (Consume mem x (sc_cur s))\<rparr>"

definition OneLiteral :: "string \<Rightarrow> string \<Rightarrow> scanner \<Rightarrow> scanner" where
  "OneLiteral mem x s =
     (let (found, cur) = Consume mem x (sc_cur s) in
      if \<not> found then Scan_Error s else s\<lparr>sc_cur := cur\<rparr>)"

function any_loop :: "string \<Rightarrow> char_class \<Rightarrow> piece \<Rightarrow> piece" where
  "any_loop mem clz cur =
     (if p_size cur \<noteq> 0 \<and> Matches clz (mem ! p_data cur) then any_loop mem clz (remove_prefix 1 cur) else cur)"
  by pat_completeness auto
termination
  by (relation "measure (\<lambda>(_, _, cur). p_size cur)") (auto simp: remove_prefix_def)

declare any_loop.simps [simp del]

definition Any :: "string \<Rightarrow> char_class \<Rightarrow> scanner \<Rightarrow> scanner" where
  "Any mem clz s = s\<lparr>sc_cur := any_loop mem clz (sc_cur s)\<rparr>"

definition Many :: "string \<Rightarrow> char_class \<Rightarrow> scanner \<Rightarrow> scanner" where
  "Many mem clz s = Any mem clz (One mem clz s)"

definition StopCapture :: "scanner \<Rightarrow> scanner" where
  "StopCapture s = s\<lparr>sc_capture_end := Some (p_data (sc_cur s))\<rparr>"

definition Eos :: "scanner \<Rightarrow> scanner" where
  "Eos s = (if p_size (sc_cur s) \<noteq> 0 then Scan_Error s else s)"

definition AnySpace :: "string \<Rightarrow> scanner \<Rightarrow> scanner" where
  "AnySpace mem = Any mem SPACE"

text \<open>\<open>ScanUntilImpl\<close> on the current slice; \<open>True\<close> says that it called \<open>Error\<close>.\<close>

function until_loop :: "string \<Rightarrow> char \<Rightarrow> bool \<Rightarrow> piece \<Rightarrow> bool \<times> piece" where
  "until_loop mem end_ch escaped cur =
     (if p_size cur = 0 then (True, cur)
      else
        let ch = mem ! p_data cur in
        if ch = end_ch then (False, cur)
        else
          let cur' = remove_prefix 1 cur in
          if escaped \<and> ch = CHR 0x5C then
            if p_size cur' = 0 then (True, cur') else until_loop mem end_ch escaped (remove_prefix 1 cur')
          else until_loop mem end_ch escaped cur')"
  by pat_completeness auto
termination
  by (relation "measure (\<lambda>(_, _, _, cur). p_size cur)") (auto simp: remove_prefix_def)

declare until_loop.simps [simp del]

definition ScanUntilImpl :: "string \<Rightarrow> char \<Rightarrow> bool \<Rightarrow> scanner \<Rightarrow> scanner" where
  "ScanUntilImpl mem end_ch escaped s =
     (let (failed, cur) = until_loop mem end_ch escaped (sc_cur s);
          s' = s\<lparr>sc_cur := cur\<rparr> in
      if failed then Scan_Error s' else s')"

definition ScanUntil :: "string \<Rightarrow> char \<Rightarrow> scanner \<Rightarrow> scanner" where
  "ScanUntil mem end_ch = ScanUntilImpl mem end_ch False"

definition ScanEscapedUntil :: "string \<Rightarrow> char \<Rightarrow> scanner \<Rightarrow> scanner" where
  "ScanEscapedUntil mem end_ch = ScanUntilImpl mem end_ch True"

definition Peek :: "string \<Rightarrow> char \<Rightarrow> scanner \<Rightarrow> char" where
  "Peek mem default_value s =
     (if p_size (sc_cur s) = 0 then default_value else mem ! p_data (sc_cur s))"

text \<open>The remaining slice and the capture, when nothing failed.\<close>

definition GetResult :: "scanner \<Rightarrow> (piece \<times> piece) option" where
  "GetResult s =
     (if sc_error s then None
      else
        let e = (case sc_capture_end s of None \<Rightarrow> p_data (sc_cur s) | Some e \<Rightarrow> e) in
        Some (sc_cur s, \<lparr>p_data = sc_capture_start s, p_size = e - sc_capture_start s\<rparr>))"

section \<open>Lemmas\<close>

lemma length_text_of: "piece_in mem p \<Longrightarrow> length (text_of mem p) = p_size p"
  by (simp add: text_of_def piece_in_def)

lemma text_of_Cons:
  "piece_in mem p \<Longrightarrow> p_size p \<noteq> 0 \<Longrightarrow> text_of mem p = mem ! p_data p # text_of mem (remove_prefix 1 p)"
  by (cases "p_size p") (auto simp: text_of_def remove_prefix_def piece_in_def take_Suc Cons_nth_drop_Suc [symmetric])

lemma piece_in_remove_prefix: "piece_in mem p \<Longrightarrow> n \<le> p_size p \<Longrightarrow> piece_in mem (remove_prefix n p)"
  by (simp add: piece_in_def remove_prefix_def)

lemma text_remove_prefix: "text_of mem (remove_prefix n p) = drop n (text_of mem p)"
  by (simp add: text_of_def remove_prefix_def drop_take add.commute)

lemma starts_with_iff:
  "piece_in mem p \<Longrightarrow> starts_with mem p x \<longleftrightarrow> take (length x) (text_of mem p) = x"
proof -
  assume p: "piece_in mem p"
  have "list_all2 (=) (take (length x) (drop (p_data p) mem)) x \<longleftrightarrow> take (length x) (drop (p_data p) mem) = x"
    by (simp add: list.rel_eq)
  moreover have "length x \<le> p_size p" if "take (length x) (text_of mem p) = x"
    using arg_cong [OF that, of length] length_text_of [OF p] by simp
  moreover have "take (length x) (text_of mem p) = take (length x) (drop (p_data p) mem)" if "length x \<le> p_size p"
    using that by (simp add: text_of_def min_def)
  ultimately show ?thesis by (auto simp: starts_with_def)
qed

lemma text_whole [simp]: "text_of s (whole s) = s" "piece_in s (whole s)"
  by (simp_all add: text_of_def whole_def piece_in_def)

lemma rfind_loop_Some:
  "rfind_loop mem data c n = Some i \<Longrightarrow> i \<le> n \<and> mem ! (data + i) = c \<and> (\<forall>j. i < j \<and> j \<le> n \<longrightarrow> mem ! (data + j) \<noteq> c)"
  by (induction n) (auto split: if_splits simp: le_Suc_eq)

lemma rfind_loop_None: "rfind_loop mem data c n = None \<Longrightarrow> j \<le> n \<Longrightarrow> mem ! (data + j) \<noteq> c"
  by (induction n) (auto split: if_splits simp: le_Suc_eq)

text \<open>\<open>rfind\<close> finds the last occurrence in the text.\<close>

lemma rfind_None:
  assumes "piece_in mem p"
  shows "rfind mem c p = None \<longleftrightarrow> c \<notin> set (text_of mem p)"
proof
  assume n: "rfind mem c p = None"
  show "c \<notin> set (text_of mem p)"
  proof
    assume "c \<in> set (text_of mem p)"
    then obtain j where "j < p_size p" "mem ! (p_data p + j) = c"
      using assms by (auto simp: in_set_conv_nth text_of_def piece_in_def)
    then have "j \<le> p_size p - 1" by simp
    with n rfind_loop_None [of mem "p_data p" c "p_size p - 1" j] \<open>j < p_size p\<close> \<open>mem ! (p_data p + j) = c\<close>
    show False by (auto simp: rfind_def split: if_splits)
  qed
next
  assume c: "c \<notin> set (text_of mem p)"
  show "rfind mem c p = None"
  proof (rule ccontr)
    assume "rfind mem c p \<noteq> None"
    then obtain i where "rfind_loop mem (p_data p) c (p_size p - 1) = Some i" "p_size p \<noteq> 0"
      by (auto simp: rfind_def split: if_splits)
    with rfind_loop_Some [OF this(1)] have "i < p_size p" "mem ! (p_data p + i) = c" by auto
    with assms have "text_of mem p ! i = c" "i < length (text_of mem p)"
      by (simp_all add: text_of_def piece_in_def)
    with c show False by (metis nth_mem)
  qed
qed

lemma rfind_Some:
  assumes "piece_in mem p" "rfind mem c p = Some i"
  shows "\<exists>xs ys. text_of mem p = xs @ c # ys \<and> length xs = i \<and> c \<notin> set ys"
proof -
  from assms(2) have r: "rfind_loop mem (p_data p) c (p_size p - 1) = Some i" "p_size p \<noteq> 0"
    by (auto simp: rfind_def split: if_splits)
  let ?t = "text_of mem p"
  note l = rfind_loop_Some [OF r(1)]
  have len: "length ?t = p_size p" by (rule length_text_of [OF assms(1)])
  have nth: "?t ! j = mem ! (p_data p + j)" if "j < p_size p" for j
    using that assms(1) by (simp add: text_of_def piece_in_def)
  have i: "i < length ?t" using l r(2) len by linarith
  then have "?t = take i ?t @ c # drop (Suc i) ?t" using nth [of i] l len id_take_nth_drop [OF i] by metis
  moreover have "c \<notin> set (drop (Suc i) ?t)"
  proof
    assume "c \<in> set (drop (Suc i) ?t)"
    then obtain j where "j < length ?t - Suc i" "?t ! (Suc i + j) = c" by (auto simp: in_set_conv_nth)
    moreover from this have "i < Suc i + j" "Suc i + j \<le> p_size p - 1" "Suc i + j < p_size p" using len by auto
    ultimately show False using l nth [of "Suc i + j"] by metis
  qed
  ultimately show ?thesis using i by (intro exI [of _ "take i ?t"] exI [of _ "drop (Suc i) ?t"]) simp
qed

lemma any_loop_text:
  "piece_in mem cur \<Longrightarrow> any_loop mem clz cur = remove_prefix (length (takeWhile (Matches clz) (text_of mem cur))) cur"
proof (induction mem clz cur rule: any_loop.induct)
  case (1 mem clz cur)
  show ?case
  proof (cases "p_size cur \<noteq> 0 \<and> Matches clz (mem ! p_data cur)")
    case True
    with 1 have "any_loop mem clz (remove_prefix 1 cur) =
        remove_prefix (length (takeWhile (Matches clz) (text_of mem (remove_prefix 1 cur)))) (remove_prefix 1 cur)"
      using piece_in_remove_prefix [of mem cur 1] by simp
    with True text_of_Cons [OF 1(2)] show ?thesis
      by (subst any_loop.simps) (simp add: remove_prefix_def)
  next
    case False
    then have "takeWhile (Matches clz) (text_of mem cur) = []"
      using text_of_Cons [OF 1(2)] by (cases "p_size cur = 0") (auto simp: text_of_def)
    moreover have "any_loop mem clz cur = cur" using False by (subst any_loop.simps) auto
    ultimately show ?thesis by (simp add: remove_prefix_def)
  qed
qed

text \<open>Without escapes \<open>ScanUntilImpl\<close> stops before the first \<open>end_ch\<close> and fails if there is none.\<close>

lemma until_loop_text:
  "piece_in mem cur \<Longrightarrow>
   until_loop mem c False cur =
     (c \<notin> set (text_of mem cur), remove_prefix (length (takeWhile (\<lambda>x. x \<noteq> c) (text_of mem cur))) cur)"
proof (induction mem c False cur rule: until_loop.induct)
  case (1 mem c cur)
  show ?case
  proof (cases "p_size cur = 0")
    case True
    then show ?thesis by (subst until_loop.simps) (simp add: text_of_def remove_prefix_def)
  next
    case False
    note t = text_of_Cons [OF 1(3) False]
    show ?thesis
    proof (cases "mem ! p_data cur = c")
      case True
      with False t show ?thesis by (subst until_loop.simps) (simp add: remove_prefix_def)
    next
      case ne: False
      from 1(2) [OF False refl ne refl] piece_in_remove_prefix [OF 1(3), of 1] False
      have "until_loop mem c False (remove_prefix 1 cur) =
        (c \<notin> set (text_of mem (remove_prefix 1 cur)),
         remove_prefix (length (takeWhile (\<lambda>x. x \<noteq> c) (text_of mem (remove_prefix 1 cur)))) (remove_prefix 1 cur))"
        by simp
      with False ne t show ?thesis
        by (subst until_loop.simps) (auto simp: Let_def remove_prefix_def)
    qed
  qed
qed

end
