(* ===== verification/Path.thy ===== *)
theory Path
  imports String_Scanner
begin

text \<open>
  File names and URIs: \<^verbatim>\<open>tensorflow/core/lib/io/path.cc\<close> without \<open>CleanPath\<close>, which has its
  own theory. The slices that the functions return point into the argument.
\<close>

definition IsAbsolutePath :: "string \<Rightarrow> bool" where
  "IsAbsolutePath path \<longleftrightarrow> path \<noteq> [] \<and> path ! 0 = CHR ''/''"

fun JoinPath_loop :: "string \<Rightarrow> string list \<Rightarrow> string res" where
  "JoinPath_loop result [] = ret result"
| "JoinPath_loop result (path # paths) =
     (if path = [] then JoinPath_loop result paths
      else if result = [] then JoinPath_loop path paths
      else
        bnd (if result ! (length result - 1) = CHR ''/'' then
               if IsAbsolutePath path then ret (StrAppend1 result (drop 1 path)) else ret (StrAppend1 result path)
             else
               if IsAbsolutePath path then ret (StrAppend1 result path) else StrAppend2 result ''/'' path)
          (\<lambda>result'. JoinPath_loop result' paths))"

definition JoinPathImpl :: "string list \<Rightarrow> string res" where
  "JoinPathImpl paths = JoinPath_loop [] paths"

definition ParseURI :: "string \<Rightarrow> piece \<Rightarrow> piece \<times> piece \<times> piece" where
  "ParseURI mem remaining =
     (case GetResult (OneLiteral mem ''://'' (StopCapture (Many mem LETTER_DIGIT_DOT (One mem LETTER (Scanner remaining))))) of
        None \<Rightarrow> (\<lparr>p_data = p_data remaining, p_size = 0\<rparr>, \<lparr>p_data = p_data remaining, p_size = 0\<rparr>, remaining)
      | Some (remaining1, scheme) \<Rightarrow>
          (case GetResult (ScanUntil mem CHR ''/'' (Scanner remaining1)) of
             None \<Rightarrow> (scheme, remaining1, \<lparr>p_data = p_end remaining1, p_size = 0\<rparr>)
           | Some (remaining2, host) \<Rightarrow> (scheme, host, remaining2)))"

definition CreateURI :: "string \<Rightarrow> string \<Rightarrow> string \<Rightarrow> string res" where
  "CreateURI scheme host path = (if scheme = [] then ret path else StrCat4 scheme ''://'' host path)"

definition SplitPath :: "string \<Rightarrow> piece \<Rightarrow> piece \<times> piece" where
  "SplitPath mem uri =
     (let (scheme, host, path) = ParseURI mem uri in
      case rfind mem CHR ''/'' path of
        None \<Rightarrow> (\<lparr>p_data = p_data uri, p_size = p_end host - p_data uri\<rparr>, path)
      | Some pos \<Rightarrow>
          if pos = 0 then
            (\<lparr>p_data = p_data uri, p_size = p_data path + 1 - p_data uri\<rparr>,
             \<lparr>p_data = p_data path + 1, p_size = p_size path - 1\<rparr>)
          else
            (\<lparr>p_data = p_data uri, p_size = p_data path + pos - p_data uri\<rparr>,
             \<lparr>p_data = p_data path + pos + 1, p_size = p_size path - (pos + 1)\<rparr>))"

definition Dirname :: "string \<Rightarrow> piece \<Rightarrow> piece" where
  "Dirname mem path = fst (SplitPath mem path)"

definition Basename :: "string \<Rightarrow> piece \<Rightarrow> piece" where
  "Basename mem path = snd (SplitPath mem path)"

definition SplitBasename :: "string \<Rightarrow> piece \<Rightarrow> piece \<times> piece" where
  "SplitBasename mem path0 =
     (let path = Basename mem path0 in
      case rfind mem CHR ''.'' path of
        None \<Rightarrow> (path, \<lparr>p_data = p_data path + p_size path, p_size = 0\<rparr>)
      | Some pos \<Rightarrow>
          (\<lparr>p_data = p_data path, p_size = pos\<rparr>,
           \<lparr>p_data = p_data path + pos + 1, p_size = p_size path - (pos + 1)\<rparr>))"

definition Extension :: "string \<Rightarrow> piece \<Rightarrow> piece" where
  "Extension mem path = snd (SplitBasename mem path)"

section \<open>The parts of a URI\<close>

definition scheme_chars :: "string \<Rightarrow> string" where
  "scheme_chars t = takeWhile (Matches LETTER_DIGIT_DOT) t"

definition has_scheme :: "string \<Rightarrow> bool" where
  "has_scheme t \<longleftrightarrow> 2 \<le> length (scheme_chars t) \<and> IsLetter (hd t) \<and>
     take 3 (drop (length (scheme_chars t)) t) = ''://''"

definition uri_parts :: "string \<Rightarrow> string \<times> string \<times> string" where
  "uri_parts t =
     (if has_scheme t then
        let rest = drop (length (scheme_chars t) + 3) t in
        (scheme_chars t, takeWhile (\<lambda>c. c \<noteq> CHR ''/'') rest, dropWhile (\<lambda>c. c \<noteq> CHR ''/'') rest)
      else ([], [], t))"

lemma remove_prefix_add [simp]: "remove_prefix m (remove_prefix n p) = remove_prefix (n + m) p"
  by (simp add: remove_prefix_def)

lemma remove_prefix_sel [simp]:
  "p_data (remove_prefix n p) = p_data p + n" "p_size (remove_prefix n p) = p_size p - n"
  by (simp_all add: remove_prefix_def)

text \<open>The scanner chain of the scheme.\<close>

lemma error_sticky [simp]:
  "sc_error s \<Longrightarrow> sc_error (One mem c s)" "sc_error (Any mem c s) = sc_error s"
  "sc_error s \<Longrightarrow> sc_error (Many mem c s)" "sc_error (StopCapture s) = sc_error s"
  "sc_error s \<Longrightarrow> sc_error (OneLiteral mem x s)" "sc_error (Scan_Error s)" "sc_error s \<Longrightarrow> GetResult s = None"
  by (auto simp: One_def Any_def Many_def StopCapture_def OneLiteral_def Scan_Error_def GetResult_def Consume_def)

lemma Letter_matches: "IsLetter c \<Longrightarrow> Matches LETTER_DIGIT_DOT c"
  by simp

lemma scheme_scan:
  assumes "piece_in mem p"
  shows "GetResult (OneLiteral mem ''://'' (StopCapture (Many mem LETTER_DIGIT_DOT (One mem LETTER (Scanner p))))) =
    (let t = text_of mem p; k = length (scheme_chars t) in
     if has_scheme t then Some (remove_prefix (k + 3) p, \<lparr>p_data = p_data p, p_size = k\<rparr>) else None)"
proof (cases "p_size p = 0 \<or> \<not> IsLetter (mem ! p_data p)")
  case True
  then have "sc_error (One mem LETTER (Scanner p))"
    by (simp add: One_def Scanner_def RestartCapture_def)
  moreover have "\<not> has_scheme (text_of mem p)"
    using True text_of_Cons [OF assms] by (cases "p_size p = 0") (auto simp: has_scheme_def scheme_chars_def text_of_def)
  ultimately show ?thesis by simp
next
  case first: False
  note t = text_of_Cons [OF assms] and in1 = piece_in_remove_prefix [OF assms, of 1]
  let ?s1 = "(Scanner p)\<lparr>sc_cur := remove_prefix 1 p\<rparr>" and ?p1 = "remove_prefix 1 p"
  have s1: "One mem LETTER (Scanner p) = ?s1"
    using first by (simp add: One_def Scanner_def RestartCapture_def)
  show ?thesis
  proof (cases "p_size ?p1 = 0 \<or> \<not> Matches LETTER_DIGIT_DOT (mem ! p_data ?p1)")
    case True
    then have "sc_error (One mem LETTER_DIGIT_DOT ?s1)" by (auto simp: One_def)
    moreover have "takeWhile (Matches LETTER_DIGIT_DOT) (text_of mem ?p1) = []"
    proof (cases "p_size ?p1 = 0")
      case False
      with True text_of_Cons [OF in1 False] first show ?thesis by simp
    qed (simp add: text_of_def)
    then have "\<not> has_scheme (text_of mem p)"
      using t first by (auto simp: has_scheme_def scheme_chars_def)
    ultimately show ?thesis by (simp add: s1 Many_def)
  next
    case second: False
    let ?k = "length (scheme_chars (text_of mem p))"
    have in2: "piece_in mem (remove_prefix 2 p)" using assms second by (intro piece_in_remove_prefix) auto
    have t2: "text_of mem p = mem ! p_data p # mem ! p_data ?p1 # text_of mem (remove_prefix 2 p)"
      using t text_of_Cons [OF in1] first second by (simp add: numeral_2_eq_2)
    have k: "?k = 2 + length (takeWhile (Matches LETTER_DIGIT_DOT) (text_of mem (remove_prefix 2 p)))"
      unfolding t2 scheme_chars_def using first second by simp
    have many: "Many mem LETTER_DIGIT_DOT ?s1 = ?s1\<lparr>sc_cur := remove_prefix ?k p\<rparr>"
      using second any_loop_text [OF in2, of LETTER_DIGIT_DOT] first
      by (simp add: Many_def Any_def One_def k numeral_2_eq_2 del: Matches.simps)
    have "?k \<le> length (text_of mem p)" unfolding scheme_chars_def by (rule length_takeWhile_le)
    then have ink: "piece_in mem (remove_prefix ?k p)"
      using length_text_of [OF assms] by (intro piece_in_remove_prefix [OF assms]) simp
    have "starts_with mem (remove_prefix ?k p) ''://'' \<longleftrightarrow> has_scheme (text_of mem p)"
      unfolding starts_with_iff [OF ink] text_remove_prefix has_scheme_def using t first k by (simp add: numeral_3_eq_3)
    then show ?thesis unfolding s1 many
      by (simp add: StopCapture_def OneLiteral_def Consume_def GetResult_def Scan_Error_def Scanner_def
          RestartCapture_def Let_def)
  qed
qed

lemma until_scan:
  assumes "piece_in mem p"
  shows "GetResult (ScanUntil mem c (Scanner p)) =
    (let k = length (takeWhile (\<lambda>x. x \<noteq> c) (text_of mem p)) in
     if c \<in> set (text_of mem p) then Some (remove_prefix k p, \<lparr>p_data = p_data p, p_size = k\<rparr>) else None)"
  using until_loop_text [OF assms, of c]
  by (simp add: ScanUntil_def ScanUntilImpl_def Scanner_def RestartCapture_def GetResult_def Scan_Error_def Let_def)

lemma ParseURI_parts:
  assumes "piece_in mem uri" "ParseURI mem uri = (scheme, host, path)"
  shows "(text_of mem scheme, text_of mem host, text_of mem path) = uri_parts (text_of mem uri)"
    "p_end host = p_data path \<and> p_end path = p_end uri \<and> p_data uri \<le> p_data path"
proof -
  define t where "t = text_of mem uri"
  define k where "k = length (scheme_chars t)"
  have len: "length t = p_size uri" using length_text_of [OF assms(1)] by (simp add: t_def)
  have "(text_of mem scheme, text_of mem host, text_of mem path) = uri_parts t \<and>
    p_end host = p_data path \<and> p_end path = p_end uri \<and> p_data uri \<le> p_data path"
  proof (cases "has_scheme t")
    case False
    with assms(2) show ?thesis
      by (auto simp: ParseURI_def scheme_scan [OF assms(1)] uri_parts_def text_of_def p_end_def t_def Let_def)
  next
    case True
    let ?r = "remove_prefix (k + 3) uri" and ?rest = "drop (k + 3) t"
    from True have "length (take 3 (drop k t)) = 3" by (simp add: has_scheme_def k_def)
    then have k: "k + 3 \<le> p_size uri" using len by simp
    have inr: "piece_in mem ?r" by (rule piece_in_remove_prefix [OF assms(1) k])
    have tr: "text_of mem ?r = ?rest" by (simp add: text_remove_prefix t_def)
    have sch: "text_of mem \<lparr>p_data = p_data uri, p_size = k\<rparr> = scheme_chars t"
    proof -
      have "text_of mem \<lparr>p_data = p_data uri, p_size = k\<rparr> = take k t"
        using k by (simp add: text_of_def t_def min_def)
      then show ?thesis by (simp add: k_def scheme_chars_def takeWhile_eq_take [symmetric])
    qed
    let ?sp = "\<lparr>p_data = p_data uri, p_size = k\<rparr>" and ?m = "length (takeWhile (\<lambda>c. c \<noteq> CHR ''/'') ?rest)"
    have parts: "uri_parts t = (scheme_chars t, takeWhile (\<lambda>c. c \<noteq> CHR ''/'') ?rest, dropWhile (\<lambda>c. c \<noteq> CHR ''/'') ?rest)"
      using True by (simp add: uri_parts_def k_def Let_def)
    show ?thesis
    proof (cases "CHR ''/'' \<in> set ?rest")
      case slash: True
      have "ParseURI mem uri = (?sp, \<lparr>p_data = p_data ?r, p_size = ?m\<rparr>, remove_prefix ?m ?r)"
        using True slash unfolding ParseURI_def scheme_scan [OF assms(1)] Let_def t_def [symmetric] k_def [symmetric]
        by (simp add: until_scan [OF inr] tr Let_def del: remove_prefix_add)
      moreover have "text_of mem \<lparr>p_data = p_data ?r, p_size = ?m\<rparr> = takeWhile (\<lambda>c. c \<noteq> CHR ''/'') ?rest"
      proof -
        have "?m \<le> p_size ?r" using length_takeWhile_le [of _ ?rest] len by simp
        then have "text_of mem \<lparr>p_data = p_data ?r, p_size = ?m\<rparr> = take ?m (text_of mem ?r)"
          by (simp add: text_of_def min_def)
        then show ?thesis by (simp add: tr takeWhile_eq_take [symmetric])
      qed
      moreover have "text_of mem (remove_prefix ?m ?r) = dropWhile (\<lambda>c. c \<noteq> CHR ''/'') ?rest"
        by (simp add: text_remove_prefix t_def dropWhile_eq_drop add.commute)
      moreover have "?m \<le> p_size uri - (k + 3)" using length_takeWhile_le [of _ ?rest] len by simp
      ultimately show ?thesis using assms(2) sch parts k by (auto simp: p_end_def)
    next
      case False
      have "ParseURI mem uri = (?sp, ?r, \<lparr>p_data = p_end ?r, p_size = 0\<rparr>)"
        using True False unfolding ParseURI_def scheme_scan [OF assms(1)] Let_def t_def [symmetric] k_def [symmetric]
        by (simp add: until_scan [OF inr] tr Let_def)
      with assms(2) have e: "scheme = ?sp" "host = ?r" "path = \<lparr>p_data = p_end ?r, p_size = 0\<rparr>" by auto
      have w: "takeWhile (\<lambda>c. c \<noteq> CHR ''/'') ?rest = ?rest" "dropWhile (\<lambda>c. c \<noteq> CHR ''/'') ?rest = []"
        using False by (auto simp: takeWhile_eq_all_conv)
      have "text_of mem \<lparr>p_data = x, p_size = 0\<rparr> = []" for x by (simp add: text_of_def)
      then show ?thesis unfolding e parts w tr sch using k by (simp add: p_end_def)
    qed
  qed
  then show "(text_of mem scheme, text_of mem host, text_of mem path) = uri_parts (text_of mem uri)"
    "p_end host = p_data path \<and> p_end path = p_end uri \<and> p_data uri \<le> p_data path"
    by (simp_all add: t_def)
qed
lemma uri_parts_join:
  assumes "uri_parts t = (s, h, p)"
  shows "t = (if s = [] then p else s @ ''://'' @ h @ p)"
proof (cases "has_scheme t")
  case True
  let ?k = "length (scheme_chars t)"
  have "t = take ?k t @ take 3 (drop ?k t) @ drop (?k + 3) t"
    using append_take_drop_id [of ?k t] append_take_drop_id [of 3 "drop ?k t"] by (simp add: add.commute)
  moreover have "take ?k t = scheme_chars t" by (simp add: scheme_chars_def takeWhile_eq_take [symmetric])
  moreover have "take 3 (drop ?k t) = ''://''" "scheme_chars t \<noteq> []" using True by (auto simp: has_scheme_def)
  ultimately show ?thesis using assms True by (auto simp: uri_parts_def Let_def)
qed (use assms in \<open>simp add: uri_parts_def\<close>)

lemma uri_parts_valid:
  assumes "2 \<le> length s" "IsLetter (hd s)" "list_all (Matches LETTER_DIGIT_DOT) s" "CHR ''/'' \<notin> set h"
    "p = [] \<or> hd p = CHR ''/''"
  shows "uri_parts (s @ ''://'' @ h @ p) = (s, h, p)"
proof -
  have colon: "\<not> Matches LETTER_DIGIT_DOT CHR '':''"
    by (simp add: IsLetter_def IsLowerLetter_def IsUpperLetter_def IsDigit_def)
  have sc: "scheme_chars (s @ ''://'' @ h @ p) = s"
    using assms(3) colon unfolding scheme_chars_def by (subst takeWhile_append2) (auto simp: list_all_iff)
  have "has_scheme (s @ ''://'' @ h @ p)"
    unfolding has_scheme_def sc using assms(1,2) by (cases s) auto
  moreover have "takeWhile (\<lambda>c. c \<noteq> CHR ''/'') (h @ p) = h" "dropWhile (\<lambda>c. c \<noteq> CHR ''/'') (h @ p) = p"
    using assms(4,5) by (cases p; force simp: takeWhile_append dropWhile_append takeWhile_eq_all_conv)+
  moreover have "drop (length s + 3) (s @ ''://'' @ h @ p) = h @ p" by simp
  ultimately show ?thesis unfolding uri_parts_def sc Let_def by (simp only: if_True)
qed

lemma SplitPath_texts:
  assumes "SplitPath s (whole s) = (dir, base)"
  shows "piece_in s base \<and> CHR ''/'' \<notin> set (text_of s base) \<and>
    (s = text_of s dir @ text_of s base \<or> s = text_of s dir @ ''/'' @ text_of s base)"
proof -
  obtain scheme host path where u: "ParseURI s (whole s) = (scheme, host, path)" by (cases "ParseURI s (whole s)")
  note p = ParseURI_parts(2) [OF text_whole(2) u]
  have pd: "p_data path + p_size path = length s" "p_end host = p_data path" using p by (auto simp: p_end_def whole_def)
  then have inp: "piece_in s path" by (simp add: piece_in_def)
  have tp: "text_of s path = drop (p_data path) s" using pd(1) by (simp add: text_of_def)
  show ?thesis
  proof (cases "rfind s CHR ''/'' path")
    case None
    with assms u pd show ?thesis
      using rfind_None [OF inp, of "CHR ''/''"] inp by (auto simp: SplitPath_def text_of_def whole_def tp)
  next
    case (Some i)
    from rfind_Some [OF inp Some] obtain xs ys where
      x: "text_of s path = xs @ CHR ''/'' # ys" "length xs = i" "CHR ''/'' \<notin> set ys" by blast
    have s: "s = take (p_data path) s @ xs @ CHR ''/'' # ys" using append_take_drop_id [of "p_data path" s] tp x(1) by simp
    have i: "i < p_size path" using length_text_of [OF inp] x(1,2) by simp
    have base: "text_of s base = ys" "piece_in s base"
    proof -
      have b: "base = \<lparr>p_data = p_data path + i + 1, p_size = p_size path - (i + 1)\<rparr>"
        using assms u Some by (cases "i = 0") (auto simp: SplitPath_def)
      then have "text_of s base = drop (i + 1) (text_of s path)"
        using pd(1) i by (simp add: text_of_def drop_take add.commute)
      then show "text_of s base = ys" using x(1,2) by simp
      show "piece_in s base" unfolding b using pd(1) i by (simp add: piece_in_def)
    qed
    show ?thesis
    proof (cases "i = 0")
      case True
      with assms u Some have "dir = \<lparr>p_data = 0, p_size = p_data path + 1\<rparr>" by (auto simp: SplitPath_def whole_def)
      then have "text_of s dir = take (p_data path) s @ ''/''"
        using True x(2) pd(1) i by (subst (1 2) s) (simp add: text_of_def)
      with base x(2,3) s True show ?thesis by auto
    next
      case False
      with assms u Some have "dir = \<lparr>p_data = 0, p_size = p_data path + i\<rparr>" by (auto simp: SplitPath_def whole_def)
      then have "text_of s dir = take (p_data path) s @ xs"
        using x(2) pd(1) i by (subst (1 2) s) (simp add: text_of_def)
      with base x(3) s show ?thesis by auto
    qed
  qed
qed
section \<open>Properties\<close>

text \<open>
  Parsing and printing URIs: the parts that \<open>ParseURI\<close> finds always give the string
  back, and the parts of a printed URI with a scheme of at least two characters are found
  again. A scheme of one letter, which the comment in the code allows, is not recognised: then
  the whole string is the path.
\<close>

theorem uri_roundtrip:
  "(case ParseURI uri (whole uri) of (scheme, host, path) \<Rightarrow>
      CreateURI (text_of uri scheme) (text_of uri host) (text_of uri path)) = ret uri \<and>
   (2 \<le> length s \<and> IsLetter (hd s) \<and> list_all (Matches LETTER_DIGIT_DOT) s \<and> CHR ''/'' \<notin> set h \<and>
    (p = [] \<or> hd p = CHR ''/'') \<longrightarrow>
    (\<exists>u scheme host path. CreateURI s h p = ret u \<and> ParseURI u (whole u) = (scheme, host, path) \<and>
       text_of u scheme = s \<and> text_of u host = h \<and> text_of u path = p)) \<and>
   (case ParseURI ([c] @ ''://'' @ h) (whole ([c] @ ''://'' @ h)) of (scheme, host, path) \<Rightarrow>
      text_of ([c] @ ''://'' @ h) path = [c] @ ''://'' @ h)"
proof (intro conjI impI)
  obtain sc ho pa where u: "ParseURI uri (whole uri) = (sc, ho, pa)" by (cases "ParseURI uri (whole uri)")
  from ParseURI_parts(1) [OF text_whole(2) this] uri_parts_join [of uri "text_of uri sc" "text_of uri ho" "text_of uri pa"]
  have e: "uri = (if text_of uri sc = [] then text_of uri pa
      else text_of uri sc @ ''://'' @ text_of uri ho @ text_of uri pa)" by simp
  have "CreateURI a b c = ret (if a = [] then c else a @ ''://'' @ b @ c)" for a b c by (simp add: CreateURI_def)
  then show "(case ParseURI uri (whole uri) of (scheme, host, path) \<Rightarrow>
      CreateURI (text_of uri scheme) (text_of uri host) (text_of uri path)) = ret uri"
    unfolding u prod.case by (simp only: e [symmetric])
next
  assume v: "2 \<le> length s \<and> IsLetter (hd s) \<and> list_all (Matches LETTER_DIGIT_DOT) s \<and> CHR ''/'' \<notin> set h \<and>
    (p = [] \<or> hd p = CHR ''/'')"
  let ?u = "s @ ''://'' @ h @ p"
  obtain sc ho pa where u: "ParseURI ?u (whole ?u) = (sc, ho, pa)" by (cases "ParseURI ?u (whole ?u)")
  from ParseURI_parts(1) [OF text_whole(2) this] uri_parts_valid [of s h p] v
  have "text_of ?u sc = s \<and> text_of ?u ho = h \<and> text_of ?u pa = p" by simp
  moreover have "CreateURI s h p = ret ?u" using v by (auto simp: CreateURI_def)
  ultimately show "\<exists>u scheme host path. CreateURI s h p = ret u \<and> ParseURI u (whole u) = (scheme, host, path) \<and>
       text_of u scheme = s \<and> text_of u host = h \<and> text_of u path = p" using u by blast
next
  let ?u = "[c] @ ''://'' @ h"
  obtain sc ho pa where u: "ParseURI ?u (whole ?u) = (sc, ho, pa)" by (cases "ParseURI ?u (whole ?u)")
  have "length (scheme_chars ?u) \<le> 1"
    by (simp add: scheme_chars_def IsLetter_def IsLowerLetter_def IsUpperLetter_def IsDigit_def)
  then have "uri_parts ?u = ([], [], ?u)" by (simp add: uri_parts_def has_scheme_def)
  with ParseURI_parts(1) [OF text_whole(2) u] have "text_of ?u pa = ?u" by simp
  with u show "case ParseURI ?u (whole ?u) of (scheme, host, path) \<Rightarrow> text_of ?u path = ?u" by simp
qed

theorem uri_roundtrip_witness:
  "\<exists>u scheme host path. CreateURI ''gs'' ''bucket'' ''/a'' = ret u \<and> ParseURI u (whole u) = (scheme, host, path) \<and>
     text_of u scheme = ''gs'' \<and> text_of u host = ''bucket'' \<and> text_of u path = ''/a''"
proof -
  have "2 \<le> length ''gs'' \<and> IsLetter (hd ''gs'') \<and> list_all (Matches LETTER_DIGIT_DOT) ''gs'' \<and>
    CHR ''/'' \<notin> set ''bucket'' \<and> (''/a'' = [] \<or> hd ''/a'' = CHR ''/'')"
    by (simp add: IsLetter_def IsLowerLetter_def)
  with uri_roundtrip [of "''x''" "''gs''" "''bucket''" "''/a''" "CHR ''x''"] show ?thesis by blast
qed

text \<open>
  \<open>Dirname\<close> and \<open>Basename\<close> cut a string at its last separator: the base name
  contains none, and the two parts, with the separator between them where it was cut off, are
  the string. \<open>Extension\<close> contains no dot, and it is the end of the base name.
\<close>

theorem SplitPath_parts:
  "CHR ''/'' \<notin> set (text_of s (Basename s (whole s))) \<and>
   (s = text_of s (Dirname s (whole s)) @ text_of s (Basename s (whole s)) \<or>
    s = text_of s (Dirname s (whole s)) @ ''/'' @ text_of s (Basename s (whole s))) \<and>
   CHR ''.'' \<notin> set (text_of s (Extension s (whole s))) \<and>
   (\<exists>stem. text_of s (Basename s (whole s)) = stem @ text_of s (Extension s (whole s)))"
proof -
  obtain dir base where sp: "SplitPath s (whole s) = (dir, base)" by (cases "SplitPath s (whole s)")
  note t = SplitPath_texts [OF sp]
  have b: "Basename s (whole s) = base" "Dirname s (whole s) = dir" by (simp_all add: Basename_def Dirname_def sp)
  have "CHR ''.'' \<notin> set (text_of s (Extension s (whole s))) \<and>
    (\<exists>stem. text_of s base = stem @ text_of s (Extension s (whole s)))"
  proof (cases "rfind s CHR ''.'' base")
    case None
    then show ?thesis by (simp add: Extension_def SplitBasename_def b text_of_def)
  next
    case (Some i)
    from t rfind_Some [OF _ Some] obtain xs ys where
      x: "text_of s base = xs @ CHR ''.'' # ys" "length xs = i" "CHR ''.'' \<notin> set ys" by blast
    have "text_of s (Extension s (whole s)) = drop (i + 1) (text_of s base)"
      using Some by (simp add: Extension_def SplitBasename_def b text_of_def drop_take add.commute)
    with x have "text_of s (Extension s (whole s)) = ys" by simp
    with x(1,3) show ?thesis by (metis append_Cons append_Nil append_assoc)
  qed
  with t show ?thesis by (simp add: b)
qed

end
