(* ===== verification/Clean_Path.thy ===== *)
theory Clean_Path
  imports Path
begin

text \<open>
  \<open>CleanPath\<close> of \<^verbatim>\<open>tensorflow/core/lib/io/path.cc\<close>. The function rewrites its copy of the path
  in place: \<open>src\<close> reads through \<open>c_str()\<close> the characters that \<open>dst\<close> overwrites. The state
  keeps the one buffer with both positions; the lemmas show that the writer never overtakes
  the reader and that the result is the normal form of the path.
\<close>

section \<open>The code\<close>

text \<open>The character that \<open>c_str()\<close> shows at a position: the terminating zero follows the last one.\<close>

definition c_at :: "string \<Rightarrow> nat \<Rightarrow> char" where
  "c_at path i = (if i < length path then path ! i else CHR 0x00)"

record clean_state =
  cp_path :: string
  cp_src :: nat
  cp_dst :: nat
  cp_limit :: nat

text \<open>\<open>*dst++ = *src++\<close>.\<close>

definition copy1 :: "clean_state \<Rightarrow> clean_state" where
  "copy1 s = s\<lparr>cp_path := (cp_path s)[cp_dst s := c_at (cp_path s) (cp_src s)],
               cp_src := cp_src s + 1, cp_dst := cp_dst s + 1\<rparr>"

function skip_seps :: "string \<Rightarrow> nat \<Rightarrow> nat" where
  "skip_seps path src = (if c_at path src = CHR ''/'' then skip_seps path (src + 1) else src)"
  by pat_completeness auto
termination
  by (relation "measure (\<lambda>(path, src). length path - src)") (auto simp: c_at_def split: if_splits)

lemma copy1_sel [simp]:
  "length (cp_path (copy1 s)) = length (cp_path s)" "cp_src (copy1 s) = cp_src s + 1"
  "cp_dst (copy1 s) = cp_dst s + 1" "cp_limit (copy1 s) = cp_limit s"
  by (simp_all add: copy1_def)

function copy_part :: "clean_state \<Rightarrow> clean_state" where
  "copy_part s =
     (if c_at (cp_path s) (cp_src s) \<noteq> CHR 0x00 \<and> c_at (cp_path s) (cp_src s) \<noteq> CHR ''/''
      then copy_part (copy1 s) else s)"
  by pat_completeness auto
termination
  by (relation "measure (\<lambda>s. length (cp_path s) - cp_src s)") (auto simp: c_at_def split: if_splits)

declare skip_seps.simps [simp del] copy_part.simps [simp del]

text \<open>The loop \<open>for (--dst; dst != backtrack_limit && dst[-1] != '/'; --dst)\<close> after its first step.\<close>

fun backtrack :: "string \<Rightarrow> nat \<Rightarrow> nat \<Rightarrow> nat" where
  "backtrack path limit 0 = 0"
| "backtrack path limit (Suc d) =
     (if Suc d \<noteq> limit \<and> c_at path d \<noteq> CHR ''/'' then backtrack path limit d else Suc d)"

definition copy_dot_dot :: "clean_state \<Rightarrow> clean_state" where
  "copy_dot_dot s =
     (let s1 = copy1 (copy1 s);
          s2 = (if c_at (cp_path s1) (cp_src s1) \<noteq> CHR 0x00
                then s1\<lparr>cp_path := (cp_path s1)[cp_dst s1 := c_at (cp_path s1) (cp_src s1)], cp_dst := cp_dst s1 + 1\<rparr>
                else s1) in
      s2\<lparr>cp_limit := cp_dst s2\<rparr>)"

definition dot_dot_part :: "bool \<Rightarrow> clean_state \<Rightarrow> clean_state" where
  "dot_dot_part is_absolute_path s0 =
     (let s = s0\<lparr>cp_src := cp_src s0 + 2\<rparr>;
          s1 = (if cp_dst s \<noteq> cp_limit s then s\<lparr>cp_dst := backtrack (cp_path s) (cp_limit s) (cp_dst s - 1)\<rparr>
                else if \<not> is_absolute_path then copy_dot_dot (s\<lparr>cp_src := cp_src s - 2\<rparr>)
                else s) in
      if c_at (cp_path s1) (cp_src s1) \<noteq> CHR 0x00 then s1\<lparr>cp_src := cp_src s1 + 1\<rparr> else s1)"

definition dot_part :: "clean_state \<Rightarrow> clean_state" where
  "dot_part s0 =
     (let s = s0\<lparr>cp_src := cp_src s0 + 1\<rparr> in
      if c_at (cp_path s) (cp_src s) \<noteq> CHR 0x00 then s\<lparr>cp_src := cp_src s + 1\<rparr> else s)"

definition plain_part :: "clean_state \<Rightarrow> clean_state" where
  "plain_part s0 =
     (let s = copy_part s0 in if c_at (cp_path s) (cp_src s) \<noteq> CHR 0x00 then copy1 s else s)"

definition clean_part :: "bool \<Rightarrow> clean_state \<Rightarrow> clean_state" where
  "clean_part is_absolute_path s =
     (let at_src = (\<lambda>k. c_at (cp_path s) (cp_src s + k));
          s1 = (if at_src 0 = CHR ''.'' then
                  if at_src 1 = CHR ''/'' \<or> at_src 1 = CHR 0x00 then dot_part s
                  else if at_src 1 = CHR ''.'' \<and> (at_src 2 = CHR ''/'' \<or> at_src 2 = CHR 0x00)
                    then dot_dot_part is_absolute_path s
                  else plain_part s
                else plain_part s) in
      s1\<lparr>cp_src := skip_seps (cp_path s1) (cp_src s1)\<rparr>)"

lemma skip_seps_ge: "src \<le> skip_seps path src"
  by (induction path src rule: skip_seps.induct) (subst skip_seps.simps, auto)

lemma copy_part_length [simp]: "length (cp_path (copy_part s)) = length (cp_path s)"
  by (induction s rule: copy_part.induct) (subst copy_part.simps, simp)

lemma copy_part_ge: "cp_src s \<le> cp_src (copy_part s)"
  by (induction s rule: copy_part.induct) (subst copy_part.simps, auto)

lemma plain_part_advances:
  assumes "c_at (cp_path s) (cp_src s) \<noteq> CHR 0x00"
  shows "cp_src s < cp_src (plain_part s)"
proof (cases "c_at (cp_path s) (cp_src s) = CHR ''/''")
  case True
  then have "copy_part s = s" by (subst copy_part.simps) simp
  then show ?thesis using assms by (simp add: plain_part_def Let_def)
next
  case False
  then have "copy_part s = copy_part (copy1 s)" using assms by (subst copy_part.simps) simp
  then show ?thesis using copy_part_ge [of "copy1 s"] by (simp add: plain_part_def Let_def)
qed

lemma part_sel [simp]:
  "length (cp_path (plain_part s)) = length (cp_path s)"
  "length (cp_path (dot_part s)) = length (cp_path s)"
  "length (cp_path (dot_dot_part b s)) = length (cp_path s)"
  "length (cp_path (clean_part b s)) = length (cp_path s)"
  by (simp_all add: plain_part_def dot_part_def dot_dot_part_def copy_dot_dot_def clean_part_def Let_def)

lemma clean_part_advances:
  assumes "c_at (cp_path s) (cp_src s) \<noteq> CHR 0x00"
  shows "cp_src s < cp_src (clean_part b s)"
proof -
  have "cp_src s < cp_src (dot_part s)" "cp_src s < cp_src (dot_dot_part b s)"
    by (auto simp: dot_part_def dot_dot_part_def copy_dot_dot_def Let_def)
  then show ?thesis
    using plain_part_advances [OF assms]
    by (auto simp: clean_part_def Let_def intro: less_le_trans [OF _ skip_seps_ge])
qed

text \<open>The loop \<open>while (*src)\<close> ends because every turn reads at least one character.\<close>

function clean_loop :: "bool \<Rightarrow> clean_state \<Rightarrow> clean_state" where
  "clean_loop is_absolute_path s =
     (if c_at (cp_path s) (cp_src s) = CHR 0x00 then s
      else clean_loop is_absolute_path (clean_part is_absolute_path s))"
  by pat_completeness auto
termination
proof (relation "measure (\<lambda>(b, s). length (cp_path s) - cp_src s)")
  fix b :: bool and s :: clean_state
  assume "c_at (cp_path s) (cp_src s) \<noteq> CHR 0x00"
  with clean_part_advances [OF this, of b] show "((b, clean_part b s), b, s) \<in> measure (\<lambda>(b, s). length (cp_path s) - cp_src s)"
    by (auto simp: c_at_def split: if_splits)
qed simp

declare clean_loop.simps [simp del]

definition clean_init :: "string \<Rightarrow> clean_state" where
  "clean_init path =
     (let s = \<lparr>cp_path = path, cp_src = 0, cp_dst = 0, cp_limit = 0\<rparr> in
      if c_at path 0 = CHR ''/'' then
        let s1 = copy1 s; s2 = s1\<lparr>cp_src := skip_seps (cp_path s1) (cp_src s1)\<rparr> in s2\<lparr>cp_limit := cp_dst s2\<rparr>
      else s\<lparr>cp_limit := cp_dst s\<rparr>)"

definition clean_result :: "clean_state \<Rightarrow> string" where
  "clean_result s =
     (if cp_dst s \<noteq> 0 then
        take (if cp_dst s > 1 \<and> cp_path s ! (cp_dst s - 1) = CHR ''/'' then cp_dst s - 1 else cp_dst s) (cp_path s)
      else ''.'')"

definition CleanPath :: "string \<Rightarrow> piece \<Rightarrow> string" where
  "CleanPath mem unclean_path =
     (let path = text_of mem unclean_path in
      clean_result (clean_loop (c_at path 0 = CHR ''/'') (clean_init path)))"

section \<open>The normal form\<close>

text \<open>The components of a path, and the number of leading parent steps with the stack of
  components below them that is left when the steps to the parent are carried out.\<close>

function components :: "string \<Rightarrow> string list" where
  "components t =
     (let u = dropWhile (\<lambda>c. c = CHR ''/'') t in
      if u = [] then [] else takeWhile (\<lambda>c. c \<noteq> CHR ''/'') u # components (dropWhile (\<lambda>c. c \<noteq> CHR ''/'') u))"
  by pat_completeness auto
termination
proof (relation "measure length")
  fix t u :: string
  assume "u = dropWhile (\<lambda>c. c = CHR ''/'') t" "u \<noteq> []"
  then have "hd u \<noteq> CHR ''/''" "length u \<le> length t"
    using hd_dropWhile [of "\<lambda>c. c = CHR ''/''" t] by (auto simp: length_dropWhile_le)
  then have "length (dropWhile (\<lambda>c. c \<noteq> CHR ''/'') u) < length t"
    using \<open>u \<noteq> []\<close> length_dropWhile_le [of "\<lambda>c. c \<noteq> CHR ''/''" "tl u"] by (cases u) auto
  then show "(dropWhile (\<lambda>c. c \<noteq> CHR ''/'') u, t) \<in> measure length" by simp
qed simp

declare components.simps [simp del]

fun enter :: "bool \<Rightarrow> nat \<times> string list \<Rightarrow> string \<Rightarrow> nat \<times> string list" where
  "enter absolute (n, dirs) c =
     (if c = ''.'' then (n, dirs)
      else if c = ''..'' then (case dirs of d # ds \<Rightarrow> (n, ds) | [] \<Rightarrow> (if absolute then n else n + 1, []))
      else (n, c # dirs))"

definition normal_components :: "bool \<Rightarrow> string list \<Rightarrow> string list" where
  "normal_components absolute cs =
     (let (n, dirs) = foldl (enter absolute) (0, []) cs in replicate n ''..'' @ rev dirs)"

fun join_components :: "string list \<Rightarrow> string" where
  "join_components [] = []"
| "join_components [c] = c"
| "join_components (c # cs) = c @ ''/'' @ join_components cs"

definition normal_path :: "string \<Rightarrow> string" where
  "normal_path t =
     (let cs = normal_components (IsAbsolutePath t) (components t) in
      if IsAbsolutePath t then ''/'' @ join_components cs
      else if cs = [] then ''.'' else join_components cs)"

section \<open>What reader and writer see\<close>

text \<open>\<open>sees s out t\<close>: the writer is not ahead of the reader, has produced \<open>out\<close>, and the reader
  still has \<open>t\<close> in front of the terminating zero.\<close>

definition sees :: "clean_state \<Rightarrow> string \<Rightarrow> string \<Rightarrow> bool" where
  "sees s out t \<longleftrightarrow> cp_dst s \<le> cp_src s \<and> cp_src s \<le> length (cp_path s) \<and>
     take (cp_dst s) (cp_path s) = out \<and> takeWhile (\<lambda>c. c \<noteq> CHR 0x00) (drop (cp_src s) (cp_path s)) = t"

lemma c_at_drop: "c_at path i = (case drop i path of [] \<Rightarrow> CHR 0x00 | c # _ \<Rightarrow> c)"
  by (auto simp: c_at_def Cons_nth_drop_Suc [symmetric] split: list.split)

lemma sees_c_at: "sees s out t \<Longrightarrow> c_at (cp_path s) (cp_src s) = (case t of [] \<Rightarrow> CHR 0x00 | c # _ \<Rightarrow> c)"
  by (auto simp: sees_def c_at_drop split: list.split if_splits)

lemma sees_no_zero: "sees s out t \<Longrightarrow> CHR 0x00 \<notin> set t"
  by (auto simp: sees_def dest: set_takeWhileD)

lemma sees_Cons:
  assumes "sees s out (c # t)"
  shows "cp_src s < length (cp_path s)" "cp_path s ! cp_src s = c" "c \<noteq> CHR 0x00"
    "takeWhile (\<lambda>c. c \<noteq> CHR 0x00) (drop (Suc (cp_src s)) (cp_path s)) = t"
proof -
  show 1: "cp_src s < length (cp_path s)"
    using assms by (auto simp: sees_def intro: ccontr)
  from assms 1 show "cp_path s ! cp_src s = c" "c \<noteq> CHR 0x00"
    "takeWhile (\<lambda>c. c \<noteq> CHR 0x00) (drop (Suc (cp_src s)) (cp_path s)) = t"
    by (auto simp: sees_def Cons_nth_drop_Suc [symmetric] split: if_splits)
qed

lemma sees_dst: "sees s out t \<Longrightarrow> cp_dst s = length out"
  by (auto simp: sees_def)

lemma sees_read:
  assumes "sees s out (c # t)"
  shows "sees (s\<lparr>cp_src := cp_src s + 1\<rparr>) out t" "sees (s\<lparr>cp_src := Suc (cp_src s)\<rparr>) out t"
  using assms sees_Cons [OF assms] by (auto simp: sees_def)

lemma sees_copy1:
  assumes "sees s out (c # t)"
  shows "sees (copy1 s) (out @ [c]) t"
  using assms sees_Cons [OF assms] by (auto simp: sees_def copy1_def c_at_def take_Suc_conv_app_nth)

lemma sees_limit [simp]: "sees (s\<lparr>cp_limit := l\<rparr>) out t = sees s out t"
  by (simp add: sees_def)

lemma sees_back:
  assumes "sees s (out @ tail) t"
  shows "sees (s\<lparr>cp_dst := length out\<rparr>) out t"
proof -
  have d: "take (cp_dst s) (cp_path s) = out @ tail" "length out \<le> cp_dst s"
    using assms sees_dst [OF assms] by (auto simp: sees_def)
  have "take (length out) (cp_path s) = take (length out) (take (cp_dst s) (cp_path s))"
    using d(2) by simp
  also have "\<dots> = out" by (simp only: d(1)) simp
  finally show ?thesis using assms d(2) by (simp add: sees_def)
qed

lemma c_at_update [simp]: "c_at path i = c \<Longrightarrow> c_at (path[d := c]) i = c"
  by (cases "d = i") (auto simp: c_at_def)

lemma sees_nth: "sees s out t \<Longrightarrow> i < length out \<Longrightarrow> c_at (cp_path s) i = out ! i"
  by (auto simp: sees_def c_at_def)

text \<open>The loops.\<close>

lemma sees_skip:
  "sees s out t \<Longrightarrow>
   sees (s\<lparr>cp_src := skip_seps (cp_path s) (cp_src s)\<rparr>) out (dropWhile (\<lambda>c. c = CHR ''/'') t)"
proof (induction t arbitrary: s)
  case Nil
  then show ?case by (subst skip_seps.simps) (simp add: sees_c_at)
next
  case (Cons c t)
  from Cons.IH [OF sees_read(1) [OF Cons.prems]] Cons.prems
  show ?case by (subst skip_seps.simps) (simp add: sees_c_at [OF Cons.prems])
qed

lemma sees_copy_part:
  "sees s out t \<Longrightarrow>
   sees (copy_part s) (out @ takeWhile (\<lambda>c. c \<noteq> CHR ''/'') t) (dropWhile (\<lambda>c. c \<noteq> CHR ''/'') t)"
proof (induction t arbitrary: s out)
  case Nil
  then show ?case by (subst copy_part.simps) (simp add: sees_c_at)
next
  case (Cons c t)
  from Cons.IH [OF sees_copy1 [OF Cons.prems]] Cons.prems sees_no_zero [OF Cons.prems]
  show ?case by (subst copy_part.simps) (auto simp add: sees_c_at [OF Cons.prems])
qed

lemma copy_part_limit [simp]: "cp_limit (copy_part s) = cp_limit s"
  by (induction s rule: copy_part.induct) (subst copy_part.simps, simp)

lemma backtrack_name:
  assumes "sees s (out @ name @ tail) t" "CHR ''/'' \<notin> set name" "limit \<le> length out"
    and "length out = limit \<or> (out \<noteq> [] \<and> last out = CHR ''/'')"
  shows "backtrack (cp_path s) limit (length out + length name) = length out"
  using assms(1,2)
proof (induction name arbitrary: tail rule: rev_induct)
  case Nil
  show ?case
  proof (cases "length out")
    case (Suc d)
    have "length out \<noteq> limit \<Longrightarrow> c_at (cp_path s) d = CHR ''/''"
      using assms(4) sees_nth [OF Nil(1), of d] Suc by (auto simp: last_conv_nth nth_append)
    then show ?thesis using Suc by auto
  qed simp
next
  case (snoc c name)
  have "c_at (cp_path s) (length out + length name) = c"
    using sees_nth [OF snoc(2), of "length out + length name"] by (simp add: nth_append)
  moreover have "backtrack (cp_path s) limit (length out + length name) = length out"
    using snoc.IH [of "c # tail"] snoc.prems by simp
  ultimately show ?case using snoc.prems(2) assms(3) by auto
qed

section \<open>One part\<close>

definition joined :: "nat \<Rightarrow> string list \<Rightarrow> string" where
  "joined n dirs = concat (map (\<lambda>c. c @ ''/'') (replicate n ''..'' @ rev dirs))"

definition root_prefix :: "bool \<Rightarrow> string" where
  "root_prefix absolute = (if absolute then ''/'' else [])"

definition proper_name :: "string \<Rightarrow> bool" where
  "proper_name c \<longleftrightarrow> c \<noteq> [] \<and> c \<noteq> ''.'' \<and> c \<noteq> ''..'' \<and> CHR ''/'' \<notin> set c"

definition clean_inv :: "bool \<Rightarrow> nat \<times> string list \<Rightarrow> clean_state \<Rightarrow> string \<Rightarrow> bool" where
  "clean_inv absolute st s t \<longleftrightarrow>
     sees s (root_prefix absolute @ joined (fst st) (snd st)) t \<and> (absolute \<longrightarrow> fst st = 0) \<and>
     list_all proper_name (snd st) \<and> cp_limit s = length (root_prefix absolute @ joined (fst st) [])"

text \<open>After the last part its separator may be missing.\<close>

definition clean_done :: "bool \<Rightarrow> nat \<times> string list \<Rightarrow> clean_state \<Rightarrow> bool" where
  "clean_done absolute st s \<longleftrightarrow>
     (\<exists>out. sees s out [] \<and> (out = root_prefix absolute @ joined (fst st) (snd st) \<or>
        (st \<noteq> (0, []) \<and> out @ ''/'' = root_prefix absolute @ joined (fst st) (snd st)))) \<and>
     (absolute \<longrightarrow> fst st = 0) \<and> list_all proper_name (snd st)"

lemma joined_simps [simp]:
  "joined n (c # dirs) = joined n dirs @ c @ ''/''" "joined (Suc n) [] = joined n [] @ ''../''" "joined 0 [] = []"
  by (simp_all add: joined_def replicate_append_same [symmetric])

lemma joined_length: "length (joined n []) \<le> length (joined n dirs)"
  by (simp add: joined_def)

lemma joined_eq_iff: "list_all proper_name dirs \<Longrightarrow> length (joined n []) = length (joined n dirs) \<longleftrightarrow> dirs = []"
  by (cases dirs) (auto simp: proper_name_def joined_def)

lemma joined_last: "joined n dirs \<noteq> [] \<Longrightarrow> last (joined n dirs) = CHR ''/''"
proof (cases dirs)
  case Nil
  then show "joined n dirs \<noteq> [] \<Longrightarrow> ?thesis" by (cases n) auto
qed simp

lemma clean_inv_done: "clean_inv b st s [] \<Longrightarrow> clean_done b st s"
  by (auto simp: clean_inv_def clean_done_def)

lemma dropWhile_sep:
  "dropWhile (\<lambda>c. c \<noteq> CHR ''/'') t \<noteq> [] \<Longrightarrow> \<exists>r. dropWhile (\<lambda>c. c \<noteq> CHR ''/'') t = CHR ''/'' # r"
  by (induction t) auto

lemma plain_step:
  assumes inv: "clean_inv b (n, dirs) s t" and "proper_name c"
    and c: "c = takeWhile (\<lambda>c. c \<noteq> CHR ''/'') t" and r: "r = dropWhile (\<lambda>c. c \<noteq> CHR ''/'') t"
  shows "r \<noteq> [] \<Longrightarrow> clean_inv b (n, c # dirs) (plain_part s) (tl r)"
    and "r = [] \<Longrightarrow> clean_done b (n, c # dirs) (plain_part s)"
proof -
  let ?out = "root_prefix b @ joined n dirs"
  have s: "sees (copy_part s) (?out @ c) r"
    using inv sees_copy_part [of s ?out t] by (simp add: clean_inv_def c r)
  show "r = [] \<Longrightarrow> clean_done b (n, c # dirs) (plain_part s)"
    using s inv \<open>proper_name c\<close> sees_c_at [OF s]
    by (auto simp: clean_done_def clean_inv_def plain_part_def Let_def)
  assume "r \<noteq> []"
  then obtain r' where r': "r = CHR ''/'' # r'"
    using dropWhile_sep [of t] r by auto
  then have "sees (plain_part s) ((?out @ c) @ ''/'') r'"
    using sees_copy1 [of "copy_part s" "?out @ c" "CHR ''/''" r'] s sees_c_at [OF s]
    by (simp add: plain_part_def Let_def)
  moreover have "cp_limit (plain_part s) = cp_limit s" by (simp add: plain_part_def Let_def)
  ultimately show "clean_inv b (n, c # dirs) (plain_part s) (tl r)"
    using inv \<open>proper_name c\<close> r' by (simp add: clean_inv_def)
qed

lemma dot_step:
  assumes inv: "clean_inv b st s (CHR ''.'' # r)" and r: "r = [] \<or> hd r = CHR ''/''"
  shows "r \<noteq> [] \<Longrightarrow> clean_inv b st (dot_part s) (tl r)"
    and "r = [] \<Longrightarrow> clean_inv b st (dot_part s) []"
proof -
  let ?out = "root_prefix b @ joined (fst st) (snd st)" and ?s1 = "s\<lparr>cp_src := cp_src s + 1\<rparr>"
  have s: "sees ?s1 ?out r" using inv sees_read(1) [of s ?out "CHR ''.''" r] by (simp add: clean_inv_def)
  note at1 = sees_c_at [OF s]
  show "r = [] \<Longrightarrow> clean_inv b st (dot_part s) []"
    using s at1 inv by (simp add: clean_inv_def dot_part_def Let_def)
  assume "r \<noteq> []"
  then obtain r' where r': "r = CHR ''/'' # r'" using r by (cases r) auto
  then show "clean_inv b st (dot_part s) (tl r)"
    using sees_read(1) [OF s [unfolded r']] at1 inv by (simp add: clean_inv_def dot_part_def Let_def)
qed

lemma copy_dot_dot_sees:
  assumes "sees s out (CHR ''.'' # CHR ''.'' # r)" and r: "r = [] \<or> hd r = CHR ''/''"
    and s': "s' = copy_dot_dot s"
  shows "r = [] \<Longrightarrow> sees s' (out @ ''..'') [] \<and> c_at (cp_path s') (cp_src s') = CHR 0x00"
    and "r \<noteq> [] \<Longrightarrow> sees (s'\<lparr>cp_src := cp_src s' + 1\<rparr>) (out @ ''../'') (tl r) \<and> c_at (cp_path s') (cp_src s') = CHR ''/'' \<and>
      cp_limit s' = length (out @ ''../'')"
proof -
  have s2: "sees (copy1 (copy1 s)) (out @ ''..'') r"
    using sees_copy1 [OF sees_copy1 [OF assms(1)]] by simp
  note at2 = sees_c_at [OF s2]
  show "r = [] \<Longrightarrow> sees s' (out @ ''..'') [] \<and> c_at (cp_path s') (cp_src s') = CHR 0x00"
    using s2 at2 by (simp add: s' copy_dot_dot_def Let_def)
  assume "r \<noteq> []"
  then obtain r' where r': "r = CHR ''/'' # r'" using r by (cases r) auto
  have 3: "sees (copy1 (copy1 (copy1 s))) (out @ ''../'') r'" using sees_copy1 [OF s2 [unfolded r']] by simp
  have "s'\<lparr>cp_src := cp_src s' + 1\<rparr> = (copy1 (copy1 (copy1 s)))\<lparr>cp_limit := cp_limit s'\<rparr>"
    and "c_at (cp_path s') (cp_src s') = c_at (cp_path (copy1 (copy1 s))) (cp_src (copy1 (copy1 s)))"
    and "cp_limit s' = cp_dst (copy1 (copy1 (copy1 s)))"
    using at2 r' unfolding s' by (simp_all add: copy_dot_dot_def Let_def copy1_def [of "copy1 (copy1 s)"])
  then show "sees (s'\<lparr>cp_src := cp_src s' + 1\<rparr>) (out @ ''../'') (tl r) \<and> c_at (cp_path s') (cp_src s') = CHR ''/'' \<and>
      cp_limit s' = length (out @ ''../'')"
    using 3 at2 r' sees_dst [OF 3] by (simp del: copy1_sel)
qed

lemma finish_part:
  assumes "sees s out r" and r: "r = [] \<or> hd r = CHR ''/''"
    and s': "s' = (if c_at (cp_path s) (cp_src s) \<noteq> CHR 0x00 then s\<lparr>cp_src := cp_src s + 1\<rparr> else s)"
  shows "sees s' out (tl r) \<and> cp_limit s' = cp_limit s"
proof (cases r)
  case Nil
  then show ?thesis using assms(1) sees_c_at [OF assms(1)] by (simp add: s')
next
  case (Cons c r')
  then have "c = CHR ''/''" using r by simp
  then show ?thesis using sees_c_at [OF assms(1)] sees_read(1) [of s out c r'] assms(1) Cons by (simp add: s')
qed

lemma dot_dot_step:
  assumes inv: "clean_inv b (n, dirs) s (CHR ''.'' # CHR ''.'' # r)" and r: "r = [] \<or> hd r = CHR ''/''"
  shows "r \<noteq> [] \<Longrightarrow> clean_inv b (enter b (n, dirs) ''..'') (dot_dot_part b s) (tl r)"
    and "r = [] \<Longrightarrow> clean_done b (enter b (n, dirs) ''..'') (dot_dot_part b s)"
proof -
  let ?out = "root_prefix b @ joined n dirs" and ?s2 = "s\<lparr>cp_src := cp_src s + 2\<rparr>"
  have s0: "sees s ?out (CHR ''.'' # CHR ''.'' # r)" and names: "list_all proper_name dirs"
    and limit: "cp_limit s = length (root_prefix b @ joined n [])" and bn: "b \<longrightarrow> n = 0"
    using inv by (simp_all add: clean_inv_def)
  have s2: "sees ?s2 ?out r" using sees_read(2) [OF sees_read(2) [OF s0]] by simp
  have dst: "cp_dst s = length ?out" using sees_dst [OF s0] .
  have stay: "cp_dst s = cp_limit s \<longleftrightarrow> dirs = []"
    using dst limit joined_eq_iff [OF names, of n] by auto
  have both: "(r \<noteq> [] \<longrightarrow> clean_inv b (enter b (n, dirs) ''..'') (dot_dot_part b s) (tl r)) \<and>
     (r = [] \<longrightarrow> clean_done b (enter b (n, dirs) ''..'') (dot_dot_part b s))"
  proof (cases dirs)
    case (Cons c ds)
    let ?out' = "root_prefix b @ joined n ds"
    have bt: "backtrack (cp_path s) (cp_limit s) (cp_dst s - 1) = length ?out'"
    proof -
      have "sees s (?out' @ c @ ''/'') (CHR ''.'' # CHR ''.'' # r)" using s0 Cons by simp
      moreover have "length ?out' = cp_limit s \<or> (?out' \<noteq> [] \<and> last ?out' = CHR ''/'')"
        using limit joined_last [of n ds] joined_length [of n ds]
        by (cases "joined n ds = []") (auto simp: last_append)
      ultimately show ?thesis
        using backtrack_name [of s ?out' c "''/''" "CHR ''.'' # CHR ''.'' # r" "cp_limit s"] names Cons limit joined_length [of n ds] dst
        by (simp add: proper_name_def add.assoc)
    qed
    have s3: "sees (?s2\<lparr>cp_dst := length ?out'\<rparr>) ?out' r"
      using sees_back [of ?s2 ?out' "c @ ''/''" r] s2 Cons by simp
    have "sees (dot_dot_part b s) ?out' (tl r) \<and> cp_limit (dot_dot_part b s) = cp_limit (?s2\<lparr>cp_dst := length ?out'\<rparr>)"
      by (rule finish_part [OF s3 r]) (use stay Cons bt in \<open>simp add: dot_dot_part_def Let_def\<close>)
    then show ?thesis using bn names limit Cons by (auto simp: clean_inv_def clean_done_def)
  next
    case Nil
    show ?thesis
    proof (cases b)
      case True
      have "sees (dot_dot_part b s) ?out (tl r) \<and> cp_limit (dot_dot_part b s) = cp_limit ?s2"
        by (rule finish_part [OF s2 r]) (use stay Nil True in \<open>simp add: dot_dot_part_def Let_def\<close>)
      then show ?thesis using True bn names limit Nil by (auto simp: clean_inv_def clean_done_def)
    next
      case False
      note cp = copy_dot_dot_sees [OF s0 r refl]
      have part: "dot_dot_part b s =
         (let s1 = copy_dot_dot s in if c_at (cp_path s1) (cp_src s1) \<noteq> CHR 0x00 then s1\<lparr>cp_src := cp_src s1 + 1\<rparr> else s1)"
        using stay Nil False by (simp add: dot_dot_part_def Let_def)
      show ?thesis
      proof (cases "r = []")
        case True
        have "dot_dot_part b s = copy_dot_dot s" "sees (copy_dot_dot s) (?out @ ''..'') []"
          using cp(1) True by (simp_all add: part Let_def)
        then show ?thesis using False Nil True by (auto simp: clean_done_def root_prefix_def)
      next
        case r2: False
        then have "dot_dot_part b s = (copy_dot_dot s)\<lparr>cp_src := cp_src (copy_dot_dot s) + 1\<rparr>"
          using cp(2) by (simp add: part Let_def)
        then show ?thesis using cp(2) r2 False Nil by (auto simp: clean_inv_def root_prefix_def)
      qed
    qed
  qed
  from both show "r \<noteq> [] \<Longrightarrow> clean_inv b (enter b (n, dirs) ''..'') (dot_dot_part b s) (tl r)"
    and "r = [] \<Longrightarrow> clean_done b (enter b (n, dirs) ''..'') (dot_dot_part b s)" by auto
qed

lemma sees_ahead: "sees s out t \<Longrightarrow> k \<le> length t \<Longrightarrow> c_at (cp_path s) (cp_src s + k) = c_at t k"
proof (induction t arbitrary: s k)
  case Nil
  then show ?case using sees_c_at [OF Nil(1)] by (simp add: c_at_def)
next
  case (Cons c t)
  show ?case
  proof (cases k)
    case 0
    then show ?thesis using sees_c_at [OF Cons.prems(1)] by (simp add: c_at_def)
  next
    case (Suc j)
    then show ?thesis using Cons.IH [OF sees_read(1) [OF Cons.prems(1)], of j] Cons.prems(2) by (simp add: c_at_def)
  qed
qed

lemma clean_done_skip: "clean_done b st s \<Longrightarrow> clean_done b st (s\<lparr>cp_src := skip_seps (cp_path s) (cp_src s)\<rparr>)"
  using sees_skip [of s _ "[]"] by (auto simp: clean_done_def)

lemma clean_inv_skip:
  "clean_inv b st s t \<Longrightarrow> clean_inv b st (s\<lparr>cp_src := skip_seps (cp_path s) (cp_src s)\<rparr>) (dropWhile (\<lambda>c. c = CHR ''/'') t)"
  using sees_skip [of s _ t] by (auto simp: clean_inv_def)

lemma clean_part_branch:
  assumes "sees s out t" "t \<noteq> []"
  shows "clean_part b s =
    (let c = takeWhile (\<lambda>c. c \<noteq> CHR ''/'') t;
         s1 = (if c = ''.'' then dot_part s else if c = ''..'' then dot_dot_part b s else plain_part s) in
     s1\<lparr>cp_src := skip_seps (cp_path s1) (cp_src s1)\<rparr>)"
proof -
  let ?c = "takeWhile (\<lambda>c. c \<noteq> CHR ''/'') t" and ?at = "\<lambda>k. c_at (cp_path s) (cp_src s + k)"
  note at = sees_ahead [OF assms(1)] and zero = sees_no_zero [OF assms(1)]
  have 1: "?at 0 = CHR ''.'' \<and> (?at 1 = CHR ''/'' \<or> ?at 1 = CHR 0x00) \<longleftrightarrow> ?c = ''.''"
    using at [of 0] at [of 1] zero assms(2) by (cases t rule: remdups_adj.cases) (auto simp: c_at_def)
  have 2: "?at 0 = CHR ''.'' \<and> ?at 1 = CHR ''.'' \<and> (?at 2 = CHR ''/'' \<or> ?at 2 = CHR 0x00) \<longleftrightarrow> ?c = ''..''"
  proof (cases t rule: remdups_adj.cases)
    case (3 x y ts)
    then show ?thesis using at [of 0] at [of 1] at [of 2] zero by (cases ts) (auto simp: c_at_def)
  qed (use at [of 0] at [of 1] assms(2) in \<open>auto simp: c_at_def\<close>)
  define s1 where "s1 = (if ?at 0 = CHR ''.'' \<and> (?at 1 = CHR ''/'' \<or> ?at 1 = CHR 0x00) then dot_part s
    else if ?at 0 = CHR ''.'' \<and> ?at 1 = CHR ''.'' \<and> (?at 2 = CHR ''/'' \<or> ?at 2 = CHR 0x00) then dot_dot_part b s
    else plain_part s)"
  have "clean_part b s = s1\<lparr>cp_src := skip_seps (cp_path s1) (cp_src s1)\<rparr>"
    unfolding clean_part_def Let_def s1_def
    by (cases "?at 0 = CHR ''.''"; cases "?at 1 = CHR ''/'' \<or> ?at 1 = CHR 0x00") simp_all
  then show ?thesis by (simp only: Let_def s1_def 1 2)
qed

lemma clean_part_step:
  assumes inv: "clean_inv b st s t" and t: "t \<noteq> []" "hd t \<noteq> CHR ''/''"
    and c: "c = takeWhile (\<lambda>c. c \<noteq> CHR ''/'') t" and r: "r = dropWhile (\<lambda>c. c \<noteq> CHR ''/'') t"
  shows "r \<noteq> [] \<Longrightarrow> clean_inv b (enter b st c) (clean_part b s) (dropWhile (\<lambda>c. c = CHR ''/'') (tl r))"
    and "r = [] \<Longrightarrow> clean_done b (enter b st c) (clean_part b s)"
proof -
  obtain n dirs where st: "st = (n, dirs)" by fastforce
  have tcr: "t = c @ r" using c r by simp
  have hr: "r = [] \<or> hd r = CHR ''/''" using dropWhile_sep [of t] r by auto
  define s1 where "s1 = (if c = ''.'' then dot_part s else if c = ''..'' then dot_dot_part b s else plain_part s)"
  have part: "clean_part b s = s1\<lparr>cp_src := skip_seps (cp_path s1) (cp_src s1)\<rparr>"
  proof -
    have s0: "sees s (root_prefix b @ joined (fst st) (snd st)) t" using inv by (simp add: clean_inv_def)
    show ?thesis by (simp only: clean_part_branch [OF s0 t(1)] s1_def c Let_def)
  qed
  have s1: "(r \<noteq> [] \<longrightarrow> clean_inv b (enter b st c) s1 (tl r)) \<and> (r = [] \<longrightarrow> clean_done b (enter b st c) s1)"
  proof -
    consider (dot) "c = ''.''" | (dots) "c = ''..''" | (name) "proper_name c"
      using c t by (cases t) (auto simp: proper_name_def dest: set_takeWhileD)
    then show ?thesis
    proof cases
      case dot
      then show ?thesis using dot_step [of b st s r] inv tcr hr clean_inv_done [of b st "dot_part s"]
        by (auto simp: s1_def st)
    next
      case dots
      then have "s1 = dot_dot_part b s" by (simp add: s1_def)
      then show ?thesis using dot_dot_step [of b n dirs s r] inv tcr hr dots st
        by (auto simp del: enter.simps)
    next
      case name
      then have "c \<noteq> ''.''" "c \<noteq> ''..''" by (simp_all add: proper_name_def)
      then show ?thesis using plain_step [OF inv [unfolded st] name c r] by (simp add: s1_def st)
    qed
  qed
  show "r \<noteq> [] \<Longrightarrow> clean_inv b (enter b st c) (clean_part b s) (dropWhile (\<lambda>c. c = CHR ''/'') (tl r))"
    and "r = [] \<Longrightarrow> clean_done b (enter b st c) (clean_part b s)"
    using s1 clean_inv_skip clean_done_skip by (auto simp: part)
qed

section \<open>The whole path\<close>

lemma components_skip: "components (dropWhile (\<lambda>c. c = CHR ''/'') t) = components t"
  by (subst (1 2) components.simps) (simp add: dropWhile_idem)

lemma components_part:
  assumes "t \<noteq> []" "hd t \<noteq> CHR ''/''"
  shows "components t = takeWhile (\<lambda>c. c \<noteq> CHR ''/'') t # components (dropWhile (\<lambda>c. c \<noteq> CHR ''/'') t)"
  using assms by (subst components.simps) (cases t; simp)

lemma components_Nil [simp]: "components [] = []"
  by (subst components.simps) simp

lemma components_sep [simp]: "components (CHR ''/'' # t) = components t"
  by (subst (1 2) components.simps) simp

lemma hd_after_seps: "dropWhile (\<lambda>c. c = CHR ''/'') t = [] \<or> hd (dropWhile (\<lambda>c. c = CHR ''/'') t) \<noteq> CHR ''/''"
  using hd_dropWhile [of "\<lambda>c. c = CHR ''/''" t] by auto

lemma clean_loop_done:
  assumes "clean_inv b st s t" "t = [] \<or> hd t \<noteq> CHR ''/''"
  shows "clean_done b (foldl (enter b) st (components t)) (clean_loop b s)"
  using assms
proof (induction b s arbitrary: st t rule: clean_loop.induct)
  case (1 b s)
  have at: "c_at (cp_path s) (cp_src s) = (case t of [] \<Rightarrow> CHR 0x00 | c # _ \<Rightarrow> c)" and zero: "CHR 0x00 \<notin> set t"
    using sees_c_at [of s _ t] sees_no_zero [of s _ t] 1(2) by (auto simp: clean_inv_def)
  show ?case
  proof (cases "t = []")
    case True
    then show ?thesis using at clean_inv_done [of b st s] 1(2) by (subst clean_loop.simps) simp
  next
    case False
    then have live: "c_at (cp_path s) (cp_src s) \<noteq> CHR 0x00" using at zero by (cases t) auto
    define c where "c = takeWhile (\<lambda>c. c \<noteq> CHR ''/'') t"
    define r where "r = dropWhile (\<lambda>c. c \<noteq> CHR ''/'') t"
    have parts: "components t = c # components r" using components_part False 1(3) by (simp add: c_def r_def)
    have loop: "clean_loop b s = clean_loop b (clean_part b s)" using live by (subst clean_loop.simps) simp
    note step = clean_part_step [OF 1(2) False _ c_def r_def]
    show ?thesis
    proof (cases r)
      case Nil
      then have fin: "clean_done b (enter b st c) (clean_part b s)" using step(2) 1(3) False by simp
      then have "c_at (cp_path (clean_part b s)) (cp_src (clean_part b s)) = CHR 0x00"
        using sees_c_at [of "clean_part b s" _ "[]"] by (auto simp: clean_done_def)
      then show ?thesis using fin Nil by (simp add: parts loop) (subst clean_loop.simps, simp)
    next
      case (Cons x r')
      then have x: "x = CHR ''/''" using dropWhile_sep [of t] by (simp add: r_def)
      have "clean_inv b (enter b st c) (clean_part b s) (dropWhile (\<lambda>c. c = CHR ''/'') r')"
        using step(1) 1(3) False Cons by simp
      from 1(1) [OF live this hd_after_seps] show ?thesis
        by (simp add: parts loop Cons x components_skip)
    qed
  qed
qed

lemma clean_result_sees:
  "sees s out [] \<Longrightarrow>
   clean_result s = (if out = [] then ''.'' else if length out > 1 \<and> last out = CHR ''/'' then butlast out else out)"
proof -
  assume s: "sees s out []"
  have d: "cp_dst s = length out" "take (length out) (cp_path s) = out" "length out \<le> length (cp_path s)"
    using s sees_dst [OF s] by (auto simp: sees_def)
  have "out \<noteq> [] \<Longrightarrow> cp_path s ! (length out - 1) = last out"
    using d(2,3) by (metis last_conv_nth nth_take diff_less length_greater_0_conv zero_less_one)
  moreover have "take (length out - 1) (cp_path s) = butlast out"
    using d(2,3) by (metis butlast_conv_take take_take min.absorb1 diff_le_self)
  ultimately show ?thesis using d by (auto simp: clean_result_def)
qed

lemma join_components_concat:
  "cs \<noteq> [] \<Longrightarrow> concat (map (\<lambda>c. c @ ''/'') cs) = join_components cs @ ''/''"
  by (induction cs rule: join_components.induct) auto

lemma join_components_last:
  assumes "cs \<noteq> []" "list_all (\<lambda>c. c \<noteq> [] \<and> CHR ''/'' \<notin> set c) cs"
  shows "join_components cs \<noteq> []" "last (join_components cs) \<noteq> CHR ''/''"
  using assms by (induction cs rule: join_components.induct) (auto dest: last_in_set)

lemma clean_result_done:
  assumes "clean_done b (n, dirs) s" and cs: "cs = replicate n ''..'' @ rev dirs"
  shows "clean_result s =
    (if b then ''/'' @ join_components cs else if cs = [] then ''.'' else join_components cs)"
proof -
  obtain out where out: "sees s out []" "out = root_prefix b @ joined n dirs \<or>
        ((n, dirs) \<noteq> (0, []) \<and> out @ ''/'' = root_prefix b @ joined n dirs)"
    and dirs: "list_all proper_name dirs"
    using assms(1) unfolding clean_done_def fst_conv snd_conv by blast
  show ?thesis
  proof (cases "cs = []")
    case True
    then have "n = 0" "dirs = []" by (simp_all add: cs)
    then have "out = root_prefix b" using out(2) by simp
    then show ?thesis using clean_result_sees [OF out(1)] True by (simp add: root_prefix_def)
  next
    case False
    have "list_all (\<lambda>c. c \<noteq> [] \<and> CHR ''/'' \<notin> set c) cs"
      using dirs unfolding cs list_all_append list_all_rev
      by (auto simp: list_all_iff proper_name_def)
    note last = join_components_last [OF False this]
    have "joined n dirs = join_components cs @ ''/''"
      using join_components_concat [OF False] unfolding joined_def cs .
    then have "out = (root_prefix b @ join_components cs) @ ''/'' \<or> out = root_prefix b @ join_components cs"
      using out(2) by auto
    then have "clean_result s = root_prefix b @ join_components cs"
    proof
      assume "out = (root_prefix b @ join_components cs) @ ''/''"
      then show ?thesis using clean_result_sees [OF out(1)] last(1) by (simp add: butlast_append)
    next
      assume "out = root_prefix b @ join_components cs"
      then show ?thesis using clean_result_sees [OF out(1)] last by simp
    qed
    then show ?thesis using False by (simp add: root_prefix_def)
  qed
qed

lemma clean_init_inv:
  assumes "b \<longleftrightarrow> c_at path 0 = CHR ''/''" "t = takeWhile (\<lambda>c. c \<noteq> CHR 0x00) path"
  shows "clean_inv b (0, []) (clean_init path) (dropWhile (\<lambda>c. c = CHR ''/'') t) \<and> b = IsAbsolutePath t"
proof -
  let ?s = "\<lparr>cp_path = path, cp_src = 0, cp_dst = 0, cp_limit = 0\<rparr>"
  have s: "sees ?s [] t" by (simp add: sees_def assms(2))
  have at: "c_at path 0 = (case t of [] \<Rightarrow> CHR 0x00 | c # _ \<Rightarrow> c)" using sees_c_at [OF s] by simp
  show ?thesis
  proof (cases b)
    case True
    then obtain t' where t': "t = CHR ''/'' # t'" using at assms(1) by (cases t) auto
    note sees_skip [OF sees_copy1 [OF s [unfolded t']]]
    moreover have "clean_init path = (copy1 ?s)\<lparr>cp_src := skip_seps (cp_path (copy1 ?s)) (cp_src (copy1 ?s)), cp_limit := 1\<rparr>"
      using True assms(1) by (simp add: clean_init_def Let_def)
    ultimately show ?thesis using True t'
      by (simp add: clean_inv_def root_prefix_def IsAbsolutePath_def)
  next
    case False
    then have "t = [] \<or> hd t \<noteq> CHR ''/''" using at assms(1) by (cases t) auto
    then have "dropWhile (\<lambda>c. c = CHR ''/'') t = t" by (cases t) auto
    then show ?thesis using False assms(1) s at
      by (auto simp: clean_inv_def clean_init_def Let_def root_prefix_def IsAbsolutePath_def split: list.splits)
  qed
qed

text \<open>
  C35. For every string \<open>CleanPath\<close> returns the normal form of the path in front of its
  first zero character: empty components and single dots disappear, every double dot removes the
  component before it, double dots that cannot be resolved stay in front of a relative path and
  disappear in an absolute one, and the empty relative path is a dot. In particular the loop
  that rewrites the string in place always ends.
\<close>

theorem CleanPath_normal:
  "CleanPath mem p = normal_path (takeWhile (\<lambda>c. c \<noteq> CHR 0x00) (text_of mem p))"
proof -
  let ?path = "text_of mem p"
  let ?t = "takeWhile (\<lambda>c. c \<noteq> CHR 0x00) ?path" and ?b = "c_at ?path 0 = CHR ''/''"
  note init = clean_init_inv [OF refl refl, of ?path]
  have loop: "clean_done ?b (foldl (enter ?b) (0, []) (components ?t)) (clean_loop ?b (clean_init ?path))"
    using clean_loop_done [OF init [THEN conjunct1] hd_after_seps] by (simp add: components_skip)
  obtain n dirs where st: "foldl (enter ?b) (0, []) (components ?t) = (n, dirs)" by fastforce
  show ?thesis
    using clean_result_done [OF loop [unfolded st] refl] init st
    by (simp add: CleanPath_def normal_path_def normal_components_def Let_def)
qed

section \<open>What a clean path denotes\<close>

text \<open>The directory that a path leads to from a current directory, innermost name first, when no
  name is a link.\<close>

fun walk :: "string list \<Rightarrow> string \<Rightarrow> string list" where
  "walk dir c = (if c = ''.'' then dir else if c = ''..'' then tl dir else c # dir)"

definition resolve :: "string list \<Rightarrow> string \<Rightarrow> string list" where
  "resolve cwd t = foldl walk (if IsAbsolutePath t then [] else cwd) (components t)"

definition plain_name :: "string \<Rightarrow> bool" where
  "plain_name c \<longleftrightarrow> c \<noteq> [] \<and> CHR ''/'' \<notin> set c"

lemma plain_name_hd: "plain_name c \<Longrightarrow> c \<noteq> [] \<and> c ! 0 \<noteq> CHR ''/''"
  by (cases c) (auto simp: plain_name_def)

lemma components_plain: "list_all plain_name (components t) \<and> (\<Union>c\<in>set (components t). set c) \<subseteq> set t"
proof (induction t rule: components.induct)
  case (1 t)
  define u where "u = dropWhile (\<lambda>c. c = CHR ''/'') t"
  have sub: "set u \<subseteq> set t" by (auto simp: u_def dest: set_dropWhileD)
  show ?case
  proof (cases "u = []")
    case True
    then show ?thesis by (subst (1 2) components.simps) (simp add: u_def [symmetric])
  next
    case False
    have hd: "hd u \<noteq> CHR ''/''" using False hd_after_seps [of t] unfolding u_def by blast
    have eq: "components t = takeWhile (\<lambda>c. c \<noteq> CHR ''/'') u # components (dropWhile (\<lambda>c. c \<noteq> CHR ''/'') u)"
      using components_part [OF False hd] by (simp add: u_def components_skip)
    have "plain_name (takeWhile (\<lambda>c. c \<noteq> CHR ''/'') u)"
      using False hd by (cases u) (auto simp: plain_name_def dest: set_takeWhileD)
    moreover have "set (dropWhile (\<lambda>c. c \<noteq> CHR ''/'') u) \<subseteq> set t" "set (takeWhile (\<lambda>c. c \<noteq> CHR ''/'') u) \<subseteq> set t"
      using sub by (blast dest: set_dropWhileD set_takeWhileD)+
    moreover note IH = 1 [OF u_def False]
    ultimately show ?thesis unfolding eq by (simp add: subset_trans [OF IH [THEN conjunct2]])
  qed
qed

lemma components_join: "list_all plain_name cs \<Longrightarrow> components (join_components cs) = cs"
proof (induction cs rule: join_components.induct)
  case (2 c)
  then have eqs: "dropWhile (\<lambda>c. c \<noteq> CHR ''/'') c = []" "takeWhile (\<lambda>c. c \<noteq> CHR ''/'') c = c"
    by (auto simp: plain_name_def takeWhile_eq_all_conv)
  have "c \<noteq> []" "hd c \<noteq> CHR ''/''" using 2 plain_name_hd [of c] by (simp_all add: hd_conv_nth)
  from components_part [OF this] show ?case unfolding eqs by simp
next
  case (3 c d cs)
  let ?r = "CHR ''/'' # join_components (d # cs)"
  have c: "c \<noteq> []" "CHR ''/'' \<notin> set c" using 3(2) by (simp_all add: plain_name_def)
  have "dropWhile (\<lambda>c. c \<noteq> CHR ''/'') (c @ ?r) = ?r" "takeWhile (\<lambda>c. c \<noteq> CHR ''/'') (c @ ?r) = c"
    using c(2) by (simp_all add: takeWhile_append dropWhile_append)
  moreover have "c @ ?r \<noteq> []" "hd (c @ ?r) \<noteq> CHR ''/''" using 3(2) plain_name_hd [of c] by (simp_all add: hd_conv_nth nth_append)
  ultimately have "components (c @ ?r) = c # components ?r" using components_part [of "c @ ?r"] by simp
  then show ?case using 3 by simp
qed simp

lemma join_components_set: "set (join_components cs) \<subseteq> {CHR ''/''} \<union> (\<Union>c\<in>set cs. set c)"
  by (induction cs rule: join_components.induct) auto

lemma join_components_hd: "list_all plain_name cs \<Longrightarrow> \<not> IsAbsolutePath (join_components cs)"
  by (induction cs rule: join_components.induct) (auto simp: IsAbsolutePath_def nth_append dest: plain_name_hd)

lemma enter_walk:
  "(b \<Longrightarrow> cwd = []) \<Longrightarrow> foldl (enter b) (n, ds) cs = (n', ds') \<Longrightarrow> foldl walk (ds @ drop n cwd) cs = ds' @ drop n' cwd"
proof (induction cs arbitrary: n ds)
  case (Cons c cs)
  obtain n1 ds1 where st: "enter b (n, ds) c = (n1, ds1)" by fastforce
  have "walk (ds @ drop n cwd) c = ds1 @ drop n1 cwd"
  proof (cases "c = ''..''")
    case True
    show ?thesis
    proof (cases ds)
      case Nil
      then show ?thesis using True st Cons.prems(1) by (cases b) (auto simp: drop_Suc tl_drop)
    next
      case (Cons d ds0)
      then show ?thesis using True st by auto
    qed
  next
    case False
    then show ?thesis using st by (cases "c = ''.''") auto
  qed
  then show ?case using Cons.IH [OF Cons.prems(1), of n1 ds1] Cons.prems(2) st by simp
qed simp

lemma enter_proper:
  "list_all plain_name cs \<Longrightarrow> list_all proper_name ds \<Longrightarrow> (b \<Longrightarrow> n = 0) \<Longrightarrow> foldl (enter b) (n, ds) cs = (n', ds') \<Longrightarrow>
   list_all proper_name ds' \<and> (b \<longrightarrow> n' = 0) \<and> set ds' \<subseteq> set ds \<union> set cs"
proof (induction cs arbitrary: n ds)
  case (Cons c cs)
  obtain n1 ds1 where st: "enter b (n, ds) c = (n1, ds1)" by fastforce
  have "list_all proper_name ds1 \<and> (b \<longrightarrow> n1 = 0) \<and> set ds1 \<subseteq> set ds \<union> {c}"
  proof (cases "c = ''.'' \<or> c = ''..''")
    case True
    then show ?thesis using st Cons.prems(2,3) by (cases ds) (auto split: if_splits)
  next
    case False
    then have "proper_name c" using Cons.prems(1) by (simp add: plain_name_def proper_name_def)
    then show ?thesis using st Cons.prems(2,3) False by auto
  qed
  then show ?case using Cons.IH [of ds1 n1] Cons.prems st by auto
qed simp

lemma enter_dots: "foldl (enter False) (n, []) (replicate m ''..'') = (n + m, [])"
  by (induction m arbitrary: n) auto

lemma enter_names: "list_all proper_name cs \<Longrightarrow> foldl (enter b) (n, ds) cs = (n, rev cs @ ds)"
  by (induction cs arbitrary: ds) (auto simp: proper_name_def)

text \<open>The normal components are their own normal form.\<close>

lemma normal_fixed:
  assumes "foldl (enter b) (0, []) cs = (n, ds)" "list_all plain_name cs"
  shows "foldl (enter b) (0, []) (replicate n ''..'' @ rev ds) = (n, ds)"
    and "list_all plain_name (replicate n ''..'' @ rev ds)"
proof -
  have ds: "list_all proper_name ds" "b \<longrightarrow> n = 0" using enter_proper [OF assms(2) _ _ assms(1)] by auto
  then show "list_all plain_name (replicate n ''..'' @ rev ds)"
    unfolding list_all_append list_all_rev by (auto simp: list_all_iff proper_name_def plain_name_def)
  show "foldl (enter b) (0, []) (replicate n ''..'' @ rev ds) = (n, ds)"
    using ds enter_dots [of 0 n] enter_names [of "rev ds" b n "[]"] by (cases b) auto
qed

lemma normal_path_parts:
  assumes "foldl (enter (IsAbsolutePath t)) (0, []) (components t) = (n, ds)"
  shows "IsAbsolutePath (normal_path t) = IsAbsolutePath t"
    and "foldl (enter (IsAbsolutePath t)) (0, []) (components (normal_path t)) = (n, ds)"
    and "set (normal_path t) \<subseteq> set t \<union> set ''./''"
proof -
  let ?b = "IsAbsolutePath t"
  define cs where "cs = replicate n ''..'' @ rev ds"
  note fx = normal_fixed [OF assms, folded cs_def] and plain = components_plain [of t]
  have cs: "list_all plain_name cs" "foldl (enter ?b) (0, []) cs = (n, ds)" using fx plain by auto
  have nf: "normal_path t = (if ?b then ''/'' @ join_components cs else if cs = [] then ''.'' else join_components cs)"
    using assms by (simp add: normal_path_def normal_components_def Let_def cs_def)
  have dot: "components ''.'' = [''.'']" using components_part [of "''.''"] by simp
  show "IsAbsolutePath (normal_path t) = ?b"
    using join_components_hd [OF cs(1)] by (auto simp: nf IsAbsolutePath_def)
  show "foldl (enter ?b) (0, []) (components (normal_path t)) = (n, ds)"
    using components_join [OF cs(1)] cs(2) dot by (auto simp: nf)
  have sub: "set ds \<subseteq> set (components t)" using enter_proper [OF plain [THEN conjunct1] _ _ assms] by simp
  have "set c \<subseteq> set t \<union> set ''./''" if "c \<in> set cs" for c
  proof (cases "c = ''..''")
    case False
    then have "c \<in> set ds" using that by (auto simp: cs_def split: if_splits)
    then have "set c \<subseteq> set t" using sub plain by blast
    then show ?thesis by auto
  qed simp
  then have "(\<Union>c\<in>set cs. set c) \<subseteq> set t \<union> set ''./''" by (rule UN_least)
  then have "set (join_components cs) \<subseteq> set t \<union> set ''./''"
    by (intro subset_trans [OF join_components_set]) simp
  then show "set (normal_path t) \<subseteq> set t \<union> set ''./''" by (simp add: nf)
qed

text \<open>
  Without links \<open>CleanPath\<close> does not change where a path leads: from every current
  directory the cleaned path and the original one denote the same directory, and cleaning a clean
  path gives it back unchanged.
\<close>

theorem CleanPath_resolves:
  "resolve cwd (CleanPath mem p) = resolve cwd (takeWhile (\<lambda>c. c \<noteq> CHR 0x00) (text_of mem p)) \<and>
   CleanPath (CleanPath mem p) (whole (CleanPath mem p)) = CleanPath mem p"
proof -
  define t where "t = takeWhile (\<lambda>c. c \<noteq> CHR 0x00) (text_of mem p)"
  define r where "r = CleanPath mem p"
  have r: "r = normal_path t" by (simp add: r_def t_def CleanPath_normal)
  obtain n ds where st: "foldl (enter (IsAbsolutePath t)) (0, []) (components t) = (n, ds)" by fastforce
  note parts = normal_path_parts [OF st, folded r]
  have res: "resolve cwd u = ds @ drop n (if IsAbsolutePath u then [] else cwd)"
    if "foldl (enter (IsAbsolutePath u)) (0, []) (components u) = (n, ds)" for u
    using enter_walk [OF _ that, of "if IsAbsolutePath u then [] else cwd"] by (auto simp: resolve_def)
  have "CHR 0x00 \<notin> set t" by (auto simp: t_def dest: set_takeWhileD)
  then have "takeWhile (\<lambda>c. c \<noteq> CHR 0x00) r = r" using parts(3) by (auto simp: takeWhile_eq_all_conv)
  moreover have "text_of r (whole r) = r" by (simp add: text_of_def whole_def)
  moreover have "normal_path r = r"
    using st parts(1,2) r by (simp add: normal_path_def normal_components_def)
  ultimately have "CleanPath r (whole r) = r" by (simp only: CleanPath_normal)
  moreover have "resolve cwd r = resolve cwd t" using res [of r] res [of t] st parts(1,2) by simp
  ultimately show ?thesis by (simp add: r_def t_def)
qed

end
