(* ===== verification/Crc32c.thy ===== *)
theory Crc32c
  imports Crc32c_Tables
begin

text \<open>
  The checksum of record files: \<^verbatim>\<open>tensorflow/core/lib/hash/crc32c.cc\<close> and \<^verbatim>\<open>crc32c.h\<close>.

  The four tables are those of the source. \<open>Extend\<close> is its portable path: bytes up to a
  four-byte boundary of the buffer's address \<open>addr\<close>, then sixteen and four bytes at a time,
  then the rest. It is proved equal to the bit-by-bit division by the CRC-32C polynomial,
  for every address.

  \<open>AcceleratedExtend\<close> of \<^verbatim>\<open>crc32c_accelerate.cc\<close> uses two SSE 4.2 instructions; whether the
  processor has them is the parameter \<open>sse\<close>, and \<open>sse_ok\<close> is their documented effect.
\<close>

section \<open>The checksum\<close>

definition LE_LOAD32 :: "bool \<Rightarrow> bytes \<Rightarrow> u32 res" where
  "LE_LOAD32 le p = DecodeFixed32 le p"

definition table_at :: "u32 list \<Rightarrow> u32 \<Rightarrow> u32 res" where
  "table_at t c = (if unat c < length t then ret (t ! unat c) else abort (Undefined ''table index''))"

text \<open>The macros, on the current \<open>l\<close> and the bytes from \<open>p\<close> on.\<close>

definition STEP1 :: "u32 \<times> bytes \<Rightarrow> (u32 \<times> bytes) res" where
  "STEP1 = (\<lambda>(l, p). need 1 p
     (bnd (table_at table0 ((l AND 0xff) XOR ucast (p ! 0))) (\<lambda>t. ret (t XOR drop_bit 8 l, drop 1 p))))"

definition STEP4 :: "bool \<Rightarrow> u32 \<times> bytes \<Rightarrow> (u32 \<times> bytes) res" where
  "STEP4 le = (\<lambda>(l, p).
     bnd (LE_LOAD32 le p) (\<lambda>w.
     let c = l XOR w in
     bnd (table_at table3 (c AND 0xff)) (\<lambda>t3.
     bnd (table_at table2 (drop_bit 8 c AND 0xff)) (\<lambda>t2.
     bnd (table_at table1 (drop_bit 16 c AND 0xff)) (\<lambda>t1.
     bnd (table_at table0 (drop_bit 24 c)) (\<lambda>t0.
     ret (t3 XOR t2 XOR t1 XOR t0, drop 4 p)))))))"

fun step1_loop :: "nat \<Rightarrow> u32 \<times> bytes \<Rightarrow> (u32 \<times> bytes) res" where
  "step1_loop 0 s = ret s"
| "step1_loop (Suc n) s = bnd (STEP1 s) (step1_loop n)"

text \<open>The two middle loops; the bytes that are left bound the rounds, which is the fuel.\<close>

fun loop16 :: "nat \<Rightarrow> bool \<Rightarrow> u32 \<times> bytes \<Rightarrow> (u32 \<times> bytes) res" where
  "loop16 0 le s = ret s"
| "loop16 (Suc n) le s =
     (if length (snd s) \<ge> 16 then
        bnd (STEP4 le s) (\<lambda>s. bnd (STEP4 le s) (\<lambda>s. bnd (STEP4 le s) (\<lambda>s. bnd (STEP4 le s) (loop16 n le))))
      else ret s)"

fun loop4 :: "nat \<Rightarrow> bool \<Rightarrow> u32 \<times> bytes \<Rightarrow> (u32 \<times> bytes) res" where
  "loop4 0 le s = ret s"
| "loop4 (Suc n) le s =
     (if length (snd s) \<ge> 4 then bnd (STEP4 le s) (loop4 n le) else ret s)"

definition align_offset :: "nat \<Rightarrow> nat" where
  "align_offset pval = (pval + 3) div 4 * 4 - pval"

text \<open>The SSE 4.2 instructions, and the path built on them; the machine is little-endian.\<close>

record sse_lib =
  mm_crc32_u8 :: "u32 \<Rightarrow> byte \<Rightarrow> u32"
  mm_crc32_u64 :: "u64 \<Rightarrow> u64 \<Rightarrow> u64"

fun accel_bytes :: "sse_lib \<Rightarrow> nat \<Rightarrow> u32 \<times> bytes \<Rightarrow> (u32 \<times> bytes) res" where
  "accel_bytes S 0 s = ret s"
| "accel_bytes S (Suc n) (l, p) = need 1 p (accel_bytes S n (mm_crc32_u8 S l (p ! 0), drop 1 p))"

fun accel_loop16 :: "sse_lib \<Rightarrow> nat \<Rightarrow> u64 \<times> bytes \<Rightarrow> (u64 \<times> bytes) res" where
  "accel_loop16 S 0 s = ret s"
| "accel_loop16 S (Suc n) (l64, p) =
     (if length p \<ge> 16 then
        bnd (DecodeFixed64 True p) (\<lambda>w1. bnd (DecodeFixed64 True (drop 8 p)) (\<lambda>w2.
        accel_loop16 S n (mm_crc32_u64 S (mm_crc32_u64 S l64 w1) w2, drop 16 p)))
      else ret (l64, p))"

definition align_offset8 :: "nat \<Rightarrow> nat" where
  "align_offset8 pval = (pval + 7) div 8 * 8 - pval"

definition AcceleratedExtend :: "sse_lib \<Rightarrow> nat \<Rightarrow> u32 \<Rightarrow> bytes \<Rightarrow> u32 res" where
  "AcceleratedExtend S addr crc buf =
     (let l = crc XOR 0xffffffff; k = align_offset8 addr in
      bnd (if k \<le> length buf then accel_bytes S k (l, buf) else ret (l, buf)) (\<lambda>(l, p).
      bnd (accel_loop16 S (length buf) (ucast l, p)) (\<lambda>(l64, p).
      bnd (accel_bytes S (length p) (ucast l64, p)) (\<lambda>(l, p).
      ret (l XOR 0xffffffff)))))"

definition Extend :: "sse_lib option \<Rightarrow> bool \<Rightarrow> nat \<Rightarrow> u32 \<Rightarrow> bytes \<Rightarrow> u32 res" where
  "Extend sse le addr crc buf =
     (case sse of
        Some S \<Rightarrow> AcceleratedExtend S addr crc buf
      | None \<Rightarrow>
          (let l = crc XOR 0xffffffff; k = align_offset addr in
           bnd (if k \<le> length buf then step1_loop k (l, buf) else ret (l, buf)) (\<lambda>s.
           bnd (loop16 (length buf) le s) (\<lambda>s.
           bnd (loop4 (length buf) le s) (\<lambda>s.
           bnd (step1_loop (length (snd s)) s) (\<lambda>s.
           ret (fst s XOR 0xffffffff)))))))"

definition Value :: "sse_lib option \<Rightarrow> bool \<Rightarrow> nat \<Rightarrow> bytes \<Rightarrow> u32 res" where
  "Value sse le addr data = Extend sse le addr 0 data"

definition kMaskDelta :: u32 where
  "kMaskDelta = 0xa282ead8"

definition Mask :: "u32 \<Rightarrow> u32" where
  "Mask crc = (drop_bit 15 crc OR push_bit 17 crc) + kMaskDelta"

definition Unmask :: "u32 \<Rightarrow> u32" where
  "Unmask masked_crc = (let rot = masked_crc - kMaskDelta in drop_bit 17 rot OR push_bit 15 rot)"

section \<open>Single steps\<close>

lemma byte_mask: "(0xff :: u32) = mask 8"
  by (simp add: mask_eq_exp_minus_1)

lemma unat_and_ff: "unat ((x :: u32) AND 0xff) < 256"
proof -
  have "x AND 0xff \<le> 0xff" by (rule word_and_le1)
  then show ?thesis by (simp add: word_le_nat_alt)
qed

lemma crc_bytes_simps [simp]:
  "crc_bytes [] l = l" "crc_bytes (b # bs) l = crc_bytes bs (crc8 (l XOR ucast b))"
  "crc_bytes (bs @ cs) l = crc_bytes cs (crc_bytes bs l)"
  by (simp_all add: crc_bytes_def)

lemma STEP1_ret: "STEP1 (l, b # p) = ret (crc8 (l XOR ucast b), p)"
proof -
  let ?x = "l XOR ucast b" and ?c = "(l AND 0xff) XOR ucast b :: u32"
  have c: "?c = ?x AND 0xff" and d: "drop_bit 8 ?x = drop_bit 8 l"
    unfolding byte_mask by (rule bit_word_eqI, auto simp: bit_simps dest: bit_imp_le_length)+
  have "unat ?c < 256" unfolding c by (rule unat_and_ff)
  moreover from tables_nth(1) [OF this] have "table0 ! unat ?c XOR drop_bit 8 l = crc8 ?x"
    unfolding c crc8_split [of ?x] d by simp
  ultimately show ?thesis by (simp add: STEP1_def need_def table_at_def)
qed

lemma step1_loop_ret:
  "k \<le> length p \<Longrightarrow> step1_loop k (l, p) = ret (crc_bytes (take k p) l, drop k p)"
proof (induction k arbitrary: l p)
  case (Suc k)
  then obtain b q where "p = b # q" by (cases p) auto
  with Suc show ?case by (simp add: STEP1_ret)
qed simp

lemma object_split:
  assumes "length bs \<le> 3"
  shows "crc8 (l XOR object_of_bytes True (b # bs)) = crc8 (l XOR ucast b) XOR object_of_bytes True bs"
proof -
  let ?w = "object_of_bytes True bs :: u32"
  have high: "k < 24" if "bit ?w k" for k
    using assms that by (auto simp: object_bytes_bit [OF refl])
  have "object_of_bytes True (b # bs) = push_bit 8 ?w OR ucast b" by (simp add: object_of_bytes_def)
  also have "\<dots> = ucast b XOR push_bit 8 ?w"
    by (rule bit_word_eqI) (auto simp: bit_simps dest: bit_imp_le_length)
  finally have "crc8 (l XOR object_of_bytes True (b # bs)) = crc8 (l XOR ucast b) XOR crc8 (push_bit 8 ?w)"
    by (simp add: crc8_xor ac_simps)
  also have "crc8 (push_bit 8 ?w) = drop_bit 8 (push_bit 8 ?w)" by (rule crc8_shift) (simp add: bit_simps)
  also have "\<dots> = ?w" by (rule bit_word_eqI) (auto simp: bit_simps dest: high)
  finally show ?thesis .
qed

lemma crc8_four:
  "crc8 (crc8 (crc8 (crc8 c))) =
   crc8 (crc8 (crc8 (crc8 (c AND 0xff)))) XOR crc8 (crc8 (crc8 (drop_bit 8 c AND 0xff))) XOR
   crc8 (crc8 (drop_bit 16 c AND 0xff)) XOR crc8 (drop_bit 24 c)"
proof -
  have d: "drop_bit 8 (drop_bit 8 c) = drop_bit 16 c" "drop_bit 8 (drop_bit 16 c) = drop_bit 24 c"
    unfolding drop_bit_drop_bit by simp_all
  show ?thesis
    unfolding crc8_split [of c] crc8_xor crc8_split [of "drop_bit 8 c"] crc8_split [of "drop_bit 16 c"] d
    by (simp add: ac_simps)
qed

lemma STEP4_ret:
  assumes "4 \<le> length p"
  shows "STEP4 le (l, p) = ret (crc_bytes (take 4 p) l, drop 4 p)"
proof -
  from assms obtain b0 b1 b2 b3 q where p: "p = b0 # b1 # b2 # b3 # q"
    by (auto simp: numeral_eq_Suc Suc_le_length_iff)
  let ?c = "l XOR object_of_bytes True [b0, b1, b2, b3]"
  have small: "unat (drop_bit 24 ?c) < 256"
    using unsigned_less [of ?c, where 'a = nat] unfolding unat_drop_bit_eq
    by (simp add: drop_bit_eq_div less_mult_imp_div_less)
  have "object_of_bytes True [] = (0 :: u32)" by (simp add: object_of_bytes_def)
  then have "crc_bytes [b0, b1, b2, b3] l = crc8 (crc8 (crc8 (crc8 ?c)))" by (simp add: object_split)
  also note crc8_four [of ?c]
  finally show ?thesis
    using DecodeFixed32_le [OF assms, of le] small
    by (simp add: STEP4_def LE_LOAD32_def p Let_def table_at_def tables_nth unat_and_ff)
qed

lemma loop16_ret:
  "\<exists>k \<le> length p. loop16 n le (l, p) = ret (crc_bytes (take k p) l, drop k p) \<and>
     (length p \<le> n \<longrightarrow> length p - k < 16)"
proof (induction n arbitrary: l p)
  case 0
  show ?case by (intro exI [of _ 0]) auto
next
  case (Suc n)
  show ?case
  proof (cases "16 \<le> length p")
    case True
    from Suc.IH [of "drop 16 p" "crc_bytes (take 16 p) l"] obtain k where
      k: "k \<le> length p - 16"
        "loop16 n le (crc_bytes (take 16 p) l, drop 16 p) =
         ret (crc_bytes (take k (drop 16 p)) (crc_bytes (take 16 p) l), drop k (drop 16 p))"
        "length p - 16 \<le> n \<longrightarrow> length p - 16 - k < 16" by auto
    have t: "take 16 p = take 4 p @ take 4 (drop 4 p) @ take 4 (drop 8 p) @ take 4 (drop 12 p)"
      using take_add [of 4 12 p] take_add [of 4 8 "drop 4 p"] take_add [of 4 4 "drop 8 p"] by simp
    have "loop16 (Suc n) le (l, p) = loop16 n le (crc_bytes (take 16 p) l, drop 16 p)"
      using True by (simp add: STEP4_ret t)
    also note k(2)
    also have "crc_bytes (take k (drop 16 p)) (crc_bytes (take 16 p) l) = crc_bytes (take (16 + k) p) l"
      by (simp add: take_add)
    finally show ?thesis using k(1,3) True
      by (intro exI [of _ "16 + k"]) (auto simp: add.commute)
  next
    case False
    then show ?thesis by (intro exI [of _ 0]) auto
  qed
qed

lemma loop4_ret:
  "\<exists>k \<le> length p. loop4 n le (l, p) = ret (crc_bytes (take k p) l, drop k p) \<and>
     (length p \<le> n \<longrightarrow> length p - k < 4)"
proof (induction n arbitrary: l p)
  case 0
  show ?case by (intro exI [of _ 0]) auto
next
  case (Suc n)
  show ?case
  proof (cases "4 \<le> length p")
    case True
    from Suc.IH [of "drop 4 p" "crc_bytes (take 4 p) l"] obtain k where
      k: "k \<le> length p - 4"
        "loop4 n le (crc_bytes (take 4 p) l, drop 4 p) =
         ret (crc_bytes (take k (drop 4 p)) (crc_bytes (take 4 p) l), drop k (drop 4 p))"
        "length p - 4 \<le> n \<longrightarrow> length p - 4 - k < 4" by auto
    have "loop4 (Suc n) le (l, p) = loop4 n le (crc_bytes (take 4 p) l, drop 4 p)"
      using True by (simp add: STEP4_ret)
    also note k(2)
    also have "crc_bytes (take k (drop 4 p)) (crc_bytes (take 4 p) l) = crc_bytes (take (4 + k) p) l"
      by (simp add: take_add)
    finally show ?thesis using k(1,3) True
      by (intro exI [of _ "4 + k"]) (auto simp: add.commute)
  next
    case False
    then show ?thesis by (intro exI [of _ 0]) auto
  qed
qed

section \<open>Whole buffers\<close>

lemma crc_chunk:
  "crc_bytes (take k (drop j buf)) (crc_bytes (take j buf) l) = crc_bytes (take (k + j) buf) l"
  by (simp add: add.commute take_add)

lemma Extend_portable: "Extend None le addr crc buf = ret (crc32c_extend crc buf)"
proof -
  let ?l = "crc XOR 0xffffffff" and ?k = "align_offset addr"
  obtain k0 where k0: "k0 \<le> length buf"
    "(if ?k \<le> length buf then step1_loop ?k (?l, buf) else ret (?l, buf)) =
     ret (crc_bytes (take k0 buf) ?l, drop k0 buf)"
  proof (cases "?k \<le> length buf")
    case True
    then show ?thesis using that step1_loop_ret by simp
  next
    case False
    then show ?thesis using that [of 0] by simp
  qed
  from loop16_ret [of "drop k0 buf" "length buf" le "crc_bytes (take k0 buf) ?l"] obtain k1 where
    k1: "loop16 (length buf) le (crc_bytes (take k0 buf) ?l, drop k0 buf) =
      ret (crc_bytes (take (k1 + k0) buf) ?l, drop (k1 + k0) buf)"
    by (auto simp: crc_chunk)
  from loop4_ret [of "drop (k1 + k0) buf" "length buf" le "crc_bytes (take (k1 + k0) buf) ?l"] obtain k2 where
    k2: "loop4 (length buf) le (crc_bytes (take (k1 + k0) buf) ?l, drop (k1 + k0) buf) =
      ret (crc_bytes (take (k2 + (k1 + k0)) buf) ?l, drop (k2 + (k1 + k0)) buf)"
    by (auto simp: crc_chunk)
  let ?n = "k2 + (k1 + k0)"
  have "step1_loop (length (drop ?n buf)) (crc_bytes (take ?n buf) ?l, drop ?n buf) =
    ret (crc_bytes (take ?n buf @ drop ?n buf) ?l, [])"
    by (subst step1_loop_ret) (simp_all del: append_take_drop_id)
  then show ?thesis by (simp add: Extend_def Let_def k0(2) k1 k2 crc32c_extend_def)
qed

text \<open>The documented effect of the instructions.\<close>

definition sse_ok :: "sse_lib \<Rightarrow> bool" where
  "sse_ok S \<longleftrightarrow> (\<forall>l b. mm_crc32_u8 S l b = crc8 (l XOR ucast b)) \<and>
     (\<forall>l w. mm_crc32_u64 S (ucast l) w = ucast (crc_bytes (object_bytes True 8 w) l))"

lemma accel_bytes_ret:
  "sse_ok S \<Longrightarrow> k \<le> length p \<Longrightarrow> accel_bytes S k (l, p) = ret (crc_bytes (take k p) l, drop k p)"
proof (induction k arbitrary: l p)
  case (Suc k)
  then obtain b q where "p = b # q" by (cases p) auto
  with Suc show ?case by (simp add: need_def sse_ok_def)
qed simp

lemmas object_bytes_of = object_inverse [where 'a = 64 and n = 8, simplified]

lemma accel_loop16_ret:
  assumes "sse_ok S"
  shows "\<exists>k \<le> length p. accel_loop16 S n (ucast l, p) = ret (ucast (crc_bytes (take k p) l), drop k p)"
proof (induction n arbitrary: l p)
  case 0
  show ?case by (intro exI [of _ 0]) auto
next
  case (Suc n)
  show ?case
  proof (cases "16 \<le> length p")
    case True
    have t: "take 16 p = take 8 p @ take 8 (drop 8 p)" using take_add [of 8 8 p] by simp
    have "mm_crc32_u64 S (mm_crc32_u64 S (ucast l) (object_of_bytes True (take 8 p)))
        (object_of_bytes True (take 8 (drop 8 p))) = ucast (crc_bytes (take 16 p) l)"
      using assms True by (simp add: sse_ok_def object_bytes_of t)
    then have "accel_loop16 S (Suc n) (ucast l, p) =
        accel_loop16 S n (ucast (crc_bytes (take 16 p) l), drop 16 p)"
      using True by (simp add: DecodeFixed64_le)
    moreover from Suc.IH [of "drop 16 p" "crc_bytes (take 16 p) l"] obtain k where
      "k \<le> length p - 16"
      "accel_loop16 S n (ucast (crc_bytes (take 16 p) l), drop 16 p) =
         ret (ucast (crc_bytes (take (k + 16) p) l), drop (k + 16) p)"
      by (auto simp: crc_chunk)
    ultimately show ?thesis using True by (intro exI [of _ "k + 16"]) auto
  next
    case False
    then show ?thesis by (intro exI [of _ 0]) auto
  qed
qed

lemma Extend_accelerated:
  assumes "sse_ok S"
  shows "Extend (Some S) le addr crc buf = ret (crc32c_extend crc buf)"
proof -
  let ?l = "crc XOR 0xffffffff" and ?k = "align_offset8 addr"
  obtain k0 where k0: "k0 \<le> length buf"
    "(if ?k \<le> length buf then accel_bytes S ?k (?l, buf) else ret (?l, buf)) =
     ret (crc_bytes (take k0 buf) ?l, drop k0 buf)"
  proof (cases "?k \<le> length buf")
    case True
    then show ?thesis using that accel_bytes_ret [OF assms] by simp
  next
    case False
    then show ?thesis using that [of 0] by simp
  qed
  from accel_loop16_ret [OF assms, of "drop k0 buf" "length buf" "crc_bytes (take k0 buf) ?l"] obtain k1 where
    k1: "accel_loop16 S (length buf) (ucast (crc_bytes (take k0 buf) ?l), drop k0 buf) =
      ret (ucast (crc_bytes (take (k1 + k0) buf) ?l), drop (k1 + k0) buf)"
    by (auto simp: crc_chunk)
  let ?n = "k1 + k0"
  have "(ucast (ucast x :: u64) :: u32) = x" for x :: u32
    by (rule bit_word_eqI) (auto simp: bit_simps dest: bit_imp_le_length)
  moreover have "accel_bytes S (length (drop ?n buf)) (crc_bytes (take ?n buf) ?l, drop ?n buf) =
    ret (crc_bytes (take ?n buf @ drop ?n buf) ?l, [])"
    by (subst accel_bytes_ret [OF assms]) (simp_all del: append_take_drop_id)
  ultimately show ?thesis
    by (simp add: Extend_def AcceleratedExtend_def Let_def k0(2) k1 crc32c_extend_def)
qed

definition sse_trusted :: "sse_lib option \<Rightarrow> bool" where
  "sse_trusted sse \<longleftrightarrow> (case sse of None \<Rightarrow> True | Some S \<Rightarrow> sse_ok S)"

lemma Extend_ret: "sse_trusted sse \<Longrightarrow> Extend sse le addr crc buf = ret (crc32c_extend crc buf)"
  by (cases sse) (simp_all add: sse_trusted_def Extend_portable Extend_accelerated)

lemma Value_ret: "sse_trusted sse \<Longrightarrow> Value sse le addr buf = ret (crc32c_extend 0 buf)"
  by (simp add: Value_def Extend_ret)

lemma crc32c_extend_append: "crc32c_extend (crc32c_extend crc a) b = crc32c_extend crc (a @ b)"
  by (simp add: crc32c_extend_def xor.assoc)

lemma Unmask_Mask: "Unmask (Mask crc) = crc"
proof -
  have "drop_bit 17 (drop_bit 15 crc OR push_bit 17 crc) OR push_bit 15 (drop_bit 15 crc OR push_bit 17 crc) = crc"
  proof (rule bit_word_eqI)
    fix n assume "n < LENGTH(32)"
    then show "bit (drop_bit 17 (drop_bit 15 crc OR push_bit 17 crc) OR
        push_bit 15 (drop_bit 15 crc OR push_bit 17 crc)) n = bit crc n"
      by (cases "n < 15") (auto simp: bit_simps dest: bit_imp_le_length)
  qed
  then show ?thesis by (simp add: Unmask_def Mask_def Let_def)
qed

lemma Mask_Unmask: "Mask (Unmask m) = m"
proof -
  have "drop_bit 15 (drop_bit 17 r OR push_bit 15 r) OR push_bit 17 (drop_bit 17 r OR push_bit 15 r) = r" for r :: u32
  proof (rule bit_word_eqI)
    fix n assume "n < LENGTH(32)"
    then show "bit (drop_bit 15 (drop_bit 17 r OR push_bit 15 r) OR
        push_bit 17 (drop_bit 17 r OR push_bit 15 r)) n = bit r n"
      by (cases "n < 17") (auto simp: bit_simps dest: bit_imp_le_length)
  qed
  then show ?thesis by (simp add: Unmask_def Mask_def Let_def)
qed

section \<open>Properties\<close>

text \<open>
  C8. \<open>Extend\<close> is CRC-32C: on every buffer at every address, on machines of
  either byte order, with or without the SSE instructions, it reads only the buffer and
  returns the bit-by-bit checksum; and extending by two pieces is extending by their
  concatenation.
\<close>

theorem Extend_is_crc32c:
  assumes "sse_trusted sse"
  shows "Extend sse le addr crc buf = ret (crc32c_extend crc buf) \<and>
    bnd (Extend sse le addr crc a) (\<lambda>c. Extend sse le addr' c b) = Extend sse le addr'' crc (a @ b)"
  using assms by (simp add: Extend_ret crc32c_extend_append)

theorem Extend_is_crc32c_witness:
  "Extend None True 3 0 [1, 2, 3, 4, 5, 6] = ret (crc32c_extend 0 [1, 2, 3, 4, 5, 6])"
  using Extend_is_crc32c [of None True 3 0 "[1, 2, 3, 4, 5, 6]"] by (simp add: sse_trusted_def)

text \<open>Masking a checksum is a bijection: \<open>Unmask\<close> and \<open>Mask\<close> are inverses.\<close>

theorem Mask_inverse: "Unmask (Mask crc) = crc \<and> Mask (Unmask masked) = masked"
  by (simp add: Unmask_Mask Mask_Unmask)

end
