(* ===== verification/Record_IO.thy ===== *)
theory Record_IO
  imports Input_Stream Crc32c
begin

text \<open>
  Record files, in which self-play stores its games:
  \<^verbatim>\<open>tensorflow/core/lib/io/record_writer.cc\<close> and \<^verbatim>\<open>record_reader.cc\<close>.

  The writer appends to a \<open>WritableFile\<close>, an interface whose methods are parameters
  (\<open>writable\<close>); a \<open>ZlibOutputBuffer\<close> is another object of that interface. The reader has three
  ways to fetch bytes: the compressed stream (any input stream), a
  \<open>BufferedInputStream\<close> over the file, or the file itself. The machine (byte order, CRC
  instructions, address of a buffer) is a parameter; a string longer than the largest one the
  allocator can give throws.
\<close>

section \<open>Options\<close>

datatype compression_type = COMPRESSION_NONE | ZLIB_COMPRESSION
datatype zlib_options = ZLIB_DEFAULT | ZLIB_GZIP

record record_options =
  opt_compression :: compression_type
  opt_zlib :: zlib_options
  opt_buffer_size :: int

definition default_options :: record_options where
  "default_options = \<lparr>opt_compression = COMPRESSION_NONE, opt_zlib = ZLIB_DEFAULT, opt_buffer_size = 0\<rparr>"

definition CreateRecordWriterOptions :: "string \<Rightarrow> record_options" where
  "CreateRecordWriterOptions compression_type =
     (if compression_type = ''ZLIB'' then
        default_options\<lparr>opt_compression := ZLIB_COMPRESSION, opt_zlib := ZLIB_DEFAULT\<rparr>
      else if compression_type = ''GZIP'' then
        default_options\<lparr>opt_compression := ZLIB_COMPRESSION, opt_zlib := ZLIB_GZIP\<rparr>
      else default_options)"

definition CreateRecordReaderOptions :: "string \<Rightarrow> record_options" where
  "CreateRecordReaderOptions compression_type =
     (if compression_type = ''ZLIB'' then
        default_options\<lparr>opt_compression := ZLIB_COMPRESSION, opt_zlib := ZLIB_DEFAULT\<rparr>
      else if compression_type = ''GZIP'' then
        default_options\<lparr>opt_compression := ZLIB_COMPRESSION, opt_zlib := ZLIB_GZIP\<rparr>
      else default_options)"

definition IsZlibCompressed :: "record_options \<Rightarrow> bool" where
  "IsZlibCompressed options \<longleftrightarrow> opt_compression options = ZLIB_COMPRESSION"

section \<open>The writer\<close>

record machine =
  m_sse :: "sse_lib option"
  m_le :: bool
  m_addr :: "bytes \<Rightarrow> nat"

record 'f writable =
  w_append :: "bytes \<Rightarrow> 'f \<Rightarrow> (status \<times> 'f) res"
  w_flush :: "'f \<Rightarrow> (status \<times> 'f) res"
  w_close :: "'f \<Rightarrow> (status \<times> 'f) res"

record 'f record_writer =
  rw_dest :: "'f option"
  rw_options :: record_options

definition RecordWriter ::
  "(zlib_options \<Rightarrow> 'f \<Rightarrow> status \<times> 'f) \<Rightarrow> 'f \<Rightarrow> record_options \<Rightarrow> 'f record_writer res" where
  "RecordWriter ZlibOutputBuffer dest options =
     (if IsZlibCompressed options then
        let (s, zlib_output_buffer) = ZlibOutputBuffer (opt_zlib options) dest in
        if \<not> ok s then abort (LogFatal (''Failed to initialize Zlib inputbuffer. Error: '' @ ToString s))
        else ret \<lparr>rw_dest = Some zlib_output_buffer, rw_options = options\<rparr>
      else ret \<lparr>rw_dest = Some dest, rw_options = options\<rparr>)"

definition MaskedCrc :: "machine \<Rightarrow> bytes \<Rightarrow> u32 res" where
  "MaskedCrc M data =
     bnd (Value (m_sse M) (m_le M) (m_addr M data) data) (\<lambda>crc. ret (Mask crc))"

definition WriteRecord ::
  "machine \<Rightarrow> 'f writable \<Rightarrow> bytes \<Rightarrow> 'f record_writer \<Rightarrow> (status \<times> 'f record_writer) res" where
  "WriteRecord M W data w =
     (let len = EncodeFixed64 (m_le M) (of_nat (length data)) in
      bnd (MaskedCrc M len) (\<lambda>header_crc.
      bnd (MaskedCrc M data) (\<lambda>data_crc.
      let header = len @ EncodeFixed32 (m_le M) header_crc;
          footer = EncodeFixed32 (m_le M) data_crc in
      case rw_dest w of
        None \<Rightarrow> abort (Undefined ''dest_ is null'')
      | Some f \<Rightarrow>
          bnd (w_append W header f) (\<lambda>(s1, f1).
          if \<not> ok s1 then ret (s1, w\<lparr>rw_dest := Some f1\<rparr>) else
          bnd (w_append W data f1) (\<lambda>(s2, f2).
          if \<not> ok s2 then ret (s2, w\<lparr>rw_dest := Some f2\<rparr>) else
          bnd (w_append W footer f2) (\<lambda>(s3, f3).
          ret (s3, w\<lparr>rw_dest := Some f3\<rparr>)))))))"

definition Writer_Close :: "'f writable \<Rightarrow> 'f record_writer \<Rightarrow> (status \<times> 'f record_writer) res" where
  "Writer_Close W w =
     (if IsZlibCompressed (rw_options w) then
        case rw_dest w of
          None \<Rightarrow> abort (Undefined ''dest_ is null'')
        | Some f \<Rightarrow> bnd (w_close W f) (\<lambda>(s, _). ret (s, w\<lparr>rw_dest := None\<rparr>))
      else ret (OK, w))"

definition Writer_Flush :: "'f writable \<Rightarrow> 'f record_writer \<Rightarrow> (status \<times> 'f record_writer) res" where
  "Writer_Flush W w =
     (if IsZlibCompressed (rw_options w) then
        case rw_dest w of
          None \<Rightarrow> abort (Undefined ''dest_ is null'')
        | Some f \<Rightarrow> bnd (w_flush W f) (\<lambda>(s, f'). ret (s, w\<lparr>rw_dest := Some f'\<rparr>))
      else ret (OK, w))"

text \<open>The destructor closes a writer that has not been closed; a failure is only logged.\<close>

definition delete_RecordWriter :: "'f writable \<Rightarrow> 'f record_writer \<Rightarrow> 'f record_writer res" where
  "delete_RecordWriter W w =
     (if rw_dest w \<noteq> None then bnd (Writer_Close W w) (\<lambda>(_, w'). ret w') else ret w)"

section \<open>The reader\<close>

datatype file_input = BufferedIn "random_access_stream buffered" | PlainIn random_access_stream

fun Input_ReadNBytes :: "file_input read_op" where
  "Input_ReadNBytes n result (BufferedIn b) =
     bnd (Buffered_ReadNBytes RandomAccess_ReadNBytes n result b) (\<lambda>(s, r, b'). ret (s, r, BufferedIn b'))"
| "Input_ReadNBytes n result (PlainIn p) =
     bnd (RandomAccess_ReadNBytes n result p) (\<lambda>(s, r, p'). ret (s, r, PlainIn p'))"

record 'z record_reader =
  rr_src :: file_read
  rr_options :: record_options
  rr_input_stream :: file_input
  rr_zlib_input_stream :: "'z option"

definition RecordReader ::
  "(zlib_options \<Rightarrow> file_input \<Rightarrow> 'z) \<Rightarrow> file_read \<Rightarrow> record_options \<Rightarrow> 'z record_reader" where
  "RecordReader ZlibInputStream file options =
     (let input_stream =
        (if opt_buffer_size options > 0
         then BufferedIn (BufferedInputStream (RandomAccessInputStream file) (nat (opt_buffer_size options)))
         else PlainIn (RandomAccessInputStream file)) in
      \<lparr>rr_src = file, rr_options = options, rr_input_stream = input_stream,
       rr_zlib_input_stream =
         (if opt_compression options = ZLIB_COMPRESSION
          then Some (ZlibInputStream (opt_zlib options) input_stream) else None)\<rparr>)"

text \<open>The three ways to fetch \<open>expected\<close> bytes.\<close>

definition fetch ::
  "'z read_op \<Rightarrow> u64 \<Rightarrow> nat \<Rightarrow> bytes \<Rightarrow> 'z record_reader \<Rightarrow> (status \<times> bytes \<times> 'z record_reader) res" where
  "fetch Zlib_ReadNBytes offset expected storage r =
     (case rr_zlib_input_stream r of
        Some z \<Rightarrow>
          bnd (Zlib_ReadNBytes (int expected) storage z) (\<lambda>(s, data, z').
          ret (s, data, r\<lparr>rr_zlib_input_stream := Some z'\<rparr>))
      | None \<Rightarrow>
          if opt_buffer_size (rr_options r) > 0 then
            bnd (Input_ReadNBytes (int expected) storage (rr_input_stream r)) (\<lambda>(s, data, is).
            ret (s, data, r\<lparr>rr_input_stream := is\<rparr>))
          else let (s, data) = rr_src r offset expected in ret (s, data, r))"

text \<open>What all three do with the fetched bytes.\<close>

definition verify_checksum :: "machine \<Rightarrow> u64 \<Rightarrow> nat \<Rightarrow> bytes \<Rightarrow> (status \<times> bytes) res" where
  "verify_checksum M offset n data =
     (if length data \<noteq> n + 4 then
        if data = [] then ret (OutOfRange ''eof'', [])
        else ret (DataLoss (''truncated record at '' @ FastUInt64ToBufferLeft offset), [])
      else
        bnd (DecodeFixed32 (m_le M) (drop n data)) (\<lambda>masked_crc.
        bnd (Value (m_sse M) (m_le M) (m_addr M data) (take n data)) (\<lambda>crc.
        if Unmask masked_crc \<noteq> crc
        then ret (DataLoss (''corrupted record at '' @ FastUInt64ToBufferLeft offset), [])
        else ret (OK, take n data))))"

definition ReadChecksummed ::
  "machine \<Rightarrow> nat \<Rightarrow> 'z read_op \<Rightarrow> u64 \<Rightarrow> u64 \<Rightarrow> bytes \<Rightarrow> 'z record_reader \<Rightarrow>
   (status \<times> bytes \<times> bytes \<times> 'z record_reader) res" where
  "ReadChecksummed M max_size Zlib_ReadNBytes offset n storage r =
     (if n \<ge> - 1 - 4 then ret (DataLoss ''record size too large'', [], storage, r)
      else
        let expected = unat n + 4 in
        if max_size < expected then abort (Thrown ''std::length_error'')
        else
          bnd (fetch Zlib_ReadNBytes offset expected storage r) (\<lambda>(s, data, r').
          if \<not> ok s then ret (s, [], data, r')
          else
            bnd (verify_checksum M offset (unat n) data) (\<lambda>(s', result).
            ret (s', result, data, r'))))"

definition kHeaderSize :: u64 where "kHeaderSize = 8 + 4"
definition kFooterSize :: u64 where "kFooterSize = 4"

definition ReadRecord ::
  "machine \<Rightarrow> nat \<Rightarrow> 'z read_op \<Rightarrow> u64 \<Rightarrow> bytes \<Rightarrow> 'z record_reader \<Rightarrow>
   (status \<times> u64 \<times> bytes \<times> 'z record_reader) res" where
  "ReadRecord M max_size Zlib_ReadNBytes offset record r =
     bnd (ReadChecksummed M max_size Zlib_ReadNBytes offset 8 record r) (\<lambda>(s, lbuf, record1, r1).
     if \<not> ok s then ret (s, offset, record1, r1)
     else
       bnd (DecodeFixed64 (m_le M) lbuf) (\<lambda>length.
       bnd (ReadChecksummed M max_size Zlib_ReadNBytes (offset + kHeaderSize) length record1 r1)
         (\<lambda>(s', data, record2, r2).
       if \<not> ok s' then
         ret (if IsOutOfRange s' then DataLoss (''truncated record at '' @ FastUInt64ToBufferLeft offset) else s',
              offset, record2, r2)
       else ret (OK, offset + (kHeaderSize + length + kFooterSize), data, r2))))"

record 'z sequential_reader =
  seq_underlying :: "'z record_reader"
  seq_offset :: u64

definition SequentialRecordReader ::
  "(zlib_options \<Rightarrow> file_input \<Rightarrow> 'z) \<Rightarrow> file_read \<Rightarrow> record_options \<Rightarrow> 'z sequential_reader" where
  "SequentialRecordReader ZlibInputStream file options =
     \<lparr>seq_underlying = RecordReader ZlibInputStream file options, seq_offset = 0\<rparr>"

definition Sequential_ReadRecord ::
  "machine \<Rightarrow> nat \<Rightarrow> 'z read_op \<Rightarrow> 'z sequential_reader \<Rightarrow> (status \<times> bytes \<times> 'z sequential_reader) res" where
  "Sequential_ReadRecord M max_size Zlib_ReadNBytes r =
     bnd (ReadRecord M max_size Zlib_ReadNBytes (seq_offset r) [] (seq_underlying r)) (\<lambda>(s, offset, record, u).
     ret (s, record, \<lparr>seq_underlying = u, seq_offset = offset\<rparr>))"
section \<open>The format\<close>

definition checked :: "bytes \<Rightarrow> bytes" where
  "checked x = x @ object_bytes True 4 (Mask (crc32c_extend 0 x))"

definition length_bytes :: "bytes \<Rightarrow> bytes" where
  "length_bytes data = object_bytes True 8 (of_nat (length data) :: u64)"

definition record_bytes :: "bytes \<Rightarrow> bytes" where
  "record_bytes data = checked (length_bytes data) @ checked data"

lemma length_checked [simp]: "length (checked x) = length x + 4"
  by (simp add: checked_def)

lemma length_length_bytes [simp]: "length (length_bytes data) = 8"
  by (simp add: length_bytes_def)

lemma length_record_bytes [simp]: "length (record_bytes data) = length data + 16"
  by (simp add: record_bytes_def)

section \<open>Writing\<close>

abbreviation trusted :: "machine \<Rightarrow> bool" where
  "trusted M \<equiv> sse_trusted (m_sse M)"

text \<open>A file (or compressing buffer) without errors; \<open>holds f d\<close>: the bytes \<open>d\<close> were appended to \<open>f\<close>.\<close>

definition good_append :: "'f writable \<Rightarrow> ('f \<Rightarrow> bytes \<Rightarrow> bool) \<Rightarrow> bool" where
  "good_append W holds \<longleftrightarrow>
     (\<forall>f d data. holds f d \<longrightarrow> (\<exists>f'. w_append W data f = ret (OK, f') \<and> holds f' (d @ data)))"

lemma MaskedCrc_ret: "trusted M \<Longrightarrow> MaskedCrc M data = ret (Mask (crc32c_extend 0 data))"
  by (simp add: MaskedCrc_def Value_ret)

text \<open>The same of a file that takes pieces of less than \<open>2 ^ 32\<close> bytes, like the compressing buffer.\<close>

definition small_append :: "'f writable \<Rightarrow> ('f \<Rightarrow> bytes \<Rightarrow> bool) \<Rightarrow> bool" where
  "small_append W holds \<longleftrightarrow>
     (\<forall>f d data. holds f d \<and> length data < 2 ^ 32 \<longrightarrow> (\<exists>f'. w_append W data f = ret (OK, f') \<and> holds f' (d @ data)))"

lemma good_append_small [intro]: "good_append W holds \<Longrightarrow> small_append W holds"
  by (simp add: good_append_def small_append_def)

lemma WriteRecord_appends:
  assumes "trusted M" "good_append W holds \<or> small_append W holds \<and> length data < 2 ^ 32" "rw_dest w = Some f" "holds f d"
  shows "\<exists>f'. WriteRecord M W data w = ret (OK, w\<lparr>rw_dest := Some f'\<rparr>) \<and> holds f' (d @ record_bytes data)"
proof -
  have app: "\<exists>f'. w_append W x f = ret (OK, f') \<and> holds f' (d @ x)" if "holds f d" "length x \<le> 12 \<or> x = data" for f d x
    using assms(2) that by (auto simp: good_append_def small_append_def)
  obtain f1 where f1: "w_append W (checked (length_bytes data)) f = ret (OK, f1)" "holds f1 (d @ checked (length_bytes data))"
    using app [OF assms(4), of "checked (length_bytes data)"] by auto
  obtain f2 where f2: "w_append W data f1 = ret (OK, f2)" "holds f2 ((d @ checked (length_bytes data)) @ data)"
    using app [OF f1(2)] by blast
  obtain f3 where f3: "w_append W (object_bytes True 4 (Mask (crc32c_extend 0 data))) f2 = ret (OK, f3)"
    "holds f3 (((d @ checked (length_bytes data)) @ data) @ object_bytes True 4 (Mask (crc32c_extend 0 data)))"
    using app [OF f2(2), of "object_bytes True 4 (Mask (crc32c_extend 0 data))"] by auto
  have "WriteRecord M W data w = ret (OK, w\<lparr>rw_dest := Some f3\<rparr>)"
    using f1(1) f2(1) f3(1) assms(1,3)
    by (simp add: WriteRecord_def MaskedCrc_ret EncodeFixed_le checked_def length_bytes_def)
  moreover have "holds f3 (d @ record_bytes data)" using f3(2) by (simp add: record_bytes_def checked_def)
  ultimately show ?thesis by blast
qed

section \<open>Reading\<close>

definition reader_at :: "('z \<Rightarrow> bytes \<Rightarrow> nat \<Rightarrow> bool) \<Rightarrow> 'z record_reader \<Rightarrow> bytes \<Rightarrow> nat \<Rightarrow> bool" where
  "reader_at stands r d p \<longleftrightarrow>
     (case rr_zlib_input_stream r of
        Some z \<Rightarrow> stands z d p
      | None \<Rightarrow>
          if opt_buffer_size (rr_options r) > 0 then
            (case rr_input_stream r of BufferedIn b \<Rightarrow> file_stream_at b d p | PlainIn _ \<Rightarrow> False)
          else good_file d (rr_src r) \<and> p \<le> length d)"

lemma verify_checksum_ret:
  assumes "trusted M" "length data = n + 4"
  shows "verify_checksum M offset n data =
    (if data = checked (take n data) then ret (OK, take n data)
     else ret (DataLoss (''corrupted record at '' @ FastUInt64ToBufferLeft offset), []))"
proof -
  let ?crc = "crc32c_extend 0 (take n data)" and ?m = "object_of_bytes True (drop n data) :: u32"
  have "length (drop n data) = 4" using assms(2) by simp
  then have inv: "object_bytes True 4 ?m = drop n data" by (intro object_inverse) simp_all
  have r: "object_of_bytes True (object_bytes True 4 v) = v" for v :: u32
    by (rule object_roundtrip) simp
  have "Unmask ?m = ?crc \<longleftrightarrow> ?m = Mask ?crc" using Mask_Unmask Unmask_Mask by metis
  also have "\<dots> \<longleftrightarrow> object_bytes True 4 ?m = object_bytes True 4 (Mask ?crc)"
    by (metis r)
  also have "\<dots> \<longleftrightarrow> data = checked (take n data)"
    unfolding inv checked_def using same_append_eq [of "take n data" "drop n data"] by simp
  finally show ?thesis using assms by (simp add: verify_checksum_def DecodeFixed32_le Value_ret)
qed

context byte_source
begin

lemma fetch_at:
  assumes "reader_at stands r d p" "p = unat offset"
  shows "\<exists>s r'. fetch ReadNBytes offset n storage r = ret (s, take n (drop p d), r') \<and>
    reader_at stands r' d (min (length d) (p + n)) \<and> right_status (p + n \<le> length d) s"
proof (cases "rr_zlib_input_stream r")
  case (Some z)
  with assms(1) have "stands z d p" by (simp add: reader_at_def)
  from read [OF this, of "int n" storage] obtain s z' where
    z: "ReadNBytes (int n) storage z = ret (s, take n (drop p d), z')" "stands z' d (min (length d) (p + n))"
      "right_status (p + n \<le> length d) s" by auto
  let ?r = "r\<lparr>rr_zlib_input_stream := Some z'\<rparr>"
  have "fetch ReadNBytes offset n storage r = ret (s, take n (drop p d), ?r)" using z(1) Some by (simp add: fetch_def)
  moreover have "reader_at stands ?r d (min (length d) (p + n))" using z(2) by (simp add: reader_at_def)
  ultimately show ?thesis using z(3) by blast
next
  case None
  show ?thesis
  proof (cases "opt_buffer_size (rr_options r) > 0")
    case True
    with None assms(1) obtain b where b: "rr_input_stream r = BufferedIn b" "file_stream_at b d p"
      by (auto simp: reader_at_def split: file_input.splits)
    from buffered_file.read [OF b(2), of "int n" storage] obtain s b' where
      z: "Buffered_ReadNBytes RandomAccess_ReadNBytes (int n) storage b = ret (s, take n (drop p d), b')"
        "file_stream_at b' d (min (length d) (p + n))" "right_status (p + n \<le> length d) s" by auto
    let ?r = "r\<lparr>rr_input_stream := BufferedIn b'\<rparr>"
    have "fetch ReadNBytes offset n storage r = ret (s, take n (drop p d), ?r)"
      using z(1) b(1) None True by (simp add: fetch_def)
    moreover have "reader_at stands ?r d (min (length d) (p + n))"
      using z(2) None True by (simp add: reader_at_def)
    ultimately show ?thesis using z(3) by blast
  next
    case False
    with None assms(1) have f: "good_file d (rr_src r)" "p \<le> length d" by (auto simp: reader_at_def)
    obtain s where "rr_src r offset n = (s, take n (drop p d))" "right_status (n \<le> length d - p) s"
      using f(1) unfolding good_file_def by (metis assms(2) prod.collapse)
    moreover have "n \<le> length d - p \<longleftrightarrow> p + n \<le> length d" using f(2) by linarith
    ultimately show ?thesis using None False f by (simp add: fetch_def reader_at_def)
  qed
qed

lemma ReadChecksummed_at:
  assumes "reader_at stands r d p" "p = unat offset" "trusted M" "unat n + 4 \<le> max_size" "\<not> n \<ge> - 1 - 4"
  shows "\<exists>s result storage' r'.
    ReadChecksummed M max_size ReadNBytes offset n storage r = ret (s, result, storage', r') \<and>
    reader_at stands r' d (min (length d) (p + (unat n + 4))) \<and>
    (if length d < p + (unat n + 4) then IsOutOfRange s
     else if take (unat n + 4) (drop p d) = checked (take (unat n) (drop p d))
     then s = OK \<and> result = take (unat n) (drop p d)
     else s = DataLoss (''corrupted record at '' @ FastUInt64ToBufferLeft offset))"
proof -
  from fetch_at [OF assms(1,2), of "unat n + 4" storage] obtain s r' where
    f: "fetch ReadNBytes offset (unat n + 4) storage r = ret (s, take (unat n + 4) (drop p d), r')"
      "reader_at stands r' d (min (length d) (p + (unat n + 4)))" "right_status (p + (unat n + 4) \<le> length d) s"
    by blast
  note big = assms(5)
  show ?thesis
  proof (cases "p + (unat n + 4) \<le> length d")
    case False
    with f big assms(4) show ?thesis by (auto simp: ReadChecksummed_def right_status_def ok_OK)
  next
    case True
    then have len: "length (take (unat n + 4) (drop p d)) = unat n + 4" by simp
    from True f(3) have "s = OK" by (simp add: right_status_def)
    have "take (unat n) (take (unat n + 4) (drop p d)) = take (unat n) (drop p d)" by simp
    note v = verify_checksum_ret [OF assms(3) len, of offset, unfolded this]
    show ?thesis
    proof (cases "take (unat n + 4) (drop p d) = checked (take (unat n) (drop p d))")
      case eq: True
      then have "ReadChecksummed M max_size ReadNBytes offset n storage r =
        ret (OK, take (unat n) (drop p d), take (unat n + 4) (drop p d), r')"
        using f(1) big assms(4) True \<open>s = OK\<close> v by (simp add: ReadChecksummed_def del: take_drop)
      with eq True f(2) show ?thesis by auto
    next
      case False
      with f(1) big assms(4) True \<open>s = OK\<close> v
      have "ReadChecksummed M max_size ReadNBytes offset n storage r =
        ret (DataLoss (''corrupted record at '' @ FastUInt64ToBufferLeft offset), [], take (unat n + 4) (drop p d), r')"
        by (simp add: ReadChecksummed_def)
      with False True f(2) show ?thesis by auto
    qed
  qed
qed

text \<open>The header of a record: the length with its checksum.\<close>

lemma header_at:
  assumes "reader_at stands r d p" "p = unat offset" "trusted M" "12 \<le> max_size"
  shows "\<exists>s result storage' r'.
    ReadChecksummed M max_size ReadNBytes offset 8 storage r = ret (s, result, storage', r') \<and>
    reader_at stands r' d (min (length d) (p + 12)) \<and>
    (if length d < p + 12 then IsOutOfRange s
     else if take 12 (drop p d) = checked (take 8 (drop p d)) then s = OK \<and> result = take 8 (drop p d)
     else s = DataLoss (''corrupted record at '' @ FastUInt64ToBufferLeft offset))"
proof -
  have u: "unat (8 :: u64) = 8" "8 + 4 = (12 :: nat)" and "\<not> (8 :: u64) \<ge> - 1 - 4" by simp_all
  from ReadChecksummed_at [OF assms(1-3) _ this(3), of max_size storage, unfolded u] assms(4)
  show ?thesis by blast
qed

lemma ReadRecord_complete:
  assumes "reader_at stands r d p" "p = unat offset" "trusted M"
    "drop p d = record_bytes data @ rest" "length d \<le> max_size" "length d < 2 ^ 63"
  shows "\<exists>r'. ReadRecord M max_size ReadNBytes offset storage r =
      ret (OK, offset + of_nat (length (record_bytes data)), data, r') \<and>
    reader_at stands r' d (p + length (record_bytes data))"
proof -
  have "length (drop p d) = length data + 16 + length rest" by (simp only: assms(4)) simp
  then have len: "p + (length data + 16) \<le> length d" by simp
  let ?n = "of_nat (length data) :: u64"
  have n: "unat ?n = length data" "\<not> ?n \<ge> - 1 - 4"
    using len assms(6) by (auto simp: unat_of_nat word_le_nat_alt)
  have t: "take 12 (drop p d) = checked (length_bytes data)" "take 8 (drop p d) = length_bytes data"
    unfolding assms(4) record_bytes_def checked_def by simp_all
  from header_at [OF assms(1-3), of max_size storage] assms(5) len t obtain st r1 where
    h: "ReadChecksummed M max_size ReadNBytes offset 8 storage r = ret (OK, length_bytes data, st, r1)"
      "reader_at stands r1 d (p + 12)" by (auto simp: min_def)
  have d64: "DecodeFixed64 (m_le M) (length_bytes data) = ret ?n"
    by (simp add: DecodeFixed64_le length_bytes_def object_roundtrip)
  have o: "unat (offset + kHeaderSize) = p + 12"
    using len assms(2,6) by (simp add: kHeaderSize_def unat_word_ariths)
  have d12: "drop (p + 12) d = checked data @ rest"
    using arg_cong [OF assms(4), of "drop 12"] by (simp add: record_bytes_def add.commute)
  then have t2: "take (length data + 4) (drop (p + 12) d) = checked data" "take (length data) (drop (p + 12) d) = data"
    by (simp_all add: checked_def)
  from ReadChecksummed_at [OF h(2) o [symmetric] assms(3) _ n(2), of max_size st, unfolded n(1) t2]
    len assms(5) obtain st2 r2 where
    b: "ReadChecksummed M max_size ReadNBytes (offset + kHeaderSize) ?n st r1 = ret (OK, data, st2, r2)"
      "reader_at stands r2 d (p + 12 + (length data + 4))"
    by (auto simp: min_absorb2 simp del: add_numeral_left)
  have "kHeaderSize + ?n + kFooterSize = of_nat (length (record_bytes data))"
    by (simp add: kHeaderSize_def kFooterSize_def)
  with h(1) d64 b show ?thesis by (simp add: ReadRecord_def add.commute add.left_commute)
qed

lemma ReadRecord_sound:
  assumes "reader_at stands r d p" "p = unat offset" "trusted M" "12 \<le> max_size" "length d < 2 ^ 63"
    "ReadRecord M max_size ReadNBytes offset storage r = ret (OK, offset', data, r')"
  shows "\<exists>rest. drop p d = record_bytes data @ rest"
proof -
  from header_at [OF assms(1-4), of storage] obtain s result st r1 where
    h: "ReadChecksummed M max_size ReadNBytes offset 8 storage r = ret (s, result, st, r1)"
      "reader_at stands r1 d (min (length d) (p + 12))"
      "if length d < p + 12 then IsOutOfRange s
       else if take 12 (drop p d) = checked (take 8 (drop p d)) then s = OK \<and> result = take 8 (drop p d)
       else s = DataLoss (''corrupted record at '' @ FastUInt64ToBufferLeft offset)" by blast
  with assms(6) have s: "s = OK" by (auto simp: ReadRecord_def ok_OK split: if_splits)
  with h(3) have len: "p + 12 \<le> length d" and c: "take 12 (drop p d) = checked (take 8 (drop p d))"
    and res: "result = take 8 (drop p d)" by (auto split: if_splits)
  let ?n = "object_of_bytes True result :: u64"
  have "length result = 8" using len res by simp
  then have inv: "object_bytes True 8 ?n = result" by (intro object_inverse) simp_all
  have d64: "DecodeFixed64 (m_le M) result = ret ?n" using \<open>length result = 8\<close> by (simp add: DecodeFixed64_le)
  have o: "unat (offset + kHeaderSize) = p + 12"
    using len assms(2,5) by (simp add: kHeaderSize_def unat_word_ariths)
  from h(1) s d64 assms(6) obtain st2 r2 where
    b: "ReadChecksummed M max_size ReadNBytes (offset + kHeaderSize) ?n st r1 = ret (OK, data, st2, r2)"
    by (auto simp: ReadRecord_def bnd_eq_ret ok_OK split: if_splits)
  then have n: "\<not> ?n \<ge> - 1 - 4" "unat ?n + 4 \<le> max_size"
    by (auto simp: ReadChecksummed_def Let_def split: if_splits)
  have "reader_at stands r1 d (p + 12)" using h(2) len by (simp add: min_absorb2)
  from ReadChecksummed_at [OF this o [symmetric] assms(3) n(2,1), of st] obtain s' result' st' r3 where
    b': "ReadChecksummed M max_size ReadNBytes (offset + kHeaderSize) ?n st r1 = ret (s', result', st', r3)"
      "if length d < p + 12 + (unat ?n + 4) then IsOutOfRange s'
       else if take (unat ?n + 4) (drop (p + 12) d) = checked (take (unat ?n) (drop (p + 12) d))
       then s' = OK \<and> result' = take (unat ?n) (drop (p + 12) d)
       else s' = DataLoss (''corrupted record at '' @ FastUInt64ToBufferLeft (offset + kHeaderSize))" by blast
  from b b'(1) have "s' = OK" "result' = data" by simp_all
  with b'(2) have e: "p + 12 + (unat ?n + 4) \<le> length d" "data = take (unat ?n) (drop (p + 12) d)"
    "take (unat ?n + 4) (drop (p + 12) d) = checked data"
    by (simp_all only: status_simps not_less split: if_splits)
  then have "of_nat (length data) = ?n" by simp
  then have "length_bytes data = take 8 (drop p d)" using inv res by (simp add: length_bytes_def)
  with c have "take 12 (drop p d) = checked (length_bytes data)" by simp
  moreover have "drop p d = take 12 (drop p d) @ take (unat ?n + 4) (drop (p + 12) d) @ drop (p + 12 + (unat ?n + 4)) d"
    using append_take_drop_id [of 12 "drop p d"] append_take_drop_id [of "unat ?n + 4" "drop (p + 12) d"]
    by (simp add: add.commute)
  ultimately have "drop p d = record_bytes data @ drop (p + 12 + (unat ?n + 4)) d"
    using e(3) by (simp add: record_bytes_def)
  then show ?thesis by blast
qed

lemma ReadRecord_short_header:
  assumes "reader_at stands r d p" "p = unat offset" "trusted M" "12 \<le> max_size" "length d < p + 12"
  shows "\<exists>s storage' r'. ReadRecord M max_size ReadNBytes offset storage r = ret (s, offset, storage', r') \<and>
    IsOutOfRange s"
  using header_at [OF assms(1-4), of storage] assms(5) by (auto simp: ReadRecord_def ok_OK)

end
section \<open>Files of records\<close>

definition write_all :: "machine \<Rightarrow> 'f writable \<Rightarrow> bytes list \<Rightarrow> 'f record_writer \<Rightarrow> 'f record_writer res" where
  "write_all M W = foldM (\<lambda>data w. bnd (WriteRecord M W data w) (\<lambda>(s, w').
     TF_CHECK_OK s ''writer_->WriteRecord(record)'' (ret w')))"

text \<open>Reading until a status that is not \<open>OK\<close>, at most \<open>fuel\<close> times.\<close>

fun read_all ::
  "machine \<Rightarrow> nat \<Rightarrow> 'z read_op \<Rightarrow> nat \<Rightarrow> 'z sequential_reader \<Rightarrow> (bytes list \<times> status) res" where
  "read_all M max_size Z 0 r = ret ([], OK)"
| "read_all M max_size Z (Suc fuel) r =
     bnd (Sequential_ReadRecord M max_size Z r) (\<lambda>(s, record, r').
     if ok s then bnd (read_all M max_size Z fuel r') (\<lambda>(rs, s'). ret (record # rs, s'))
     else ret ([], s))"

lemma write_all_appends:
  assumes "trusted M" "good_append W holds \<or> small_append W holds \<and> list_all (\<lambda>data. length data < 2 ^ 32) rs"
    "rw_dest w = Some f" "holds f d"
  shows "\<exists>f'. write_all M W rs w = ret (w\<lparr>rw_dest := Some f'\<rparr>) \<and> holds f' (d @ concat (map record_bytes rs))"
  using assms(2-4)
proof (induction rs arbitrary: w f d)
  case Nil
  then have "w\<lparr>rw_dest := Some f\<rparr> = w" by simp
  with Nil show ?case unfolding write_all_def by (metis append_Nil2 concat.simps(1) foldM.simps(1) list.simps(8))
next
  case (Cons data rs)
  from WriteRecord_appends [where data = data and holds = holds, OF assms(1) _ Cons(3,4)] Cons(2) obtain f1 where
    f1: "WriteRecord M W data w = ret (OK, w\<lparr>rw_dest := Some f1\<rparr>)" "holds f1 (d @ record_bytes data)" by auto
  from Cons(1) [OF _ _ f1(2), of "w\<lparr>rw_dest := Some f1\<rparr>"] f1(1) Cons(2) show ?case
    by (auto simp add: write_all_def TF_CHECK_OK_def TfCheckOpHelper_def)
qed

context byte_source
begin

lemma read_all_at:
  assumes "reader_at stands (seq_underlying r) d p" "p = unat (seq_offset r)" "trusted M"
    "drop p d = concat (map record_bytes rs)" "length d \<le> max_size" "length d < 2 ^ 63" "12 \<le> max_size"
  shows "\<exists>s. read_all M max_size ReadNBytes (Suc (length rs)) r = ret (rs, s) \<and> IsOutOfRange s"
  using assms(1,2,4)
proof (induction rs arbitrary: r p)
  case Nil
  then have "length d < p + 12" by simp
  from ReadRecord_short_header [OF Nil(1,2) assms(3,7) this, of "[]"] show ?case
    by (auto simp: Sequential_ReadRecord_def ok_OK)
next
  case (Cons data rs)
  then have e: "drop p d = record_bytes data @ concat (map record_bytes rs)" by simp
  from ReadRecord_complete [OF Cons(2,3) assms(3) e assms(5,6), of "[]"] obtain u where
    u: "ReadRecord M max_size ReadNBytes (seq_offset r) [] (seq_underlying r) =
        ret (OK, seq_offset r + of_nat (length (record_bytes data)), data, u)"
      "reader_at stands u d (p + length (record_bytes data))" by blast
  let ?r = "\<lparr>seq_underlying = u, seq_offset = seq_offset r + of_nat (length (record_bytes data))\<rparr>"
  have "length (drop p d) = length (record_bytes data) + length (concat (map record_bytes rs))" by (simp only: e length_append)
  then have "p + length (record_bytes data) < 2 ^ 63" using assms(6) by simp
  then have "p + length (record_bytes data) = unat (seq_offset r + of_nat (length (record_bytes data)))"
    using Cons(3) by (simp add: unat_word_ariths unat_of_nat del: length_record_bytes)
  moreover have "drop (p + length (record_bytes data)) d = concat (map record_bytes rs)"
    using arg_cong [OF e, of "drop (length (record_bytes data))"] by (simp add: add.commute del: length_record_bytes)
  ultimately obtain s where "read_all M max_size ReadNBytes (Suc (length rs)) ?r = ret (rs, s)" "IsOutOfRange s"
    using Cons(1) [of ?r] u(2) by (auto simp del: read_all.simps length_record_bytes)
  with u(1) show ?case
    by (subst read_all.simps) (simp add: Sequential_ReadRecord_def del: read_all.simps length_record_bytes)
qed

end
lemma new_reader_at:
  assumes "good_file d file" "opt_compression options = COMPRESSION_NONE"
  shows "reader_at stands (seq_underlying (SequentialRecordReader ZlibInputStream file options)) d 0"
  using assms new_stream_at [OF assms(1), of "nat (opt_buffer_size options)"]
  by (auto simp: SequentialRecordReader_def RecordReader_def reader_at_def)

section \<open>Properties\<close>

text \<open>
  C26. Writing records and reading them back: on a file without errors every
  \<open>WriteRecord\<close> succeeds and the file holds the records in the record format. A reader over
  these bytes, through the buffered stream, the file itself or a stream that decompresses to
  them, on a machine of any byte order, returns the records in order and then reports the end
  of the file.
\<close>

theorem record_roundtrip:
  assumes "trusted M" "trusted M'" "good_append W holds" "holds f []" "byte_source (Z :: 'z read_op) stands"
    "opt_compression options = COMPRESSION_NONE"
    "length (concat (map record_bytes rs)) < 2 ^ 63" "length (concat (map record_bytes rs)) + 12 \<le> max_size"
  shows "(\<exists>w f'. bnd (RecordWriter ZlibOutputBuffer f options) (write_all M W rs) = ret w \<and>
      rw_dest w = Some f' \<and> holds f' (concat (map record_bytes rs))) \<and>
    (\<forall>reader :: 'z sequential_reader. reader_at stands (seq_underlying reader) (concat (map record_bytes rs)) 0 \<and> seq_offset reader = 0 \<longrightarrow>
      (\<exists>s. read_all M' max_size Z (Suc (length rs)) reader = ret (rs, s) \<and> IsOutOfRange s)) \<and>
    (\<forall>file. good_file (concat (map record_bytes rs)) file \<longrightarrow>
      reader_at stands (seq_underlying (SequentialRecordReader ZlibInputStream file options))
        (concat (map record_bytes rs)) 0)"
proof (intro conjI allI impI)
  let ?w = "\<lparr>rw_dest = Some f, rw_options = options\<rparr>"
  from write_all_appends [OF assms(1) disjI1, OF assms(3) _ assms(4), of ?w rs] assms(6)
  show "\<exists>w f'. bnd (RecordWriter ZlibOutputBuffer f options) (write_all M W rs) = ret w \<and>
      rw_dest w = Some f' \<and> holds f' (concat (map record_bytes rs))"
    by (auto simp: RecordWriter_def IsZlibCompressed_def)
next
  fix reader :: "'z sequential_reader"
  assume "reader_at stands (seq_underlying reader) (concat (map record_bytes rs)) 0 \<and> seq_offset reader = 0"
  with byte_source.read_all_at [OF assms(5), of reader "concat (map record_bytes rs)" 0 M' rs max_size] assms(2,7,8)
  show "\<exists>s. read_all M' max_size Z (Suc (length rs)) reader = ret (rs, s) \<and> IsOutOfRange s" by auto
qed (use new_reader_at assms(6) in blast)

definition portable_machine :: "bool \<Rightarrow> machine" where
  "portable_machine le = \<lparr>m_sse = None, m_le = le, m_addr = (\<lambda>_. 0)\<rparr>"

definition memory_file :: "bytes writable" where
  "memory_file = \<lparr>w_append = (\<lambda>data f. ret (OK, f @ data)), w_flush = (\<lambda>f. ret (OK, f)), w_close = (\<lambda>f. ret (OK, f))\<rparr>"

lemma reference_file:
  "trusted (portable_machine le)" "good_append memory_file (=)" "byte_source RandomAccess_ReadNBytes random_access_at"
  by (simp_all add: portable_machine_def sse_trusted_def memory_file_def good_append_def
      random_access_source.byte_source_axioms)

theorem record_roundtrip_witness:
  "\<exists>s. read_all (portable_machine False) 100 RandomAccess_ReadNBytes 3
     (SequentialRecordReader (\<lambda>_ _. RandomAccessInputStream (file_of []))
       (file_of (concat (map record_bytes [[1, 2], []]))) default_options) = ret ([[1, 2], []], s) \<and> IsOutOfRange s"
proof -
  let ?rs = "[[1, 2], []] :: bytes list"
  note r = record_roundtrip [OF reference_file(1) reference_file(1) [of False] reference_file(2) refl reference_file(3),
      where options = default_options and rs = ?rs and max_size = 100]
  let ?reader = "SequentialRecordReader (\<lambda>_ _. RandomAccessInputStream (file_of []))
    (file_of (concat (map record_bytes ?rs))) default_options"
  have "good_file (concat (map record_bytes ?rs)) (file_of (concat (map record_bytes ?rs)))"
    by (rule good_file_of) simp
  with r have "reader_at random_access_at (seq_underlying ?reader) (concat (map record_bytes ?rs)) 0"
    by (simp add: default_options_def)
  moreover have "seq_offset ?reader = 0" by (simp add: SequentialRecordReader_def)
  moreover have "length (concat (map record_bytes ?rs)) < 2 ^ 63" "length (concat (map record_bytes ?rs)) + 12 \<le> 100"
    "opt_compression default_options = COMPRESSION_NONE" "Suc (length ?rs) = 3" by (simp_all add: default_options_def)
  ultimately show ?thesis using r by (metis (no_types, lifting))
qed

text \<open>
  C27. The reader is exact: \<open>ReadRecord\<close> delivers a record at an offset if and only
  if the bytes there are precisely what \<open>WriteRecord\<close> writes for it. Every other content,
  a damaged length, damaged data or a cut record, gives an error status or ends the process.
\<close>

theorem ReadRecord_accepts:
  assumes "byte_source Z stands" "reader_at stands r d (unat offset)" "trusted M"
    "length d + 12 \<le> max_size" "length d < 2 ^ 63"
  shows "(\<exists>offset' r'. ReadRecord M max_size Z offset storage r = ret (OK, offset', data, r')) \<longleftrightarrow>
    (\<exists>rest. drop (unat offset) d = record_bytes data @ rest)"
  using byte_source.ReadRecord_sound [OF assms(1,2) refl assms(3) _ assms(5), of max_size storage _ data]
    byte_source.ReadRecord_complete [OF assms(1,2) refl assms(3) _ _ assms(5), of data _ max_size storage] assms(4)
  by fastforce

theorem ReadRecord_accepts_witness:
  "\<nexists>offset' r'. ReadRecord (portable_machine True) 100 RandomAccess_ReadNBytes 0 []
     (seq_underlying (SequentialRecordReader (\<lambda>_ _. RandomAccessInputStream (file_of []))
       (file_of (replicate 20 7)) default_options)) = ret (OK, offset', [], r')"
proof -
  let ?r = "seq_underlying (SequentialRecordReader (\<lambda>_ _. RandomAccessInputStream (file_of []))
       (file_of (replicate 20 7)) default_options)"
  have at: "reader_at random_access_at ?r (replicate 20 7) (unat 0)"
    unfolding unat_0 by (rule new_reader_at [OF good_file_of]) (simp_all add: default_options_def)
  have "\<nexists>rest. replicate 20 7 = record_bytes [] @ rest"
  proof
    assume "\<exists>rest. replicate 20 7 = record_bytes [] @ rest"
    then obtain rest :: bytes where e: "replicate 20 7 = record_bytes [] @ rest" ..
    have "(record_bytes [] @ rest) ! 0 = record_bytes [] ! 0" by (simp add: nth_append)
    with e have "(replicate 20 7 :: bytes) ! 0 = record_bytes [] ! 0" by metis
    then show False by (simp add: record_bytes_def checked_def length_bytes_def object_bytes_def nth_append upt_rec)
  qed
  with ReadRecord_accepts [OF reference_file(3) at reference_file(1), of 100 True "[]" "[]"] show ?thesis by simp
qed

text \<open>
  A file that ends inside the header of a record is reported like the end of the
  file: with one to eleven bytes left \<open>ReadRecord\<close> gives \<open>OUT_OF_RANGE\<close>, not the
  \<open>DATA_LOSS\<close> of its ``truncated record'' branch, on all three ways to read.
\<close>

theorem short_header_is_eof:
  assumes "byte_source Z stands" "reader_at stands r d (unat offset)" "trusted M" "12 \<le> max_size"
    "length d < unat offset + 12"
  shows "\<exists>s storage' r'. ReadRecord M max_size Z offset storage r = ret (s, offset, storage', r') \<and> IsOutOfRange s"
  by (rule byte_source.ReadRecord_short_header [OF assms(1,2) refl assms(3-5)])

theorem short_header_is_eof_witness:
  "\<exists>s storage' r'. ReadRecord (portable_machine True) 100 RandomAccess_ReadNBytes 0 []
     (seq_underlying (SequentialRecordReader (\<lambda>_ _. RandomAccessInputStream (file_of []))
       (file_of [1, 2, 3]) default_options)) = ret (s, 0, storage', r') \<and> IsOutOfRange s"
proof (rule short_header_is_eof [OF reference_file(3) _ reference_file(1)])
  show "reader_at random_access_at (seq_underlying (SequentialRecordReader (\<lambda>_ _. RandomAccessInputStream (file_of []))
       (file_of [1, 2, 3]) default_options)) [1, 2, 3] (unat 0)"
    unfolding unat_0 by (rule new_reader_at [OF good_file_of]) (simp_all add: default_options_def)
qed simp_all

end
