(* ===== verification/Self_Play.thy ===== *)
theory Self_Play
  imports Worker Record_IO Path
begin

text \<open>
  Self-play: \<^verbatim>\<open>gomoku/self_play/supervisor.cc\<close>, \<^verbatim>\<open>supervisor.h\<close> and \<^verbatim>\<open>self_play.cc\<close>.

  The file is written against an earlier actor interface, whose \<open>GameStarted\<close> has no metrics
  argument; the methods it calls are the parameter \<open>actor_api\<close>. So are the environment (clock,
  deleting and creating files), the compressing buffer behind the record writer, the generator of
  seeds and the serialiser that the protocol compiler generates.

  The games of a batch run in threads of their own. They share the random engine \<open>rng_\<close>, which no
  lock protects: the unordered draws of the seeds are a data race. The model makes no claim about
  what a thread finds in the engine: its contents at each of the two draws of a thread, and
  after the batch, are arbitrary parameters (\<open>thread\<close>, \<open>batch\<close>), as is the clock that a thread reads.
  What is proved of a batch therefore holds for every outcome of the race that leaves the engine
  with some contents; a process that the race destroys is outside of the model.
\<close>

section \<open>One game\<close>

record ('a, 'w) actor_api =
  api_GameStarted :: "player \<Rightarrow> int \<Rightarrow> 'a \<Rightarrow> 'a res"
  api_ObserveMove :: "vector2i \<Rightarrow> 'a \<Rightarrow> 'a res"
  api_ChooseMove :: "'w stop_signal \<Rightarrow> 'a \<Rightarrow> 'w \<Rightarrow> (vector2i \<times> 'a \<times> 'w) res"

type_synonym 'w stop_signal_factory = "'w \<Rightarrow> 'w stop_signal \<times> 'w"

definition start_actor ::
  "('a, 'w) actor_api \<Rightarrow> int PlayerMap \<Rightarrow> player \<Rightarrow> 'a option PlayerMap \<Rightarrow> 'a option PlayerMap res" where
  "start_actor A seeds player actors =
     bnd (actor_of actors player) (\<lambda>a.
     bnd (PlayerMap_at seeds player) (\<lambda>seed.
     bnd (api_GameStarted A player seed a) (\<lambda>a'.
     PlayerMap_set actors player (Some a'))))"

definition without_metrics ::
  "('w stop_signal \<Rightarrow> 'a \<Rightarrow> 'w \<Rightarrow> (vector2i \<times> 'a \<times> 'w) res) \<Rightarrow>
   'w stop_signal \<Rightarrow> 'a \<Rightarrow> metrics \<Rightarrow> 'w \<Rightarrow> (vector2i \<times> 'a \<times> metrics \<times> 'w) res" where
  "without_metrics pick stop a ms w = bnd (pick stop a w) (\<lambda>(move, a', w'). ret (move, a', ms, w'))"

definition finish_recording :: "vector2i \<times> ('a, 'w) game \<Rightarrow> (recording \<times> 'w) res" where
  "finish_recording = (\<lambda>(move, s).
     bnd (game_score (g_board s) move) (\<lambda>score.
     ret (\<lparr>rec_moves = g_moves s, rec_score = score\<rparr>, g_env s)))"

definition SelfPlay_PlayGame ::
  "('a, 'w) actor_api \<Rightarrow> 'a option PlayerMap \<Rightarrow> 'w stop_signal_factory PlayerMap \<Rightarrow> int PlayerMap \<Rightarrow> 'w \<Rightarrow>
   (recording \<times> 'w) res" where
  "SelfPlay_PlayGame A actors make_stop_signal seeds w =
     bnd (foldM (start_actor A seeds) kPlayers actors) (\<lambda>actors'.
     bnd (game_loop (api_ObserveMove A) (without_metrics (api_ChooseMove A))
            (\<lambda>player w. bnd (PlayerMap_at make_stop_signal player) (\<lambda>make. ret (make w)))
            \<lparr>g_board = new_board, g_actors = actors', g_metrics = [], g_moves = [], g_env = w\<rparr>)
       finish_recording)"

section \<open>The supervisor\<close>

record ('w, 'f) environment =
  env_NowMicros :: "'w now_micros"
  env_DeleteFile :: "string \<Rightarrow> 'w \<Rightarrow> status \<times> 'w"
  env_NewWritableFile :: "string \<Rightarrow> 'w \<Rightarrow> (status \<times> 'f) \<times> 'w"

record ('f, 'g) sp_supervisor =
  sp_file :: "'f option"
  sp_writer :: "'f record_writer option"
  sp_actor_specs :: "actor_spec PlayerMap"
  sp_replay_dir :: string
  sp_rng :: 'g
  sp_next_log :: int
  sp_player_1_won :: fp
  sp_player_2_won :: fp

text \<open>The name that \<open>Printf("replay%d.tfrecords", n)\<close> gives.\<close>

definition replay_name :: "int \<Rightarrow> string" where
  "replay_name n = ''replay'' @ FastInt32ToBufferLeft (word_of_int n) @ ''.tfrecords''"

definition delete_old_log ::
  "('w, 'f) environment \<Rightarrow> int \<Rightarrow> ('f, 'g) sp_supervisor \<Rightarrow> 'w \<Rightarrow> 'w res" where
  "delete_old_log E max_replay_files s w =
     bnd (int32 (sp_next_log s - max_replay_files)) (\<lambda>old.
     if old \<ge> 0 then
       bnd (JoinPathImpl [sp_replay_dir s, replay_name old]) (\<lambda>old_filepath.
       ret (snd (env_DeleteFile E old_filepath w)))
     else ret w)"

definition RotateLog ::
  "('w, 'f) environment \<Rightarrow> 'f writable \<Rightarrow> (zlib_options \<Rightarrow> 'f \<Rightarrow> status \<times> 'f) \<Rightarrow> int \<Rightarrow>
   ('f, 'g) sp_supervisor \<Rightarrow> 'w \<Rightarrow> (('f, 'g) sp_supervisor \<times> 'w) res" where
  "RotateLog E W ZlibOutputBuffer max_replay_files s w =
     bnd (case sp_writer s of None \<Rightarrow> ret () | Some writer \<Rightarrow> bnd (delete_RecordWriter W writer) (\<lambda>_. ret ())) (\<lambda>_.
     let s1 = s\<lparr>sp_writer := None, sp_file := None\<rparr> in
     bnd (delete_old_log E max_replay_files s1 w) (\<lambda>w1.
     let log = sp_next_log s1 in
     bnd (int32 (log + 1)) (\<lambda>next_log.
     bnd (JoinPathImpl [sp_replay_dir s1, replay_name log]) (\<lambda>filepath.
     let ((status, file), w2) = env_NewWritableFile E filepath w1 in
     TF_CHECK_OK status ''tensorflow::Env::Default()->NewWritableFile(filepath, &file_)'' (
     bnd (RecordWriter ZlibOutputBuffer file (CreateRecordWriterOptions ''ZLIB'')) (\<lambda>writer.
     ret (s1\<lparr>sp_next_log := next_log, sp_file := Some file, sp_writer := Some writer\<rparr>, w2)))))))"

definition new_Supervisor ::
  "('w, 'f) environment \<Rightarrow> 'f writable \<Rightarrow> (zlib_options \<Rightarrow> 'f \<Rightarrow> status \<times> 'f) \<Rightarrow> int \<Rightarrow> 'g \<Rightarrow>
   actor_spec PlayerMap \<Rightarrow> string \<Rightarrow> 'w \<Rightarrow> (('f, 'g) sp_supervisor \<times> 'w) res" where
  "new_Supervisor E W ZlibOutputBuffer max_replay_files g0 actor_specs replay_dir w =
     RotateLog E W ZlibOutputBuffer max_replay_files
       \<lparr>sp_file = None, sp_writer = None, sp_actor_specs = actor_specs, sp_replay_dir = replay_dir,
        sp_rng = g0, sp_next_log = 0, sp_player_1_won = Fin 0, sp_player_2_won = Fin 0\<rparr> w"

definition TimerFactory :: "('w, 'f) environment \<Rightarrow> u64 \<Rightarrow> 'w stop_signal_factory" where
  "TimerFactory E micros_per_move w =
     (let (time_start, w1) = env_NowMicros E w in
      (\<lambda>w. let (time_now, w') = env_NowMicros E w in (time_now - time_start \<ge> micros_per_move, w'), w1))"

text \<open>
  What a thread meets of the shared state: the engine at its first and at its second draw, and the
  environment. A batch: its threads, the order in which they finish, and what they leave behind.
\<close>

record ('g, 'w) thread =
  th_rng :: "'g PlayerMap"
  th_env :: 'w

record ('g, 'w) batch =
  bt_threads :: "nat \<Rightarrow> ('g, 'w) thread"
  bt_order :: "nat list"
  bt_rng :: 'g
  bt_env :: 'w

text \<open>The task of one game of a batch.\<close>

definition batch_task ::
  "('a, 'w) actor_api \<Rightarrow> 'a actor_registry \<Rightarrow> ('w, 'f) environment \<Rightarrow> u64 \<Rightarrow> ('g \<Rightarrow> int \<times> 'g) \<Rightarrow>
   actor_spec PlayerMap \<Rightarrow> ('g, 'w) thread \<Rightarrow> recording res" where
  "batch_task A registry E micros_per_move gen_seed actor_specs t =
     bnd (PlayerMap_Map (\<lambda>spec. ActorRegistry_Create registry (spec_name spec) (spec_config spec)) actor_specs) (\<lambda>actors.
     bnd (PlayerMap_Map (\<lambda>a. ret (Some a)) actors) (\<lambda>pointers.
     bnd (SelfPlay_PlayGame A pointers
            \<lparr>pm_first = TimerFactory E micros_per_move, pm_second = TimerFactory E micros_per_move\<rparr>
            \<lparr>pm_first = fst (gen_seed (pm_first (th_rng t))), pm_second = fst (gen_seed (pm_second (th_rng t)))\<rparr>
            (th_env t)) (\<lambda>(recording, _).
     ret recording)))"

text \<open>The threads: a task that finishes leaves its recording in the future of its number.\<close>

definition run_tasks :: "(nat \<Rightarrow> 'r res) \<Rightarrow> nat list \<Rightarrow> (nat \<rightharpoonup> 'r) res" where
  "run_tasks task order = foldM (\<lambda>i futures. bnd (task i) (\<lambda>r. ret (futures(i \<mapsto> r)))) order Map.empty"

text \<open>What is done with one finished game. A future that is never set blocks forever.\<close>

definition collect ::
  "machine \<Rightarrow> 'f writable \<Rightarrow> (recording \<Rightarrow> bytes option) \<Rightarrow> (nat \<rightharpoonup> recording) \<Rightarrow> nat \<Rightarrow>
   'f record_writer \<times> fp \<times> fp \<Rightarrow> ('f record_writer \<times> fp \<times> fp) res" where
  "collect M W SerializeToString futures i = (\<lambda>(writer, won1, won2).
     case futures i of
       None \<Rightarrow> None
     | Some data \<Rightarrow>
         let won1' = fp_add float32 won1 (rec_score data);
             won2' = fp_add float32 won2 (fp_sub float32 (Fin 1) (rec_score data)) in
         (case SerializeToString data of
            None \<Rightarrow> abort (CheckFailed ''data->SerializeToString(&record)'')
          | Some record \<Rightarrow>
              bnd (WriteRecord M W record writer) (\<lambda>(status, writer').
              TF_CHECK_OK status ''writer_->WriteRecord(record)'' (ret (writer', won1', won2')))))"

definition PlayBatch ::
  "('a, 'w) actor_api \<Rightarrow> 'a actor_registry \<Rightarrow> ('w, 'f) environment \<Rightarrow> u64 \<Rightarrow> ('g \<Rightarrow> int \<times> 'g) \<Rightarrow> machine \<Rightarrow>
   'f writable \<Rightarrow> (recording \<Rightarrow> bytes option) \<Rightarrow> ('g, 'w) batch \<Rightarrow> int \<Rightarrow> ('f, 'g) sp_supervisor \<Rightarrow>
   (('f, 'g) sp_supervisor \<times> 'w) res" where
  "PlayBatch A registry E micros_per_move gen_seed M W SerializeToString B batch_size s =
     (case sp_writer s of
        None \<Rightarrow> abort (CheckFailed ''writer_'')
      | Some writer \<Rightarrow>
          bnd (run_tasks (\<lambda>i. batch_task A registry E micros_per_move gen_seed (sp_actor_specs s) (bt_threads B i))
                 (bt_order B)) (\<lambda>futures.
          bnd (foldM (collect M W SerializeToString futures) [0..<nat batch_size]
                 (writer, sp_player_1_won s, sp_player_2_won s)) (\<lambda>(writer', won1, won2).
          bnd (Writer_Flush W writer') (\<lambda>(status, writer'').
          TF_CHECK_OK status ''writer_->Flush()'' (
          ret (s\<lparr>sp_writer := Some writer'', sp_rng := bt_rng B, sp_player_1_won := won1, sp_player_2_won := won2\<rparr>,
               bt_env B))))))"

section \<open>The program\<close>

definition SelfPlay_specs :: "actor_spec PlayerMap" where
  "SelfPlay_specs = \<lparr>
     pm_first = \<lparr>spec_name = ''MonteCarloActor'', spec_type = '''', spec_config = AddConfigItem_string [] ''cell'' ''linear''\<rparr>,
     pm_second = \<lparr>spec_name = ''RandomActor'', spec_type = '''', spec_config = []\<rparr>\<rparr>"

text \<open>One turn of the endless loop: a hundred batches, then a new log.\<close>

definition SelfPlay_turn ::
  "('a, 'w) actor_api \<Rightarrow> 'a actor_registry \<Rightarrow> ('w, 'f) environment \<Rightarrow> u64 \<Rightarrow> ('g \<Rightarrow> int \<times> 'g) \<Rightarrow> machine \<Rightarrow>
   'f writable \<Rightarrow> (zlib_options \<Rightarrow> 'f \<Rightarrow> status \<times> 'f) \<Rightarrow> int \<Rightarrow> (recording \<Rightarrow> bytes option) \<Rightarrow>
   (nat \<Rightarrow> ('g, 'w) batch) \<Rightarrow> ('f, 'g) sp_supervisor \<times> 'w \<Rightarrow> (('f, 'g) sp_supervisor \<times> 'w) res" where
  "SelfPlay_turn A registry E micros_per_move gen_seed M W ZlibOutputBuffer max_replay_files SerializeToString batches sw =
     bnd (foldM (\<lambda>i (s, _). PlayBatch A registry E micros_per_move gen_seed M W SerializeToString (batches i) 8 s)
            [0..<100] sw) (\<lambda>(s, w).
     RotateLog E W ZlibOutputBuffer max_replay_files s w)"

section \<open>The replay files\<close>

definition log_path :: "string \<Rightarrow> int \<Rightarrow> string" where
  "log_path dir n =
     (if dir = [] then replay_name n else if last dir = CHR ''/'' then dir @ replay_name n
      else dir @ ''/'' @ replay_name n)"

lemma replay_name_hd [simp]: "replay_name n \<noteq> []" "\<not> IsAbsolutePath (replay_name n)"
  by (simp_all add: replay_name_def IsAbsolutePath_def)

lemma JoinPath_log: "JoinPathImpl [dir, replay_name n] = ret (log_path dir n)"
  by (cases "dir = []") (auto simp: JoinPathImpl_def log_path_def last_conv_nth StrAppend1_def)

lemma FastInt32_inj: "FastInt32ToBufferLeft i = FastInt32ToBufferLeft j \<longleftrightarrow> i = j"
  using signed32_roundtrip [of "[]" "[]" i] signed32_roundtrip [of "[]" "[]" j]
  by (auto intro: signed_word_eqI)

lemma log_path_inj:
  assumes "0 \<le> i" "i < 2 ^ 31" "0 \<le> j" "j < 2 ^ 31"
  shows "log_path dir i = log_path dir j \<longleftrightarrow> i = j"
proof -
  have "log_path dir i = log_path dir j \<longleftrightarrow> (word_of_int i :: u32) = word_of_int j"
    by (simp add: log_path_def replay_name_def FastInt32_inj)
  also have "\<dots> \<longleftrightarrow> i = j"
    using assms by (simp add: word_of_int_eq_iff take_bit_int_eq_self)
  finally show ?thesis .
qed

text \<open>An environment whose file operations succeed; \<open>files w\<close> are the names of the files it holds.\<close>

definition good_env :: "('w, 'f) environment \<Rightarrow> ('w \<Rightarrow> string set) \<Rightarrow> bool" where
  "good_env E files \<longleftrightarrow>
     (\<forall>p w. files (snd (env_DeleteFile E p w)) = files w - {p} \<and>
        fst (fst (env_NewWritableFile E p w)) = OK \<and>
        files (snd (env_NewWritableFile E p w)) = insert p (files w))"

text \<open>A compressing buffer that can be made over every file and closed while it is \<open>usable\<close>.\<close>

definition good_zlib ::
  "(zlib_options \<Rightarrow> 'f \<Rightarrow> status \<times> 'f) \<Rightarrow> 'f writable \<Rightarrow> ('f \<Rightarrow> bool) \<Rightarrow> bool" where
  "good_zlib ZlibOutputBuffer W usable \<longleftrightarrow>
     (\<forall>options f. fst (ZlibOutputBuffer options f) = OK \<and> usable (snd (ZlibOutputBuffer options f))) \<and>
     (\<forall>f. usable f \<longrightarrow> (\<exists>r. w_close W f = ret r))"

definition writer_usable :: "('f \<Rightarrow> bool) \<Rightarrow> ('f, 'g) sp_supervisor \<Rightarrow> bool" where
  "writer_usable usable s \<longleftrightarrow>
     (case sp_writer s of None \<Rightarrow> True | Some w \<Rightarrow> (case rw_dest w of None \<Rightarrow> True | Some f \<Rightarrow> usable f))"

text \<open>The supervisor's files: the last \<open>N\<close> logs, beside the other files \<open>other\<close>.\<close>

definition kept_logs :: "string \<Rightarrow> int \<Rightarrow> int \<Rightarrow> string set" where
  "kept_logs dir N n = log_path dir ` {max 0 (n - N)..<n}"

definition logs_inv ::
  "string set \<Rightarrow> int \<Rightarrow> ('w \<Rightarrow> string set) \<Rightarrow> ('f, 'g) sp_supervisor \<Rightarrow> 'w \<Rightarrow> bool" where
  "logs_inv other N files s w \<longleftrightarrow>
     0 \<le> sp_next_log s \<and> files w = other \<union> kept_logs (sp_replay_dir s) N (sp_next_log s)"

definition no_log_names :: "string set \<Rightarrow> string \<Rightarrow> bool" where
  "no_log_names other dir \<longleftrightarrow> other \<inter> range (log_path dir) = {}"

lemma delete_RecordWriter_returns:
  assumes "good_zlib Z W usable" "case rw_dest w of None \<Rightarrow> True | Some f \<Rightarrow> usable f"
  shows "\<exists>w'. delete_RecordWriter W w = ret w'"
proof (cases "rw_dest w")
  case (Some f)
  with assms obtain s f' where "w_close W f = ret (s, f')" unfolding good_zlib_def by fastforce
  with Some show ?thesis by (simp add: delete_RecordWriter_def Writer_Close_def)
qed (simp add: delete_RecordWriter_def)

lemma reset_writer_returns:
  assumes "good_zlib Z W usable" "writer_usable usable s"
  shows "(case sp_writer s of None \<Rightarrow> ret () | Some writer \<Rightarrow> bnd (delete_RecordWriter W writer) (\<lambda>_. ret ())) = ret ()"
proof (cases "sp_writer s")
  case (Some w)
  then show ?thesis using delete_RecordWriter_returns [OF assms(1), of w] assms(2) by (auto simp: writer_usable_def)
qed simp

lemma TF_CHECK_OK_ok [simp]: "TF_CHECK_OK OK msg k = k"
  by (simp add: TF_CHECK_OK_def TfCheckOpHelper_def)

lemma delete_old_log_keeps:
  assumes "good_env E files" "1 \<le> N" "N < 2 ^ 31" "sp_next_log s + 1 < 2 ^ 31" "logs_inv other N files s w"
    "no_log_names other (sp_replay_dir s)"
  shows "\<exists>w'. delete_old_log E N s w = ret w' \<and>
    files w' = other \<union> log_path (sp_replay_dir s) ` {max 0 (sp_next_log s + 1 - N)..<sp_next_log s}"
proof -
  let ?n = "sp_next_log s" and ?dir = "sp_replay_dir s"
  have n: "0 \<le> ?n" and files: "files w = other \<union> log_path ?dir ` {max 0 (?n - N)..<?n}"
    using assms(5) by (simp_all add: logs_inv_def kept_logs_def)
  have i32: "int32 (?n - N) = ret (?n - N)" using assms(2-4) n by (simp add: int32_def)
  show ?thesis
  proof (cases "0 \<le> ?n - N")
    case False
    then have "max 0 (?n - N) = max 0 (?n + 1 - N)" by simp
    with False show ?thesis using i32 files by (simp add: delete_old_log_def)
  next
    case True
    let ?old = "log_path ?dir (?n - N)"
    have "log_path ?dir ` {?n - N..<?n} - {?old} = log_path ?dir ` {?n + 1 - N..<?n}"
    proof -
      have "log_path ?dir i \<noteq> ?old" if "?n + 1 - N \<le> i" "i < ?n" for i
        using that log_path_inj [of i "?n - N" ?dir] True assms(2,4) by simp
      moreover have "{?n - N..<?n} = insert (?n - N) {?n + 1 - N..<?n}" using assms(2) by auto
      ultimately show ?thesis by auto
    qed
    moreover have "other - {?old} = other" using assms(6) by (auto simp: no_log_names_def)
    moreover have "files (snd (env_DeleteFile E ?old w)) = files w - {?old}"
      using assms(1) by (simp add: good_env_def)
    ultimately show ?thesis using True i32 files by (simp add: delete_old_log_def JoinPath_log Un_Diff)
  qed
qed

lemma RotateLog_inv:
  assumes "good_env E files" "good_zlib Z W usable" "1 \<le> N" "N < 2 ^ 31" "sp_next_log s + 1 < 2 ^ 31" "logs_inv other N files s w"
    "no_log_names other (sp_replay_dir s)" "writer_usable usable s"
  shows "\<exists>s' w'. RotateLog E W Z N s w = ret (s', w') \<and> logs_inv other N files s' w' \<and>
    sp_next_log s' = sp_next_log s + 1 \<and> sp_replay_dir s' = sp_replay_dir s \<and> writer_usable usable s'"
proof -
  let ?n = "sp_next_log s" and ?dir = "sp_replay_dir s" and ?s1 = "s\<lparr>sp_writer := None, sp_file := None\<rparr>"
  have n: "0 \<le> ?n" using assms(6) by (simp add: logs_inv_def)
  have "logs_inv other N files ?s1 w" using assms(6) by (simp add: logs_inv_def)
  from delete_old_log_keeps [OF assms(1,3,4) _ this] assms(5,7) obtain w1 where
    w1: "delete_old_log E N ?s1 w = ret w1"
      "files w1 = other \<union> log_path ?dir ` {max 0 (?n + 1 - N)..<?n}" by auto
  obtain status fl w2 where new: "env_NewWritableFile E (log_path ?dir ?n) w1 = ((status, fl), w2)"
    by (metis surj_pair)
  have st: "status = OK" "files w2 = insert (log_path ?dir ?n) (files w1)"
    using assms(1) [unfolded good_env_def, rule_format, of "log_path ?dir ?n" w1] new by simp_all
  obtain zs zf where z: "Z ZLIB_DEFAULT fl = (zs, zf)" by fastforce
  then have zs: "zs = OK" "usable zf" using assms(2) by (metis good_zlib_def fst_conv snd_conv)+
  have "int32 (?n + 1) = ret (?n + 1)" using n assms(5) by (simp add: int32_def)
  then have "RotateLog E W Z N s w =
      ret (?s1\<lparr>sp_next_log := ?n + 1, sp_file := Some fl,
        sp_writer := Some \<lparr>rw_dest = Some zf, rw_options = CreateRecordWriterOptions ''ZLIB''\<rparr>\<rparr>, w2)"
    unfolding RotateLog_def reset_writer_returns [OF assms(2,8)] bnd_ret Let_def w1(1)
    using new st z zs
    by (simp add: JoinPath_log RecordWriter_def CreateRecordWriterOptions_def IsZlibCompressed_def default_options_def)
  moreover have "{max 0 (?n + 1 - N)..<?n + 1} = insert ?n {max 0 (?n + 1 - N)..<?n}"
    using n assms(3) by auto
  ultimately show ?thesis using n st(2) w1(2) zs(2) by (simp add: logs_inv_def kept_logs_def writer_usable_def)
qed

text \<open>\<open>k\<close> rotations after the constructor.\<close>

primrec rotations ::
  "('w, 'f) environment \<Rightarrow> 'f writable \<Rightarrow> (zlib_options \<Rightarrow> 'f \<Rightarrow> status \<times> 'f) \<Rightarrow> int \<Rightarrow> nat \<Rightarrow>
   ('f, 'g) sp_supervisor \<times> 'w \<Rightarrow> (('f, 'g) sp_supervisor \<times> 'w) res" where
  "rotations E W Z N 0 sw = ret sw"
| "rotations E W Z N (Suc k) sw = bnd (rotations E W Z N k sw) (\<lambda>(s, w). RotateLog E W Z N s w)"

lemma card_kept_logs:
  assumes "0 \<le> n" "n \<le> 2 ^ 31" "0 \<le> N"
  shows "card (kept_logs dir N n) = nat (min n N)"
proof -
  have "inj_on (log_path dir) {max 0 (n - N)..<n}"
    by (rule inj_onI) (use assms log_path_inj [of _ _ dir] in auto)
  then show ?thesis using assms by (simp add: kept_logs_def card_image)
qed

section \<open>The games of a batch\<close>

text \<open>The interface built from the actors of the model; they get no metrics, which the random actor never uses.\<close>

definition model_api :: "'g actor_lib \<Rightarrow> ('g actor, 'w) actor_api" where
  "model_api L = \<lparr>
     api_GameStarted = (\<lambda>player seed a. ret (GameStarted L player seed 0 a)),
     api_ObserveMove = ObserveMove,
     api_ChooseMove = (\<lambda>stop a w. bnd (ChooseMove L stop a [] w) (\<lambda>(move, a', _, w'). ret (move, a', w')))\<rparr>"

lemma model_api_observe [simp]: "api_ObserveMove (model_api L) = ObserveMove"
  by (simp add: model_api_def)

lemma model_api_random:
  "is_random ms a \<Longrightarrow> without_metrics (api_ChooseMove (model_api L)) stop a ms w = ChooseMove L stop a ms w"
  by (cases a) (auto simp: is_random_def without_metrics_def model_api_def RandomActor_ChooseMove_def bnd_assoc case_prod_unfold)

interpretation self_play_actor: total_actor "lib_ok L" "GameStarted L" ObserveMove
    "without_metrics (api_ChooseMove (model_api L))" actor_board is_random for L
proof (unfold_locales, goal_cases)
  case (1 me seed ptr a)
  show ?case by (rule actors.started_view)
next
  case (2 a hs m)
  then show ?case using random_dispatch.observe_returns [of a hs m] by simp
next
  case (3 hs a ms stop w m a' ms' w')
  then show ?case using random_dispatch.choose_legal [OF 3(1-5)] by (simp add: model_api_random)
next
  case (4 hs a ms stop w e)
  then show ?case using random_dispatch.choose_aborts [OF 4(1-5)] by (simp add: model_api_random)
next
  case (6 hs a ms stop w k)
  then show ?case using random_dispatch.choose_diverges [OF 6(1-5)] by (simp add: model_api_random)
next
  case (7 hs a ms stop w)
  then show ?case using random_dispatch.choose_returns [OF 7(1-5)] by (simp add: model_api_random)
qed (simp add: is_random_def)

lemma self_play_game:
  assumes "lib_ok L" "is_random [] a1" "is_random [] a2"
  shows "\<exists>r w'. SelfPlay_PlayGame (model_api L) \<lparr>pm_first = Some a1, pm_second = Some a2\<rparr> make_stop seeds w = ret (r, w') \<and>
    right_result r"
proof -
  define b1 b2 where "b1 = GameStarted L FIRST (pm_first seeds) 0 a1" and "b2 = GameStarted L SECOND (pm_second seeds) 0 a2"
  let ?stops = "\<lambda>player w. bnd (PlayerMap_at make_stop player) (\<lambda>make. ret (make w))"
  let ?s = "\<lparr>g_board = new_board, g_actors = \<lparr>pm_first = Some b1, pm_second = Some b2\<rparr>, g_metrics = [], g_moves = [], g_env = w\<rparr>"
  have started: "foldM (start_actor (model_api L) seeds) kPlayers \<lparr>pm_first = Some a1, pm_second = Some a2\<rparr> =
      ret \<lparr>pm_first = Some b1, pm_second = Some b2\<rparr>"
    by (simp add: kPlayers_def start_actor_def model_api_def b1_def b2_def)
  have "is_random [] b1" "is_random [] b2"
    using assms(2,3) by (cases a1; cases a2; simp add: is_random_def b1_def b2_def)+
  then have play: "playing actor_board is_random [] ?s"
    by (simp add: playing_def new_board_eq b1_def b2_def actors.started_view)
  have "\<exists>r. ?stops p w = ret r" if "p \<noteq> NONE" for p w using that by (cases p) auto
  then have made: "stops_made ?stops" by (simp add: stops_made_def)
  from self_play_actor.loop_returns [OF assms(1) made ongoing_Nil play] obtain r where
    r: "game_loop ObserveMove (without_metrics (api_ChooseMove (model_api L))) ?stops ?s = ret r" ..
  from self_play_actor.loop_result [OF assms(1) made ongoing_Nil play] r obtain gs m s' where
    res: "r = (m, s')" "finished (gs @ [m])" "playing actor_board is_random (gs @ [m]) s'" by auto
  then have "g_board s' = board_of (gs @ [m])" "g_moves s' = gs @ [m]" by (simp_all add: playing_def)
  then show ?thesis
    using r res(1) game_score_finished [OF res(2)] res(2)
    by (simp add: SelfPlay_PlayGame_def started finish_recording_def right_result_def)
qed

text \<open>The players of a batch are created by the names of their specifications.\<close>

definition random_name :: "actor_spec \<Rightarrow> bool" where
  "random_name spec \<longleftrightarrow> spec_name spec = ''RandomActor''"

lemma batch_task_returns:
  assumes "lib_ok L" "global_registry g0 = ret registry" "random_name (pm_first specs)" "random_name (pm_second specs)"
  shows "\<exists>r. batch_task (model_api L) registry E micros gen_seed specs t = ret r \<and> right_result r"
proof -
  have create: "ActorRegistry_Create registry (spec_name sp) (spec_config sp) = RandomActor_factory g0 (spec_config sp)"
    if "random_name sp" for sp
    using that by (simp add: ActorRegistry_Create_def random_name_def global_registry_find [OF assms(2)])
  let ?a = "RandomA \<lparr>ra_board = new_board, ra_rng = g0\<rparr>"
  let ?timers = "\<lparr>pm_first = TimerFactory E micros, pm_second = TimerFactory E micros\<rparr>"
  let ?seeds = "\<lparr>pm_first = fst (gen_seed (pm_first (th_rng t))), pm_second = fst (gen_seed (pm_second (th_rng t)))\<rparr>"
  have "is_random [] ?a" by (simp add: is_random_def)
  from self_play_game [OF assms(1) this this, of ?timers ?seeds "th_env t"] obtain r w' where
    "SelfPlay_PlayGame (model_api L) \<lparr>pm_first = Some ?a, pm_second = Some ?a\<rparr> ?timers ?seeds (th_env t) = ret (r, w')" "right_result r"
    by blast
  then show ?thesis
    by (simp add: batch_task_def PlayerMap_Map_def create assms(3,4) RandomActor_factory_def)
qed

text \<open>Every future holds the result of its own task, whatever the order of finishing.\<close>

lemma run_tasks_returns:
  assumes "\<And>i. i \<in> set order \<Longrightarrow> task i = ret (r i)"
  shows "run_tasks task order = ret (\<lambda>i. if i \<in> set order then Some (r i) else None)"
  using assms
proof (induction order rule: rev_induct)
  case Nil
  show ?case by (simp add: run_tasks_def)
next
  case (snoc i order)
  then have "run_tasks task order = ret (\<lambda>i. if i \<in> set order then Some (r i) else None)" "task i = ret (r i)" by simp_all
  then show ?case by (auto simp: run_tasks_def foldM_append fun_eq_iff)
qed

definition good_flush :: "'f writable \<Rightarrow> ('f \<Rightarrow> bytes \<Rightarrow> bool) \<Rightarrow> bool" where
  "good_flush W holds \<longleftrightarrow> (\<forall>f d. holds f d \<longrightarrow> (\<exists>f'. w_flush W f = ret (OK, f') \<and> holds f' d))"

text \<open>Counting whole games in \<open>float\<close> is exact up to \<open>2 ^ 24\<close>.\<close>

lemma count_up:
  "n < 2 ^ 24 \<Longrightarrow> fp_add float32 (Fin (of_nat n)) (Fin 1) = Fin (of_nat (Suc n))"
  "n \<le> 2 ^ 24 \<Longrightarrow> fp_add float32 (Fin (of_nat n)) (Fin 0) = Fin (of_nat n)"
proof -
  have exact: "to_fp float32 (of_nat k) = Fin (of_nat k)" if "k \<le> 2 ^ 24" for k
  proof -
    have k: "int k \<le> 2 ^ 24" using that by (metis of_nat_le_iff of_nat_numeral of_nat_power)
    have "rnd float32 (of_int (int k)) = of_int (int k)"
      using k by (intro rnd_of_int) (simp_all add: float32_def)
    moreover have "to_fp float32 (of_nat k) = Fin (rnd float32 (of_nat k))"
    proof (rule to_fp_Fin)
      have "(of_nat k :: rat) \<le> of_nat (2 ^ 24)" using that of_nat_le_iff by blast
      also have "\<dots> = pow2 24" by (simp add: pow2_def)
      also have "\<dots> \<le> pow2 (emax float32)" unfolding pow2_le_iff by (simp add: float32_def)
      finally show "\<bar>of_nat k\<bar> \<le> pow2 (emax float32)" by simp
    qed simp
    ultimately show ?thesis by simp
  qed
  show "n < 2 ^ 24 \<Longrightarrow> fp_add float32 (Fin (of_nat n)) (Fin 1) = Fin (of_nat (Suc n))"
    using exact [of "Suc n"] by (simp add: add.commute)
  show "n \<le> 2 ^ 24 \<Longrightarrow> fp_add float32 (Fin (of_nat n)) (Fin 0) = Fin (of_nat n)"
    using exact [of n] by simp
qed

definition first_wins :: "recording list \<Rightarrow> nat" where
  "first_wins rs = length (filter (\<lambda>r. winner_of (rec_moves r) = FIRST) rs)"

lemma tally:
  assumes "right_result r" "a + b < 2 ^ 24"
  shows "fp_add float32 (Fin (of_nat a)) (rec_score r) = Fin (of_nat (a + first_wins [r]))"
    "fp_add float32 (Fin (of_nat b)) (fp_sub float32 (Fin 1) (rec_score r)) = Fin (of_nat (b + (1 - first_wins [r])))"
proof -
  have "fp_sub float32 (Fin 1) (Fin 1) = Fin 0" "fp_sub float32 (Fin 1) (Fin 0) = Fin 1"
    using to_fp_unit [of float32 0] to_fp_unit [of float32 1] by (simp_all add: fp_sub_def)
  then show "fp_add float32 (Fin (of_nat a)) (rec_score r) = Fin (of_nat (a + first_wins [r]))"
    "fp_add float32 (Fin (of_nat b)) (fp_sub float32 (Fin 1) (rec_score r)) = Fin (of_nat (b + (1 - first_wins [r])))"
    using assms count_up [of a] count_up [of b] by (auto simp: right_result_def first_wins_def)
qed

text \<open>The serialiser succeeds on whole games, which are short.\<close>

definition good_serialiser :: "(recording \<Rightarrow> bytes option) \<Rightarrow> bool" where
  "good_serialiser ser \<longleftrightarrow> (\<forall>r. right_result r \<longrightarrow> (\<exists>bs. ser r = Some bs \<and> length bs < 2 ^ 32))"

lemma collect_returns:
  assumes "trusted M" "small_append W holds" "good_serialiser ser"
    "\<forall>i\<in>set ixs. \<exists>r. futures i = Some r \<and> right_result r"
    "rw_dest writer = Some f" "holds f d" "a + b + length ixs \<le> 2 ^ 24"
    and rs: "rs = map (\<lambda>i. the (futures i)) ixs"
  shows "\<exists>f'. foldM (collect M W ser futures) ixs (writer, Fin (of_nat a), Fin (of_nat b)) =
      ret (writer\<lparr>rw_dest := Some f'\<rparr>, Fin (of_nat (a + first_wins rs)), Fin (of_nat (b + (length rs - first_wins rs)))) \<and>
    holds f' (d @ concat (map (\<lambda>r. record_bytes (the (ser r))) rs))"
  using assms(4-7) unfolding rs
proof (induction ixs arbitrary: writer f d a b)
  case Nil
  then have "writer\<lparr>rw_dest := Some f\<rparr> = writer" by simp
  then show ?case using Nil by (metis (no_types, lifting) add.right_neutral append_Nil2 concat.simps(1) diff_0_eq_0 filter.simps(1)
        first_wins_def foldM.simps(1) list.map(1) list.size(3))
next
  case (Cons i ixs)
  obtain r where r: "futures i = Some r" "right_result r" using Cons.prems(1) by auto
  obtain bs where bs: "ser r = Some bs" "length bs < 2 ^ 32" using assms(3) r(2) unfolding good_serialiser_def by blast
  from WriteRecord_appends [where holds = holds and data = bs, OF assms(1) _ Cons.prems(2,3)] assms(2) bs(2) obtain f1 where
    f1: "WriteRecord M W bs writer = ret (OK, writer\<lparr>rw_dest := Some f1\<rparr>)" "holds f1 (d @ record_bytes bs)" by blast
  let ?w = "first_wins [r]"
  have w: "?w \<le> 1" by (simp add: first_wins_def)
  have step: "collect M W ser futures i (writer, Fin (of_nat a), Fin (of_nat b)) =
      ret (writer\<lparr>rw_dest := Some f1\<rparr>, Fin (of_nat (a + ?w)), Fin (of_nat (b + (1 - ?w))))"
    using tally [OF r(2), of a b] Cons.prems(4) r bs f1 by (simp add: collect_def)
  let ?rs = "map (\<lambda>i. the (futures i)) ixs"
  have wins: "first_wins (r # ?rs) = ?w + first_wins ?rs" by (simp add: first_wins_def)
  have le: "first_wins ?rs \<le> length ?rs" unfolding first_wins_def by (rule length_filter_le)
  have sums: "a + ?w + first_wins ?rs = a + first_wins (r # ?rs)"
    "b + (1 - ?w) + (length ?rs - first_wins ?rs) = b + (length (r # ?rs) - first_wins (r # ?rs))"
    using w le unfolding wins by simp_all
  have "\<exists>f'. foldM (collect M W ser futures) ixs (writer\<lparr>rw_dest := Some f1\<rparr>, Fin (of_nat (a + ?w)), Fin (of_nat (b + (1 - ?w)))) =
      ret ((writer\<lparr>rw_dest := Some f1\<rparr>)\<lparr>rw_dest := Some f'\<rparr>, Fin (of_nat (a + ?w + first_wins ?rs)),
        Fin (of_nat (b + (1 - ?w) + (length ?rs - first_wins ?rs)))) \<and>
    holds f' ((d @ record_bytes bs) @ concat (map (\<lambda>r. record_bytes (the (ser r))) ?rs))"
    by (rule Cons.IH) (use Cons.prems(1,4) f1(2) w in auto)
  then show ?case unfolding sums using r bs by (simp add: step)
qed

section \<open>Properties\<close>

text \<open>
  C37. The replay files of a supervisor with \<open>max_replay_files\<close> at least one, in a directory where
  no other file has the name of a log: the constructor and any number of rotations succeed, and
  afterwards exactly the last \<open>max_replay_files\<close> logs exist, beside the files that were there before.
\<close>

theorem RotateLog_keeps:
  assumes "good_env E files" "good_zlib Z W usable" "1 \<le> N" "N < 2 ^ 31" "int k + 1 < 2 ^ 31"
    "files w = other" "no_log_names other dir"
  shows "\<exists>s' w'. bnd (new_Supervisor E W Z N g0 specs dir w) (rotations E W Z N k) = ret (s', w') \<and>
    sp_next_log s' = int k + 1 \<and> files w' = other \<union> kept_logs dir N (int k + 1) \<and>
    card (kept_logs dir N (int k + 1)) = nat (min (int k + 1) N)"
proof -
  let ?s0 = "\<lparr>sp_file = None, sp_writer = None, sp_actor_specs = specs, sp_replay_dir = dir,
    sp_rng = g0, sp_next_log = 0, sp_player_1_won = Fin 0, sp_player_2_won = Fin 0\<rparr>"
  have "logs_inv other N files ?s0 w" using assms(3,6) by (simp add: logs_inv_def kept_logs_def)
  from RotateLog_inv [OF assms(1-4) _ this] assms(7) obtain s1 w1 where
    1: "RotateLog E W Z N ?s0 w = ret (s1, w1)" "logs_inv other N files s1 w1" "sp_next_log s1 = 1" "sp_replay_dir s1 = dir" "writer_usable usable s1"
    by (auto simp: writer_usable_def)
  have "\<exists>s' w'. rotations E W Z N k (s1, w1) = ret (s', w') \<and> logs_inv other N files s' w' \<and>
      sp_next_log s' = int k + 1 \<and> sp_replay_dir s' = dir \<and> writer_usable usable s'"
    using assms(5)
  proof (induction k)
    case 0
    then show ?case using 1 by simp
  next
    case (Suc k)
    then obtain s2 w2 where 2: "rotations E W Z N k (s1, w1) = ret (s2, w2)" "logs_inv other N files s2 w2"
      "sp_next_log s2 = int k + 1" "sp_replay_dir s2 = dir" "writer_usable usable s2" by auto
    from RotateLog_inv [OF assms(1-4) _ 2(2)] assms(7) Suc.prems 2 show ?case by auto
  qed
  then show ?thesis using 1(1) card_kept_logs [of "int k + 1" N dir] assms(3,5)
    by (auto simp: new_Supervisor_def logs_inv_def)
qed

definition memory_env :: "(string list, bytes) environment" where
  "memory_env = \<lparr>env_NowMicros = Pair 0, env_DeleteFile = (\<lambda>p fs. (OK, removeAll p fs)),
     env_NewWritableFile = (\<lambda>p fs. ((OK, []), p # fs))\<rparr>"

lemma memory_env_good: "good_env memory_env set" "good_zlib (\<lambda>_ f. (OK, f)) memory_file (\<lambda>_. True)"
  by (auto simp: good_env_def memory_env_def good_zlib_def memory_file_def)

theorem RotateLog_keeps_witness:
  "\<exists>s' w'. bnd (new_Supervisor memory_env memory_file (\<lambda>_ f. (OK, f)) 2 () SelfPlay_specs ''logs'' [])
      (rotations memory_env memory_file (\<lambda>_ f. (OK, f)) 2 4) = ret (s', w') \<and>
    set w' = kept_logs ''logs'' 2 5 \<and> card (kept_logs ''logs'' 2 5) = 2"
  using RotateLog_keeps [OF memory_env_good, of 2 4 "[]" "{}" "''logs''" "()" SelfPlay_specs]
  by (auto simp: no_log_names_def)

lemma PlayBatch_appends:
  assumes "lib_ok L" "global_registry g0 = ret registry"
    "random_name (pm_first (sp_actor_specs s))" "random_name (pm_second (sp_actor_specs s))"
    "trusted M" "small_append W holds" "good_flush W holds" "good_serialiser ser"
    "sp_writer s = Some writer" "rw_dest writer = Some f" "holds f d" "set (bt_order B) = {..<nat n}"
    "sp_player_1_won s = Fin (of_nat a)" "sp_player_2_won s = Fin (of_nat b)" "a + b + nat n \<le> 2 ^ 24"
  shows "\<exists>rs s' f'. PlayBatch (model_api L) registry E micros gen_seed M W ser B n s = ret (s', bt_env B) \<and>
    length rs = nat n \<and> list_all right_result rs \<and>
    (\<forall>i < nat n. batch_task (model_api L) registry E micros gen_seed (sp_actor_specs s) (bt_threads B i) = ret (rs ! i)) \<and>
    sp_writer s' = Some (writer\<lparr>rw_dest := Some f'\<rparr>) \<and>
    holds f' (d @ concat (map (\<lambda>r. record_bytes (the (ser r))) rs)) \<and>
    sp_player_1_won s' = Fin (of_nat (a + first_wins rs)) \<and>
    sp_player_2_won s' = Fin (of_nat (b + (length rs - first_wins rs)))"
proof -
  let ?task = "\<lambda>i. batch_task (model_api L) registry E micros gen_seed (sp_actor_specs s) (bt_threads B i)"
  have "\<forall>i. \<exists>r. ?task i = ret r \<and> right_result r" by (intro allI batch_task_returns [OF assms(1-4)])
  then obtain g where g: "?task i = ret (g i)" "right_result (g i)" for i by metis
  define rs where "rs = map g [0..<nat n]"
  let ?futures = "\<lambda>i. if i \<in> set (bt_order B) then Some (g i) else None"
  have tasks: "run_tasks ?task (bt_order B) = ret ?futures" using g(1) by (rule run_tasks_returns)
  have right: "list_all right_result rs" "length rs = nat n" "\<forall>i < nat n. ?task i = ret (rs ! i)"
    using g by (simp_all add: rs_def list_all_iff)
  have eq: "rs = map (\<lambda>i. the (?futures i)) [0..<nat n]" using assms(12) by (simp add: rs_def)
  have "\<forall>i\<in>set [0..<nat n]. \<exists>r. ?futures i = Some r \<and> right_result r" using g(2) assms(12) by simp
  from collect_returns [OF assms(5,6,8) this assms(10,11) _ eq, of a b] assms(15) obtain f1 where
    col: "foldM (collect M W ser ?futures) [0..<nat n] (writer, Fin (of_nat a), Fin (of_nat b)) =
      ret (writer\<lparr>rw_dest := Some f1\<rparr>, Fin (of_nat (a + first_wins rs)), Fin (of_nat (b + (length rs - first_wins rs))))"
      "holds f1 (d @ concat (map (\<lambda>r. record_bytes (the (ser r))) rs))" by auto
  obtain f2 where f2: "Writer_Flush W (writer\<lparr>rw_dest := Some f1\<rparr>) = ret (OK, writer\<lparr>rw_dest := Some f2\<rparr>)"
      "holds f2 (d @ concat (map (\<lambda>r. record_bytes (the (ser r))) rs))"
  proof (cases "IsZlibCompressed (rw_options writer)")
    case True
    from assms(7) col(2) obtain f3 where "w_flush W f1 = ret (OK, f3)" "holds f3 (d @ concat (map (\<lambda>r. record_bytes (the (ser r))) rs))"
      unfolding good_flush_def by blast
    with True show ?thesis by (intro that [of f3]) (simp_all add: Writer_Flush_def)
  next
    case False
    with col(2) show ?thesis by (intro that [of f1]) (simp_all add: Writer_Flush_def)
  qed
  have "PlayBatch (model_api L) registry E micros gen_seed M W ser B n s =
      ret (s\<lparr>sp_writer := Some (writer\<lparr>rw_dest := Some f2\<rparr>), sp_rng := bt_rng B,
        sp_player_1_won := Fin (of_nat (a + first_wins rs)), sp_player_2_won := Fin (of_nat (b + (length rs - first_wins rs)))\<rparr>,
        bt_env B)"
    using tasks col(1) f2(1) by (simp add: PlayBatch_def assms(9,13,14))
  then show ?thesis using right f2(2)
    by (intro exI [of _ rs] exI [of _ "s\<lparr>sp_writer := Some (writer\<lparr>rw_dest := Some f2\<rparr>), sp_rng := bt_rng B,
        sp_player_1_won := Fin (of_nat (a + first_wins rs)), sp_player_2_won := Fin (of_nat (b + (length rs - first_wins rs)))\<rparr>"]
        exI [of _ f2]) simp
qed

text \<open>
  C36. With two random players and a log without errors \<open>PlayBatch\<close> always returns, in whatever
  order its threads finish and whatever each finds in the shared random engine when it draws its two seeds:
  it appends one record for every game, and record number \<open>i\<close> is that of the game that
  thread number \<open>i\<close> played, so the records are in the order in which the games were started; each is a whole
  game by the rules with its right score; and it counts the wins of the first player, and all other
  games, draws included, for the second one, exactly as long as there are at most \<open>2 ^ 24\<close> games.
\<close>

theorem PlayBatch_records:
  assumes "lib_ok L" "global_registry g0 = ret registry"
    "random_name (pm_first (sp_actor_specs s))" "random_name (pm_second (sp_actor_specs s))"
    "trusted M" "small_append W holds" "good_flush W holds" "good_serialiser ser"
    "sp_writer s = Some writer" "rw_dest writer = Some f" "holds f d" "set (bt_order B) = {..<nat n}"
    "sp_player_1_won s = Fin (of_nat a)" "sp_player_2_won s = Fin (of_nat b)" "a + b + nat n \<le> 2 ^ 24"
  shows "\<exists>rs s' f'. PlayBatch (model_api L) registry E micros gen_seed M W ser B n s = ret (s', bt_env B) \<and>
    length rs = nat n \<and> list_all right_result rs \<and>
    (\<forall>i < nat n. batch_task (model_api L) registry E micros gen_seed (sp_actor_specs s) (bt_threads B i) = ret (rs ! i)) \<and>
    sp_writer s' = Some (writer\<lparr>rw_dest := Some f'\<rparr>) \<and>
    holds f' (d @ concat (map (\<lambda>r. record_bytes (the (ser r))) rs)) \<and>
    sp_player_1_won s' = Fin (of_nat (a + first_wins rs)) \<and>
    sp_player_2_won s' = Fin (of_nat (b + (length rs - first_wins rs)))"
  by (rule PlayBatch_appends [OF assms])

definition reference_batch :: "(nat, string list) batch" where
  "reference_batch = \<lparr>bt_threads = (\<lambda>i. \<lparr>th_rng = \<lparr>pm_first = i, pm_second = i + 1\<rparr>, th_env = []\<rparr>),
     bt_order = [1, 0], bt_rng = 4, bt_env = []\<rparr>"

definition reference_supervisor :: "(bytes, nat) sp_supervisor" where
  "reference_supervisor = \<lparr>sp_file = Some [], sp_writer = Some \<lparr>rw_dest = Some [], rw_options = default_options\<rparr>,
     sp_actor_specs = \<lparr>pm_first = pm_second SelfPlay_specs, pm_second = pm_second SelfPlay_specs\<rparr>,
     sp_replay_dir = ''logs'', sp_rng = 0, sp_next_log = 1, sp_player_1_won = Fin 0, sp_player_2_won = Fin 0\<rparr>"

theorem PlayBatch_records_witness:
  "\<exists>rs s' f'. PlayBatch (model_api reference_lib) reference_registry memory_env 10 (\<lambda>g. (int g, g + 1))
      (portable_machine True) memory_file (\<lambda>_. Some [7]) reference_batch 2 reference_supervisor = ret (s', []) \<and>
    length rs = 2 \<and>
    batch_task (model_api reference_lib) reference_registry memory_env 10 (\<lambda>g. (int g, g + 1))
      (sp_actor_specs reference_supervisor) (bt_threads reference_batch 1) = ret (rs ! 1) \<and>
    sp_writer s' = Some \<lparr>rw_dest = Some f', rw_options = default_options\<rparr> \<and>
    f' = concat (map (\<lambda>r. record_bytes [7]) rs)"
proof -
  have perm: "set (bt_order reference_batch) = {..<nat 2}" by (auto simp: reference_batch_def numeral_2_eq_2)
  have "good_flush memory_file (=)" by (simp add: good_flush_def memory_file_def)
  moreover have "good_serialiser (\<lambda>_. Some [7])" by (simp add: good_serialiser_def)
  ultimately obtain rs :: "recording list" and s' f' where r:
    "PlayBatch (model_api reference_lib) reference_registry memory_env 10 (\<lambda>g. (int g, g + 1))
      (portable_machine True) memory_file (\<lambda>_. Some [7]) reference_batch 2 reference_supervisor = ret (s', bt_env reference_batch)"
    "length rs = nat 2"
    "\<forall>i < nat 2. batch_task (model_api reference_lib) reference_registry memory_env 10 (\<lambda>g. (int g, g + 1))
      (sp_actor_specs reference_supervisor) (bt_threads reference_batch i) = ret (rs ! i)"
    "sp_writer s' = Some (\<lparr>rw_dest = Some [], rw_options = default_options\<rparr>\<lparr>rw_dest := Some f'\<rparr>)"
    "[] @ concat (map (\<lambda>r. record_bytes (the (Some [7]))) rs) = f'"
    using PlayBatch_records [OF reference_lib_ok reference_registry _ _ reference_file(1) [of True]
        good_append_small [OF reference_file(2)] _ _ _ _ refl perm,
        where s = reference_supervisor and ser = "\<lambda>_. Some [7]" and a = 0 and b = 0 and E = memory_env and micros = 10
          and gen_seed = "\<lambda>g. (int g, g + 1)" and writer = "\<lparr>rw_dest = Some [], rw_options = default_options\<rparr>"]
    by (auto simp: reference_supervisor_def SelfPlay_specs_def random_name_def)
  then show ?thesis by (intro exI [of _ rs] exI [of _ s'] exI [of _ f']) (simp add: reference_batch_def)
qed

end
