(* ===== verification/Zlib_Output.thy ===== *)
theory Zlib_Output
  imports Record_IO
begin

text \<open>
  The compressing file behind a record writer: \<^verbatim>\<open>tensorflow/core/lib/io/zlib_outputbuffer.cc\<close>
  and \<^verbatim>\<open>zlib_compression_options.h\<close>.

  The zlib library is a parameter: \<open>deflate\<close> gets the flush mode, the bytes from \<open>next_in\<close> on,
  the free space at \<open>next_out\<close> and the state of the compressor, and answers with its result code, the
  number of bytes it took and the bytes it produced. The two buffers are arrays with the
  positions of the \<open>z_stream\<close>; \<open>next_in\<close> may also point into the data of the caller.

  Sizes are numbers; where the code stores one in a 32-bit variable (\<open>uInt avail_in\<close>, \<open>uInt avail_out\<close>,
  \<open>uint32\<close>, \<open>int32\<close>) it is narrowed by \<open>as_uInt\<close> or \<open>to_int32\<close>. The buffer sizes are \<open>int32\<close> parameters
  of the constructor, so they are below \<open>2 ^ 31\<close> in what is proved.
\<close>

section \<open>Options\<close>

abbreviation (input) Z_NO_FLUSH :: int where "Z_NO_FLUSH \<equiv> 0"
abbreviation (input) Z_SYNC_FLUSH :: int where "Z_SYNC_FLUSH \<equiv> 2"
abbreviation (input) Z_FULL_FLUSH :: int where "Z_FULL_FLUSH \<equiv> 3"
abbreviation (input) Z_FINISH :: int where "Z_FINISH \<equiv> 4"
abbreviation (input) Z_OK :: int where "Z_OK \<equiv> 0"
abbreviation (input) Z_STREAM_END :: int where "Z_STREAM_END \<equiv> 1"
abbreviation (input) Z_BUF_ERROR :: int where "Z_BUF_ERROR \<equiv> - 5"
abbreviation (input) Z_STREAM_ERROR :: int where "Z_STREAM_ERROR \<equiv> - 2"

record ZlibCompressionOptions =
  flush_mode :: int
  input_buffer_size :: nat
  output_buffer_size :: nat
  window_bits :: int
  compression_level :: int
  compression_method :: int
  mem_level :: int
  compression_strategy :: int

definition ZlibOptions_DEFAULT :: ZlibCompressionOptions where
  "ZlibOptions_DEFAULT = \<lparr>flush_mode = Z_NO_FLUSH, input_buffer_size = 256 * 1024, output_buffer_size = 256 * 1024,
     window_bits = 15, compression_level = - 1, compression_method = 8, mem_level = 9, compression_strategy = 0\<rparr>"

definition ZlibOptions_RAW :: ZlibCompressionOptions where
  "ZlibOptions_RAW = ZlibOptions_DEFAULT\<lparr>window_bits := - window_bits ZlibOptions_DEFAULT\<rparr>"

definition ZlibOptions_GZIP :: ZlibCompressionOptions where
  "ZlibOptions_GZIP = ZlibOptions_DEFAULT\<lparr>window_bits := window_bits ZlibOptions_DEFAULT + 16\<rparr>"

text \<open>The options that the record writer and reader name.\<close>

fun zlib_options_of :: "zlib_options \<Rightarrow> ZlibCompressionOptions" where
  "zlib_options_of ZLIB_DEFAULT = ZlibOptions_DEFAULT"
| "zlib_options_of ZLIB_GZIP = ZlibOptions_GZIP"

section \<open>The buffer\<close>

record 'z deflate_lib =
  deflateInit2 :: "ZlibCompressionOptions \<Rightarrow> int \<times> 'z"
  deflate :: "int \<Rightarrow> bytes \<Rightarrow> nat \<Rightarrow> 'z \<Rightarrow> int \<times> nat \<times> bytes \<times> 'z"
  deflate_msg :: "'z \<Rightarrow> string option"
  raw_stream :: 'z

datatype input_pointer = InBuffer nat | InCaller bytes

record ('z, 'f) zlib_output =
  zo_file :: 'f
  zo_input_capacity :: nat
  zo_output_capacity :: nat
  zo_input :: bytes
  zo_output :: bytes
  zo_options :: ZlibCompressionOptions
  zo_stream :: "'z option"
  zo_next_in :: input_pointer
  zo_avail_in :: nat
  zo_next_out :: nat
  zo_avail_out :: nat

text \<open>The narrowing conversions to \<open>uInt\<close> (or \<open>uint32\<close>) and to \<open>int32\<close>, and that of an \<open>int\<close> to \<open>size_t\<close>.\<close>

definition as_uInt :: "int \<Rightarrow> nat" where
  "as_uInt i = unat (word_of_int i :: u32)"

definition to_int32 :: "int \<Rightarrow> int" where
  "to_int32 i = sint (word_of_int i :: u32)"

definition as_size :: "int \<Rightarrow> int" where
  "as_size i = uint (word_of_int i :: u64)"

text \<open>The arrays are not initialised; no byte of them is read before it is written.\<close>

definition new_ZlibOutputBuffer ::
  "'z deflate_lib \<Rightarrow> 'f \<Rightarrow> nat \<Rightarrow> nat \<Rightarrow> ZlibCompressionOptions \<Rightarrow> ('z, 'f) zlib_output" where
  "new_ZlibOutputBuffer Z file input_buffer_bytes output_buffer_bytes options = \<lparr>
     zo_file = file, zo_input_capacity = input_buffer_bytes, zo_output_capacity = output_buffer_bytes,
     zo_input = replicate input_buffer_bytes 0, zo_output = replicate output_buffer_bytes 0,
     zo_options = options, zo_stream = Some (raw_stream Z),
     zo_next_in = InBuffer 0, zo_avail_in = 0, zo_next_out = 0, zo_avail_out = 0\<rparr>"

definition ZlibOutput_Init :: "'z deflate_lib \<Rightarrow> ('z, 'f) zlib_output \<Rightarrow> status \<times> ('z, 'f) zlib_output" where
  "ZlibOutput_Init Z b =
     (if zo_output_capacity b \<le> 1 then (InvalidArgument ''output_buffer_bytes should be greater than 1'', b)
      else
        let (status, z) = deflateInit2 Z (zo_options b) in
        if status \<noteq> Z_OK then
          (InvalidArgument (''deflateInit failed with status'' @ FastInt32ToBufferLeft (word_of_int status)),
           b\<lparr>zo_stream := None\<rparr>)
        else
          (OK, b\<lparr>zo_stream := Some z, zo_next_in := InBuffer 0, zo_next_out := 0, zo_avail_in := 0,
                 zo_avail_out := as_uInt (int (zo_output_capacity b))\<rparr>))"

definition with_stream :: "('z, 'f) zlib_output \<Rightarrow> ('z \<Rightarrow> 'a res) \<Rightarrow> 'a res" where
  "with_stream b k = (case zo_stream b of None \<Rightarrow> abort (Undefined ''z_stream_ is null'') | Some z \<Rightarrow> k z)"

definition AvailableInputSpace :: "('z, 'f) zlib_output \<Rightarrow> int res" where
  "AvailableInputSpace b = with_stream b (\<lambda>_.
     ret (to_int32 (int (zo_input_capacity b) - int (zo_avail_in b))))"

definition write_at :: "nat \<Rightarrow> bytes \<Rightarrow> bytes \<Rightarrow> bytes" where
  "write_at p data buf = take p buf @ data @ drop (p + length data) buf"

definition AddToInputBuffer :: "bytes \<Rightarrow> ('z, 'f) zlib_output \<Rightarrow> ('z, 'f) zlib_output res" where
  "AddToInputBuffer data b =
     (let bytes_to_write = length data in
      bnd (AvailableInputSpace b) (\<lambda>space.
      CHECK (int bytes_to_write \<le> as_size space) ''bytes_to_write <= AvailableInputSpace()'' (
      case zo_next_in b of
        InCaller _ \<Rightarrow> abort (Undefined ''difference of pointers into different objects'')
      | InBuffer i \<Rightarrow>
          let read_bytes = to_int32 (int i);
              unread_bytes = to_int32 (int (zo_avail_in b)) in
          bnd (int32 (read_bytes + unread_bytes)) (\<lambda>used_bytes.
          let free_tail_bytes = to_int32 (int (zo_input_capacity b) - used_bytes);
              moved = int bytes_to_write > as_size free_tail_bytes;
              input = (if moved then write_at 0 (take (zo_avail_in b) (drop i (zo_input b))) (zo_input b)
                       else zo_input b);
              next_in = (if moved then 0 else i) in
          if next_in + zo_avail_in b + bytes_to_write \<le> length input then
            ret (b\<lparr>zo_input := write_at (next_in + zo_avail_in b) data input, zo_next_in := InBuffer next_in,
                   zo_avail_in := as_uInt (int (zo_avail_in b) + int bytes_to_write)\<rparr>)
          else abort (Undefined ''memcpy outside of z_stream_input_'')))))"

definition FlushOutputBufferToFile ::
  "'f writable \<Rightarrow> ('z, 'f) zlib_output \<Rightarrow> (status \<times> ('z, 'f) zlib_output) res" where
  "FlushOutputBufferToFile W b = with_stream b (\<lambda>_.
     let bytes_to_write = as_uInt (int (zo_output_capacity b) - int (zo_avail_out b)) in
     if bytes_to_write > 0 then
       bnd (w_append W (take bytes_to_write (zo_output b)) (zo_file b)) (\<lambda>(s, file).
       let b1 = b\<lparr>zo_file := file\<rparr> in
       ret (s, if ok s then b1\<lparr>zo_next_out := 0, zo_avail_out := as_uInt (int (zo_output_capacity b))\<rparr> else b1))
     else ret (OK, b))"

definition current_input :: "('z, 'f) zlib_output \<Rightarrow> bytes" where
  "current_input b = take (zo_avail_in b) (case zo_next_in b of InBuffer i \<Rightarrow> drop i (zo_input b) | InCaller data \<Rightarrow> data)"

fun advance :: "nat \<Rightarrow> input_pointer \<Rightarrow> input_pointer" where
  "advance k (InBuffer i) = InBuffer (i + k)"
| "advance k (InCaller data) = InCaller (drop k data)"

definition Deflate ::
  "'z deflate_lib \<Rightarrow> int \<Rightarrow> ('z, 'f) zlib_output \<Rightarrow> (status \<times> ('z, 'f) zlib_output) res" where
  "Deflate Z flush b = with_stream b (\<lambda>z.
     let (error, taken, produced, z') = deflate Z flush (current_input b) (zo_avail_out b) z;
         b' = b\<lparr>zo_stream := Some z', zo_next_in := advance taken (zo_next_in b), zo_avail_in := zo_avail_in b - taken,
                zo_output := write_at (zo_next_out b) produced (zo_output b),
                zo_next_out := zo_next_out b + length produced, zo_avail_out := zo_avail_out b - length produced\<rparr> in
     if error = Z_OK \<or> error = Z_BUF_ERROR \<or> (error = Z_STREAM_END \<and> flush = Z_FINISH) then ret (OK, b')
     else
       bnd (StrCat2 ''deflate() failed with error '' (FastInt32ToBufferLeft (word_of_int error))) (\<lambda>error_string.
       case deflate_msg Z z' of
         None \<Rightarrow> ret (DataLoss error_string, b')
       | Some msg \<Rightarrow> bnd (StrAppend2 error_string '': '' msg) (\<lambda>text. ret (DataLoss text, b'))))"

definition IsSyncOrFullFlush :: "int \<Rightarrow> bool" where
  "IsSyncOrFullFlush mode \<longleftrightarrow> mode = Z_SYNC_FLUSH \<or> mode = Z_FULL_FLUSH"

text \<open>
  The two \<open>do\<close>-\<open>while\<close> loops. The one of \<open>DeflateBuffered\<close> also empties the output buffer when fewer than
  six bytes are left in a flushing mode (\<open>early\<close>).
\<close>

partial_function (option) deflate_loop ::
  "'z deflate_lib \<Rightarrow> 'f writable \<Rightarrow> bool \<Rightarrow> int \<Rightarrow> ('z, 'f) zlib_output \<Rightarrow>
   (fatal + status \<times> ('z, 'f) zlib_output) option" where
  "deflate_loop Z W early flush b =
     bnd (if zo_avail_out b = 0 \<or> (early \<and> IsSyncOrFullFlush flush \<and> zo_avail_out b < 6)
          then FlushOutputBufferToFile W b else ret (OK, b)) (\<lambda>(s1, b1).
     if \<not> ok s1 then ret (s1, b1) else
     bnd (Deflate Z flush b1) (\<lambda>(s2, b2).
     if \<not> ok s2 then ret (s2, b2)
     else if zo_avail_out b2 = 0 then deflate_loop Z W early flush b2
     else ret (OK, b2)))"

definition DeflateBuffered ::
  "'z deflate_lib \<Rightarrow> 'f writable \<Rightarrow> bool \<Rightarrow> ('z, 'f) zlib_output \<Rightarrow> (status \<times> ('z, 'f) zlib_output) res" where
  "DeflateBuffered Z W last_call b =
     bnd (with_stream b (\<lambda>_. deflate_loop Z W True (if last_call then Z_FINISH else flush_mode (zo_options b)) b)) (\<lambda>(s, b').
     if \<not> ok s then ret (s, b')
     else DCHECK (zo_avail_in b' = 0) ''z_stream_->avail_in == 0'' (ret (OK, b'\<lparr>zo_next_in := InBuffer 0\<rparr>)))"

definition append_direct ::
  "'z deflate_lib \<Rightarrow> 'f writable \<Rightarrow> bytes \<Rightarrow> ('z, 'f) zlib_output \<Rightarrow> (status \<times> ('z, 'f) zlib_output) res" where
  "append_direct Z W data b =
     bnd (deflate_loop Z W False (flush_mode (zo_options b))
            (b\<lparr>zo_next_in := InCaller data, zo_avail_in := as_uInt (int (length data))\<rparr>))
       (\<lambda>(s, b').
     if \<not> ok s then ret (s, b')
     else DCHECK (zo_avail_in b' = 0) ''z_stream_->avail_in == 0'' (ret (OK, b'\<lparr>zo_next_in := InBuffer 0\<rparr>)))"

definition ZlibOutput_Append ::
  "'z deflate_lib \<Rightarrow> 'f writable \<Rightarrow> bytes \<Rightarrow> ('z, 'f) zlib_output \<Rightarrow> (status \<times> ('z, 'f) zlib_output) res" where
  "ZlibOutput_Append Z W data b =
     (let bytes_to_write = length data in
      bnd (AvailableInputSpace b) (\<lambda>space.
      if int bytes_to_write \<le> as_size space then bnd (AddToInputBuffer data b) (\<lambda>b'. ret (OK, b'))
      else
        bnd (DeflateBuffered Z W False b) (\<lambda>(s, b1).
        if \<not> ok s then ret (s, b1)
        else
          bnd (AvailableInputSpace b1) (\<lambda>space1.
          if int bytes_to_write \<le> as_size space1 then bnd (AddToInputBuffer data b1) (\<lambda>b'. ret (OK, b'))
          else append_direct Z W data b1))))"

definition ZlibOutput_Flush ::
  "'z deflate_lib \<Rightarrow> 'f writable \<Rightarrow> ('z, 'f) zlib_output \<Rightarrow> (status \<times> ('z, 'f) zlib_output) res" where
  "ZlibOutput_Flush Z W b =
     bnd (DeflateBuffered Z W False b) (\<lambda>(s, b1).
     if \<not> ok s then ret (s, b1) else FlushOutputBufferToFile W b1)"

definition ZlibOutput_Sync ::
  "'z deflate_lib \<Rightarrow> 'f writable \<Rightarrow> ('f \<Rightarrow> status \<times> 'f) \<Rightarrow> ('z, 'f) zlib_output \<Rightarrow> (status \<times> ('z, 'f) zlib_output) res" where
  "ZlibOutput_Sync Z W file_Sync b =
     bnd (ZlibOutput_Flush Z W b) (\<lambda>(s, b1).
     if \<not> ok s then ret (s, b1)
     else let (s', file) = file_Sync (zo_file b1) in ret (s', b1\<lparr>zo_file := file\<rparr>))"

definition ZlibOutput_Close ::
  "'z deflate_lib \<Rightarrow> 'f writable \<Rightarrow> ('z, 'f) zlib_output \<Rightarrow> (status \<times> ('z, 'f) zlib_output) res" where
  "ZlibOutput_Close Z W b =
     bnd (DeflateBuffered Z W True b) (\<lambda>(s, b1).
     if \<not> ok s then ret (s, b1)
     else
       bnd (FlushOutputBufferToFile W b1) (\<lambda>(s', b2).
       if \<not> ok s' then ret (s', b2) else ret (OK, b2\<lparr>zo_stream := None\<rparr>)))"

section \<open>A writable file of either kind\<close>

datatype ('z, 'f) out_file = PlainFile 'f | ZlibFile "('z, 'f) zlib_output"

fun out_append :: "'z deflate_lib \<Rightarrow> 'f writable \<Rightarrow> bytes \<Rightarrow> ('z, 'f) out_file \<Rightarrow> (status \<times> ('z, 'f) out_file) res" where
  "out_append Z W data (PlainFile f) = bnd (w_append W data f) (\<lambda>(s, f'). ret (s, PlainFile f'))"
| "out_append Z W data (ZlibFile b) = bnd (ZlibOutput_Append Z W data b) (\<lambda>(s, b'). ret (s, ZlibFile b'))"

fun out_flush :: "'z deflate_lib \<Rightarrow> 'f writable \<Rightarrow> ('z, 'f) out_file \<Rightarrow> (status \<times> ('z, 'f) out_file) res" where
  "out_flush Z W (PlainFile f) = bnd (w_flush W f) (\<lambda>(s, f'). ret (s, PlainFile f'))"
| "out_flush Z W (ZlibFile b) = bnd (ZlibOutput_Flush Z W b) (\<lambda>(s, b'). ret (s, ZlibFile b'))"

fun out_close :: "'z deflate_lib \<Rightarrow> 'f writable \<Rightarrow> ('z, 'f) out_file \<Rightarrow> (status \<times> ('z, 'f) out_file) res" where
  "out_close Z W (PlainFile f) = bnd (w_close W f) (\<lambda>(s, f'). ret (s, PlainFile f'))"
| "out_close Z W (ZlibFile b) = bnd (ZlibOutput_Close Z W b) (\<lambda>(s, b'). ret (s, ZlibFile b'))"

definition out_writable :: "'z deflate_lib \<Rightarrow> 'f writable \<Rightarrow> ('z, 'f) out_file writable" where
  "out_writable Z W = \<lparr>w_append = out_append Z W, w_flush = out_flush Z W, w_close = out_close Z W\<rparr>"

text \<open>What the record writer does with a file and the options: a new buffer, initialised.\<close>

fun open_zlib :: "'z deflate_lib \<Rightarrow> zlib_options \<Rightarrow> ('z, 'f) out_file \<Rightarrow> status \<times> ('z, 'f) out_file" where
  "open_zlib Z options (PlainFile f) =
     (let o' = zlib_options_of options;
          (s, b) = ZlibOutput_Init Z (new_ZlibOutputBuffer Z f (input_buffer_size o') (output_buffer_size o') o') in
      (s, ZlibFile b))"
| "open_zlib Z options (ZlibFile b) = (InvalidArgument ''nested buffers'', ZlibFile b)"

section \<open>The contract of the compressor\<close>

text \<open>
  What the zlib manual says of one call of \<open>deflate\<close>. \<open>stage z rest d out\<close> describes a state that has taken \<open>d\<close>
  and given \<open>out\<close> when it is called with the input \<open>rest\<close>; \<open>left z rest\<close> bounds the bytes that it can still give without
  more input; \<open>whole_stream out d\<close> says that \<open>out\<close> is a whole compressed stream of \<open>d\<close>. A call
  stops when the input is used up or the output space is full, and with \<open>Z_FINISH\<close> the stream is whole when
  output space is left. The sizes are \<open>uInt\<close>.
\<close>

definition deflate_step ::
  "'z deflate_lib \<Rightarrow> int \<Rightarrow> ('z \<Rightarrow> bytes \<Rightarrow> bytes \<Rightarrow> bytes \<Rightarrow> bool) \<Rightarrow> ('z \<Rightarrow> bytes \<Rightarrow> nat) \<Rightarrow>
   (bytes \<Rightarrow> bytes \<Rightarrow> bool) \<Rightarrow> bool" where
  "deflate_step Z flush stage left whole_stream \<longleftrightarrow>
     (\<forall>z rest d out n error k produced z'.
        stage z rest d out \<and> length rest < 2 ^ 32 \<and> 0 < n \<and> n < 2 ^ 32 \<and>
        deflate Z flush rest n z = (error, k, produced, z') \<longrightarrow>
        k \<le> length rest \<and> length produced \<le> n \<and> stage z' (drop k rest) (d @ take k rest) (out @ produced) \<and>
        length produced + left z' (drop k rest) \<le> left z rest \<and>
        (error = Z_OK \<or> error = Z_BUF_ERROR \<or> error = Z_STREAM_END \<and> flush = Z_FINISH) \<and>
        (length produced < n \<longrightarrow> k = length rest \<and> (flush = Z_FINISH \<longrightarrow> whole_stream (out @ produced) (d @ rest))))"

text \<open>
  A state is open (\<open>enc\<close>) until \<open>Z_FINISH\<close> is used for the first time: it takes any input. From then on it is finishing
  (\<open>fin\<close>): nothing is promised but for further calls with \<open>Z_FINISH\<close> and the rest of that input. When the stream
  ends exactly at the end of the output space, such a call is made after \<open>Z_STREAM_END\<close>; zlib answers
  \<open>Z_STREAM_END\<close> again and gives no bytes.
\<close>

definition open_stage :: "('z \<Rightarrow> bytes \<Rightarrow> bytes \<Rightarrow> bool) \<Rightarrow> 'z \<Rightarrow> bytes \<Rightarrow> bytes \<Rightarrow> bytes \<Rightarrow> bool" where
  "open_stage enc z rest d out \<longleftrightarrow> enc z d out"

definition finish_stage ::
  "('z \<Rightarrow> bytes \<Rightarrow> bytes \<Rightarrow> bool) \<Rightarrow> ('z \<Rightarrow> bytes \<Rightarrow> bytes \<Rightarrow> bytes \<Rightarrow> bool) \<Rightarrow>
   'z \<Rightarrow> bytes \<Rightarrow> bytes \<Rightarrow> bytes \<Rightarrow> bool" where
  "finish_stage enc fin z rest d out \<longleftrightarrow> enc z d out \<or> fin z rest d out"

definition deflate_contract ::
  "'z deflate_lib \<Rightarrow> ZlibCompressionOptions \<Rightarrow> ('z \<Rightarrow> bytes \<Rightarrow> bytes \<Rightarrow> bool) \<Rightarrow>
   ('z \<Rightarrow> bytes \<Rightarrow> bytes \<Rightarrow> bytes \<Rightarrow> bool) \<Rightarrow> ('z \<Rightarrow> bytes \<Rightarrow> nat) \<Rightarrow> (bytes \<Rightarrow> bytes \<Rightarrow> bool) \<Rightarrow> bool" where
  "deflate_contract Z options enc fin left whole_stream \<longleftrightarrow>
     fst (deflateInit2 Z options) = Z_OK \<and> enc (snd (deflateInit2 Z options)) [] [] \<and>
     deflate_step Z Z_NO_FLUSH (open_stage enc) left whole_stream \<and>
     deflate_step Z Z_FINISH (finish_stage enc fin) left whole_stream"

text \<open>The state of a buffer that was given \<open>d\<close> so far.\<close>

definition zlib_state ::
  "('z \<Rightarrow> bytes \<Rightarrow> bytes \<Rightarrow> bytes \<Rightarrow> bool) \<Rightarrow> ('f \<Rightarrow> bytes \<Rightarrow> bool) \<Rightarrow> ('z, 'f) zlib_output \<Rightarrow> bytes \<Rightarrow> bool" where
  "zlib_state stage holds b d \<longleftrightarrow>
     (\<exists>z taken written. zo_stream b = Some z \<and>
        stage z (current_input b) taken (written @ take (zo_next_out b) (zo_output b)) \<and>
        holds (zo_file b) written \<and> d = taken @ current_input b) \<and>
     length (current_input b) = zo_avail_in b \<and> zo_avail_in b < 2 ^ 32 \<and>
     length (zo_output b) = zo_output_capacity b \<and> zo_next_out b + zo_avail_out b = zo_output_capacity b \<and>
     1 < zo_output_capacity b \<and> zo_output_capacity b < 2 ^ 31 \<and>
     length (zo_input b) = zo_input_capacity b \<and> zo_input_capacity b < 2 ^ 31 \<and>
     flush_mode (zo_options b) = Z_NO_FLUSH"

definition zlib_holds ::
  "('z \<Rightarrow> bytes \<Rightarrow> bytes \<Rightarrow> bool) \<Rightarrow> ('f \<Rightarrow> bytes \<Rightarrow> bool) \<Rightarrow> ('z, 'f) zlib_output \<Rightarrow> bytes \<Rightarrow> bool" where
  "zlib_holds enc holds b d \<longleftrightarrow> zlib_state (open_stage enc) holds b d \<and>
     (\<exists>i. zo_next_in b = InBuffer i \<and> i + zo_avail_in b \<le> zo_input_capacity b)"

lemma zlib_state_finish: "zlib_state (open_stage enc) holds b d \<Longrightarrow> zlib_state (finish_stage enc fin) holds b d"
  by (auto simp: zlib_state_def open_stage_def finish_stage_def)

definition stream_whole ::
  "(bytes \<Rightarrow> bytes \<Rightarrow> bool) \<Rightarrow> ('f \<Rightarrow> bytes \<Rightarrow> bool) \<Rightarrow> ('z, 'f) zlib_output \<Rightarrow> bytes \<Rightarrow> bool" where
  "stream_whole whole_stream holds b d \<longleftrightarrow>
     (\<exists>written. holds (zo_file b) written \<and> whole_stream (written @ take (zo_next_out b) (zo_output b)) d)"

definition zo_left :: "('z \<Rightarrow> bytes \<Rightarrow> nat) \<Rightarrow> ('z, 'f) zlib_output \<Rightarrow> nat" where
  "zo_left left b = left (the (zo_stream b)) (current_input b)"

lemma length_write_at: "p + length data \<le> length buf \<Longrightarrow> length (write_at p data buf) = length buf"
  by (simp add: write_at_def)

lemma take_write_at: "p + length data \<le> length buf \<Longrightarrow> take (p + length data) (write_at p data buf) = take p buf @ data"
  by (simp add: write_at_def)

lemma as_uInt_id: "0 \<le> i \<Longrightarrow> i < 2 ^ 32 \<Longrightarrow> as_uInt i = nat i"
  unfolding as_uInt_def unat_eq_nat_uint uint_word_of_int_eq by (simp add: take_bit_int_eq_self)

lemma as_uInt_nat: "as_uInt (int n) = n mod 2 ^ 32"
  unfolding as_uInt_def of_int_of_nat_eq unat_of_nat by simp

lemma to_int32_id: "0 \<le> i \<Longrightarrow> i < 2 ^ 31 \<Longrightarrow> to_int32 i = i"
  unfolding to_int32_def int_word_sint by simp

lemma with_stream_Some [simp]: "zo_stream b = Some z \<Longrightarrow> with_stream b k = k z"
  by (simp add: with_stream_def)

lemma flush_state:
  assumes st: "zlib_state S holds b d" and app: "good_append W holds"
  shows "\<exists>f. FlushOutputBufferToFile W b = ret (OK, b\<lparr>zo_file := f, zo_next_out := 0, zo_avail_out := zo_output_capacity b\<rparr>) \<and>
    zlib_state S holds (b\<lparr>zo_file := f, zo_next_out := 0, zo_avail_out := zo_output_capacity b\<rparr>) d \<and>
    (\<forall>written. holds (zo_file b) written \<longrightarrow> holds f (written @ take (zo_next_out b) (zo_output b)))"
proof -
  obtain z taken written where z: "zo_stream b = Some z" "S z (current_input b) taken (written @ take (zo_next_out b) (zo_output b))"
    "holds (zo_file b) written" "d = taken @ current_input b"
    using st unfolding zlib_state_def by blast
  have sizes: "zo_next_out b + zo_avail_out b = zo_output_capacity b" "zo_output_capacity b < 2 ^ 31"
    using st by (simp_all add: zlib_state_def)
  have narrow: "as_uInt (int (zo_output_capacity b) - int (zo_avail_out b)) = zo_next_out b"
    "as_uInt (int (zo_output_capacity b)) = zo_output_capacity b"
    using sizes by (auto simp: as_uInt_id)
  have cur: "current_input (b\<lparr>zo_file := f, zo_next_out := 0, zo_avail_out := zo_output_capacity b\<rparr>) = current_input b" for f
    by (simp add: current_input_def split: input_pointer.split)
  note rest = st [unfolded zlib_state_def, THEN conjunct2]
  show ?thesis
  proof (cases "zo_next_out b = 0")
    case True
    then have "b = b\<lparr>zo_file := zo_file b, zo_next_out := 0, zo_avail_out := zo_output_capacity b\<rparr>" using sizes by simp
    moreover have "FlushOutputBufferToFile W b = ret (OK, b)"
      using True narrow z(1) by (simp add: FlushOutputBufferToFile_def)
    ultimately show ?thesis using st True by (intro exI [of _ "zo_file b"]) simp
  next
    case False
    from app [unfolded good_append_def, rule_format, OF z(3), of "take (zo_next_out b) (zo_output b)"] obtain f where
      f: "w_append W (take (zo_next_out b) (zo_output b)) (zo_file b) = ret (OK, f)"
        "holds f (written @ take (zo_next_out b) (zo_output b))" by blast
    have "FlushOutputBufferToFile W b = ret (OK, b\<lparr>zo_file := f, zo_next_out := 0, zo_avail_out := zo_output_capacity b\<rparr>)"
      using False f(1) z(1) narrow by (simp add: FlushOutputBufferToFile_def Let_def)
    moreover have "zlib_state S holds (b\<lparr>zo_file := f, zo_next_out := 0, zo_avail_out := zo_output_capacity b\<rparr>) d"
      unfolding zlib_state_def cur using z f(2) rest by auto
    moreover have "holds f (v @ take (zo_next_out b) (zo_output b))" if "holds (zo_file b) v" for v
      using app [unfolded good_append_def, rule_format, OF that, of "take (zo_next_out b) (zo_output b)"] f(1) by auto
    ultimately show ?thesis by blast
  qed
qed

lemma current_input_advance:
  "k \<le> zo_avail_in b \<Longrightarrow>
   current_input (b\<lparr>zo_stream := x, zo_next_in := advance k (zo_next_in b), zo_avail_in := zo_avail_in b - k,
     zo_output := y, zo_next_out := u, zo_avail_out := v\<rparr>) = drop k (current_input b)"
  by (cases "zo_next_in b") (simp_all add: current_input_def drop_take add.commute)

lemma deflate_state:
  assumes C: "deflate_step Z flush S left whole_stream" and st: "zlib_state S holds b d" and out: "0 < zo_avail_out b"
  shows "\<exists>b'. Deflate Z flush b = ret (OK, b') \<and> zlib_state S holds b' d \<and> zo_input b' = zo_input b \<and>
    zo_input_capacity b' = zo_input_capacity b \<and>
    (zo_avail_out b' = 0 \<longrightarrow> zo_left left b' < zo_left left b) \<and>
    (0 < zo_avail_out b' \<longrightarrow> zo_avail_in b' = 0 \<and> (flush = Z_FINISH \<longrightarrow> stream_whole whole_stream holds b' d))"
proof -
  obtain z taken written where z: "zo_stream b = Some z" "S z (current_input b) taken (written @ take (zo_next_out b) (zo_output b))"
    "holds (zo_file b) written" "d = taken @ current_input b"
    using st unfolding zlib_state_def by blast
  have sizes: "length (current_input b) = zo_avail_in b" "length (zo_output b) = zo_output_capacity b"
    "zo_next_out b + zo_avail_out b = zo_output_capacity b" "zo_avail_in b < 2 ^ 32" "zo_output_capacity b < 2 ^ 31"
    using st by (simp_all add: zlib_state_def)
  obtain error k produced z' where call: "deflate Z flush (current_input b) (zo_avail_out b) z = (error, k, produced, z')"
    by (metis surj_pair)
  have small: "length (current_input b) < 2 ^ 32" "zo_avail_out b < 2 ^ 32" using sizes by simp_all
  from C [unfolded deflate_step_def, rule_format, OF conjI, OF z(2) conjI, OF small(1) conjI, OF out conjI, OF small(2) call]
  have k: "k \<le> zo_avail_in b" "length produced \<le> zo_avail_out b"
    and enc: "S z' (drop k (current_input b)) (taken @ take k (current_input b)) ((written @ take (zo_next_out b) (zo_output b)) @ produced)"
    and left: "length produced + left z' (drop k (current_input b)) \<le> left z (current_input b)"
    and err: "error = Z_OK \<or> error = Z_BUF_ERROR \<or> error = Z_STREAM_END \<and> flush = Z_FINISH"
    and stop: "length produced < zo_avail_out b \<Longrightarrow> k = zo_avail_in b \<and>
      (flush = Z_FINISH \<longrightarrow> whole_stream ((written @ take (zo_next_out b) (zo_output b)) @ produced) (taken @ current_input b))"
    using sizes(1) by auto
  define b' where "b' = b\<lparr>zo_stream := Some z', zo_next_in := advance k (zo_next_in b), zo_avail_in := zo_avail_in b - k,
    zo_output := write_at (zo_next_out b) produced (zo_output b), zo_next_out := zo_next_out b + length produced,
    zo_avail_out := zo_avail_out b - length produced\<rparr>"
  have fits: "zo_next_out b + length produced \<le> length (zo_output b)" using k(2) sizes by simp
  have cur: "current_input b' = drop k (current_input b)" unfolding b'_def by (rule current_input_advance [OF k(1)])
  have outs: "take (zo_next_out b') (zo_output b') = take (zo_next_out b) (zo_output b) @ produced"
    using take_write_at [OF fits] by (simp add: b'_def)
  have st': "zlib_state S holds b' d"
    unfolding zlib_state_def
  proof (intro conjI)
    show "\<exists>z taken written. zo_stream b' = Some z \<and>
        S z (current_input b') taken (written @ take (zo_next_out b') (zo_output b')) \<and> holds (zo_file b') written \<and> d = taken @ current_input b'"
      unfolding outs cur
      by (rule exI [of _ z'], rule exI [of _ "taken @ take k (current_input b)"], rule exI [of _ written])
        (use z enc in \<open>simp add: b'_def\<close>)
    show "length (current_input b') = zo_avail_in b'" unfolding cur using sizes(1) by (simp add: b'_def)
    show "zo_avail_in b' < 2 ^ 32" using sizes(4) by (simp add: b'_def)
    show "length (zo_output b') = zo_output_capacity b'" using length_write_at [OF fits] sizes by (simp add: b'_def)
  qed (use st k(2) in \<open>simp_all add: zlib_state_def b'_def\<close>)
  have "Deflate Z flush b = ret (OK, b')"
    using z(1) call err by (auto simp: Deflate_def b'_def)
  moreover have "zo_left left b' < zo_left left b" if "zo_avail_out b' = 0"
  proof -
    have "0 < length produced" using that out k(2) by (simp add: b'_def)
    then have "left z' (drop k (current_input b)) < left z (current_input b)" using left by linarith
    then show ?thesis by (simp add: zo_left_def cur z(1)) (simp add: b'_def)
  qed
  moreover have "zo_avail_in b' = 0 \<and> (flush = Z_FINISH \<longrightarrow> stream_whole whole_stream holds b' d)" if "0 < zo_avail_out b'"
    using that stop z by (auto simp: stream_whole_def outs) (auto simp: b'_def)
  moreover have "zo_input b' = zo_input b" "zo_input_capacity b' = zo_input_capacity b" by (simp_all add: b'_def)
  ultimately show ?thesis using st' by (intro exI [of _ b']) simp
qed

lemma deflate_loop_state:
  assumes C: "deflate_step Z flush S left whole_stream" and app: "good_append W holds"
    and fl: "flush = Z_NO_FLUSH \<or> flush = Z_FINISH"
  shows "zlib_state S holds b d \<Longrightarrow>
    \<exists>b'. deflate_loop Z W early flush b = ret (OK, b') \<and> zlib_state S holds b' d \<and> zo_avail_in b' = 0 \<and>
      zo_input_capacity b' = zo_input_capacity b \<and> (flush = Z_FINISH \<longrightarrow> stream_whole whole_stream holds b' d)"
proof (induction "zo_left left b" arbitrary: b rule: less_induct)
  case less
  have sync: "\<not> IsSyncOrFullFlush flush" using fl by (auto simp: IsSyncOrFullFlush_def)
  have "\<exists>b1. (if zo_avail_out b = 0 \<or> (early \<and> IsSyncOrFullFlush flush \<and> zo_avail_out b < 6)
        then FlushOutputBufferToFile W b else ret (OK, b)) = ret (OK, b1) \<and> zlib_state S holds b1 d \<and>
      0 < zo_avail_out b1 \<and> zo_left left b1 = zo_left left b \<and> zo_input_capacity b1 = zo_input_capacity b"
  proof (cases "zo_avail_out b = 0")
    case True
    have cap: "1 < zo_output_capacity b" using less.prems by (simp add: zlib_state_def)
    from flush_state [OF less.prems app] obtain f where
      "FlushOutputBufferToFile W b = ret (OK, b\<lparr>zo_file := f, zo_next_out := 0, zo_avail_out := zo_output_capacity b\<rparr>)"
      "zlib_state S holds (b\<lparr>zo_file := f, zo_next_out := 0, zo_avail_out := zo_output_capacity b\<rparr>) d" by blast
    then show ?thesis using True cap
      by (intro exI [of _ "b\<lparr>zo_file := f, zo_next_out := 0, zo_avail_out := zo_output_capacity b\<rparr>"])
        (simp add: zo_left_def current_input_def split: input_pointer.split)
  qed (use less.prems sync in auto)
  then obtain b1 where b1: "(if zo_avail_out b = 0 \<or> (early \<and> IsSyncOrFullFlush flush \<and> zo_avail_out b < 6)
        then FlushOutputBufferToFile W b else ret (OK, b)) = ret (OK, b1)" "zlib_state S holds b1 d"
      "0 < zo_avail_out b1" "zo_left left b1 = zo_left left b" "zo_input_capacity b1 = zo_input_capacity b" by blast
  from deflate_state [OF C b1(2,3)] obtain b2 where b2: "Deflate Z flush b1 = ret (OK, b2)" "zlib_state S holds b2 d"
    "zo_input_capacity b2 = zo_input_capacity b1"
    "zo_avail_out b2 = 0 \<longrightarrow> zo_left left b2 < zo_left left b1"
    "0 < zo_avail_out b2 \<longrightarrow> zo_avail_in b2 = 0 \<and> (flush = Z_FINISH \<longrightarrow> stream_whole whole_stream holds b2 d)"
    by (elim exE conjE) (rule that)
  have step: "deflate_loop Z W early flush b =
      (if zo_avail_out b2 = 0 then deflate_loop Z W early flush b2 else ret (OK, b2))"
    unfolding deflate_loop.simps [of Z W early flush b] b1(1) bnd_ret prod.case b2(1) by simp
  show ?case
  proof (cases "zo_avail_out b2 = 0")
    case True
    then show ?thesis using less.hyps [of b2] b2 b1 step by auto
  next
    case False
    then show ?thesis using b2 b1(5) step by auto
  qed
qed

lemma reset_pointer:
  assumes "zlib_state S holds b d" "zo_avail_in b = 0"
  shows "zlib_state S holds (b\<lparr>zo_next_in := InBuffer 0\<rparr>) d"
    "stream_whole whole_stream holds (b\<lparr>zo_next_in := InBuffer 0\<rparr>) d = stream_whole whole_stream holds b d"
proof -
  have "current_input b = []" "current_input (b\<lparr>zo_next_in := InBuffer 0\<rparr>) = []"
    using assms(2) by (simp_all add: current_input_def)
  then show "zlib_state S holds (b\<lparr>zo_next_in := InBuffer 0\<rparr>) d"
    using assms by (simp add: zlib_state_def)
qed (simp add: stream_whole_def)

lemma DeflateBuffered_state:
  assumes C: "deflate_step Z (if last_call then Z_FINISH else Z_NO_FLUSH) S left whole_stream" and app: "good_append W holds"
    and st: "zlib_state S holds b d"
  shows "\<exists>b'. DeflateBuffered Z W last_call b = ret (OK, b') \<and> zlib_state S holds b' d \<and> zo_avail_in b' = 0 \<and>
    zo_next_in b' = InBuffer 0 \<and> zo_input_capacity b' = zo_input_capacity b \<and> (last_call \<longrightarrow> stream_whole whole_stream holds b' d)"
proof -
  let ?flush = "if last_call then Z_FINISH else flush_mode (zo_options b)"
  have mode: "flush_mode (zo_options b) = Z_NO_FLUSH" using st by (simp add: zlib_state_def)
  have fl: "?flush = Z_NO_FLUSH \<or> ?flush = Z_FINISH" using mode by simp
  obtain z where "zo_stream b = Some z" using st by (auto simp: zlib_state_def)
  moreover from deflate_loop_state [OF C [folded mode] app fl st, of True] obtain b' where
    "deflate_loop Z W True ?flush b = ret (OK, b')" "zlib_state S holds b' d" "zo_avail_in b' = 0"
    "zo_input_capacity b' = zo_input_capacity b" "?flush = Z_FINISH \<longrightarrow> stream_whole whole_stream holds b' d" by blast
  ultimately show ?thesis using reset_pointer [of S holds b' d]
    by (intro exI [of _ "b'\<lparr>zo_next_in := InBuffer 0\<rparr>"]) (simp add: DeflateBuffered_def)
qed

lemma DeflateBuffered_holds:
  assumes C: "deflate_contract Z options enc fin left whole_stream" and app: "good_append W holds" and st: "zlib_holds enc holds b d"
  shows "\<exists>b'. DeflateBuffered Z W False b = ret (OK, b') \<and> zlib_holds enc holds b' d \<and> zo_avail_in b' = 0 \<and>
    zo_input_capacity b' = zo_input_capacity b"
proof -
  have "deflate_step Z (if False then Z_FINISH else Z_NO_FLUSH) (open_stage enc) left whole_stream"
    using C by (simp add: deflate_contract_def)
  from DeflateBuffered_state [OF this app, of b d] st show ?thesis by (auto simp: zlib_holds_def)
qed

section \<open>Appending, flushing and closing\<close>

lemma as_size_id: "0 \<le> i \<Longrightarrow> i < 2 ^ 31 \<Longrightarrow> as_size i = i"
  unfolding as_size_def uint_word_of_int_eq by (rule take_bit_int_eq_self) simp_all

lemma space_size:
  assumes "zlib_holds enc holds b d"
  shows "AvailableInputSpace b = ret (int (zo_input_capacity b) - int (zo_avail_in b))"
    "as_size (int (zo_input_capacity b) - int (zo_avail_in b)) = int (zo_input_capacity b) - int (zo_avail_in b)"
proof -
  let ?s = "int (zo_input_capacity b) - int (zo_avail_in b)"
  obtain z where z: "zo_stream b = Some z" using assms by (auto simp: zlib_holds_def zlib_state_def)
  have s: "0 \<le> ?s" "?s < 2 ^ 31" using assms by (auto simp: zlib_holds_def zlib_state_def)
  show "AvailableInputSpace b = ret ?s" using z to_int32_id [OF s] by (simp add: AvailableInputSpace_def)
  show "as_size ?s = ?s" by (rule as_size_id [OF s])
qed

lemma AddToInputBuffer_holds:
  assumes st: "zlib_holds enc holds b d" and fits: "length data + zo_avail_in b \<le> zo_input_capacity b"
  shows "\<exists>b'. AddToInputBuffer data b = ret b' \<and> zlib_holds enc holds b' (d @ data)"
proof -
  obtain i where i: "zo_next_in b = InBuffer i" "i + zo_avail_in b \<le> zo_input_capacity b"
    and len: "length (zo_input b) = zo_input_capacity b" and cap: "zo_input_capacity b < 2 ^ 31"
    using st by (auto simp: zlib_holds_def zlib_state_def)
  let ?n = "zo_avail_in b"
  define moved where "moved \<longleftrightarrow> zo_input_capacity b < i + ?n + length data"
  define j where "j = (if moved then 0 else i)"
  define input where "input = (if moved then write_at 0 (take ?n (drop i (zo_input b))) (zo_input b) else zo_input b)"
  define b' where "b' = b\<lparr>zo_input := write_at (j + ?n) data input, zo_next_in := InBuffer j, zo_avail_in := ?n + length data\<rparr>"
  have narrow: "to_int32 (int i) = int i" "to_int32 (int ?n) = int ?n" "int32 (int i + int ?n) = ret (int i + int ?n)"
    "to_int32 (int (zo_input_capacity b) - (int i + int ?n)) = int (zo_input_capacity b) - (int i + int ?n)"
    "as_uInt (int ?n + int (length data)) = ?n + length data"
    using i(2) cap fits by (auto simp: to_int32_id int32_def as_uInt_id)
  have tail: "as_size (int (zo_input_capacity b) - (int i + int ?n)) = int (zo_input_capacity b) - (int i + int ?n)"
    by (rule as_size_id) (use i(2) cap in simp_all)
  have mv: "int (length data) > as_size (int (zo_input_capacity b) - (int i + int ?n)) \<longleftrightarrow> moved"
    unfolding tail moved_def by linarith
  have inlen: "length input = zo_input_capacity b" using i(2) len by (simp add: input_def length_write_at)
  have room: "j + ?n + length data \<le> length input" using fits inlen by (simp add: j_def moved_def)
  have unread: "take ?n (drop j input) = take ?n (drop i (zo_input b))"
    using i(2) len by (simp add: j_def input_def write_at_def)
  have cur: "current_input b' = current_input b @ data"
  proof -
    have "take ?n (drop j (take (j + ?n) input)) = take ?n (drop j input)" by (simp add: drop_take)
    moreover have "length (take ?n (drop j input)) = ?n" using room by simp
    ultimately show ?thesis
      using unread room by (simp add: current_input_def b'_def i(1) write_at_def drop_take)
  qed
  have "AddToInputBuffer data b = ret b'"
    unfolding AddToInputBuffer_def Let_def space_size(1) [OF st] bnd_ret space_size(2) [OF st] i(1) input_pointer.case narrow mv
    using fits room by (simp add: input_def [symmetric] j_def [symmetric] b'_def CHECK_def)
  moreover have "zlib_holds enc holds b' (d @ data)"
  proof -
    obtain z taken written where z: "zo_stream b = Some z" "enc z taken (written @ take (zo_next_out b) (zo_output b))"
      "holds (zo_file b) written" "d = taken @ current_input b"
      using st unfolding zlib_holds_def zlib_state_def open_stage_def by blast
    have "zlib_state (open_stage enc) holds b' (d @ data)"
      unfolding zlib_state_def
    proof (intro conjI)
      show "\<exists>z taken written. zo_stream b' = Some z \<and>
          open_stage enc z (current_input b') taken (written @ take (zo_next_out b') (zo_output b')) \<and>
          holds (zo_file b') written \<and> d @ data = taken @ current_input b'"
        unfolding cur open_stage_def by (rule exI [of _ z], rule exI [of _ taken], rule exI [of _ written]) (use z in \<open>simp add: b'_def\<close>)
      show "length (current_input b') = zo_avail_in b'"
        unfolding cur using st by (simp add: b'_def zlib_holds_def zlib_state_def)
      show "zo_avail_in b' < 2 ^ 32" using fits cap by (simp add: b'_def)
      show "length (zo_input b') = zo_input_capacity b'" using room inlen by (simp add: b'_def length_write_at)
    qed (use st in \<open>simp_all add: zlib_holds_def zlib_state_def b'_def\<close>)
    then show ?thesis using room inlen by (simp add: zlib_holds_def) (simp add: b'_def)
  qed
  ultimately show ?thesis by blast
qed

text \<open>Data that is compressed directly is cut to its size modulo \<open>2 ^ 32\<close>.\<close>

lemma append_direct_holds:
  assumes C: "deflate_contract Z options enc fin left whole_stream" and app: "good_append W holds"
    and st: "zlib_holds enc holds b d" "zo_avail_in b = 0"
  shows "\<exists>b'. append_direct Z W data b = ret (OK, b') \<and> zlib_holds enc holds b' (d @ take (length data mod 2 ^ 32) data)"
proof -
  let ?b = "b\<lparr>zo_next_in := InCaller data, zo_avail_in := as_uInt (int (length data))\<rparr>"
    and ?d = "d @ take (length data mod 2 ^ 32) data"
  have cur: "current_input ?b = take (length data mod 2 ^ 32) data" "current_input b = []"
    using st(2) by (simp_all add: current_input_def as_uInt_nat)
  have "length data mod 2 ^ 32 \<le> length data" "length data mod 2 ^ 32 < 2 ^ 32" by (rule mod_less_eq_dividend, simp)
  then have state: "zlib_state (open_stage enc) holds ?b ?d"
    using st unfolding zlib_holds_def zlib_state_def open_stage_def cur by (auto simp: as_uInt_nat)
  have mode: "flush_mode (zo_options b) = Z_NO_FLUSH" using st(1) by (simp add: zlib_holds_def zlib_state_def)
  have "deflate_step Z (flush_mode (zo_options b)) (open_stage enc) left whole_stream"
    using C mode by (simp add: deflate_contract_def)
  from deflate_loop_state [OF this app _ state, of False] mode obtain b' where
    "deflate_loop Z W False (flush_mode (zo_options b)) ?b = ret (OK, b')" "zlib_state (open_stage enc) holds b' ?d" "zo_avail_in b' = 0"
    by auto
  then show ?thesis using reset_pointer(1) [of "open_stage enc" holds b' ?d]
    by (intro exI [of _ "b'\<lparr>zo_next_in := InBuffer 0\<rparr>"]) (simp add: append_direct_def zlib_holds_def)
qed

lemma ZlibOutput_Append_holds:
  assumes C: "deflate_contract Z options enc fin left whole_stream" and app: "good_append W holds" and st: "zlib_holds enc holds b d"
  shows "\<exists>b'. ZlibOutput_Append Z W data b = ret (OK, b') \<and> zlib_holds enc holds b' (d @ take (length data mod 2 ^ 32) data)"
proof -
  have small: "length data mod 2 ^ 32 = length data" if "length data < 2 ^ 31" using that by simp
  have cap: "zo_input_capacity b < 2 ^ 31" using st by (simp add: zlib_holds_def zlib_state_def)
  show ?thesis
  proof (cases "length data + zo_avail_in b \<le> zo_input_capacity b")
    case True
    with AddToInputBuffer_holds [OF st True] cap small show ?thesis
      by (auto simp: ZlibOutput_Append_def space_size [OF st])
  next
    case False
    from DeflateBuffered_holds [OF C app st] obtain b1 where b1: "DeflateBuffered Z W False b = ret (OK, b1)"
      "zlib_holds enc holds b1 d" "zo_avail_in b1 = 0" "zo_input_capacity b1 = zo_input_capacity b" by blast
    have first: "ZlibOutput_Append Z W data b =
        (if length data \<le> zo_input_capacity b1 then bnd (AddToInputBuffer data b1) (\<lambda>b'. ret (OK, b'))
         else append_direct Z W data b1)"
      using False space_size [OF b1(2)] by (simp add: ZlibOutput_Append_def space_size [OF st] b1(1,3))
    show ?thesis
    proof (cases "length data \<le> zo_input_capacity b1")
      case True
      with AddToInputBuffer_holds [OF b1(2), of data] b1(3,4) cap small show ?thesis by (auto simp: first)
    next
      case False
      with append_direct_holds [OF C app b1(2,3), of data] show ?thesis by (simp add: first)
    qed
  qed
qed

lemma ZlibOutput_Flush_holds:
  assumes C: "deflate_contract Z options enc fin left whole_stream" and app: "good_append W holds" and st: "zlib_holds enc holds b d"
  shows "\<exists>b'. ZlibOutput_Flush Z W b = ret (OK, b') \<and> zlib_holds enc holds b' d"
proof -
  from DeflateBuffered_holds [OF C app st] obtain b1 where b1: "DeflateBuffered Z W False b = ret (OK, b1)"
    "zlib_holds enc holds b1 d" "zo_avail_in b1 = 0" by blast
  then have "zlib_state (open_stage enc) holds b1 d" by (simp add: zlib_holds_def)
  from flush_state [OF this app] b1 show ?thesis
    by (auto simp: ZlibOutput_Flush_def zlib_holds_def)
qed

lemma ZlibOutput_Close_holds:
  assumes C: "deflate_contract Z options enc fin left whole_stream" and app: "good_append W holds" and st: "zlib_holds enc holds b d"
  shows "\<exists>b' c. ZlibOutput_Close Z W b = ret (OK, b') \<and> zo_stream b' = None \<and> holds (zo_file b') c \<and> whole_stream c d"
proof -
  let ?S = "finish_stage enc fin"
  have step: "deflate_step Z (if True then Z_FINISH else Z_NO_FLUSH) ?S left whole_stream"
    using C by (simp add: deflate_contract_def)
  have "zlib_state ?S holds b d" using st zlib_state_finish by (auto simp: zlib_holds_def)
  from DeflateBuffered_state [OF step app this] obtain b1 where b1: "DeflateBuffered Z W True b = ret (OK, b1)"
    "zlib_state ?S holds b1 d" "stream_whole whole_stream holds b1 d" by blast
  from flush_state [OF b1(2) app] obtain f where
    "FlushOutputBufferToFile W b1 = ret (OK, b1\<lparr>zo_file := f, zo_next_out := 0, zo_avail_out := zo_output_capacity b1\<rparr>)"
    "\<forall>written. holds (zo_file b1) written \<longrightarrow> holds f (written @ take (zo_next_out b1) (zo_output b1))" by blast
  with b1 show ?thesis by (auto simp: ZlibOutput_Close_def stream_whole_def)
qed

section \<open>Compressed files\<close>

definition compressed_holds ::
  "('z \<Rightarrow> bytes \<Rightarrow> bytes \<Rightarrow> bool) \<Rightarrow> ('f \<Rightarrow> bytes \<Rightarrow> bool) \<Rightarrow> ('z, 'f) out_file \<Rightarrow> bytes \<Rightarrow> bool" where
  "compressed_holds enc holds f d \<longleftrightarrow> (\<exists>b. f = ZlibFile b \<and> zlib_holds enc holds b d)"

lemma compressed_small_append:
  assumes "deflate_contract Z options enc fin left whole_stream" "good_append W holds"
  shows "small_append (out_writable Z W) (compressed_holds enc holds)"
  unfolding small_append_def
proof (intro allI impI, elim conjE)
  fix f :: "('a, 'b) out_file" and d data
  assume "compressed_holds enc holds f d" and len: "length (data :: bytes) < 2 ^ 32"
  then obtain b where b: "f = ZlibFile b" "zlib_holds enc holds b d" by (auto simp: compressed_holds_def)
  with ZlibOutput_Append_holds [OF assms b(2), of data] len
  show "\<exists>f'. w_append (out_writable Z W) data f = ret (OK, f') \<and> compressed_holds enc holds f' (d @ data)"
    by (auto simp: out_writable_def compressed_holds_def)
qed

lemma compressed_flush:
  assumes "deflate_contract Z options enc fin left whole_stream" "good_append W holds" "compressed_holds enc holds f d"
  shows "\<exists>f'. w_flush (out_writable Z W) f = ret (OK, f') \<and> compressed_holds enc holds f' d"
  using assms(3) ZlibOutput_Flush_holds [OF assms(1,2)]
  by (fastforce simp: out_writable_def compressed_holds_def)

lemma compressed_close:
  assumes "deflate_contract Z options enc fin left whole_stream" "good_append W holds" "compressed_holds enc holds f d"
  shows "\<exists>b c. w_close (out_writable Z W) f = ret (OK, ZlibFile b) \<and> holds (zo_file b) c \<and> whole_stream c d"
  using assms(3) ZlibOutput_Close_holds [OF assms(1,2)]
  by (fastforce simp: out_writable_def compressed_holds_def)

lemma ZlibOutput_Init_holds:
  assumes "deflate_contract Z options enc fin left whole_stream" "holds f []" "1 < out_cap" "out_cap < 2 ^ 31" "in_cap < 2 ^ 31"
    "flush_mode options = Z_NO_FLUSH"
  shows "\<exists>b. ZlibOutput_Init Z (new_ZlibOutputBuffer Z f in_cap out_cap options) = (OK, b) \<and> zlib_holds enc holds b []"
  using assms
  by (auto simp: ZlibOutput_Init_def new_ZlibOutputBuffer_def deflate_contract_def zlib_holds_def zlib_state_def
      current_input_def open_stage_def as_uInt_id case_prod_unfold Let_def)

lemma open_zlib_holds:
  assumes "deflate_contract Z (zlib_options_of options) enc fin left whole_stream" "holds f []"
  shows "\<exists>f'. open_zlib Z options (PlainFile f) = (OK, f') \<and> compressed_holds enc holds f' []"
  using ZlibOutput_Init_holds [where holds = holds and f = f, OF assms, of "256 * 1024" "256 * 1024"]
  by (cases options) (auto simp: ZlibOptions_DEFAULT_def ZlibOptions_GZIP_def compressed_holds_def)

section \<open>Properties\<close>

text \<open>A use of a buffer: appended data and flushes.\<close>

datatype zlib_call = CallAppend bytes | CallFlush

fun do_call ::
  "'z deflate_lib \<Rightarrow> 'f writable \<Rightarrow> zlib_call \<Rightarrow> ('z, 'f) zlib_output \<Rightarrow> (status \<times> ('z, 'f) zlib_output) res" where
  "do_call Z W (CallAppend data) b = ZlibOutput_Append Z W data b"
| "do_call Z W CallFlush b = ZlibOutput_Flush Z W b"

fun do_calls ::
  "'z deflate_lib \<Rightarrow> 'f writable \<Rightarrow> zlib_call list \<Rightarrow> ('z, 'f) zlib_output \<Rightarrow> (status \<times> ('z, 'f) zlib_output) res" where
  "do_calls Z W [] b = ZlibOutput_Close Z W b"
| "do_calls Z W (c # cs) b = bnd (do_call Z W c b) (\<lambda>(s, b'). if ok s then do_calls Z W cs b' else ret (s, b'))"

fun appended :: "zlib_call list \<Rightarrow> bytes" where
  "appended [] = []"
| "appended (CallAppend data # cs) = data @ appended cs"
| "appended (CallFlush # cs) = appended cs"

fun small_call :: "zlib_call \<Rightarrow> bool" where
  "small_call (CallAppend data) \<longleftrightarrow> length data < 2 ^ 32"
| "small_call CallFlush \<longleftrightarrow> True"

lemma do_calls_holds:
  assumes C: "deflate_contract Z options enc fin left whole_stream" and app: "good_append W holds"
  shows "zlib_holds enc holds b d \<Longrightarrow> list_all small_call cs \<Longrightarrow>
    \<exists>b' c. do_calls Z W cs b = ret (OK, b') \<and> holds (zo_file b') c \<and> whole_stream c (d @ appended cs)"
proof (induction cs arbitrary: b d)
  case Nil
  with ZlibOutput_Close_holds [OF C app Nil(1)] show ?case by auto
next
  case (Cons c cs)
  show ?case
  proof (cases c)
    case (CallAppend data)
    from ZlibOutput_Append_holds [OF C app Cons.prems(1), of data] Cons.prems(2) CallAppend obtain b1 where
      "ZlibOutput_Append Z W data b = ret (OK, b1)" "zlib_holds enc holds b1 (d @ data)" by auto
    with Cons.IH [of b1 "d @ data"] Cons.prems(2) CallAppend show ?thesis by simp
  next
    case CallFlush
    from ZlibOutput_Flush_holds [OF C app Cons.prems(1)] obtain b1 where
      "ZlibOutput_Flush Z W b = ret (OK, b1)" "zlib_holds enc holds b1 d" by blast
    with Cons.IH [of b1 d] Cons.prems(2) CallFlush show ?thesis by simp
  qed
qed

text \<open>
  C38. A \<open>ZlibOutputBuffer\<close> with the default flush mode \<open>Z_NO_FLUSH\<close>, an input buffer of less than
  \<open>2 ^ 31\<close> bytes and an output buffer of two to \<open>2 ^ 31 - 1\<close> bytes, over
  a file without errors and a compressor that keeps its contract: after \<open>Init\<close> every sequence of \<open>Append\<close>s of less than
  \<open>2 ^ 32\<close> bytes each, shorter or longer than the buffer, and \<open>Flush\<close>es succeeds, and after \<open>Close\<close> the file holds a whole
  compressed stream of exactly the appended bytes. In particular no loop runs forever and no buffer overflows.
\<close>

theorem ZlibOutput_compresses:
  assumes "deflate_contract Z options enc fin left whole_stream" "good_append W holds" "holds f []"
    "1 < out_cap" "out_cap < 2 ^ 31" "in_cap < 2 ^ 31" "flush_mode options = Z_NO_FLUSH" "list_all small_call cs"
  shows "\<exists>b b' c. ZlibOutput_Init Z (new_ZlibOutputBuffer Z f in_cap out_cap options) = (OK, b) \<and>
    do_calls Z W cs b = ret (OK, b') \<and> holds (zo_file b') c \<and> whole_stream c (appended cs)"
proof -
  from ZlibOutput_Init_holds [where holds = holds and f = f, OF assms(1,3-7)] obtain b where
    b: "ZlibOutput_Init Z (new_ZlibOutputBuffer Z f in_cap out_cap options) = (OK, b)" "zlib_holds enc holds b []" by blast
  from do_calls_holds [OF assms(1,2) b(2) assms(8)] b(1) show ?thesis by auto
qed

text \<open>
  A compressor for concrete runs, which stores the bytes as they are. Like zlib it refuses everything but \<open>Z_FINISH\<close>
  without input once the stream has ended.
\<close>

definition store_lib :: "bool deflate_lib" where
  "store_lib = \<lparr>deflateInit2 = (\<lambda>_. (Z_OK, False)),
     deflate = (\<lambda>flush input n ended.
       if ended \<and> (flush \<noteq> Z_FINISH \<or> input \<noteq> []) then (Z_STREAM_ERROR, 0, [], ended)
       else let k = min n (length input); ends = (flush = Z_FINISH \<and> k = length input) in
         (if ends then Z_STREAM_END else if k = 0 then Z_BUF_ERROR else Z_OK, k, take k input, ends)),
     deflate_msg = (\<lambda>_. None), raw_stream = False\<rparr>"

definition stored :: "bool \<Rightarrow> bytes \<Rightarrow> bytes \<Rightarrow> bool" where
  "stored ended d out \<longleftrightarrow> \<not> ended \<and> out = d"

definition storing :: "bool \<Rightarrow> bytes \<Rightarrow> bytes \<Rightarrow> bytes \<Rightarrow> bool" where
  "storing ended rest d out \<longleftrightarrow> (ended \<longrightarrow> rest = []) \<and> out = d"

lemma store_contract: "deflate_contract store_lib options stored storing (\<lambda>_. length) (=)"
proof -
  have "deflate_step store_lib Z_NO_FLUSH (open_stage stored) (\<lambda>_. length) (=)"
    by (auto simp: deflate_step_def open_stage_def stored_def store_lib_def Let_def min_def split: if_splits)
  moreover have "deflate_step store_lib Z_FINISH (finish_stage stored storing) (\<lambda>_. length) (=)"
    by (auto simp: deflate_step_def finish_stage_def stored_def storing_def store_lib_def Let_def min_def split: if_splits)
  ultimately show ?thesis by (simp add: deflate_contract_def store_lib_def stored_def)
qed

theorem ZlibOutput_compresses_witness:
  "\<exists>b b' c. ZlibOutput_Init store_lib (new_ZlibOutputBuffer store_lib [] 3 2 ZlibOptions_DEFAULT) = (OK, b) \<and>
    do_calls store_lib memory_file [CallAppend [1, 2], CallFlush, CallAppend [3, 4, 5, 6, 7], CallAppend [8]] b = ret (OK, b') \<and>
    zo_file b' = c \<and> c = [1, 2, 3, 4, 5, 6, 7, 8]"
  using ZlibOutput_compresses [OF store_contract reference_file(2) refl, where in_cap = 3 and out_cap = 2 and
      options = ZlibOptions_DEFAULT and cs = "[CallAppend [1, 2], CallFlush, CallAppend [3, 4, 5, 6, 7], CallAppend [8]]"]
  by (auto simp: ZlibOptions_DEFAULT_def)

text \<open>
  C23. Data of \<open>2 ^ 32\<close> bytes or more is lost without an error: \<open>Append\<close> puts its size into the 32-bit
  \<open>avail_in\<close>, so on the same buffers, files and compressors as above \<open>Append\<close> and \<open>Close\<close> succeed, but the
  stream in the file is only that of the first \<open>length data mod 2 ^ 32\<close> bytes.
\<close>

theorem large_append_truncates:
  assumes "deflate_contract Z options enc fin left whole_stream" "good_append W holds" "holds f []"
    "1 < out_cap" "out_cap < 2 ^ 31" "in_cap < 2 ^ 31" "flush_mode options = Z_NO_FLUSH" "2 ^ 32 \<le> length data"
  shows "\<exists>b b' c. ZlibOutput_Init Z (new_ZlibOutputBuffer Z f in_cap out_cap options) = (OK, b) \<and>
    do_calls Z W [CallAppend data] b = ret (OK, b') \<and> holds (zo_file b') c \<and>
    whole_stream c (take (length data mod 2 ^ 32) data) \<and> length data mod 2 ^ 32 < length data"
proof -
  from ZlibOutput_Init_holds [where holds = holds and f = f, OF assms(1,3-7)] obtain b where
    b: "ZlibOutput_Init Z (new_ZlibOutputBuffer Z f in_cap out_cap options) = (OK, b)" "zlib_holds enc holds b []" by blast
  from ZlibOutput_Append_holds [OF assms(1,2) b(2), of data] obtain b1 where
    b1: "ZlibOutput_Append Z W data b = ret (OK, b1)" "zlib_holds enc holds b1 (take (length data mod 2 ^ 32) data)" by auto
  have "length data mod 2 ^ 32 < 2 ^ 32" by simp
  then have "length data mod 2 ^ 32 < length data" using assms(8) by linarith
  with ZlibOutput_Close_holds [OF assms(1,2) b1(2)] b(1) b1(1) show ?thesis by auto
qed

theorem large_append_truncates_witness:
  "\<exists>b b'. ZlibOutput_Init store_lib (new_ZlibOutputBuffer store_lib [] 3 2 ZlibOptions_DEFAULT) = (OK, b) \<and>
    do_calls store_lib memory_file [CallAppend (replicate (2 ^ 32 + 1) 7)] b = ret (OK, b') \<and> zo_file b' = [7]"
proof -
  have m: "(2 ^ 32 + 1) mod 2 ^ 32 = (1 :: nat)" by simp
  have t: "take 1 (replicate (2 ^ 32 + 1) x) = [x]" for x :: byte by (metis One_nat_def Suc_eq_plus1 take0 take_Suc_Cons replicate_Suc)
  have sizes: "1 < (2 :: nat)" "(2 :: nat) < 2 ^ 31" "(3 :: nat) < 2 ^ 31" "(2 ^ 32 :: nat) \<le> 2 ^ 32 + 1"
    "flush_mode ZlibOptions_DEFAULT = Z_NO_FLUSH"
    by (simp_all add: ZlibOptions_DEFAULT_def)
  from large_append_truncates [OF store_contract reference_file(2) refl sizes(1-3,5), of "replicate (2 ^ 32 + 1) 7"] sizes(4)
  show ?thesis unfolding length_replicate m t by metis
qed

text \<open>A direct deflation that fails leaves \<open>next_in\<close> in the data of the caller.\<close>

lemma Deflate_caller:
  "Deflate Z flush b = ret (s, b') \<Longrightarrow> (\<exists>data. zo_next_in b = InCaller data) \<Longrightarrow> \<exists>data. zo_next_in b' = InCaller data"
  by (auto simp: Deflate_def with_stream_def Let_def bnd_eq_ret split: option.splits prod.splits if_splits)

lemma Flush_caller:
  "FlushOutputBufferToFile W b = ret (s, b') \<Longrightarrow> zo_next_in b' = zo_next_in b"
  by (auto simp: FlushOutputBufferToFile_def with_stream_def Let_def bnd_eq_ret split: option.splits prod.splits if_splits)

lemma deflate_loop_caller:
  assumes "deflate_loop Z W early flush b = Some r"
  shows "(\<exists>data. zo_next_in b = InCaller data) \<longrightarrow> (\<forall>s b'. r = Inr (s, b') \<longrightarrow> (\<exists>data. zo_next_in b' = InCaller data))"
proof -
  let ?P = "\<lambda>Z W early flush b r. (\<exists>data. zo_next_in b = InCaller data) \<longrightarrow>
    (\<forall>s b'. r = Inr (s, b') \<longrightarrow> (\<exists>data. zo_next_in b' = InCaller data))"
  show "?P Z W early flush b r"
  proof (rule deflate_loop.raw_induct [where P = ?P, OF _ assms], intro impI allI)
    fix loop and Z :: "'a deflate_lib" and W :: "'b writable" and early flush b r s b'
    assume IH: "\<And>Z W early flush b r. loop Z W early flush b = Some r \<Longrightarrow> ?P Z W early flush b r"
      and eq: "bnd (if zo_avail_out b = 0 \<or> (early \<and> IsSyncOrFullFlush flush \<and> zo_avail_out b < 6)
          then FlushOutputBufferToFile W b else ret (OK, b)) (\<lambda>(s1, b1).
        if \<not> ok s1 then ret (s1, b1) else
        bnd (Deflate Z flush b1) (\<lambda>(s2, b2). if \<not> ok s2 then ret (s2, b2)
          else if zo_avail_out b2 = 0 then loop Z W early flush b2 else ret (OK, b2))) = Some r"
      and caller: "\<exists>data. zo_next_in b = InCaller data" and r: "r = Inr (s, b')"
    have r': "Some r = ret (s, b')" by (simp add: r ret_def)
    obtain s1 b1 where
      b1: "(if zo_avail_out b = 0 \<or> (early \<and> IsSyncOrFullFlush flush \<and> zo_avail_out b < 6)
          then FlushOutputBufferToFile W b else ret (OK, b)) = ret (s1, b1)"
        and k: "(if \<not> ok s1 then ret (s1, b1) else
          bnd (Deflate Z flush b1) (\<lambda>(s2, b2). if \<not> ok s2 then ret (s2, b2)
            else if zo_avail_out b2 = 0 then loop Z W early flush b2 else ret (OK, b2))) = ret (s, b')"
      using eq [unfolded r' bnd_eq_ret [where y = "(s, b')"]] by (elim exE conjE) (simp only: split_paired_all prod.case)
    have c1: "\<exists>data. zo_next_in b1 = InCaller data"
      using b1 caller Flush_caller [of W b s1 b1] by (auto split: if_splits)
    show "\<exists>data. zo_next_in b' = InCaller data"
    proof (cases "ok s1")
      case False
      then show ?thesis using k c1 by simp
    next
      case True
      with k obtain s2 b2 where d: "Deflate Z flush b1 = ret (s2, b2)"
        and k2: "(if \<not> ok s2 then ret (s2, b2) else if zo_avail_out b2 = 0 then loop Z W early flush b2 else ret (OK, b2)) = ret (s, b')"
        by (auto simp: bnd_eq_ret)
      from Deflate_caller [OF d c1] k2 IH [of Z W early flush b2 "Inr (s, b')"] show ?thesis
        by (auto simp: ret_def split: if_splits)
    qed
  qed
qed

text \<open>
  When the direct compression of data that is larger than the input buffer fails, because a write to
  the file or the compressor reports an error, \<open>Append\<close> returns that error but leaves the stream pointing into the
  caller's data: the next \<open>Append\<close>, even of no bytes, computes with a dangling pointer.
\<close>

theorem failed_append_dangles:
  assumes "append_direct Z W data b = ret (s, b')" "\<not> ok s"
  shows "\<exists>msg. ZlibOutput_Append Z W [] b' = abort (Undefined msg)"
proof -
  let ?b = "b\<lparr>zo_next_in := InCaller data, zo_avail_in := as_uInt (int (length data))\<rparr>"
  from assms obtain s1 b1 where
    1: "deflate_loop Z W False (flush_mode (zo_options b)) ?b = ret (s1, b1)" "b' = b1"
    by (auto simp: append_direct_def bnd_eq_ret DCHECK_eq_ret split: if_splits)
  with deflate_loop_caller [of Z W False _ ?b "Inr (s1, b1)"] obtain rest where rest: "zo_next_in b' = InCaller rest"
    by (auto simp: ret_def)
  have size: "0 \<le> as_size i" for i by (simp add: as_size_def)
  show ?thesis
  proof (cases "zo_stream b'")
    case None
    then show ?thesis by (auto simp: ZlibOutput_Append_def AvailableInputSpace_def with_stream_def)
  next
    case (Some z)
    then show ?thesis using rest size
      by (auto simp: ZlibOutput_Append_def AddToInputBuffer_def AvailableInputSpace_def Let_def)
  qed
qed

definition full_disk :: "bytes writable" where
  "full_disk = memory_file\<lparr>w_append := (\<lambda>data f. ret (DataLoss ''disk full'', f))\<rparr>"

definition small_buffer :: "(bool, bytes) zlib_output" where
  "small_buffer = snd (ZlibOutput_Init store_lib (new_ZlibOutputBuffer store_lib [] 1 2 ZlibOptions_DEFAULT))"

lemma full_disk_fails:
  "\<exists>b'. append_direct store_lib full_disk [1, 2, 3] small_buffer = ret (DataLoss ''disk full'', b')"
proof -
  let ?b = "small_buffer\<lparr>zo_next_in := InCaller [1, 2, 3], zo_avail_in := as_uInt (int (length ([1, 2, 3] :: bytes)))\<rparr>"
  have "\<exists>b1. deflate_loop store_lib full_disk False Z_NO_FLUSH ?b = deflate_loop store_lib full_disk False Z_NO_FLUSH b1 \<and>
      zo_stream b1 = Some False \<and> zo_avail_out b1 = 0 \<and> zo_output_capacity b1 = 2"
    by (subst deflate_loop.simps)
      (auto simp: small_buffer_def ZlibOutput_Init_def new_ZlibOutputBuffer_def store_lib_def ZlibOptions_DEFAULT_def Let_def
        Deflate_def with_stream_def current_input_def write_at_def as_uInt_id)
  then obtain b1 where b1: "deflate_loop store_lib full_disk False Z_NO_FLUSH ?b = deflate_loop store_lib full_disk False Z_NO_FLUSH b1"
    "zo_stream b1 = Some False" "zo_avail_out b1 = 0" "zo_output_capacity b1 = 2" by blast
  have "\<exists>b'. deflate_loop store_lib full_disk False Z_NO_FLUSH b1 = ret (DataLoss ''disk full'', b')"
    by (subst deflate_loop.simps) (use b1(2-4) in \<open>auto simp: FlushOutputBufferToFile_def with_stream_def as_uInt_id full_disk_def Let_def ok_def DataLoss_def\<close>)
  moreover have "flush_mode (zo_options small_buffer) = Z_NO_FLUSH"
    by (simp add: small_buffer_def ZlibOutput_Init_def new_ZlibOutputBuffer_def store_lib_def ZlibOptions_DEFAULT_def)
  ultimately show ?thesis using b1(1) by (auto simp: append_direct_def ok_def DataLoss_def)
qed

theorem failed_append_dangles_witness:
  "\<exists>b' msg. append_direct store_lib full_disk [1, 2, 3] small_buffer = ret (DataLoss ''disk full'', b') \<and>
     ZlibOutput_Append store_lib full_disk [] b' = abort (Undefined msg)"
proof -
  obtain b' where b': "append_direct store_lib full_disk [1, 2, 3] small_buffer = ret (DataLoss ''disk full'', b')"
    using full_disk_fails by blast
  have "\<not> ok (DataLoss ''disk full'')" by (simp add: ok_def DataLoss_def)
  from failed_append_dangles [OF b' this] b' show ?thesis by blast
qed

end
