(* ===== verification/Zlib_Input.thy ===== *)
theory Zlib_Input
  imports Zlib_Output
begin

text \<open>
  The decompressing stream behind a record reader: \<^verbatim>\<open>tensorflow/core/lib/io/zlib_inputstream.cc\<close>.
  As for the compressor, \<open>inflate\<close> is a parameter that gets the bytes from \<open>next_in\<close> on and the free
  space at \<open>next_out\<close>. The stream below is any input stream. The capacities are \<open>size_t\<close>, but \<open>avail_in\<close> and \<open>avail_out\<close>
  are 32-bit \<open>uInt\<close>s and the number of bytes to read from below is an \<open>int\<close>: the narrowing conversions are written out.
\<close>

record 'z inflate_lib =
  inflateInit2 :: "int \<Rightarrow> int \<times> 'z"
  inflate :: "int \<Rightarrow> bytes \<Rightarrow> nat \<Rightarrow> 'z \<Rightarrow> int \<times> nat \<times> bytes \<times> 'z"
  inflate_msg :: "'z \<Rightarrow> string option"

record ('z, 's) zlib_input =
  zi_input_stream :: 's
  zi_input_capacity :: nat
  zi_output_capacity :: nat
  zi_next_unread :: nat
  zi_input :: bytes
  zi_output :: bytes
  zi_options :: ZlibCompressionOptions
  zi_state :: 'z
  zi_next_in :: nat
  zi_avail_in :: nat
  zi_next_out :: nat
  zi_avail_out :: nat

definition InitZlibBuffer :: "'z inflate_lib \<Rightarrow> ('z, 's) zlib_input \<Rightarrow> ('z, 's) zlib_input res" where
  "InitZlibBuffer I s =
     (let (status, z) = inflateInit2 I (window_bits (zi_options s)) in
      CHECK (status = Z_OK) ''status == Z_OK'' (
      ret (s\<lparr>zi_state := z, zi_next_in := 0, zi_next_out := 0, zi_next_unread := 0, zi_avail_in := 0,
             zi_avail_out := as_uInt (int (zi_output_capacity s))\<rparr>)))"

definition ZlibInputStream ::
  "'z inflate_lib \<Rightarrow> 's \<Rightarrow> nat \<Rightarrow> nat \<Rightarrow> ZlibCompressionOptions \<Rightarrow> ('z, 's) zlib_input res" where
  "ZlibInputStream I below input_buffer_bytes output_buffer_bytes options =
     InitZlibBuffer I \<lparr>
       zi_input_stream = below, zi_input_capacity = input_buffer_bytes, zi_output_capacity = output_buffer_bytes,
       zi_next_unread = 0, zi_input = replicate input_buffer_bytes 0, zi_output = replicate output_buffer_bytes 0,
       zi_options = options, zi_state = snd (inflateInit2 I (window_bits options)),
       zi_next_in = 0, zi_avail_in = 0, zi_next_out = 0, zi_avail_out = 0\<rparr>"

definition ZlibInput_Reset ::
  "'z inflate_lib \<Rightarrow> ('s \<Rightarrow> status \<times> 's) \<Rightarrow> ('z, 's) zlib_input \<Rightarrow> (status \<times> ('z, 's) zlib_input) res" where
  "ZlibInput_Reset I Reset s =
     (let (st, is) = Reset (zi_input_stream s); s1 = s\<lparr>zi_input_stream := is\<rparr> in
      if \<not> ok st then ret (st, s1) else bnd (InitZlibBuffer I s1) (\<lambda>s2. ret (OK, s2)))"

definition ReadFromStream :: "'s read_op \<Rightarrow> ('z, 's) zlib_input \<Rightarrow> (status \<times> ('z, 's) zlib_input) res" where
  "ReadFromStream ReadNBytes s =
     (let moved = (if zi_avail_in s > 0 \<and> zi_next_in s > 0
                   then write_at 0 (take (zi_avail_in s) (drop (zi_next_in s) (zi_input s))) (zi_input s) else zi_input s);
          bytes_to_read = to_int32 (to_int32 (int (zi_input_capacity s)) - int (zi_avail_in s));
          read_location = zi_avail_in s in
      bnd (ReadNBytes bytes_to_read [] (zi_input_stream s)) (\<lambda>(st, data, is).
      if read_location + length data > length moved then abort (Undefined ''memcpy outside of z_stream_input_'')
      else
        let s' = s\<lparr>zi_input_stream := is, zi_input := write_at read_location data moved, zi_next_in := 0,
                   zi_avail_in := as_uInt (int (zi_avail_in s) + int (length data))\<rparr> in
        ret (if \<not> ok st \<and> \<not> IsOutOfRange st then st
             else if data = [] then OutOfRange ''EOF reached''
             else if IsOutOfRange st then OK else st, s')))"

definition ReadBytesFromCache :: "nat \<Rightarrow> bytes \<Rightarrow> ('z, 's) zlib_input \<Rightarrow> nat \<times> bytes \<times> ('z, 's) zlib_input" where
  "ReadBytesFromCache bytes_to_read result s =
     (let unread_bytes = zi_next_out s - zi_next_unread s;
          can_read_bytes = min bytes_to_read unread_bytes in
      if can_read_bytes > 0 then
        (can_read_bytes, result @ take can_read_bytes (drop (zi_next_unread s) (zi_output s)),
         s\<lparr>zi_next_unread := zi_next_unread s + can_read_bytes\<rparr>)
      else (can_read_bytes, result, s))"

definition NumUnreadBytes :: "('z, 's) zlib_input \<Rightarrow> int" where
  "NumUnreadBytes s = as_size (int (zi_output_capacity s) - int (zi_avail_out s) - int (zi_next_unread s))"

definition Inflate :: "'z inflate_lib \<Rightarrow> ('z, 's) zlib_input \<Rightarrow> (status \<times> ('z, 's) zlib_input) res" where
  "Inflate I s =
     (let (error, taken, produced, z') = inflate I (flush_mode (zi_options s))
            (take (zi_avail_in s) (drop (zi_next_in s) (zi_input s))) (zi_avail_out s) (zi_state s);
          s' = s\<lparr>zi_state := z', zi_next_in := zi_next_in s + taken, zi_avail_in := zi_avail_in s - taken,
                 zi_output := write_at (zi_next_out s) produced (zi_output s),
                 zi_next_out := zi_next_out s + length produced, zi_avail_out := zi_avail_out s - length produced\<rparr> in
      if error \<noteq> Z_OK \<and> error \<noteq> Z_STREAM_END then
        bnd (StrCat2 ''inflate() failed with error '' (FastInt32ToBufferLeft (word_of_int error))) (\<lambda>error_string.
        case inflate_msg I z' of
          None \<Rightarrow> ret (DataLoss error_string, s')
        | Some msg \<Rightarrow> bnd (StrAppend2 error_string '': '' msg) (\<lambda>text. ret (DataLoss text, s')))
      else ret (OK, s'))"

text \<open>The conversion of the \<open>int64\<close> count to \<open>size_t\<close> in the call of \<open>ReadBytesFromCache\<close>.\<close>

definition size_of_count :: "int \<Rightarrow> nat" where
  "size_of_count n = (if n < 0 then nat (2 ^ 64 + n) else nat n)"

lemma DCHECK_mono [partial_function_mono]:
  "mono_option K \<Longrightarrow> mono_option (\<lambda>f. DCHECK c msg (K f))"
  unfolding DCHECK_def by (rule CHECK_mono)

partial_function (option) inflate_loop ::
  "'z inflate_lib \<Rightarrow> 's read_op \<Rightarrow> int \<Rightarrow> bytes \<Rightarrow> ('z, 's) zlib_input \<Rightarrow>
   (fatal + status \<times> bytes \<times> ('z, 's) zlib_input) option" where
  "inflate_loop I ReadNBytes bytes_to_read result s =
     (if bytes_to_read > 0 then
        DCHECK (NumUnreadBytes s = 0) ''NumUnreadBytes() == 0'' (
        bnd (if zi_avail_in s = 0 then ReadFromStream ReadNBytes s else ret (OK, s)) (\<lambda>(st, s1).
        if \<not> ok st then ret (st, result, s1)
        else
          bnd (Inflate I (s1\<lparr>zi_next_out := 0, zi_next_unread := 0, zi_avail_out := as_uInt (int (zi_output_capacity s1))\<rparr>)) (\<lambda>(st2, s2).
          if \<not> ok st2 then ret (st2, result, s2)
          else
            let (n, result', s3) = ReadBytesFromCache (size_of_count bytes_to_read) result s2 in
            inflate_loop I ReadNBytes (bytes_to_read - int n) result' s3)))
      else ret (OK, result, s))"

definition ZlibInput_ReadNBytes :: "'z inflate_lib \<Rightarrow> 's read_op \<Rightarrow> ('z, 's) zlib_input read_op" where
  "ZlibInput_ReadNBytes I ReadNBytes bytes_to_read result s =
     (let (n, result', s') = ReadBytesFromCache (size_of_count bytes_to_read) [] s in
      inflate_loop I ReadNBytes (bytes_to_read - int n) result' s')"

definition ZlibInput_Tell :: "('z, 's) zlib_input \<Rightarrow> int" where
  "ZlibInput_Tell s = - 1"

section \<open>The contract of the decompressor\<close>

text \<open>
  For the whole compressed stream \<open>c\<close> of \<open>d\<close>: \<open>dec z i j\<close> holds of a state that has taken \<open>i\<close> bytes of \<open>c\<close> and given
  \<open>j\<close> bytes of \<open>d\<close>. A call that gets some of the next bytes of \<open>c\<close> and some space stops when the input is used
  up or the space is full (both sizes are \<open>uInt\<close>); and the end of the stream (its checksum) is only taken when all output has been given.
\<close>

definition inflate_contract ::
  "'z inflate_lib \<Rightarrow> ZlibCompressionOptions \<Rightarrow> bytes \<Rightarrow> bytes \<Rightarrow> ('z \<Rightarrow> nat \<Rightarrow> nat \<Rightarrow> bool) \<Rightarrow> bool" where
  "inflate_contract I options c d dec \<longleftrightarrow>
     fst (inflateInit2 I (window_bits options)) = Z_OK \<and> dec (snd (inflateInit2 I (window_bits options))) 0 0 \<and>
     (\<forall>z j. dec z (length c) j \<longrightarrow> j = length d) \<and>
     (\<forall>z i j input n error k produced z'.
        dec z i j \<and> input \<noteq> [] \<and> input = take (length input) (drop i c) \<and> length input < 2 ^ 32 \<and> 0 < n \<and> n < 2 ^ 32 \<and>
        inflate I (flush_mode options) input n z = (error, k, produced, z') \<longrightarrow>
        (error = Z_OK \<or> error = Z_STREAM_END) \<and> k \<le> length input \<and> length produced \<le> n \<and>
        produced = take (length produced) (drop j d) \<and> j + length produced \<le> length d \<and> dec z' (i + k) (j + length produced) \<and>
        (k = length input \<or> length produced = n))"

text \<open>The stream has delivered \<open>p\<close> bytes of \<open>d\<close>: the cache holds what follows up to \<open>j\<close>, the decompressor
  has taken \<open>i\<close> bytes of \<open>c\<close>, the input buffer holds what follows there, and the stream below stands behind it.\<close>

definition zlib_pos ::
  "('s \<Rightarrow> bytes \<Rightarrow> nat \<Rightarrow> bool) \<Rightarrow> ZlibCompressionOptions \<Rightarrow> bytes \<Rightarrow> ('z \<Rightarrow> nat \<Rightarrow> nat \<Rightarrow> bool) \<Rightarrow>
   ('z, 's) zlib_input \<Rightarrow> bytes \<Rightarrow> nat \<Rightarrow> nat \<Rightarrow> nat \<Rightarrow> bool" where
  "zlib_pos stands options c dec s d p i j \<longleftrightarrow>
     dec (zi_state s) i j \<and> j \<le> length d \<and> stands (zi_input_stream s) c (i + zi_avail_in s) \<and>
     take (zi_avail_in s) (drop (zi_next_in s) (zi_input s)) = take (zi_avail_in s) (drop i c) \<and>
     p + (zi_next_out s - zi_next_unread s) = j \<and> zi_next_unread s \<le> zi_next_out s \<and>
     take (zi_next_out s - zi_next_unread s) (drop (zi_next_unread s) (zi_output s)) =
       take (zi_next_out s - zi_next_unread s) (drop p d) \<and>
     zi_next_in s + zi_avail_in s \<le> zi_input_capacity s \<and> length (zi_input s) = zi_input_capacity s \<and>
     length (zi_output s) = zi_output_capacity s \<and> zi_next_out s + zi_avail_out s = zi_output_capacity s \<and>
     0 < zi_input_capacity s \<and> zi_input_capacity s < 2 ^ 31 \<and> 0 < zi_output_capacity s \<and> zi_output_capacity s < 2 ^ 32 \<and>
     zi_options s = options"

lemma zlib_pos_capacity:
  "zlib_pos stands options c dec s d p i j \<Longrightarrow> as_uInt (int (zi_output_capacity s)) = zi_output_capacity s"
  by (simp add: zlib_pos_def as_uInt_id)

definition zlib_at ::
  "('s \<Rightarrow> bytes \<Rightarrow> nat \<Rightarrow> bool) \<Rightarrow> ZlibCompressionOptions \<Rightarrow> bytes \<Rightarrow> ('z \<Rightarrow> nat \<Rightarrow> nat \<Rightarrow> bool) \<Rightarrow>
   bytes \<Rightarrow> ('z, 's) zlib_input \<Rightarrow> bytes \<Rightarrow> nat \<Rightarrow> bool" where
  "zlib_at stands options c dec d s d' p \<longleftrightarrow> d' = d \<and> (\<exists>i j. zlib_pos stands options c dec s d p i j)"

lemma cache_read:
  assumes pos: "zlib_pos stands options c dec s d p i j"
    and call: "ReadBytesFromCache n result s = (k, result', s')"
  shows "k = min n (zi_next_out s - zi_next_unread s)" "result' = result @ take k (drop p d)"
    "zlib_pos stands options c dec s' d (p + k) i j" "zi_next_out s' - zi_next_unread s' = zi_next_out s - zi_next_unread s - k"
proof -
  let ?u = "zi_next_out s - zi_next_unread s"
  define m where "m = min n ?u"
  have "ReadBytesFromCache n result s =
      (m, result @ take m (drop (zi_next_unread s) (zi_output s)), s\<lparr>zi_next_unread := zi_next_unread s + m\<rparr>)"
    unfolding ReadBytesFromCache_def Let_def m_def [symmetric] by simp
  with call have "k = min n ?u \<and> s' = s\<lparr>zi_next_unread := zi_next_unread s + k\<rparr> \<and>
      result' = result @ take k (drop (zi_next_unread s) (zi_output s))"
    unfolding m_def [symmetric] by auto
  then have k: "k = min n ?u" and s': "s' = s\<lparr>zi_next_unread := zi_next_unread s + k\<rparr>"
    and r: "result' = result @ take k (drop (zi_next_unread s) (zi_output s))" by blast+
  have cache: "take ?u (drop (zi_next_unread s) (zi_output s)) = take ?u (drop p d)" and le: "zi_next_unread s \<le> zi_next_out s"
    using pos by (simp_all add: zlib_pos_def)
  have ku: "k \<le> ?u" using k by simp
  have "take k (drop (zi_next_unread s) (zi_output s)) = take k (take ?u (drop (zi_next_unread s) (zi_output s)))"
    using ku by (simp add: min_absorb1)
  also have "\<dots> = take k (drop p d)" unfolding cache using ku by (simp add: min_absorb1)
  finally show "result' = result @ take k (drop p d)" by (simp add: r)
  have "take (?u - k) (drop (zi_next_unread s + k) (zi_output s)) = drop k (take ?u (drop (zi_next_unread s) (zi_output s)))"
    using ku by (simp add: drop_take add.commute)
  also have "\<dots> = take (?u - k) (drop (p + k) d)" unfolding cache using ku by (simp add: drop_take add.commute)
  finally have "take (zi_next_out s - (zi_next_unread s + k)) (drop (zi_next_unread s + k) (zi_output s)) =
      take (zi_next_out s - (zi_next_unread s + k)) (drop (p + k) d)" by simp
  then show "zlib_pos stands options c dec s' d (p + k) i j"
    using pos ku le unfolding zlib_pos_def s' by simp
  show "k = min n ?u" by (rule k)
  show "zi_next_out s' - zi_next_unread s' = ?u - k" by (simp add: s')
qed

lemma cache_used_up:
  fixes a b m u :: nat and n :: int
  assumes "m = min (nat n) u" "a - b = u - m" "b \<le> a"
  shows "b = a \<or> n - int m \<le> 0"
proof (cases "nat n \<le> u")
  case True
  then have "m = nat n" using assms(1) by simp
  then show ?thesis by simp
next
  case False
  then have "m = u" using assms(1) by simp
  then show ?thesis using assms(2,3) by simp
qed

lemma zlib_pos_cache: "zlib_pos stands options c dec s d p i j \<Longrightarrow> zi_next_unread s \<le> zi_next_out s"
  by (simp add: zlib_pos_def)

context byte_source
begin

lemma ReadFromStream_pos:
  assumes pos: "zlib_pos stands options c dec s d p i j" and empty: "zi_avail_in s = 0"
  shows "\<exists>st s'. ReadFromStream ReadNBytes s = ret (st, s') \<and> zlib_pos stands options c dec s' d p i j \<and>
    zi_next_out s' = zi_next_out s \<and> zi_next_unread s' = zi_next_unread s \<and>
    (if i < length c then ok st \<and> 0 < zi_avail_in s' else IsOutOfRange st \<and> \<not> ok st)"
proof -
  have at: "stands (zi_input_stream s) c i" and cap: "length (zi_input s) = zi_input_capacity s" "0 < zi_input_capacity s"
      "zi_input_capacity s < 2 ^ 31"
    using pos empty by (simp_all add: zlib_pos_def)
  let ?n = "zi_input_capacity s"
  from read [OF at, of "int ?n" "[]"] obtain st below where
    r: "ReadNBytes (int ?n) [] (zi_input_stream s) = ret (st, take ?n (drop i c), below)"
      "stands below c (min (length c) (i + ?n))" "right_status (i + ?n \<le> length c) st" by auto
  let ?data = "take ?n (drop i c)"
  define s' where "s' = s\<lparr>zi_input_stream := below, zi_input := write_at 0 ?data (zi_input s), zi_next_in := 0,
      zi_avail_in := length ?data\<rparr>"
  have len: "length ?data = min ?n (length c - i)" by simp
  have le: "i \<le> length c" by (rule at_le [OF at])
  have "zlib_pos stands options c dec s' d p i j"
  proof -
    have "i + length ?data = min (length c) (i + ?n)" using le unfolding len by simp
    moreover have "take (length ?data) (drop 0 (write_at 0 ?data (zi_input s))) = take (length ?data) (drop i c)"
      by (simp add: write_at_def)
    moreover have "length (write_at 0 ?data (zi_input s)) = ?n" using cap by (simp add: write_at_def)
    ultimately show ?thesis using pos r(2) unfolding zlib_pos_def s'_def by simp
  qed
  moreover have "ReadFromStream ReadNBytes s =
      ret (if \<not> ok st \<and> \<not> IsOutOfRange st then st else if ?data = [] then OutOfRange ''EOF reached''
           else if IsOutOfRange st then OK else st, s')"
    using r(1) cap empty by (simp add: ReadFromStream_def Let_def s'_def to_int32_id as_uInt_id)
  moreover have "?data = [] \<longleftrightarrow> \<not> i < length c" using cap by auto
  moreover have "ok st \<or> IsOutOfRange st" using r(3) by (auto simp: right_status_def split: if_splits)
  moreover have "0 < zi_avail_in s' \<longleftrightarrow> i < length c" using cap by (auto simp: s'_def)
  ultimately show ?thesis by (auto simp: s'_def)
qed

lemma Inflate_pos:
  assumes C: "inflate_contract I options c d dec" and pos: "zlib_pos stands options c dec s d p i j"
    and s0: "s0 = s\<lparr>zi_next_out := 0, zi_next_unread := 0, zi_avail_out := zi_output_capacity s\<rparr>"
    and input: "0 < zi_avail_in s" and empty: "zi_next_unread s = zi_next_out s"
  shows "\<exists>s' i' j'. Inflate I s0 = ret (OK, s') \<and> zlib_pos stands options c dec s' d p i' j' \<and> i \<le> i' \<and> j \<le> j' \<and> j' \<le> length d \<and>
    zi_next_out s' - zi_next_unread s' = j' - j \<and> p = j \<and> i + j < i' + j' \<and> i' \<le> length c"
proof -
  let ?in = "take (zi_avail_in s) (drop (zi_next_in s) (zi_input s))" and ?n = "zi_output_capacity s"
  have at: "stands (zi_input_stream s) c (i + zi_avail_in s)" and dec: "dec (zi_state s) i j"
    and buf: "?in = take (zi_avail_in s) (drop i c)" and pj: "p = j"
    and caps: "zi_next_in s + zi_avail_in s \<le> zi_input_capacity s" "length (zi_input s) = zi_input_capacity s"
      "length (zi_output s) = ?n" "0 < ?n" "zi_options s = options" "?n < 2 ^ 32" "zi_input_capacity s < 2 ^ 31"
    using pos empty by (simp_all add: zlib_pos_def)
  have len: "length ?in = zi_avail_in s" using caps by simp
  have le: "i + zi_avail_in s \<le> length c" by (rule at_le [OF at])
  obtain error k produced z' where call: "inflate I (flush_mode options) ?in ?n (zi_state s) = (error, k, produced, z')"
    by (metis surj_pair)
  have "?in \<noteq> []" using len input by force
  moreover have "?in = take (length ?in) (drop i c)" unfolding len by (rule buf)
  ultimately have r: "error = Z_OK \<or> error = Z_STREAM_END" "k \<le> zi_avail_in s" "length produced \<le> ?n"
    "produced = take (length produced) (drop j d)" "j + length produced \<le> length d" "dec z' (i + k) (j + length produced)"
    "k = zi_avail_in s \<or> length produced = ?n"
    using C [unfolded inflate_contract_def, THEN conjunct2, THEN conjunct2, THEN conjunct2, rule_format,
        of "zi_state s" i j ?in ?n error k produced z'] dec call caps(1,4,6,7) len by auto
  define s' where "s' = s0\<lparr>zi_state := z', zi_next_in := zi_next_in s + k, zi_avail_in := zi_avail_in s - k,
      zi_output := write_at 0 produced (zi_output s), zi_next_out := length produced, zi_avail_out := ?n - length produced\<rparr>"
  have inf: "Inflate I s0 = ret (OK, s')"
    using call r(1) caps(5) by (auto simp: Inflate_def s0 s'_def)
  have "take (zi_avail_in s - k) (drop (zi_next_in s + k) (zi_input s)) = drop k ?in"
    using r(2) by (simp add: drop_take add.commute)
  also have "\<dots> = take (zi_avail_in s - k) (drop (i + k) c)" unfolding buf using r(2) by (simp add: drop_take add.commute)
  finally have buf': "take (zi_avail_in s - k) (drop (zi_next_in s + k) (zi_input s)) = take (zi_avail_in s - k) (drop (i + k) c)" .
  have out: "take (length produced) (drop 0 (write_at 0 produced (zi_output s))) = take (length produced) (drop j d)"
    using r(4) by (simp add: write_at_def)
  have "zlib_pos stands options c dec s' d p (i + k) (j + length produced)"
    unfolding zlib_pos_def s'_def s0
    using pos at r(2,3,5,6) buf' out pj caps by (simp add: zlib_pos_def write_at_def)
  moreover have "i + j < (i + k) + (j + length produced)"
    using r(7) input caps(4) by (cases "k = zi_avail_in s") simp_all
  ultimately show ?thesis using inf r(2,5) pj le
    by (intro exI [of _ s'] exI [of _ "i + k"] exI [of _ "j + length produced"]) (simp add: s'_def s0)
qed

lemma inflate_loop_pos:
  assumes C: "inflate_contract I options c d dec"
  shows "zlib_pos stands options c dec s d p i j \<Longrightarrow> zi_next_unread s = zi_next_out s \<or> n \<le> 0 \<Longrightarrow>
    \<exists>st s'. inflate_loop I ReadNBytes n result s = ret (st, result @ take (nat n) (drop p d), s') \<and>
      zlib_at stands options c dec d s' d (min (length d) (p + nat n)) \<and> right_status (p + nat n \<le> length d) st"
proof (induction "(length c - i) + (length d - j)" arbitrary: s p i j n result rule: less_induct)
  case less
  have pd: "p \<le> length d" using less.prems(1) by (auto simp: zlib_pos_def)
  show ?case
  proof (cases "n > 0")
    case False
    then have "inflate_loop I ReadNBytes n result s = ret (OK, result, s)" by (subst inflate_loop.simps) simp
    with False less.prems(1) pd show ?thesis by (auto simp: zlib_at_def right_status_def min_absorb2)
  next
    case True
    then have empty: "zi_next_unread s = zi_next_out s" using less.prems(2) by simp
    have dcheck: "NumUnreadBytes s = 0" using less.prems(1) empty by (simp add: zlib_pos_def NumUnreadBytes_def as_size_id)
    define fill where "fill = (if zi_avail_in s = 0 then ReadFromStream ReadNBytes s else ret (OK, s))"
    have loop: "inflate_loop I ReadNBytes n result s =
        bnd fill (\<lambda>(st, s1). if \<not> ok st then ret (st, result, s1) else
          bnd (Inflate I (s1\<lparr>zi_next_out := 0, zi_next_unread := 0, zi_avail_out := as_uInt (int (zi_output_capacity s1))\<rparr>)) (\<lambda>(st2, s2).
          if \<not> ok st2 then ret (st2, result, s2)
          else let (m, result', s3) = ReadBytesFromCache (size_of_count n) result s2 in
            inflate_loop I ReadNBytes (n - int m) result' s3))"
      unfolding fill_def by (subst inflate_loop.simps) (simp add: True dcheck)
    have "\<exists>st s1. fill = ret (st, s1) \<and> zlib_pos stands options c dec s1 d p i j \<and> zi_next_unread s1 = zi_next_out s1 \<and>
        (if zi_avail_in s = 0 \<and> \<not> i < length c then IsOutOfRange st \<and> \<not> ok st else ok st \<and> 0 < zi_avail_in s1)"
    proof (cases "zi_avail_in s = 0")
      case True
      from ReadFromStream_pos [OF less.prems(1) True] obtain st s1 where "ReadFromStream ReadNBytes s = ret (st, s1)"
        "zlib_pos stands options c dec s1 d p i j" "zi_next_out s1 = zi_next_out s" "zi_next_unread s1 = zi_next_unread s"
        "if i < length c then ok st \<and> 0 < zi_avail_in s1 else IsOutOfRange st \<and> \<not> ok st" by blast
      then show ?thesis using True empty by (intro exI [of _ st] exI [of _ s1]) (simp add: fill_def split: if_splits)
    qed (use less.prems(1) empty in \<open>auto simp: fill_def\<close>)
    then obtain st s1 where s1: "fill = ret (st, s1)" "zlib_pos stands options c dec s1 d p i j" "zi_next_unread s1 = zi_next_out s1"
      "if zi_avail_in s = 0 \<and> \<not> i < length c then IsOutOfRange st \<and> \<not> ok st else ok st \<and> 0 < zi_avail_in s1" by blast
    show ?thesis
    proof (cases "zi_avail_in s = 0 \<and> \<not> i < length c")
      case True
      have "i = length c" using True less.prems(1) at_le [of "zi_input_stream s" c "i + zi_avail_in s"] by (simp add: zlib_pos_def)
      then have "dec (zi_state s) (length c) j" using less.prems(1) by (simp add: zlib_pos_def)
      then have "j = length d" using C [unfolded inflate_contract_def] by blast
      then have p: "p = length d" using less.prems(1) empty by (simp add: zlib_pos_def)
      have "inflate_loop I ReadNBytes n result s = ret (st, result, s1)"
        unfolding loop s1(1) bnd_ret prod.case using s1(4) True by simp
      then show ?thesis using p s1(2,4) True \<open>n > 0\<close> by (auto simp: zlib_at_def right_status_def)
    next
      case False
      then have st: "ok st" "0 < zi_avail_in s1" using s1(4) by auto
      from Inflate_pos [OF C s1(2) refl st(2) s1(3)] obtain s2 i' j' where
        s2: "Inflate I (s1\<lparr>zi_next_out := 0, zi_next_unread := 0, zi_avail_out := zi_output_capacity s1\<rparr>) = ret (OK, s2)"
          "zlib_pos stands options c dec s2 d p i' j'" and ij: "i \<le> i'" "j \<le> j'" "j' \<le> length d"
          "zi_next_out s2 - zi_next_unread s2 = j' - j" "p = j" "i + j < i' + j'" "i' \<le> length c"
        by (elim exE conjE) (rule that)
      obtain m result' s3 where rb: "ReadBytesFromCache (size_of_count n) result s2 = (m, result', s3)" by (metis surj_pair)
      note c3 = cache_read [OF s2(2) rb]
      have m: "m = min (nat n) (j' - j)" using c3(1) ij(4) \<open>n > 0\<close> by (simp add: size_of_count_def)
      have eq: "inflate_loop I ReadNBytes n result s = inflate_loop I ReadNBytes (n - int m) result' s3"
        unfolding loop s1(1) bnd_ret prod.case zlib_pos_capacity [OF s1(2)] using st(1) s2(1) rb by simp
      have next1: "zi_next_unread s3 = zi_next_out s3 \<or> n - int m \<le> 0"
        by (rule cache_used_up [OF m c3(4) [unfolded ij(4)] zlib_pos_cache [OF c3(3)]])
      have dec: "(length c - i') + (length d - j') < (length c - i) + (length d - j)" using ij by linarith
      from less.hyps [OF dec c3(3) next1, of result'] obtain st' s' where
        res: "inflate_loop I ReadNBytes (n - int m) result' s3 = ret (st', result' @ take (nat (n - int m)) (drop (p + m) d), s')"
          "zlib_at stands options c dec d s' d (min (length d) (p + m + nat (n - int m)))"
          "right_status (p + m + nat (n - int m) \<le> length d) st'" by blast
      have mn: "m \<le> nat n" using m by simp
      then have sum: "p + m + nat (n - int m) = p + nat n" "nat (n - int m) = nat n - m" using \<open>n > 0\<close> by linarith+
      have "take m (drop p d) @ take (nat n - m) (drop (p + m) d) = take (nat n) (drop p d)"
        using mn by (metis (no_types, opaque_lifting) add.commute drop_drop le_add_diff_inverse take_add)
      then show ?thesis using res(1) [unfolded sum(2)] res(2,3) [unfolded sum(1)] c3(2) eq by auto
    qed
  qed
qed

lemma zlib_source:
  assumes C: "inflate_contract I options c d dec"
  shows "byte_source (ZlibInput_ReadNBytes I ReadNBytes) (zlib_at stands options c dec d)"
proof
  fix s d' p assume "zlib_at stands options c dec d s d' p"
  then show "p \<le> length d'" by (auto simp: zlib_at_def zlib_pos_def)
next
  fix s d' p and n :: int and result
  assume "zlib_at stands options c dec d s d' p" and n: "0 \<le> n"
  then obtain i j where d': "d' = d" and pos: "zlib_pos stands options c dec s d p i j" by (auto simp: zlib_at_def)
  obtain m result' s1 where rb: "ReadBytesFromCache (size_of_count n) [] s = (m, result', s1)" by (metis surj_pair)
  note c1 = cache_read [OF pos rb]
  have m: "m = min (nat n) (zi_next_out s - zi_next_unread s)" using c1(1) n by (simp add: size_of_count_def)
  have next1: "zi_next_unread s1 = zi_next_out s1 \<or> n - int m \<le> 0"
    by (rule cache_used_up [OF m c1(4) zlib_pos_cache [OF c1(3)]])
  from inflate_loop_pos [OF C c1(3) next1, of result'] obtain st s' where
    res: "inflate_loop I ReadNBytes (n - int m) result' s1 = ret (st, result' @ take (nat (n - int m)) (drop (p + m) d), s')"
      "zlib_at stands options c dec d s' d (min (length d) (p + m + nat (n - int m)))"
      "right_status (p + m + nat (n - int m) \<le> length d) st" by blast
  have mn: "m \<le> nat n" using m by simp
  then have sum: "p + m + nat (n - int m) = p + nat n" "nat (n - int m) = nat n - m" using n by linarith+
  have "take m (drop p d) @ take (nat n - m) (drop (p + m) d) = take (nat n) (drop p d)"
    using mn by (metis (no_types, opaque_lifting) add.commute drop_drop le_add_diff_inverse take_add)
  then show "\<exists>st s'. ZlibInput_ReadNBytes I ReadNBytes n result s = ret (st, take (nat n) (drop p d'), s') \<and>
      zlib_at stands options c dec d s' d' (min (length d') (p + nat n)) \<and> right_status (p + nat n \<le> length d') st"
    using res(1) [unfolded sum(2)] res(2,3) [unfolded sum(1)] c1(2) rb unfolding d' by (auto simp: ZlibInput_ReadNBytes_def)
qed

end

lemma new_zlib_at:
  assumes "inflate_contract I options c d dec" "stands below c 0" "0 < in_cap" "in_cap < 2 ^ 31" "0 < out_cap" "out_cap < 2 ^ 32"
  shows "\<exists>s. ZlibInputStream I below in_cap out_cap options = ret s \<and> zlib_at stands options c dec d s d 0"
proof -
  obtain z where z: "inflateInit2 I (window_bits options) = (Z_OK, z)" "dec z 0 0"
    using assms(1) by (cases "inflateInit2 I (window_bits options)") (auto simp: inflate_contract_def)
  then have "ZlibInputStream I below in_cap out_cap options = ret \<lparr>
       zi_input_stream = below, zi_input_capacity = in_cap, zi_output_capacity = out_cap,
       zi_next_unread = 0, zi_input = replicate in_cap 0, zi_output = replicate out_cap 0,
       zi_options = options, zi_state = z, zi_next_in = 0, zi_avail_in = 0, zi_next_out = 0, zi_avail_out = out_cap\<rparr>"
    using assms(6) by (simp add: ZlibInputStream_def InitZlibBuffer_def as_uInt_id)
  then show ?thesis using assms z by (auto simp: zlib_at_def zlib_pos_def)
qed

section \<open>Over files\<close>

fun file_input_at :: "file_input \<Rightarrow> bytes \<Rightarrow> nat \<Rightarrow> bool" where
  "file_input_at (BufferedIn b) d p = file_stream_at b d p"
| "file_input_at (PlainIn r) d p = random_access_at r d p"

interpretation file_in: byte_source Input_ReadNBytes file_input_at
proof
  fix s d p assume "file_input_at s d p"
  then show "p \<le> length d" by (cases s) (auto intro: random_access_source.at_le buffered_file.at_le)
next
  fix s d p and n :: int and result
  assume at: "file_input_at s d p" and n: "0 \<le> n"
  show "\<exists>st s'. Input_ReadNBytes n result s = ret (st, take (nat n) (drop p d), s') \<and>
      file_input_at s' d (min (length d) (p + nat n)) \<and> right_status (p + nat n \<le> length d) st"
  proof (cases s)
    case (BufferedIn b)
    with buffered_file.read [of b d p n result] at n show ?thesis by fastforce
  next
    case (PlainIn r)
    with random_access_source.read [of r d p n result] at n show ?thesis by fastforce
  qed
qed

text \<open>A sequence of reads.\<close>

fun read_pieces :: "'s read_op \<Rightarrow> nat list \<Rightarrow> 's \<Rightarrow> (bool \<times> bytes) list res" where
  "read_pieces R [] s = ret []"
| "read_pieces R (n # ns) s =
     bnd (R (int n) [] s) (\<lambda>(st, data, s'). bnd (read_pieces R ns s') (\<lambda>rest. ret ((ok st, data) # rest)))"

fun pieces :: "nat list \<Rightarrow> bytes \<Rightarrow> (bool \<times> bytes) list" where
  "pieces [] d = []"
| "pieces (n # ns) d = (n \<le> length d, take n d) # pieces ns (drop n d)"

context byte_source
begin

lemma read_pieces_at: "stands s d p \<Longrightarrow> read_pieces ReadNBytes ns s = ret (pieces ns (drop p d))"
proof (induction ns arbitrary: s p)
  case (Cons n ns)
  from read [OF Cons.prems, of "int n" "[]"] obtain st s' where
    r: "ReadNBytes (int n) [] s = ret (st, take n (drop p d), s')" "stands s' d (min (length d) (p + n))"
      "right_status (p + n \<le> length d) st" by auto
  have "p \<le> length d" by (rule at_le [OF Cons.prems])
  then have "ok st \<longleftrightarrow> n \<le> length d - p"
    using r(3) by (cases "p + n \<le> length d") (auto simp: right_status_def ok_OK)
  moreover have "drop (min (length d) (p + n)) d = drop n (drop p d)" by (cases "length d \<le> p + n") (simp_all add: add.commute)
  ultimately show ?case using r(1) Cons.IH [OF r(2)] by simp
qed simp

end

section \<open>Properties\<close>


definition stored_lib :: "unit inflate_lib" where
  "stored_lib = \<lparr>inflateInit2 = (\<lambda>_. (Z_OK, ())),
     inflate = (\<lambda>flush input n z. let k = min n (length input) in (Z_OK, k, take k input, ())),
     inflate_msg = (\<lambda>_. None)\<rparr>"

lemma stored_step:
  assumes "input = take (length input) (drop i d)" "i \<le> length d" "k = min n (length input)"
  shows "take k input = take k (drop i d)" "i + k \<le> length d" "length (take k input) = k"
proof -
  have len: "length input \<le> length d - i" by (subst assms(1)) simp
  have k: "k \<le> length input" using assms(3) by simp
  have "take k input = take k (take (length input) (drop i d))" using assms(1) by simp
  also have "\<dots> = take k (drop i d)" using k by (simp add: min_absorb1)
  finally show "take k input = take k (drop i d)" .
  show "i + k \<le> length d" using len k assms(2) by linarith
  show "length (take k input) = k" using k by simp
qed

lemma stored_contract: "inflate_contract stored_lib options d d (\<lambda>_ i j. i = j \<and> i \<le> length d)"
  unfolding inflate_contract_def
proof (intro conjI allI impI)
  fix z :: unit and i j input n error k produced z'
  assume a: "(i = j \<and> i \<le> length d) \<and> input \<noteq> [] \<and> input = take (length input) (drop i d) \<and> length input < 2 ^ 32 \<and> 0 < n \<and> n < 2 ^ 32 \<and>
    inflate stored_lib (flush_mode options) input n z = (error, k, produced, z')"
  then have k: "k = min n (length input)" and p: "produced = take k input" and e: "error = Z_OK" "i = j" "i \<le> length d"
    and i: "input = take (length input) (drop i d)"
    by (auto simp: stored_lib_def Let_def)
  note s = stored_step [OF i e(3) k]
  show "error = Z_OK \<or> error = Z_STREAM_END" "k \<le> length input" "length produced \<le> n"
    "produced = take (length produced) (drop j d)" "j + length produced \<le> length d" "i + k = j + length produced"
    "i + k \<le> length d" "k = length input \<or> length produced = n"
    using k p e s by (simp_all add: min_def split: if_splits)
qed (simp_all add: stored_lib_def)


text \<open>A decompressor at the end of its stream that is given more input.\<close>

definition at_stream_end :: "'z inflate_lib \<Rightarrow> ('z, 's) zlib_input \<Rightarrow> bool" where
  "at_stream_end I s \<longleftrightarrow> 0 < zi_avail_in s \<and>
     inflate I (flush_mode (zi_options s)) (take (zi_avail_in s) (drop (zi_next_in s) (zi_input s)))
       (as_uInt (int (zi_output_capacity s))) (zi_state s) = (Z_STREAM_END, 0, [], zi_state s)"

lemma write_at_Nil [simp]: "write_at p [] buf = buf"
  by (simp add: write_at_def)

lemma inflate_loop_turns:
  assumes "at_stream_end I s" "0 < n" "NumUnreadBytes s = 0" "zi_output_capacity s < 2 ^ 32"
    and s0: "s0 = s\<lparr>zi_next_out := 0, zi_next_unread := 0, zi_avail_out := as_uInt (int (zi_output_capacity s))\<rparr>"
  shows "inflate_loop I R n result s = inflate_loop I R n result s0" "at_stream_end I s0" "NumUnreadBytes s0 = 0"
proof -
  have "Inflate I s0 = ret (OK, s0)"
    using assms(1) by (simp add: Inflate_def at_stream_end_def s0)
  moreover have "ReadBytesFromCache (size_of_count n) result s0 = (0, result, s0)"
    by (simp add: ReadBytesFromCache_def s0)
  ultimately show "inflate_loop I R n result s = inflate_loop I R n result s0"
    using assms(1-3) by (subst inflate_loop.simps) (simp add: at_stream_end_def s0)
  show "at_stream_end I s0" using assms(1) by (simp add: at_stream_end_def s0)
  show "NumUnreadBytes s0 = 0" using assms(4) by (simp add: NumUnreadBytes_def s0 as_uInt_id as_size_id)
qed

lemma inflate_loop_stuck:
  assumes "at_stream_end I s" "0 < n" "NumUnreadBytes s = 0" "zi_output_capacity s < 2 ^ 32"
  shows "inflate_loop I R n result s = None"
proof -
  let ?P = "\<lambda>I R n result s r. \<not> (at_stream_end I s \<and> 0 < n \<and> NumUnreadBytes s = 0 \<and> zi_output_capacity s < 2 ^ 32)"
  have "\<not> inflate_loop I R n result s = Some r" for r
  proof
    assume r: "inflate_loop I R n result s = Some r"
    have "?P I R n result s r"
    proof (rule inflate_loop.raw_induct [where P = ?P, OF _ r], rule notI, elim conjE)
      fix loop and I :: "'a inflate_lib" and R :: "'b read_op" and n result s r
      assume IH: "\<And>I R n result s r. loop I R n result s = Some r \<Longrightarrow> ?P I R n result s r"
        and eq: "(if n > 0 then
          DCHECK (NumUnreadBytes s = 0) ''NumUnreadBytes() == 0'' (
          bnd (if zi_avail_in s = 0 then ReadFromStream R s else ret (OK, s)) (\<lambda>(st, s1).
          if \<not> ok st then ret (st, result, s1)
          else
            bnd (Inflate I (s1\<lparr>zi_next_out := 0, zi_next_unread := 0, zi_avail_out := as_uInt (int (zi_output_capacity s1))\<rparr>)) (\<lambda>(st2, s2).
            if \<not> ok st2 then ret (st2, result, s2)
            else
              let (n', result', s3) = ReadBytesFromCache (size_of_count n) result s2 in
              loop I R (n - int n') result' s3)))
          else ret (OK, result, s)) = Some r"
        and live: "at_stream_end I s" "0 < n" "NumUnreadBytes s = 0" "zi_output_capacity s < 2 ^ 32"
      let ?s0 = "s\<lparr>zi_next_out := 0, zi_next_unread := 0, zi_avail_out := as_uInt (int (zi_output_capacity s))\<rparr>"
      note turn = inflate_loop_turns [OF live refl]
      have "Inflate I ?s0 = ret (OK, ?s0)" using live(1) by (simp add: Inflate_def at_stream_end_def)
      moreover have "ReadBytesFromCache (size_of_count n) result ?s0 = (0, result, ?s0)"
        by (simp add: ReadBytesFromCache_def)
      ultimately have "loop I R n result ?s0 = Some r" using eq live by (simp add: at_stream_end_def)
      from IH [OF this] turn(2,3) live(2,4) show False by simp
    qed
    then show False using assms by simp
  qed
  then show ?thesis by (metis not_Some_eq)
qed

text \<open>
  C40. Bytes behind the end of a compressed stream, with an output buffer of less than \<open>2 ^ 32\<close> bytes: once the decompressor has reached the end and only answers
  \<open>Z_STREAM_END\<close>, while input is left in the buffer, \<open>ReadNBytes\<close> never returns: it neither takes the input nor looks at
  the result code.
\<close>

theorem trailing_bytes_hang:
  assumes "at_stream_end I s" "0 < n" "zi_next_unread s = zi_next_out s" "zi_next_out s + zi_avail_out s = zi_output_capacity s"
    "zi_output_capacity s < 2 ^ 32"
  shows "ZlibInput_ReadNBytes I R n result s = None"
proof -
  have "ReadBytesFromCache (size_of_count n) [] s = (0, [], s)" using assms(3) by (simp add: ReadBytesFromCache_def)
  moreover have "NumUnreadBytes s = 0" using assms(3,4) by (simp add: NumUnreadBytes_def as_size_id)
  ultimately show ?thesis using inflate_loop_stuck [OF assms(1,2) _ assms(5)] by (simp add: ZlibInput_ReadNBytes_def)
qed

theorem trailing_bytes_hang_witness:
  "ZlibInput_ReadNBytes \<lparr>inflateInit2 = (\<lambda>_. (Z_OK, ())), inflate = (\<lambda>_ _ _ z. (Z_STREAM_END, 0, [], z)), inflate_msg = (\<lambda>_. None)\<rparr>
     RandomAccess_ReadNBytes 1 [] \<lparr>zi_input_stream = RandomAccessInputStream (file_of []), zi_input_capacity = 2,
       zi_output_capacity = 2, zi_next_unread = 0, zi_input = [7, 8], zi_output = [0, 0], zi_options = ZlibOptions_DEFAULT,
       zi_state = (), zi_next_in = 0, zi_avail_in = 1, zi_next_out = 0, zi_avail_out = 2\<rparr> = None"
  by (rule trailing_bytes_hang) (simp_all add: at_stream_end_def)

section \<open>Compressed record files\<close>

text \<open>The stream that the record reader makes of the options and the file below.\<close>

definition made :: "'a res \<Rightarrow> 'a" where
  "made r = (case r of Some (Inr x) \<Rightarrow> x)"

definition reader_stream :: "'z inflate_lib \<Rightarrow> zlib_options \<Rightarrow> file_input \<Rightarrow> ('z, file_input) zlib_input" where
  "reader_stream I options below =
     (let o' = zlib_options_of options in made (ZlibInputStream I below (input_buffer_size o') (output_buffer_size o') o'))"

lemma made_ret [simp]: "made (ret x) = x"
  by (simp add: made_def ret_def)

lemma zlib_reader_at:
  assumes "inflate_contract I (zlib_options_of (opt_zlib options)) c d dec" "good_file c file"
    "opt_compression options = ZLIB_COMPRESSION"
  shows "reader_at (zlib_at file_input_at (zlib_options_of (opt_zlib options)) c dec d)
    (seq_underlying (SequentialRecordReader (reader_stream I) file options)) d 0"
proof -
  let ?o = "zlib_options_of (opt_zlib options)"
  let ?below = "if opt_buffer_size options > 0
      then BufferedIn (BufferedInputStream (RandomAccessInputStream file) (nat (opt_buffer_size options)))
      else PlainIn (RandomAccessInputStream file)"
  have "file_input_at ?below c 0"
    using assms(2) new_stream_at [OF assms(2), of "nat (opt_buffer_size options)"]
    by (simp add: random_access_at_def RandomAccessInputStream_def)
  moreover have "0 < input_buffer_size ?o" "input_buffer_size ?o < 2 ^ 31" "0 < output_buffer_size ?o" "output_buffer_size ?o < 2 ^ 32"
    by (cases "opt_zlib options"; simp add: ZlibOptions_DEFAULT_def ZlibOptions_GZIP_def)+
  ultimately obtain s where "ZlibInputStream I ?below (input_buffer_size ?o) (output_buffer_size ?o) ?o = ret s"
    "zlib_at file_input_at ?o c dec d s d 0"
    using new_zlib_at [where stands = file_input_at, OF assms(1)] by blast
  then show ?thesis
    using assms(3) by (simp add: SequentialRecordReader_def RecordReader_def reader_at_def reader_stream_def Let_def)
qed

lemma zlib_reads_back:
  assumes "inflate_contract I ZlibOptions_DEFAULT c (concat (map record_bytes rs)) dec" "good_file c file" "trusted M"
    "length (concat (map record_bytes rs)) < 2 ^ 63" "length (concat (map record_bytes rs)) + 12 \<le> max_size"
  shows "\<exists>s. read_all M max_size (ZlibInput_ReadNBytes I Input_ReadNBytes) (Suc (length rs))
    (SequentialRecordReader (reader_stream I) file (CreateRecordReaderOptions ''ZLIB'')) = ret (rs, s) \<and> IsOutOfRange s"
proof -
  let ?o = "CreateRecordReaderOptions ''ZLIB''"
  have o: "opt_zlib ?o = ZLIB_DEFAULT" "opt_compression ?o = ZLIB_COMPRESSION"
    by (simp_all add: CreateRecordReaderOptions_def default_options_def)
  have I: "inflate_contract I (zlib_options_of (opt_zlib ?o)) c (concat (map record_bytes rs)) dec" using assms(1) o(1) by simp
  show ?thesis
    by (rule byte_source.read_all_at [OF file_in.zlib_source [OF I] zlib_reader_at [OF I assms(2) o(2)]])
      (use assms(3-5) in \<open>simp_all add: SequentialRecordReader_def\<close>)
qed

text \<open>
  C9. Records through compressed files, from end to end: with a compressor and a decompressor that keep
  their contracts, a record writer with the options \<open>"ZLIB"\<close> writes any records of less than \<open>2 ^ 32\<close> bytes each and closes without error, and a
  record reader with the options \<open>"ZLIB"\<close> over the bytes of the file returns the records in order and then reports the end.
\<close>

theorem compressed_records_roundtrip:
  assumes "trusted M" "trusted M'" "deflate_contract Z ZlibOptions_DEFAULT enc fin left whole_stream" "good_append W holds" "holds f []"
    "\<forall>c. whole_stream c (concat (map record_bytes rs)) \<longrightarrow>
       (\<exists>dec. inflate_contract I ZlibOptions_DEFAULT c (concat (map record_bytes rs)) dec)"
    "length (concat (map record_bytes rs)) < 2 ^ 63" "length (concat (map record_bytes rs)) + 12 \<le> max_size"
    "list_all (\<lambda>data. length data < 2 ^ 32) rs"
  shows "\<exists>w b w' b' c.
    bnd (RecordWriter (open_zlib Z) (PlainFile f) (CreateRecordWriterOptions ''ZLIB'')) (write_all M (out_writable Z W) rs) = ret w \<and>
    rw_dest w = Some (ZlibFile b) \<and> Writer_Close (out_writable Z W) w = ret (OK, w') \<and>
    out_close Z W (ZlibFile b) = ret (OK, ZlibFile b') \<and> holds (zo_file b') c \<and>
    whole_stream c (concat (map record_bytes rs)) \<and>
    (\<forall>file. good_file c file \<longrightarrow> (\<exists>s. read_all M' max_size (ZlibInput_ReadNBytes I Input_ReadNBytes) (Suc (length rs))
       (SequentialRecordReader (reader_stream I) file (CreateRecordReaderOptions ''ZLIB'')) = ret (rs, s) \<and> IsOutOfRange s))"
proof -
  let ?d = "concat (map record_bytes rs)" and ?W = "out_writable Z W"
  let ?wo = "CreateRecordWriterOptions ''ZLIB''" and ?ro = "CreateRecordReaderOptions ''ZLIB''"
  have options: "opt_zlib ?wo = ZLIB_DEFAULT" "IsZlibCompressed ?wo"
    by (simp_all add: CreateRecordWriterOptions_def IsZlibCompressed_def default_options_def)
  have D: "deflate_contract Z (zlib_options_of ZLIB_DEFAULT) enc fin left whole_stream" using assms(3) by simp
  from open_zlib_holds [where holds = holds and f = f, OF D assms(5)] obtain f0 where
    f0: "open_zlib Z ZLIB_DEFAULT (PlainFile f) = (OK, f0)" "compressed_holds enc holds f0 []" by blast
  let ?w0 = "\<lparr>rw_dest = Some f0, rw_options = ?wo\<rparr>"
  have w0: "RecordWriter (open_zlib Z) (PlainFile f) ?wo = ret ?w0" using f0(1) options by (simp add: RecordWriter_def del: open_zlib.simps)
  from write_all_appends [where holds = "compressed_holds enc holds", OF assms(1) disjI2, OF conjI,
      OF compressed_small_append [OF assms(3,4)] assms(9) _ f0(2), of ?w0] obtain f1 where
    f1: "write_all M ?W rs ?w0 = ret (?w0\<lparr>rw_dest := Some f1\<rparr>)" "compressed_holds enc holds f1 ?d" by auto
  then obtain b where b: "f1 = ZlibFile b" "zlib_holds enc holds b ?d" by (auto simp: compressed_holds_def)
  from ZlibOutput_Close_holds [OF assms(3,4) b(2)] obtain b' c where
    close: "ZlibOutput_Close Z W b = ret (OK, b')" "holds (zo_file b') c" "whole_stream c ?d" by blast
  from assms(6) close(3) obtain dec where I: "inflate_contract I ZlibOptions_DEFAULT c ?d dec" by blast
  have "\<exists>s. read_all M' max_size (ZlibInput_ReadNBytes I Input_ReadNBytes) (Suc (length rs))
       (SequentialRecordReader (reader_stream I) fl ?ro) = ret (rs, s) \<and> IsOutOfRange s" if "good_file c fl" for fl
    by (rule zlib_reads_back [OF I that assms(2,7,8)])
  moreover have "Writer_Close ?W (?w0\<lparr>rw_dest := Some f1\<rparr>) = ret (OK, ?w0\<lparr>rw_dest := None\<rparr>)"
    using close(1) b(1) options by (simp add: Writer_Close_def out_writable_def)
  ultimately show ?thesis using w0 f1(1) b(1) close by auto
qed

theorem compressed_records_roundtrip_witness:
  "\<exists>c s. c = concat (map record_bytes [[1, 2], []]) \<and>
     read_all (portable_machine False) 100 (ZlibInput_ReadNBytes stored_lib Input_ReadNBytes) 3
     (SequentialRecordReader (reader_stream stored_lib) (file_of c) (CreateRecordReaderOptions ''ZLIB'')) = ret ([[1, 2], []], s) \<and>
     IsOutOfRange s"
proof -
  let ?d = "concat (map record_bytes [[1, 2], []])"
  have "\<forall>c. c = ?d \<longrightarrow> (\<exists>dec. inflate_contract stored_lib ZlibOptions_DEFAULT c ?d dec)"
    using stored_contract by blast
  moreover have "length ?d < 2 ^ 63" "length ?d + 12 \<le> 100" by simp_all
  moreover have "list_all (\<lambda>data :: bytes. length data < 2 ^ 32) [[1, 2], []]" by simp
  moreover have "good_file ?d (file_of ?d)" by (rule good_file_of) simp
  moreover have "Suc (length [[1, 2], []]) = 3" by simp
  ultimately show ?thesis
    using compressed_records_roundtrip [OF reference_file(1) [of True] reference_file(1) [of False] store_contract reference_file(2) refl,
      where rs = "[[1, 2], []]" and max_size = 100 and I = stored_lib] by metis
qed

end
