(* ===== verification/Float_Text.thy ===== *)
theory Float_Text
  imports Numbers Float32 "HOL-Library.Sublist"
begin

text \<open>
  The rest of \<^verbatim>\<open>tensorflow/core/lib/strings/numbers.cc\<close>: text of floating-point numbers and the human-readable forms.

  The C library is the argument \<open>L\<close>: what \<open>printf\<close> writes for its floating-point directives, what a stream in the classic
  locale extracts from a text (the value, whether it failed, and what it did not read), and \<open>strtol\<close> and \<open>sscanf\<close> for
  hexadecimal numbers. A character pointer is the text it points to.
\<close>

record c_library =
  cl_g :: "nat \<Rightarrow> fp \<Rightarrow> string"
  cl_G :: "nat \<Rightarrow> fp \<Rightarrow> string"
  cl_f :: "nat \<Rightarrow> fp \<Rightarrow> string"
  cl_extract :: "fp_format \<Rightarrow> string \<Rightarrow> fp \<times> bool \<times> string"
  cl_strtol16 :: "string \<Rightarrow> int \<times> string"
  cl_scan_hex :: "string \<Rightarrow> (u64 \<times> string) option"

section \<open>Reading\<close>

definition special_nums :: "(string \<times> fp) list" where
  "special_nums = [(''inf'', PInf), (''+inf'', PInf), (''-inf'', NInf), (''infinity'', PInf), (''+infinity'', PInf),
     (''-infinity'', NInf), (''nan'', NaN), (''+nan'', NaN), (''-nan'', NaN)]"

definition lower_char :: "char \<Rightarrow> char" where
  "lower_char c = (if 65 \<le> ord_of c \<and> ord_of c \<le> 90 then char_of (ord_of c + 32) else c)"

definition fp_max :: "fp_format \<Rightarrow> fp" where
  "fp_max fmt = Fin ((2 - pow2 (1 - int (prec fmt))) * pow2 (emax fmt))"

text \<open>
  The argument \<open>endptr\<close> is whether the pointer is not null; the name of a special number writes through it without asking. A text without
  anything but spaces fails before the stream writes to \<open>result\<close>, which is then read uninitialised.
\<close>

definition locale_independent_strtonum :: "c_library \<Rightarrow> fp_format \<Rightarrow> string \<Rightarrow> bool \<Rightarrow> (fp \<times> string) res" where
  "locale_independent_strtonum L fmt str endptr =
     (let start = dropWhile isspace str;
          token = takeWhile (\<lambda>c. \<not> isspace c) start;
          special_num_str = map lower_char token in
      case map_of special_nums special_num_str of
        Some v \<Rightarrow> if endptr then ret (v, drop (length token) start) else abort (Undefined ''null pointer'')
      | None \<Rightarrow>
          if prefix ''0x'' special_num_str \<or> prefix ''-0x'' special_num_str then
            (let (n, rest) = cl_strtol16 L str in ret (fp_of_int fmt n, rest))
          else if start = [] then abort (Undefined ''uninitialised result'')
          else
            let (result, failed, rest) = cl_extract L fmt str in
            if failed then
              if fp_eq result (fp_max fmt) then ret (PInf, rest)
              else if fp_eq result (fp_neg (fp_max fmt)) then ret (NInf, rest)
              else ret (result, str)
            else ret (result, rest))"

definition safe_strtonum :: "c_library \<Rightarrow> fp_format \<Rightarrow> string \<Rightarrow> (bool \<times> fp) res" where
  "safe_strtonum L fmt str =
     bnd (locale_independent_strtonum L fmt str True) (\<lambda>(value, endptr).
     ret (str \<noteq> [] \<and> dropWhile isspace endptr = [], value))"

definition safe_strtof :: "c_library \<Rightarrow> string \<Rightarrow> (bool \<times> fp) res" where
  "safe_strtof L = safe_strtonum L float32"

definition safe_strtod :: "c_library \<Rightarrow> string \<Rightarrow> (bool \<times> fp) res" where
  "safe_strtod L = safe_strtonum L float64"

section \<open>Printing\<close>

definition kFastToBufferSize :: int where "kFastToBufferSize = 32"

text \<open>\<open>snprintf\<close> of one number into the buffer, with the check of its result.\<close>

definition print_number :: "string \<Rightarrow> string res" where
  "print_number t =
     DCHECK (int (length t) > 0 \<and> int (length t) < kFastToBufferSize) ''snprintf_result > 0 && snprintf_result < kFastToBufferSize''
       (ret (take (nat kFastToBufferSize - 1) t))"

fun fp_abs :: "fp \<Rightarrow> fp" where
  "fp_abs (Fin a) = Fin \<bar>a\<bar>"
| "fp_abs NaN = NaN"
| "fp_abs i = PInf"

definition kDoublePrecisionCheckMax :: fp where
  "kDoublePrecisionCheckMax = fp_div float64 (fp_max float64) (to_fp float64 (1000000000000001 / 1000000000000000))"

definition DoubleToBuffer :: "c_library \<Rightarrow> fp \<Rightarrow> string res" where
  "DoubleToBuffer L value =
     bnd (if fp_ge kDoublePrecisionCheckMax (fp_abs value) then
            bnd (print_number (cl_g L 15 value)) (\<lambda>buffer.
            bnd (locale_independent_strtonum L float64 buffer False) (\<lambda>(read, _).
            ret (buffer, \<not> fp_eq read value)))
          else ret ([], True)) (\<lambda>(buffer, full_precision_needed).
     if full_precision_needed then print_number (cl_g L 17 value) else ret buffer)"

definition FloatToBuffer :: "c_library \<Rightarrow> fp \<Rightarrow> string res" where
  "FloatToBuffer L value =
     bnd (print_number (cl_g L 6 value)) (\<lambda>buffer.
     bnd (safe_strtof L buffer) (\<lambda>(read, parsed_value).
     if \<not> read \<or> \<not> fp_eq parsed_value value then print_number (cl_g L 8 value) else ret buffer))"

definition FpToString :: "u64 \<Rightarrow> string" where
  "FpToString v = hex_loop 16 v"

definition StringToFp :: "c_library \<Rightarrow> string \<Rightarrow> u64 option" where
  "StringToFp L s = (case cl_scan_hex L s of Some (result, []) \<Rightarrow> Some result | _ \<Rightarrow> None)"

section \<open>Human-readable numbers\<close>

text \<open>
  The loops that choose a unit: divide by \<open>step\<close> while at least \<open>limit\<close> is left. The number of units bounds the
  rounds; the pointer behind the terminating zero fails the \<open>CHECK\<close>.
\<close>

fun unit_loop :: "int \<Rightarrow> int \<Rightarrow> string \<Rightarrow> int \<Rightarrow> (int \<times> char) res" where
  "unit_loop limit step [] value = abort (CheckFailed ''unit < units + TF_ARRAYSIZE(units)'')"
| "unit_loop limit step (u # us) value =
     (if value \<ge> limit then unit_loop limit step us (value sdiv step) else ret (value, u))"

definition HumanReadableNum :: "c_library \<Rightarrow> int \<Rightarrow> string res" where
  "HumanReadableNum L v =
     (let sign = (if v < 0 then ''-'' else []) in
      bnd (if v < 0 then int64 (- v) else ret v) (\<lambda>value.
      if value < 1000 then ret (sign @ FastInt64ToBufferLeft (word_of_int value))
      else if value \<ge> 10 ^ 15 then ret (sign @ cl_G L 3 (fp_of_int float64 value))
      else bnd (unit_loop 1000000 1000 (''kMBT'' @ [CHR 0x00]) value) (\<lambda>(value', u).
        ret (sign @ cl_f L 2 (fp_div float64 (fp_of_int float64 value') (Fin 1000)) @ [u]))))"

definition HumanReadableNumBytes :: "c_library \<Rightarrow> int \<Rightarrow> string res" where
  "HumanReadableNumBytes L n =
     (if n = kint64min then ret ''-8E''
      else
        let neg_str = (if n < 0 then ''-'' else []) in
        bnd (if n < 0 then int64 (- n) else ret n) (\<lambda>num_bytes.
        if num_bytes < 1024 then ret (take 7 (neg_str @ FastInt64ToBufferLeft (word_of_int num_bytes) @ ''B''))
        else bnd (unit_loop (1024 * 1024) 1024 (''KMGTPE'' @ [CHR 0x00]) num_bytes) (\<lambda>(m, u).
          ret (take 15 (neg_str @ cl_f L (if u = CHR ''K'' then 1 else 2)
            (fp_div float64 (fp_of_int float64 m) (Fin 1024)) @ [u] @ ''iB'')))))"

definition HumanReadableElapsedTime :: "c_library \<Rightarrow> fp \<Rightarrow> string" where
  "HumanReadableElapsedTime L seconds_in =
     (let d = to_fp float64; mul = fp_mul float64; quot = fp_div float64; show = cl_g L 3;
          negative = fp_less seconds_in (Fin 0);
          sign = (if negative then ''-'' else []);
          seconds = (if negative then fp_neg seconds_in else seconds_in);
          microseconds = mul seconds (d 1000000) in
      if fp_less microseconds (d (9995 / 10)) then sign @ show microseconds @ '' us''
      else
        let ms = mul seconds (d 1000);
            milliseconds = (if fp_ge ms (d (995 / 1000)) \<and> fp_less ms (d 1) then d 1 else ms) in
        if fp_less milliseconds (d (9995 / 10)) then sign @ show milliseconds @ '' ms''
        else if fp_less seconds (d 60) then sign @ show seconds @ '' s''
        else
          let minutes = quot seconds (d 60) in
          if fp_less minutes (d 60) then sign @ show minutes @ '' min''
          else
            let hours = quot minutes (d 60) in
            if fp_less hours (d 24) then sign @ show hours @ '' h''
            else
              let days = quot hours (d 24) in
              if fp_less days (d 30) then sign @ show days @ '' days''
              else if fp_less days (d (3652425 / 10000)) then sign @ show (quot days (d (30436875 / 1000000))) @ '' months''
              else sign @ show (quot days (d (3652425 / 10000))) @ '' years'')"

section \<open>Decimals close to a floating-point number\<close>

lemma rnd_grid:
  assumes "x \<noteq> 0" "\<bar>x - of_int m * ulp fmt x\<bar> < ulp fmt x / 2"
  shows "rnd fmt x = of_int m * ulp fmt x"
proof -
  let ?y = "x / ulp fmt x"
  have "\<bar>?y - of_int m\<bar> = \<bar>x - of_int m * ulp fmt x\<bar> / ulp fmt x"
    using abs_div_pos [OF ulp_pos, of "x - of_int m * ulp fmt x"] by (simp add: diff_divide_distrib)
  also have "\<dots> < 1 / 2" using assms(2) ulp_pos [of fmt x] by (simp add: field_simps)
  finally have "\<bar>?y - of_int m\<bar> < 1 / 2" .
  then have "of_int (round_even ?y) < (of_int (m + 1) :: rat)" "of_int (m - 1) < (of_int (round_even ?y) :: rat)"
    using round_even_near [of ?y] by (simp_all only: of_int_add of_int_diff of_int_1 abs_less_iff) linarith+
  then have "round_even ?y = m" by (simp only: of_int_less_iff)
  then show ?thesis using assms(1) by (simp add: rnd_def)
qed

lemma grid_step: "0 < u \<Longrightarrow> of_int m * u < of_int n * u \<Longrightarrow> of_int m * u + u \<le> of_int n * (u :: rat)"
  by (metis distrib_right mult.commute mult_1 mult_le_cancel_right_pos mult_less_cancel_right_pos of_int_1 of_int_add of_int_le_iff of_int_less_iff
      zless_iff_Suc_zadd add1_zle_eq)

lemma grid_pow2:
  assumes "r = of_int m * pow2 j" "j \<le> k"
  shows "r < pow2 k \<Longrightarrow> r + pow2 j \<le> pow2 k" "pow2 k < r \<Longrightarrow> pow2 k + pow2 j \<le> r"
  using grid_step [OF pow2_pos] assms(1) pow2_multiple [OF assms(2)] by metis+

lemma near_bounds:
  assumes "0 < r" "\<bar>x - r\<bar> * 2 ^ (p + 1) < r"
  shows "0 < x" "\<bar>x - r\<bar> < pow2 (binade r - int p)" "r = pow2 (binade r) \<Longrightarrow> \<bar>x - r\<bar> < pow2 (binade r - int p) / 2"
proof -
  have "\<bar>x - r\<bar> * 1 \<le> \<bar>x - r\<bar> * 2 ^ (p + 1)" by (intro mult_left_mono one_le_power) simp_all
  then have "\<bar>x - r\<bar> < r" using assms(2) by (simp only: mult_1_right)
  then show "0 < x" by linarith
  have near: "\<bar>x - r\<bar> < r / 2 / pow2 (int p)" using assms(2) by (simp add: pow2_def field_simps)
  then show "\<bar>x - r\<bar> < pow2 (binade r - int p) / 2" if "r = pow2 (binade r)"
    using that by (simp add: pow2_diff)
  have "r / 2 < pow2 (binade r)" using binade_bounds(2) [OF assms(1)] by (simp add: pow2_add)
  then have "r / 2 / pow2 (int p) < pow2 (binade r) / pow2 (int p)" by (intro divide_strict_right_mono) simp_all
  with near show "\<bar>x - r\<bar> < pow2 (binade r - int p)" by (simp only: pow2_diff)
qed

lemma ulp_same_binade:
  assumes "0 < x" "x < pow2 (E + 1)" "emin fmt < E \<Longrightarrow> pow2 E \<le> x" "emin fmt \<le> E"
  shows "ulp fmt x = pow2 (E - int (prec fmt) + 1)"
proof -
  have "pow2 (binade x) < pow2 (E + 1)" using binade_bounds(1) [OF assms(1)] assms(2) by linarith
  moreover have "pow2 E < pow2 (binade x + 1)" if "emin fmt < E" using assms(3) [OF that] binade_bounds(2) [OF assms(1)] by linarith
  ultimately have "max (binade x) (emin fmt) = E" using assms(4) by (cases "emin fmt < E") (auto simp: pow2_less_iff)
  then show ?thesis using assms(1) by (simp add: ulp_def)
qed

text \<open>
  A number nearer to a representable one than its relative precision is rounded to it, also just below a power of two, where the
  representable numbers are twice as dense.
\<close>

lemma rnd_near_pos:
  assumes "wf_format fmt" "0 < r" "rnd fmt r = r" "\<bar>x - r\<bar> * 2 ^ (prec fmt + 1) < r"
  shows "rnd fmt x = r"
proof -
  define b E j where "b = binade r" and "E = max b (emin fmt)" and "j = E - int (prec fmt) + 1"
  have p: "1 \<le> prec fmt" using assms(1) by (simp add: wf_format_def)
  note near = near_bounds [OF assms(2,4), folded b_def]
  have br: "pow2 b \<le> r" "r < pow2 (b + 1)" using binade_bounds assms(2) by (simp_all add: b_def)
  obtain m where m: "r = of_int m * pow2 j"
    using assms(2,3) by (metis rnd_def less_irrefl ulp_def abs_of_pos b_def E_def j_def)
  have half: "\<bar>x - r\<bar> < pow2 j / 2"
  proof -
    have "pow2 (b - int (prec fmt)) \<le> pow2 (j - 1)" by (simp add: pow2_le_iff j_def E_def)
    then show ?thesis using near(2) pow2_diff [of j 1] by simp
  qed
  have "r < pow2 (E + 1)" using br(2) pow2_le_iff [of "b + 1" "E + 1"] by (simp add: E_def)
  then have "r + pow2 j \<le> pow2 (E + 1)" using grid_pow2(1) [OF m, of "E + 1"] by (simp add: j_def)
  then have upper: "x < pow2 (E + 1)" using half pow2_pos [of j] by linarith
  show ?thesis
  proof (cases "emin fmt < E \<longrightarrow> pow2 E \<le> x")
    case True
    then have "ulp fmt x = pow2 j" using ulp_same_binade [OF near(1) upper] by (simp add: j_def E_def)
    then show ?thesis using rnd_grid [of x m fmt] near(1) half m by simp
  next
    case False
    then have E: "E = b" by (auto simp: E_def)
    have "pow2 E + pow2 j \<le> r" if "pow2 E < r" using grid_pow2(2) [OF m _ that] p by (simp add: j_def)
    then have "\<not> pow2 E < r" using False half pow2_pos [of j] by linarith
    then have rb: "r = pow2 b" using br(1) E by simp
    note close = near(3) [OF rb]
    have "pow2 (b - int (prec fmt)) / 2 \<le> pow2 b / 2" by (simp add: pow2_le_iff)
    then have "pow2 (b - 1) \<le> x" using close rb by (simp add: pow2_diff)
    then have ux: "ulp fmt x = pow2 (b - int (prec fmt))" using ulp_same_binade [of x "b - 1" fmt] False E near(1) by simp
    have "r = of_int (2 ^ prec fmt) * pow2 (b - int (prec fmt))" using pow2_multiple [of "b - int (prec fmt)" b] by (simp add: rb)
    then show ?thesis using rnd_grid [of x "2 ^ prec fmt" fmt] near(1) close ux by simp
  qed
qed

lemma rnd_near:
  assumes "wf_format fmt" "rnd fmt r = r" "\<bar>x - r\<bar> * 2 ^ (prec fmt + 1) < \<bar>r\<bar>"
  shows "rnd fmt x = r"
proof (cases "0 < r")
  case False
  have "0 \<le> \<bar>x - r\<bar> * 2 ^ (prec fmt + 1)" by simp
  with assms(3) have "0 < \<bar>r\<bar>" by (rule le_less_trans [rotated])
  with False have "0 < - r" by linarith
  moreover have "\<bar>- x - - r\<bar> * 2 ^ (prec fmt + 1) < - r" using assms(3) \<open>0 < - r\<close> by (simp add: abs_minus_commute)
  ultimately have "rnd fmt (- x) = - r" using rnd_near_pos [of fmt "- r" "- x"] assms(1,2) by (simp add: rnd_minus)
  then show ?thesis by (simp add: rnd_minus)
next
  case True
  then show ?thesis using assms(3) rnd_near_pos [OF assms(1) _ assms(2)] by (simp only: abs_of_pos)
qed

lemma to_fp_near:
  assumes "wf_format fmt" "to_fp fmt a = Fin a" "\<bar>x - a\<bar> * 2 ^ (prec fmt + 1) < \<bar>a\<bar>"
  shows "to_fp fmt x = Fin a"
proof -
  have "rnd fmt a = a" using assms(2) by (auto simp: to_fp_def Let_def split: if_splits)
  then have "rnd fmt x = rnd fmt a" using rnd_near [OF assms(1) _ assms(3)] by simp
  then show ?thesis using assms(2) by (simp add: to_fp_def)
qed

section \<open>Reading a decimal text\<close>

definition number_chars :: string where
  "number_chars = ''0123456789+-.e''"

definition numeric :: "string \<Rightarrow> bool" where
  "numeric t \<longleftrightarrow> t \<noteq> [] \<and> length t < 32 \<and> set t \<subseteq> set number_chars"

lemma number_char_plain:
  assumes "c \<in> set number_chars"
  shows "\<not> isspace c" "lower_char c = c" "c \<noteq> CHR ''n''" "c \<noteq> CHR ''x''"
  using assms by (auto simp: number_chars_def isspace_def lower_char_def)

lemma numeric_token:
  assumes "numeric t"
  shows "dropWhile isspace t = t" "takeWhile (\<lambda>c. \<not> isspace c) t = t" "map lower_char t = t" "t \<noteq> []"
proof -
  have p: "\<not> isspace c" "lower_char c = c" if "c \<in> set t" for c using assms number_char_plain that by (auto simp: numeric_def)
  show "dropWhile isspace t = t" using p(1) by (cases t) auto
  show "takeWhile (\<lambda>c. \<not> isspace c) t = t" using p(1) by (auto simp: takeWhile_eq_all_conv)
  show "map lower_char t = t" using p(2) by (simp add: map_idI)
  show "t \<noteq> []" using assms by (simp add: numeric_def)
qed

lemma numeric_not_special:
  assumes "numeric t"
  shows "map_of special_nums t = None" "\<not> prefix ''0x'' t" "\<not> prefix ''-0x'' t"
proof -
  have n: "CHR ''n'' \<notin> set t" "CHR ''x'' \<notin> set t" using assms number_char_plain(3,4) by (auto simp: numeric_def)
  have "\<forall>e \<in> set special_nums. CHR ''n'' \<in> set (fst e)" by (simp add: special_nums_def)
  then show "map_of special_nums t = None" using n(1) by (force simp: map_of_eq_None_iff)
  show "\<not> prefix ''0x'' t" "\<not> prefix ''-0x'' t" using n(2) by (auto simp: prefix_def)
qed

text \<open>
  What the C and C++ standards say of the library. \<open>printf\<close> with \<open>n\<close> significant digits writes a decimal at most half a unit of the
  last digit away, and a stream rounds the decimal it reads to the nearest number of the type; out of range it stores the
  greatest or least finite value and fails.
\<close>

definition decimal_near :: "nat \<Rightarrow> rat \<Rightarrow> rat \<Rightarrow> bool" where
  "decimal_near n a d \<longleftrightarrow> \<bar>d - a\<bar> * (2 * 10 ^ (n - 1)) \<le> \<bar>a\<bar>"

definition stream_value :: "fp_format \<Rightarrow> rat \<Rightarrow> fp \<times> bool" where
  "stream_value fmt d = (case to_fp fmt d of PInf \<Rightarrow> (fp_max fmt, True) | NInf \<Rightarrow> (fp_neg (fp_max fmt), True) | v \<Rightarrow> (v, False))"

definition reads_as :: "c_library \<Rightarrow> fp_format \<Rightarrow> string \<Rightarrow> rat \<Rightarrow> bool" where
  "reads_as L fmt t d \<longleftrightarrow> numeric t \<and> cl_extract L fmt t = (fst (stream_value fmt d), snd (stream_value fmt d), [])"

definition prints_digits :: "c_library \<Rightarrow> fp_format \<Rightarrow> nat \<Rightarrow> fp \<Rightarrow> bool" where
  "prints_digits L fmt n v \<longleftrightarrow> (case v of
      Fin a \<Rightarrow> \<exists>d. decimal_near n a d \<and> reads_as L fmt (cl_g L n v) d
    | PInf \<Rightarrow> cl_g L n v = ''inf'' | NInf \<Rightarrow> cl_g L n v = ''-inf'' | NaN \<Rightarrow> cl_g L n v \<in> {''nan'', ''-nan''})"

definition is_fp :: "fp_format \<Rightarrow> fp \<Rightarrow> bool" where
  "is_fp fmt v \<longleftrightarrow> (case v of Fin a \<Rightarrow> to_fp fmt a = Fin a | _ \<Rightarrow> True)"

lemma strtonum_numeric:
  assumes "numeric t"
  shows "locale_independent_strtonum L fmt t e =
    (let (result, failed, rest) = cl_extract L fmt t in
     if failed then
       if fp_eq result (fp_max fmt) then ret (PInf, rest)
       else if fp_eq result (fp_neg (fp_max fmt)) then ret (NInf, rest)
       else ret (result, t)
     else ret (result, rest))"
  unfolding locale_independent_strtonum_def Let_def numeric_token(1-3) [OF assms]
  by (simp add: numeric_not_special [OF assms] numeric_token(4) [OF assms])

lemma fp_max_neq:
  assumes "wf_format fmt"
  shows "\<not> fp_eq (fp_neg (fp_max fmt)) (fp_max fmt)"
proof -
  have "pow2 (1 - int (prec fmt)) \<le> 1" using assms pow2_le_iff [of "1 - int (prec fmt)" 0] by (simp add: wf_format_def)
  then have "2 - pow2 (1 - int (prec fmt)) \<noteq> 0" by linarith
  then show ?thesis by (simp add: fp_max_def)
qed

text \<open>The repair behind the extraction: the result is what \<open>strtod\<close> returns, the correctly rounded value or an infinity.\<close>

lemma strtonum_reads:
  assumes "reads_as L fmt t d" "wf_format fmt"
  shows "locale_independent_strtonum L fmt t e = ret (to_fp fmt d, [])"
proof -
  have t: "numeric t" using assms by (simp add: reads_as_def)
  have "to_fp fmt d \<noteq> NaN" by (simp add: to_fp_def Let_def)
  moreover have "fp_eq (fp_max fmt) (fp_max fmt)" "fp_eq (fp_neg (fp_max fmt)) (fp_neg (fp_max fmt))" by (simp_all add: fp_max_def)
  ultimately show ?thesis
    using assms(1) fp_max_neq [OF assms(2)] unfolding strtonum_numeric [OF t] reads_as_def
    by (cases "to_fp fmt d") (simp_all add: stream_value_def)
qed

lemma strtonum_names:
  "locale_independent_strtonum L fmt ''inf'' True = ret (PInf, [])" "locale_independent_strtonum L fmt ''-inf'' True = ret (NInf, [])"
  "locale_independent_strtonum L fmt ''nan'' True = ret (NaN, [])" "locale_independent_strtonum L fmt ''-nan'' True = ret (NaN, [])"
  by (simp_all add: locale_independent_strtonum_def Let_def isspace_def lower_char_def special_nums_def)

lemma print_number_short: "t \<noteq> [] \<Longrightarrow> length t < 32 \<Longrightarrow> print_number t = ret t"
  by (simp add: print_number_def kFastToBufferSize_def DCHECK_def CHECK_def)

text \<open>With more than \<open>2 ^ prec\<close> decimals per decade the printed decimal determines the number.\<close>

lemma digits_suffice:
  assumes "wf_format fmt" "to_fp fmt a = Fin a" "decimal_near n a d" "2 ^ prec fmt < (10 :: rat) ^ (n - 1)"
  shows "to_fp fmt d = Fin a"
proof (cases "a = 0")
  case True
  have "d = 0"
  proof (rule ccontr)
    assume "d \<noteq> 0"
    then have "0 < \<bar>d\<bar> * (2 * 10 ^ (n - 1))" by simp
    then show False using assms(3) True by (simp only: decimal_near_def abs_zero diff_zero not_le [symmetric])
  qed
  then show ?thesis using assms(2) True by simp
next
  case False
  show ?thesis
  proof (cases "d = a")
    case False
    then have "\<bar>d - a\<bar> * (2 * 2 ^ prec fmt) < \<bar>d - a\<bar> * (2 * 10 ^ (n - 1))" using assms(4) by (intro mult_strict_left_mono) auto
    also have "\<dots> \<le> \<bar>a\<bar>" using assms(3) by (simp add: decimal_near_def)
    finally show ?thesis by (intro to_fp_near [OF assms(1,2)]) simp
  qed (simp add: assms(2))
qed

section \<open>Printing and reading back\<close>

lemma rnd_fp_max:
  assumes "wf_format fmt" "emin fmt \<le> emax fmt" "fp_max fmt = Fin M"
  shows "rnd fmt M = M" "0 < M" "M < pow2 (emax fmt + 1)"
proof -
  let ?u = "pow2 (emax fmt - int (prec fmt) + 1)"
  have p: "1 \<le> prec fmt" using assms(1) by (simp add: wf_format_def)
  have M: "M = (2 - pow2 (1 - int (prec fmt))) * pow2 (emax fmt)" using assms(3) by (simp add: fp_max_def)
  have one: "pow2 (1 - int (prec fmt)) \<le> 1" using p pow2_le_iff [of "1 - int (prec fmt)" 0] by simp
  have low: "pow2 (emax fmt) \<le> M" unfolding M using one mult_right_mono [of 1 "2 - pow2 (1 - int (prec fmt))" "pow2 (emax fmt)"] by simp
  show up: "M < pow2 (emax fmt + 1)" by (simp add: M pow2_add algebra_simps)
  show pos: "0 < M" using low pow2_pos [of "emax fmt"] by linarith
  have "binade M = emax fmt" using low up by (rule binade_unique)
  then have u: "ulp fmt M = ?u" using pos assms(2) by (simp add: ulp_def)
  have "M = of_int (2 ^ prec fmt - 1) * ?u"
    by (simp add: M pow2_add pow2_diff pow2_def [of "int (prec fmt)"] field_simps)
  then show "rnd fmt M = M" using u by (intro rnd_exact) simp
qed

lemma kDoublePrecisionCheckMax_finite: "kDoublePrecisionCheckMax \<noteq> PInf"
proof -
  obtain M where M: "fp_max float64 = Fin M" by (simp add: fp_max_def)
  have "emin float64 \<le> emax float64" by (simp add: float64_def)
  note m = rnd_fp_max [OF wf_formats(2) this M]
  define c where "c = rnd float64 (1000000000000001 / 1000000000000000)"
  have "pow2 1 \<le> pow2 1023" by (simp only: pow2_le_iff)
  then have c: "to_fp float64 (1000000000000001 / 1000000000000000) = Fin c" unfolding c_def
    by (intro to_fp_Fin wf_formats(2)) (simp add: float64_def)
  have c1: "1 \<le> c" using rnd_mono [of float64 1 "1000000000000001 / 1000000000000000"] rnd_1 [of float64] wf_formats(2) by (simp add: c_def wf_format_def)
  have "M / c \<le> M" using c1 m(2) by (simp add: divide_le_eq mult_le_cancel_left1)
  then have "rnd float64 (M / c) \<le> M" using rnd_mono [of float64 "M / c" M] m(1) wf_formats(2) by (simp add: wf_format_def)
  then have "to_fp float64 (M / c) \<noteq> PInf" using m(3) by (simp add: to_fp_def Let_def)
  then show ?thesis using c1 by (simp add: kDoublePrecisionCheckMax_def c M)
qed

lemma prints_digits_exact:
  assumes "wf_format fmt" "is_fp fmt v" "prints_digits L fmt n v" "2 ^ prec fmt < (10 :: rat) ^ (n - 1)"
  shows "print_number (cl_g L n v) = ret (cl_g L n v)" "length (cl_g L n v) < 32" "cl_g L n v \<noteq> []"
    "locale_independent_strtonum L fmt (cl_g L n v) True = ret (v, [])"
proof -
  have "cl_g L n v \<noteq> [] \<and> length (cl_g L n v) < 32 \<and> locale_independent_strtonum L fmt (cl_g L n v) True = ret (v, [])"
  proof (cases v)
    case (Fin a)
    then obtain d where d: "decimal_near n a d" "reads_as L fmt (cl_g L n v) d" using assms(3) by (auto simp: prints_digits_def)
    then have "to_fp fmt d = v" using digits_suffice [OF assms(1) _ d(1) assms(4)] assms(2) Fin by (simp add: is_fp_def)
    then show ?thesis using d strtonum_reads [OF d(2) assms(1)] by (auto simp: reads_as_def numeric_def)
  qed (use assms(3) in \<open>auto simp: prints_digits_def strtonum_names\<close>)
  then show "print_number (cl_g L n v) = ret (cl_g L n v)" "length (cl_g L n v) < 32" "cl_g L n v \<noteq> []"
    "locale_independent_strtonum L fmt (cl_g L n v) True = ret (v, [])" by (simp_all add: print_number_short)
qed

lemma prints_digits_near:
  assumes "wf_format fmt" "prints_digits L fmt n (Fin a)"
  obtains w where "print_number (cl_g L n (Fin a)) = ret (cl_g L n (Fin a))" "length (cl_g L n (Fin a)) < 32" "cl_g L n (Fin a) \<noteq> []"
    "\<And>e. locale_independent_strtonum L fmt (cl_g L n (Fin a)) e = ret (w, [])"
proof -
  obtain d where d: "reads_as L fmt (cl_g L n (Fin a)) d" using assms(2) by (auto simp: prints_digits_def)
  show ?thesis using that [of "to_fp fmt d"] strtonum_reads [OF d assms(1)] d by (simp add: reads_as_def numeric_def print_number_short)
qed

lemma finite_below: "fp_ge k (fp_abs v) \<Longrightarrow> k \<noteq> PInf \<Longrightarrow> \<exists>a. v = Fin a"
  by (cases v; cases k) (simp_all add: fp_ge_def)

lemma fp_eq_Fin: "fp_eq v (Fin a) \<longleftrightarrow> v = Fin a"
  by (cases v) auto

text \<open>
  C20. If \<open>printf\<close> and the stream round correctly on a \<open>double\<close>, \<open>DoubleToBuffer\<close> passes its checks, never writes through its null pointer, and
  writes a text shorter than the buffer that \<open>safe_strtod\<close> reads as exactly the same value: 17 digits are
  enough for every \<open>double\<close>, subnormal numbers and powers of two included, and infinities and NaN never take the first branch.
\<close>

theorem DoubleToBuffer_exact:
  assumes "is_fp float64 value" "prints_digits L float64 15 value" "prints_digits L float64 17 value"
  shows "\<exists>t. DoubleToBuffer L value = ret t \<and> length t < 32 \<and> safe_strtod L t = ret (True, value) \<and>
    t \<in> {cl_g L 15 value, cl_g L 17 value}"
proof -
  have wf: "wf_format float64" by simp
  have "2 ^ prec float64 < (10 :: rat) ^ (17 - 1)" by (simp add: float64_def)
  note full = prints_digits_exact [OF wf assms(1,3) this]
  have full': "safe_strtod L (cl_g L 17 value) = ret (True, value)" using full by (simp add: safe_strtod_def safe_strtonum_def)
  show ?thesis
  proof (cases "fp_ge kDoublePrecisionCheckMax (fp_abs value)")
    case False
    then show ?thesis using full full' by (simp add: DoubleToBuffer_def)
  next
    case True
    then obtain a where a: "value = Fin a"
      using finite_below kDoublePrecisionCheckMax_finite by blast
    obtain w where w: "print_number (cl_g L 15 value) = ret (cl_g L 15 value)" "length (cl_g L 15 value) < 32" "cl_g L 15 value \<noteq> []"
      "\<And>e. locale_independent_strtonum L float64 (cl_g L 15 value) e = ret (w, [])"
      using prints_digits_near [OF wf assms(2) [unfolded a]] a by metis
    show ?thesis
    proof (cases "w = value")
      case True
      then show ?thesis using w \<open>fp_ge _ _\<close> a by (simp add: DoubleToBuffer_def safe_strtod_def safe_strtonum_def fp_eq_Fin)
    next
      case False
      then show ?thesis using w full full' \<open>fp_ge _ _\<close> a by (simp add: DoubleToBuffer_def fp_eq_Fin)
    qed
  qed
qed

text \<open>A library that knows the texts of one tenth.\<close>

definition tenth_library :: c_library where
  "tenth_library = \<lparr>cl_g = (\<lambda>n _. if n < 17 then ''0.1'' else ''0.10000000000000001''), cl_G = (\<lambda>_ _. []), cl_f = (\<lambda>_ _. []),
     cl_extract = (\<lambda>fmt t. (to_fp fmt (if t = ''0.1'' then 1 / 10 else 10000000000000001 / 100000000000000000), False, [])),
     cl_strtol16 = (\<lambda>t. (0, t)), cl_scan_hex = (\<lambda>_. None)\<rparr>"

lemma to_fp_dyadic:
  assumes "wf_format fmt" "emin fmt \<le> e" "e < emax fmt" "pow2 e \<le> a" "a < pow2 (e + 1)" "a / pow2 (e - int (prec fmt) + 1) \<in> \<int>"
  shows "to_fp fmt a = Fin a"
proof -
  have a: "0 < a" using assms(4) pow2_pos [of e] by linarith
  have "ulp fmt a = pow2 (e - int (prec fmt) + 1)" using a assms(2) binade_unique [OF assms(4,5)] by (simp add: ulp_def)
  then have "rnd fmt a = a" using assms(6) by (intro rnd_exact) simp
  moreover have "\<bar>a\<bar> \<le> pow2 (emax fmt)" using a assms(3,5) pow2_le_iff [of "e + 1" "emax fmt"] by simp
  ultimately show ?thesis using to_fp_Fin [OF assms(1)] by simp
qed

lemma tenth: "to_fp float64 (3602879701896397 / 36028797018963968) = Fin (3602879701896397 / 36028797018963968)"
  by (rule to_fp_dyadic [where e = "-4"]) (simp_all add: pow2_def float64_def wf_format_def)

lemma tenth_reads:
  assumes "d \<in> {1 / 10, 10000000000000001 / 100000000000000000}"
  shows "to_fp float64 d = Fin (3602879701896397 / 36028797018963968)"
proof -
  have "prec float64 = 53" by (simp add: float64_def)
  then show ?thesis using assms by (intro to_fp_near [OF wf_formats(2) tenth]) auto
qed

lemma tenth_prints:
  "prints_digits tenth_library float64 15 (Fin (3602879701896397 / 36028797018963968))"
  "prints_digits tenth_library float64 17 (Fin (3602879701896397 / 36028797018963968))"
proof -
  have "decimal_near 15 (3602879701896397 / 36028797018963968) (1 / 10)"
    "decimal_near 17 (3602879701896397 / 36028797018963968) (10000000000000001 / 100000000000000000)"
    by (simp_all add: decimal_near_def)
  moreover have "reads_as tenth_library float64 ''0.1'' (1 / 10)"
    "reads_as tenth_library float64 ''0.10000000000000001'' (10000000000000001 / 100000000000000000)"
    by (simp_all add: reads_as_def numeric_def number_chars_def stream_value_def tenth_library_def tenth_reads)
  ultimately show "prints_digits tenth_library float64 15 (Fin (3602879701896397 / 36028797018963968))"
    "prints_digits tenth_library float64 17 (Fin (3602879701896397 / 36028797018963968))"
    by (auto simp: prints_digits_def tenth_library_def)
qed

theorem DoubleToBuffer_exact_witness:
  "\<exists>t. DoubleToBuffer tenth_library (Fin (3602879701896397 / 36028797018963968)) = ret t \<and> length t < 32 \<and>
     safe_strtod tenth_library t = ret (True, Fin (3602879701896397 / 36028797018963968)) \<and> t \<in> {''0.1'', ''0.10000000000000001''}"
  using DoubleToBuffer_exact [OF _ tenth_prints] by (simp add: is_fp_def tenth tenth_library_def [THEN arg_cong, of "\<lambda>L. cl_g L"])

text \<open>
  Nine digits would be enough for every \<open>float\<close>; the eight that \<open>FloatToBuffer\<close> writes are not: two neighbouring numbers have the
  same text.
\<close>

lemma nine_digits_suffice:
  assumes "to_fp float32 a = Fin a" "decimal_near 9 a d"
  shows "to_fp float32 d = Fin a"
  using digits_suffice [OF wf_formats(1) assms] by (simp add: float32_def)

lemma FloatToBuffer_collides:
  fixes x y :: rat
  assumes "x = 16384001 / 16384" "y = 8192001 / 8192"
    and "reads_as L float32 ''1000'' 1000" "\<And>a. a \<in> {x, y} \<Longrightarrow> cl_g L 6 (Fin a) = ''1000'' \<and> cl_g L 8 (Fin a) = ''1000.0001''"
  shows "FloatToBuffer L (Fin x) = ret ''1000.0001'' \<and> FloatToBuffer L (Fin y) = ret ''1000.0001'' \<and>
    f32 x = Fin x \<and> f32 y = Fin y \<and> x \<noteq> y \<and> decimal_near 8 x (10000001 / 10000) \<and> decimal_near 8 y (10000001 / 10000)"
proof -
  have t: "to_fp float32 1000 = Fin 1000" by (rule to_fp_dyadic [where e = 9]) (simp_all add: pow2_def float32_def wf_format_def)
  have r: "locale_independent_strtonum L float32 ''1000'' True = ret (Fin 1000, [])" using strtonum_reads [OF assms(3) wf_formats(1)] t by simp
  have "FloatToBuffer L (Fin a) = ret ''1000.0001''" if "a \<in> {x, y}" for a
  proof -
    have "a \<noteq> 1000" using that assms(1,2) by auto
    then show ?thesis using assms(4) [OF that] r
      by (simp add: FloatToBuffer_def safe_strtof_def safe_strtonum_def print_number_short)
  qed
  moreover have "f32 x = Fin x" "f32 y = Fin y"
    unfolding f32_def assms(1,2) by (rule to_fp_dyadic [where e = 9], simp_all add: pow2_def float32_def wf_format_def)+
  moreover have "decimal_near 8 x (10000001 / 10000)" "decimal_near 8 y (10000001 / 10000)" "x \<noteq> y"
    unfolding assms(1,2) by (simp_all add: decimal_near_def)
  ultimately show ?thesis by blast
qed

text \<open>A text of spaces: the stream fails before it stores anything, and the code compares what it has not initialised.\<close>

lemma safe_strtonum_blank:
  assumes "list_all isspace t"
  shows "safe_strtof L t = abort (Undefined ''uninitialised result'')" "safe_strtod L t = abort (Undefined ''uninitialised result'')"
proof -
  have b: "dropWhile isspace t = []" using assms by (simp add: dropWhile_eq_Nil_conv list_all_iff)
  have "locale_independent_strtonum L fmt t True = abort (Undefined ''uninitialised result'')" for fmt
    unfolding locale_independent_strtonum_def Let_def b by (simp add: special_nums_def)
  then show "safe_strtof L t = abort (Undefined ''uninitialised result'')" "safe_strtod L t = abort (Undefined ''uninitialised result'')"
    by (simp_all add: safe_strtof_def safe_strtod_def safe_strtonum_def)
qed

section \<open>Units\<close>

lemma unit_loop_spec:
  assumes "0 \<le> v" "1 < step" "v < step * step * step ^ (length us - 1)" "us \<noteq> []"
  shows "\<exists>k < length us. unit_loop (step * step) step (us @ ws) v = ret (v div step ^ k, us ! k) \<and> v div step ^ k < step * step \<and>
    (step \<le> v \<longrightarrow> step \<le> v div step ^ k)"
  using assms(1,3,4)
proof (induction us arbitrary: v)
  case (Cons u us)
  show ?case
  proof (cases "v < step * step")
    case True
    then show ?thesis by (intro exI [of _ 0]) simp
  next
    case False
    then have us: "us \<noteq> []" using Cons.prems(2) by (cases us) auto
    have q: "v sdiv step = v div step"
      using Cons.prems(1) assms(2) by (simp add: signed_divide_int_def sgn_if)
    have "v < step * (step * step * step ^ (length us - 1))"
      using Cons.prems(2) us by (cases "length us") (simp_all add: mult_ac)
    moreover have "step * (v div step) \<le> v" using assms(2) mult_div_mod_eq [of step v] pos_mod_sign [of step v] by linarith
    ultimately have "v div step < step * step * step ^ (length us - 1)"
      using assms(2) by (meson le_less_trans mult_less_cancel_left_pos less_trans zero_less_one)
    moreover have big: "step \<le> v div step"
      using False assms(2) zdiv_mono1 [of "step * step" v step] by simp
    ultimately obtain k where k: "k < length us" "unit_loop (step * step) step (us @ ws) (v div step) = ret (v div step div step ^ k, us ! k)"
      "v div step div step ^ k < step * step" "step \<le> v div step div step ^ k"
      using Cons.IH [of "v div step"] us Cons.prems(1) assms(2) by (auto simp: pos_imp_zdiv_nonneg_iff)
    then show ?thesis using False q assms(2)
      by (intro exI [of _ "Suc k"]) (simp add: zdiv_zmult2_eq)
  qed
qed simp

lemma unit_loop_stops:
  assumes "step \<le> v" "1 < step" "limit = step * step" "length us = Suc j" "v < limit * step ^ j"
  obtains k where "k \<le> j" "unit_loop limit step (us @ ws) v = ret (v div step ^ k, us ! k)" "step \<le> v div step ^ k" "v div step ^ k < limit"
proof -
  have "us \<noteq> []" using assms(4) by auto
  then show ?thesis using unit_loop_spec [of v step us ws] assms that by (auto simp: less_Suc_eq_le)
qed

text \<open>The quotient printed behind a unit is that of an exact conversion.\<close>

lemma unit_quotient:
  assumes "0 \<le> m" "m < 2 ^ 53" "0 < q"
  shows "fp_div float64 (fp_of_int float64 m) (Fin q) = to_fp float64 (of_int m / q)"
proof -
  have "rnd float64 (of_int m) = of_int m" using assms by (intro rnd_of_int) (simp_all add: float64_def)
  moreover have "\<bar>of_int m\<bar> \<le> pow2 (emax float64)"
  proof -
    have "of_int m < (2 :: rat) ^ 53" using assms(2) by (metis of_int_less_iff of_int_numeral of_int_power)
    also have "\<dots> = pow2 53" by (simp add: pow2_def)
    also have "\<dots> \<le> pow2 1023" by (simp only: pow2_le_iff)
    finally show ?thesis using assms(1) by (simp add: float64_def)
  qed
  ultimately have "fp_of_int float64 m = Fin (of_int m)" by (simp add: fp_of_int_def to_fp_Fin)
  then show ?thesis using assms(3) by simp
qed

text \<open>
  For every \<open>int64\<close> but the least, the loops of \<open>HumanReadableNum\<close> and \<open>HumanReadableNumBytes\<close> stop at the unit for which between one and
  a thousand (1024) of it are left, never at the terminating zero, and print the number of thousandths (1024ths) that
  are left divided in \<open>double\<close> arithmetic; the least \<open>int64\<close> is special only for bytes, and its negation is undefined in the other.
\<close>

lemma HumanReadable_units:
  assumes "kint64min \<le> n" "n \<le> kint64max"
  shows "n = kint64min \<and> HumanReadableNum L n = abort (Undefined ''signed overflow'') \<and> HumanReadableNumBytes L n = ret ''-8E'' \<or>
    (n \<noteq> kint64min \<and>
     (\<bar>n\<bar> < 1000 \<or> 10 ^ 15 \<le> \<bar>n\<bar> \<or> (\<exists>k < 4. 1000 \<le> \<bar>n\<bar> div 1000 ^ k \<and> \<bar>n\<bar> div 1000 ^ k < 1000000 \<and>
        HumanReadableNum L n = ret ((if n < 0 then ''-'' else []) @
          cl_f L 2 (to_fp float64 (of_int (\<bar>n\<bar> div 1000 ^ k) / 1000)) @ [''kMBT'' ! k]))) \<and>
     (\<bar>n\<bar> < 1024 \<or> (\<exists>k < 6. 1024 \<le> \<bar>n\<bar> div 1024 ^ k \<and> \<bar>n\<bar> div 1024 ^ k < 1024 * 1024 \<and>
        HumanReadableNumBytes L n = ret (take 15 ((if n < 0 then ''-'' else []) @
          cl_f L (if k = 0 then 1 else 2) (to_fp float64 (of_int (\<bar>n\<bar> div 1024 ^ k) / 1024)) @ [''KMGTPE'' ! k] @ ''iB'')))))"
proof (cases "n = kint64min")
  case True
  then show ?thesis by (simp add: HumanReadableNum_def HumanReadableNumBytes_def kint64min_def int64_def)
next
  case False
  have abs: "(if n < 0 then int64 (- n) else ret n) = ret \<bar>n\<bar>" using assms False by (simp add: int64_def kint64min_def kint64max_def)
  have num: "\<exists>k < 4. 1000 \<le> \<bar>n\<bar> div 1000 ^ k \<and> \<bar>n\<bar> div 1000 ^ k < 1000000 \<and>
      HumanReadableNum L n = ret ((if n < 0 then ''-'' else []) @
        cl_f L 2 (to_fp float64 (of_int (\<bar>n\<bar> div 1000 ^ k) / 1000)) @ [''kMBT'' ! k])" if b: "1000 \<le> \<bar>n\<bar>" "\<bar>n\<bar> < 10 ^ 15"
  proof -
    obtain k where k: "k \<le> 3" "unit_loop 1000000 1000 (''kMBT'' @ [CHR 0x00]) \<bar>n\<bar> = ret (\<bar>n\<bar> div 1000 ^ k, ''kMBT'' ! k)"
      "1000 \<le> \<bar>n\<bar> div 1000 ^ k" "\<bar>n\<bar> div 1000 ^ k < 1000000"
      by (rule unit_loop_stops [of 1000 "\<bar>n\<bar>" 1000000 "''kMBT''" 3 "[CHR 0x00]"]) (use b in simp_all)
    show ?thesis
      using k b unit_quotient [of "\<bar>n\<bar> div 1000 ^ k" 1000]
      by (intro exI [of _ k]) (simp add: HumanReadableNum_def abs)
  qed
  have bytes: "\<exists>k < 6. 1024 \<le> \<bar>n\<bar> div 1024 ^ k \<and> \<bar>n\<bar> div 1024 ^ k < 1024 * 1024 \<and>
      HumanReadableNumBytes L n = ret (take 15 ((if n < 0 then ''-'' else []) @
        cl_f L (if k = 0 then 1 else 2) (to_fp float64 (of_int (\<bar>n\<bar> div 1024 ^ k) / 1024)) @ [''KMGTPE'' ! k] @ ''iB''))" if b: "1024 \<le> \<bar>n\<bar>"
  proof -
    obtain k where k: "k \<le> 5" "unit_loop (1024 * 1024) 1024 (''KMGTPE'' @ [CHR 0x00]) \<bar>n\<bar> = ret (\<bar>n\<bar> div 1024 ^ k, ''KMGTPE'' ! k)"
      "1024 \<le> \<bar>n\<bar> div 1024 ^ k" "\<bar>n\<bar> div 1024 ^ k < 1024 * 1024"
      by (rule unit_loop_stops [of 1024 "\<bar>n\<bar>" "1024 * 1024" "''KMGTPE''" 5 "[CHR 0x00]"])
        (use b assms False in \<open>simp_all add: kint64min_def kint64max_def\<close>)
    have u: "''KMGTPE'' ! k = CHR ''K'' \<longleftrightarrow> k = 0" using k(1) by (auto simp: le_Suc_eq numeral_eq_Suc)
    show ?thesis
      using k b False u unit_quotient [of "\<bar>n\<bar> div 1024 ^ k" 1024]
      by (intro exI [of _ k]) (simp add: HumanReadableNumBytes_def abs)
  qed
  show ?thesis using False num bytes by (meson not_le)
qed

end
