(* ===== verification/Spec2Isabelle.thy ===== *)
theory Spec2Isabelle
  imports Draw_Game Ladder_Supervisor Replay_Ops Input_Buffer Clean_Path Self_Play Zlib_Input Float_Text
begin

text \<open>
  A verification of the Gomoku engine, its trainer and the part of TensorFlow they stand on.

  \<^bold>\<open>The program.\<close> \<^verbatim>\<open>src/gomoku\<close> plays Gomoku on a 19 by 19 board and learns from its games. A board
  (\<^verbatim>\<open>core/board.cc\<close>) keeps the stones in a bitset and finds a win by casting rays from the last move. Players are actors
  (\<^verbatim>\<open>core/actor.h\<close>): a random one and a Monte Carlo one, which estimates the value of moves in cells
  (\<^verbatim>\<open>actors/mc_cell.cc\<close>) by playing random games. A registry creates actors from specifications. A worker
  (\<^verbatim>\<open>ladder/worker_impl.cc\<close>) plays one game per call; a ladder (\<^verbatim>\<open>ladder/ladder.cc\<close>) pairs players and counts wins, and its
  supervisor (\<^verbatim>\<open>ladder/supervisor.cc\<close>) keeps calls to several workers in flight. Self-play
  (\<^verbatim>\<open>self_play/supervisor.cc\<close>) plays batches of games in threads and appends them to rotating log files in TensorFlow's record format.
  The TensorFlow operation \<open>DecodeReplays\<close> (\<^verbatim>\<open>networks/replay_ops_kernel.cc\<close>) turns such records into tensors of features and scores
  for training. Of TensorFlow (\<^verbatim>\<open>src/tensorflow\<close>) the development models what this path runs through: statuses, numbers
  and strings, integer coding, CRC-32C, record files plain and compressed, the streams and buffers under them, paths,
  tensor shapes and shape inference.

  \<^bold>\<open>Effects.\<close> A call is a value of type \<open>'a res\<close> (\<^verbatim>\<open>Gomoku_Prelude\<close>): it returns, ends the process (a failed \<open>CHECK\<close>,
  \<open>LOG(FATAL)\<close>, or undefined behaviour, each a value of \<open>fatal\<close>), or never returns (\<^const>\<open>None\<close>, from
  \<^theory_text>\<open>partial_function (option)\<close>). \<open>DCHECK\<close> is checked, as in a debug build. State is a \<^theory_text>\<open>record\<close> passed through. Integers have
  their width: words where the code relies on wrap-around, otherwise integers with \<open>int32\<close> or \<open>int64\<close> at the
  places where signed overflow would be undefined. \<open>float\<close> and \<open>double\<close> are exact IEEE values with rounding (\<^verbatim>\<open>Float32\<close>).

  \<^bold>\<open>The theories and the code.\<close>
  \<^item> \<^verbatim>\<open>Board\<close>, \<^verbatim>\<open>Game_Rules\<close>, \<^verbatim>\<open>Draw_Game\<close>: the bitset board with every method of \<^verbatim>\<open>core/board.h\<close> and \<^verbatim>\<open>board.cc\<close>, the rules on histories
    of moves, and a concrete drawn game. The board refines the history of moves; \<open>DidWin\<close> decides five in a row, stated in
    coordinates and without the code's list of directions;
    reverting undoes applying; a playout on a drawn board ends the process.
  \<^item> \<^verbatim>\<open>Float32\<close>, \<^verbatim>\<open>Feature\<close>, \<^verbatim>\<open>Mc_Cell\<close>: arithmetic, feature matrices (\<^verbatim>\<open>core/feature.cc\<close>, \<^verbatim>\<open>networks/default_features.cc\<close>) and
    the two cells. The linear cell, with a learning rate of at most 1/16, keeps its estimates in the unit interval.
  \<^item> \<^verbatim>\<open>Metrics\<close>, \<^verbatim>\<open>Std_Map\<close>: metric trees and their merging (\<^verbatim>\<open>core/metrics.cc\<close>) over an ordered map.
  \<^item> \<^verbatim>\<open>Actor_Config\<close>, \<^verbatim>\<open>Actors\<close>, \<^verbatim>\<open>Reference_Lib\<close>: configuration items, the actors with their factories and registry, and an
    instance of their parameters. The locales \<open>actor_contract\<close> and \<open>total_actor\<close> state what a game loop needs of a player.
  \<^item> \<^verbatim>\<open>Worker\<close>: \<open>WorkerImpl::PlayGame\<close>, proved once over the contract of an actor.
  \<^item> \<^verbatim>\<open>Ladder\<close>, \<^verbatim>\<open>Ladder_Supervisor\<close>: \<open>BasicLadder\<close> and the asynchronous loop, as a function of the order of
    completions and as a step relation with its invariants and its progress.
  \<^item> \<^verbatim>\<open>Self_Play\<close>: games, batches whose threads finish in any order, log rotation (\<^verbatim>\<open>self_play/supervisor.cc\<close>, \<^verbatim>\<open>self_play.cc\<close>). The
    threads race on the random engine; what each finds there is arbitrary.
  \<^item> \<^verbatim>\<open>Status\<close>, \<^verbatim>\<open>Numbers\<close>, \<^verbatim>\<open>Float_Text\<close>, \<^verbatim>\<open>String_Scanner\<close>, \<^verbatim>\<open>Path\<close>, \<^verbatim>\<open>Clean_Path\<close>: \<^verbatim>\<open>lib/core/status.cc\<close>, \<^verbatim>\<open>lib/strings/numbers.cc\<close>, \<^verbatim>\<open>strcat.cc\<close>,
    \<^verbatim>\<open>scanner.cc\<close>, \<^verbatim>\<open>lib/core/stringpiece.cc\<close> and \<^verbatim>\<open>lib/io/path.cc\<close>: round trips of numbers and URIs (every
    \<open>double\<close> is read back from its text exactly), and \<open>CleanPath\<close> equal to a
    lexical normal form.
  \<^item> \<^verbatim>\<open>Coding\<close>, \<^verbatim>\<open>Crc32c_Tables\<close>, \<^verbatim>\<open>Crc32c\<close>: \<^verbatim>\<open>lib/core/coding.cc\<close> and \<^verbatim>\<open>lib/hash/crc32c.cc\<close>; the sliced loops equal the bitwise CRC.
  \<^item> \<^verbatim>\<open>Input_Stream\<close>, \<^verbatim>\<open>Input_Buffer\<close>, \<^verbatim>\<open>Record_IO\<close>, \<^verbatim>\<open>Zlib_Output\<close>, \<^verbatim>\<open>Zlib_Input\<close>: \<^verbatim>\<open>lib/io\<close>. Streams refine a position in the bytes of a
    file (locales \<open>byte_source\<close>, \<open>input_stream\<close>); records are read back as written, also compressed, for any zlib
    that keeps the contract of its manual (\<open>deflate_contract\<close>: nothing is promised after \<open>Z_FINISH\<close> but for finishing;
    \<open>inflate_contract\<close>). The 32-bit sizes of zlib are written out: data of \<open>2 ^ 32\<close> bytes is truncated.
  \<^item> \<^verbatim>\<open>Tensor_Shape\<close>, \<^verbatim>\<open>Partial_Shape\<close>: \<^verbatim>\<open>core/framework/tensor_shape.cc\<close> with its three layouts of sizes in 16 bytes. Every operation refines
    the one on lists of sizes, up to the failing \<open>CHECK\<close>s; protos (\<^verbatim>\<open>tensor_shape.proto\<close>, with the names that writing drops) and merging
    of partial shapes.
  \<^item> \<^verbatim>\<open>Shape_Inference\<close>, \<^verbatim>\<open>Shape_Semantics\<close>, \<^verbatim>\<open>Shape_Arithmetic\<close>, \<^verbatim>\<open>Inference_Context\<close>, \<^verbatim>\<open>Node_Ranges\<close>: \<^verbatim>\<open>core/framework/shape_inference.cc\<close> and
    \<open>NameRangesForNode\<close>. A context is given a meaning, the sizes its dimensions may have at run time (\<open>world\<close>), and the
    operations are proved sound for it in a small logic of outcomes. Locales state what the callers need of an operation on
    dimensions (\<open>dim_operation\<close>), of a description of shapes (\<open>shape_maker\<close>) and of a way to combine shapes (\<open>shape_combiner\<close>).
  \<^item> \<^verbatim>\<open>Replay_Ops\<close>: \<open>DecodeReplays\<close>. Its kernel writes the features and scores of every position, with the scores of drawn games
    spelled out, where they differ from its documentation; the shapes it declares are those it delivers.
  \<^item> This theory: the path from self-play through a compressed log file to training tensors.

  \<^bold>\<open>Parameters.\<close> What is not in the repository is an argument of the definitions, with the documented behaviour as a named
  hypothesis that an instance satisfies: the random engine, its distributions, \<open>exp\<close> and Eigen's loops
  (\<open>lib_ok\<close>, met by \<^verbatim>\<open>Reference_Lib\<close>), the clock, the files of the operating system (\<open>good_file\<close>, \<open>good_append\<close>,
  \<open>good_env\<close>), the SSE instruction for CRC-32C (\<open>trusted\<close>), zlib, the protobuf serialiser, \<open>printf\<close> and stream
  extraction of floating-point numbers (\<open>prints_digits\<close>), and the allocator of tensors
  (\<open>alloc_ok\<close>). The order in which grpc completes calls and in which threads run is a list, quantified over. Text of tensors,
  types and attributes of a node are arguments that only reach error messages and lookups.

  \<^bold>\<open>Bounds and fuel.\<close> \<open>read_all\<close> is a test loop that reads at most as many records as its fuel, one more than were
  written, and sees the end of the file. The loops of \<open>Extend\<close> take the number of bytes left as their bound, which no
  run exhausts. All other loops are recursive over data or \<^theory_text>\<open>partial_function\<close>s, for which returning is proved where it holds; where
  a loop of the code does not end, that is a theorem too. Sizes of objects are bounded where the code's types bound them (2 to the
  63 for files and tensors, 2 to the 32 for data given to zlib at once, 2 to the 31 for samples, simulated games and
  buffers of compressed files, 2 to the 30 for the games of a ladder, 2 to the 24 for counts kept in a \<open>float\<close>); memory is otherwise unlimited.

  \<^bold>\<open>Not modelled.\<close> \<^verbatim>\<open>gomoku/worker.cc\<close> starts a grpc server. The Python files build networks. \<open>PrintStats\<close> and logging only
  print. Mutexes are not modelled: every operation of a component that has one is one step. The one place where the program shares data between
  threads without a lock, the random engine of self-play, is a data race; the model takes what the threads
  read there as given and excludes only the runs in which the race destroys the process. Of \<^verbatim>\<open>shape_inference.cc\<close> the printing of a whole node and \<open>GetAttr\<close> are left out, of \<^verbatim>\<open>node_def_util.cc\<close>
  all but the name ranges. The rest of TensorFlow (compilers, kernels, GPU runtime, operation registrations) is vendored code the program does not reach.
\<close>

section \<open>From self-play to training data\<close>

text \<open>A record as the element of a tensor of strings.\<close>

definition record_text :: "bytes \<Rightarrow> string" where
  "record_text bs = map (\<lambda>b. char_of (unat b)) bs"

lemma right_result_size: "right_result r \<Longrightarrow> legal_history (rec_moves r) \<and> length (game_samples r) \<le> 362"
  using legal_history_length [of "rec_moves r"] by (simp add: right_result_def finished_def game_samples_def)

lemma samples_bound: "list_all right_result rs \<Longrightarrow> length (concat (map game_samples rs)) \<le> 362 * length rs"
  by (induction rs) (auto dest: right_result_size)

lemma decode_right_results:
  assumes "list_all right_result rs" "\<And>r. right_result r \<Longrightarrow> parse (record_text (the (ser r))) = Some r"
    "alloc_ok alloc" "\<forall>s. \<exists>t. alloc s = Inr t" "length memory = 12" "362 * length rs < 2 ^ 31"
  shows "\<exists>features scores. Compute parse alloc memory (map record_text (map (\<lambda>r. the (ser r)) rs)) = ret (Inr (features, scores)) \<and>
    samples_are (length (concat (map game_samples rs))) (concat (map game_samples rs)) (features, scores)"
proof -
  let ?records = "map record_text (map (\<lambda>r. the (ser r)) rs)"
  have same: "map (\<lambda>r. game_samples (the (parse r))) ?records = map game_samples rs"
    using assms(1,2) by (auto simp: list_all_iff)
  have n: "sample_count parse ?records = length (concat (map game_samples rs))" unfolding sample_count_def same ..
  have "sample_count parse ?records < 2 ^ 31" unfolding n using samples_bound [OF assms(1)] assms(6) by linarith
  moreover have "list_all (\<lambda>r. \<exists>g. parse r = Some g \<and> legal_history (rec_moves g)) ?records"
    using assms(1,2) right_result_size by (auto simp: list_all_iff)
  ultimately show ?thesis using Compute_samples [OF assms(3-5), of parse ?records] unfolding same n by blast
qed

text \<open>An environment in which a new file can be opened and is empty.\<close>

definition opens_empty :: "('w, ('z, 'f) out_file) environment \<Rightarrow> ('f \<Rightarrow> bytes \<Rightarrow> bool) \<Rightarrow> bool" where
  "opens_empty E holds \<longleftrightarrow> (\<forall>p w. \<exists>f w'. env_NewWritableFile E p w = ((OK, PlainFile f), w') \<and> holds f [])"

lemma new_Supervisor_log:
  assumes "deflate_contract Z ZlibOptions_DEFAULT enc fin left whole_stream" "opens_empty E holds" "1 \<le> N" "N < 2 ^ 31"
  shows "\<exists>s w1 writer f. new_Supervisor E W (open_zlib Z) N rng specs dir w = ret (s, w1) \<and> sp_actor_specs s = specs \<and>
    sp_writer s = Some writer \<and> rw_dest writer = Some f \<and> IsZlibCompressed (rw_options writer) \<and> compressed_holds enc holds f [] \<and>
    sp_player_1_won s = Fin (of_nat 0) \<and> sp_player_2_won s = Fin (of_nat 0)"
proof -
  let ?o = "CreateRecordWriterOptions ''ZLIB''"
  have o: "opt_zlib ?o = ZLIB_DEFAULT" "IsZlibCompressed ?o"
    by (simp_all add: CreateRecordWriterOptions_def IsZlibCompressed_def default_options_def)
  from assms(2) obtain f w1 where f: "env_NewWritableFile E (log_path dir 0) w = ((OK, PlainFile f), w1)" "holds f []"
    unfolding opens_empty_def by blast
  have "deflate_contract Z (zlib_options_of ZLIB_DEFAULT) enc fin left whole_stream" using assms(1) by simp
  from open_zlib_holds [where holds = holds and f = f, OF this f(2)] obtain f0 where
    f0: "open_zlib Z ZLIB_DEFAULT (PlainFile f) = (OK, f0)" "compressed_holds enc holds f0 []" by blast
  then have "RecordWriter (open_zlib Z) (PlainFile f) ?o = ret \<lparr>rw_dest = Some f0, rw_options = ?o\<rparr>"
    using o by (simp add: RecordWriter_def del: open_zlib.simps)
  moreover have "int32 (0 - N) = ret (- N)" "int32 (0 + 1) = ret 1" using assms(3,4) by (simp_all add: int32_def)
  ultimately show ?thesis using f(1) f0(2) o(2) assms(3)
    by (simp add: new_Supervisor_def RotateLog_def delete_old_log_def JoinPath_log)
qed

text \<open>
  C7. From self-play to training data. A supervisor is constructed, which opens a compressed log, and plays a batch between two random
  players, in whatever order its threads finish and whatever each finds in the shared random engine. The batch returns, and
  when its writer is closed, as the next rotation does, the file holds a compressed stream from which a record reader
  with the options \<open>"ZLIB"\<close>, also on a machine of another byte order, reads back one record per game, record \<open>i\<close> that of the game
  of thread \<open>i\<close>, and then the end of the file. \<open>DecodeReplays\<close> accepts these records and its output holds, for every position of
  every game in order, the features of that position and the score of the player to move (\<open>position_score\<close>: 1 if that player won and
  0 if the other did; in a drawn game 0 for the first player and 1, against the documentation, for the second). Of the
  serialiser only this is used: a whole game is serialised to less than \<open>2 ^ 32\<close> bytes and parsed back from them; of zlib only its
  contracts.
\<close>

theorem self_play_trains:
  assumes "lib_ok L" "global_registry g0 = ret registry" "random_name (pm_first specs)" "random_name (pm_second specs)"
    "trusted M" "trusted M'" "deflate_contract Z ZlibOptions_DEFAULT enc fin left whole_stream" "good_append W holds"
    "opens_empty E holds" "1 \<le> N" "N < 2 ^ 31" "good_serialiser ser"
    "\<forall>r. right_result r \<longrightarrow> parse (record_text (the (ser r))) = Some r"
    "\<forall>c d. whole_stream c d \<longrightarrow> (\<exists>dec. inflate_contract I ZlibOptions_DEFAULT c d dec)"
    "set (bt_order B) = {..<nat n}" "362 * nat n < 2 ^ 31"
    "alloc_ok alloc" "\<forall>s. \<exists>t. alloc s = Inr t" "length memory = 12"
  shows "\<exists>s w1 rs s' writer f b c.
    new_Supervisor E (out_writable Z W) (open_zlib Z) N rng specs dir w = ret (s, w1) \<and>
    PlayBatch (model_api L) registry E micros gen_seed M (out_writable Z W) ser B n s = ret (s', bt_env B) \<and>
    length rs = nat n \<and> list_all right_result rs \<and>
    (\<forall>i < nat n. batch_task (model_api L) registry E micros gen_seed specs (bt_threads B i) = ret (rs ! i)) \<and>
    sp_writer s' = Some writer \<and> rw_dest writer = Some f \<and>
    Writer_Close (out_writable Z W) writer = ret (OK, writer\<lparr>rw_dest := None\<rparr>) \<and>
    out_close Z W f = ret (OK, ZlibFile b) \<and> holds (zo_file b) c \<and>
    (let records = map (\<lambda>r. the (ser r)) rs; log = concat (map record_bytes records) in
     whole_stream c log \<and>
     (\<forall>src max_size. good_file c src \<and> length log < 2 ^ 63 \<and> length log + 12 \<le> max_size \<longrightarrow>
       (\<exists>st features scores.
         read_all M' max_size (ZlibInput_ReadNBytes I Input_ReadNBytes) (Suc (nat n))
           (SequentialRecordReader (reader_stream I) src (CreateRecordReaderOptions ''ZLIB'')) = ret (records, st) \<and>
         IsOutOfRange st \<and> Compute parse alloc memory (map record_text records) = ret (Inr (features, scores)) \<and>
         samples_are (length (concat (map game_samples rs))) (concat (map game_samples rs)) (features, scores) \<and>
         scores = concat (map game_scores rs))))"
proof -
  let ?W = "out_writable Z W" and ?holds = "compressed_holds enc holds"
  obtain s w1 writer0 f0 where
    s: "new_Supervisor E ?W (open_zlib Z) N rng specs dir w = ret (s, w1)" "sp_actor_specs s = specs"
      "sp_writer s = Some writer0" "rw_dest writer0 = Some f0" "IsZlibCompressed (rw_options writer0)" "?holds f0 []"
      "sp_player_1_won s = Fin (of_nat 0)" "sp_player_2_won s = Fin (of_nat 0)"
    using new_Supervisor_log [OF assms(7,9-11), of ?W rng specs dir w] by blast
  have players: "random_name (pm_first (sp_actor_specs s))" "random_name (pm_second (sp_actor_specs s))" using assms(3,4) s(2) by simp_all
  have flush: "good_flush ?W ?holds" using compressed_flush [OF assms(7,8)] by (simp add: good_flush_def)
  have few: "0 + 0 + nat n \<le> 2 ^ 24" using assms(16) by simp
  from PlayBatch_appends [OF assms(1,2) players assms(5) compressed_small_append [OF assms(7,8)] flush assms(12) s(3,4,6) assms(15) s(7,8) few,
      where E = E and micros = micros and gen_seed = gen_seed]
  obtain rs s' f where
    1: "PlayBatch (model_api L) registry E micros gen_seed M ?W ser B n s = ret (s', bt_env B)" "length rs = nat n" "list_all right_result rs"
      "\<forall>i < nat n. batch_task (model_api L) registry E micros gen_seed specs (bt_threads B i) = ret (rs ! i)"
      "sp_writer s' = Some (writer0\<lparr>rw_dest := Some f\<rparr>)" "?holds f ([] @ concat (map (\<lambda>r. record_bytes (the (ser r))) rs))"
    unfolding s(2) by (elim exE conjE) (rule that)
  let ?records = "map (\<lambda>r. the (ser r)) rs" and ?writer = "writer0\<lparr>rw_dest := Some f\<rparr>"
  have "?holds f (concat (map record_bytes ?records))" using 1(6) by (simp add: comp_def)
  from compressed_close [OF assms(7,8) this] obtain b c where
    close: "w_close ?W f = ret (OK, ZlibFile b)" "holds (zo_file b) c" "whole_stream c (concat (map record_bytes ?records))" by blast
  from assms(14) close(3) obtain dec where I: "inflate_contract I ZlibOptions_DEFAULT c (concat (map record_bytes ?records)) dec" by blast
  from decode_right_results [OF 1(3) assms(13) [rule_format] assms(17-19)] assms(16) 1(2) obtain features scores where
    2: "Compute parse alloc memory (map record_text ?records) = ret (Inr (features, scores))"
      "samples_are (length (concat (map game_samples rs))) (concat (map game_samples rs)) (features, scores)" by auto
  note 3 = 2 samples_scores [OF 2(2)]
  have "Writer_Close ?W ?writer = ret (OK, ?writer\<lparr>rw_dest := None\<rparr>)" "out_close Z W f = ret (OK, ZlibFile b)"
    using close(1) s(5) by (simp_all add: Writer_Close_def out_writable_def)
  moreover have "\<exists>st. read_all M' max_size (ZlibInput_ReadNBytes I Input_ReadNBytes) (Suc (nat n))
      (SequentialRecordReader (reader_stream I) src (CreateRecordReaderOptions ''ZLIB'')) = ret (?records, st) \<and> IsOutOfRange st"
    if "good_file c src" "length (concat (map record_bytes ?records)) < 2 ^ 63" "length (concat (map record_bytes ?records)) + 12 \<le> max_size"
    for src max_size
    using zlib_reads_back [OF I that(1) assms(6) that(2,3)] 1(2) by simp
  ultimately show ?thesis
    unfolding Let_def using s(1) 1(1-5) close(2,3) 3
    by (intro exI [of _ s] exI [of _ w1] exI [of _ rs] exI [of _ s'] exI [of _ ?writer] exI [of _ f] exI [of _ b] exI [of _ c]) auto
qed

text \<open>A serialiser for finished games: the score and then the coordinates, a byte each.\<close>

definition compact_serialise :: "recording \<Rightarrow> bytes option" where
  "compact_serialise r = Some ((if rec_score r = Fin 1 then 1 else 0) # concat (map (\<lambda>(x, y). [word_of_int x, word_of_int y]) (rec_moves r)))"

fun compact_moves :: "string \<Rightarrow> vector2i list" where
  "compact_moves (x # y # cs) = (int (of_char x), int (of_char y)) # compact_moves cs"
| "compact_moves cs = []"

definition compact_parse :: "string \<Rightarrow> recording option" where
  "compact_parse cs = (case cs of [] \<Rightarrow> None | c # rest \<Rightarrow>
     Some \<lparr>rec_moves = compact_moves rest, rec_score = (if of_char c = (1 :: nat) then Fin 1 else Fin 0)\<rparr>)"

lemma compact_coordinate: "0 \<le> i \<Longrightarrow> i < 19 \<Longrightarrow> int (unat (word_of_int i :: byte) mod 256) = i"
  by (simp add: uint_word_of_int zmod_int)

lemma compact_moves_back:
  "list_all Inside ms \<Longrightarrow> compact_moves (record_text (concat (map (\<lambda>(x, y). [word_of_int x, word_of_int y]) ms))) = ms"
  by (induction ms) (auto simp: record_text_def Inside_def compact_coordinate)

lemma compact_parse_back:
  assumes "right_result r"
  shows "compact_parse (record_text (the (compact_serialise r))) = Some r"
proof -
  have "list_all Inside (rec_moves r)"
    using assms by (auto simp: right_result_def finished_def legal_history_def list_all_iff)
  from compact_moves_back [OF this] show ?thesis
    using assms by (cases r) (auto simp: compact_parse_def compact_serialise_def right_result_def record_text_def)
qed

lemma compact_length:
  assumes "right_result r"
  shows "length (the (compact_serialise r)) \<le> 723"
proof -
  have "length (concat (map (\<lambda>(x, y). [word_of_int x, word_of_int y :: byte]) ms)) = 2 * length ms" for ms :: "vector2i list"
    by (induction ms) auto
  moreover have "length (rec_moves r) \<le> 361"
    using legal_history_length [of "rec_moves r"] right_result_size [OF assms] by blast
  ultimately show ?thesis by (simp add: compact_serialise_def)
qed

lemma compact_log_length:
  "list_all right_result rs \<Longrightarrow> length (concat (map record_bytes (map (\<lambda>r. the (compact_serialise r)) rs))) \<le> 739 * length rs"
  by (induction rs) (auto dest: compact_length)

definition zlib_env :: "(string list, (bool, bytes) out_file) environment" where
  "zlib_env = \<lparr>env_NowMicros = Pair 0, env_DeleteFile = (\<lambda>p fs. (OK, removeAll p fs)),
     env_NewWritableFile = (\<lambda>p fs. ((OK, PlainFile []), p # fs))\<rparr>"

definition random_specs :: "actor_spec PlayerMap" where
  "random_specs = \<lparr>pm_first = pm_second SelfPlay_specs, pm_second = pm_second SelfPlay_specs\<rparr>"

theorem self_play_trains_witness:
  "\<exists>s w1 rs s' b st features scores.
    new_Supervisor zlib_env (out_writable store_lib memory_file) (open_zlib store_lib) 2 0 random_specs ''logs'' [] = ret (s, w1) \<and>
    PlayBatch (model_api reference_lib) reference_registry zlib_env 10 (\<lambda>g. (int g, g + 1)) (portable_machine True)
      (out_writable store_lib memory_file) compact_serialise reference_batch 2 s = ret (s', []) \<and> length rs = 2 \<and>
    (\<exists>writer f. sp_writer s' = Some writer \<and> rw_dest writer = Some f \<and> out_close store_lib memory_file f = ret (OK, ZlibFile b)) \<and>
    read_all (portable_machine False) 2000 (ZlibInput_ReadNBytes stored_lib Input_ReadNBytes) 3
      (SequentialRecordReader (reader_stream stored_lib) (file_of (zo_file b)) (CreateRecordReaderOptions ''ZLIB'')) =
      ret (map (\<lambda>r. the (compact_serialise r)) rs, st) \<and>
    Compute compact_parse (\<lambda>s. Inr (replicate (nat (prod_list (sizes False s))) NaN)) (replicate 12 0)
      (map record_text (map (\<lambda>r. the (compact_serialise r)) rs)) = ret (Inr (features, scores)) \<and>
    scores = concat (map game_scores rs)"
proof -
  let ?ser = "\<lambda>r. the (compact_serialise r)"
  let ?alloc = "\<lambda>s. Inr (replicate (nat (prod_list (sizes False s))) NaN) :: status + fp list"
  have names: "random_name (pm_first random_specs)" "random_name (pm_second random_specs)"
    by (simp_all add: random_specs_def SelfPlay_specs_def random_name_def)
  have opens: "opens_empty zlib_env (=)" by (simp add: opens_empty_def zlib_env_def)
  have "\<exists>bs. compact_serialise r = Some bs \<and> length bs < 2 ^ 32" if "right_result r" for r
    using compact_length [OF that] by (simp add: compact_serialise_def)
  then have ser: "good_serialiser compact_serialise" by (simp add: good_serialiser_def)
  have parses: "\<forall>r. right_result r \<longrightarrow> compact_parse (record_text (?ser r)) = Some r" using compact_parse_back by blast
  have inflates: "\<forall>c d. c = d \<longrightarrow> (\<exists>dec. inflate_contract stored_lib ZlibOptions_DEFAULT c d dec)" using stored_contract by blast
  have perm: "set (bt_order reference_batch) = {..<nat 2}" by (auto simp: reference_batch_def numeral_2_eq_2)
  have alloc: "alloc_ok ?alloc" "\<forall>s. \<exists>t. ?alloc s = Inr t" by (auto simp: alloc_ok_def denotes_facts(3))
  have sizes: "1 \<le> (2 :: int)" "(2 :: int) < 2 ^ 31" "362 * nat 2 < 2 ^ 31" "length (replicate 12 (0 :: byte)) = 12" by simp_all
  note trains = self_play_trains [OF reference_lib_ok reference_registry names reference_file(1) [of True] reference_file(1) [of False] store_contract
      reference_file(2) opens sizes(1,2) ser parses inflates perm sizes(3) alloc sizes(4),
      where rng = 0 and dir = "''logs''" and w = "[]" and micros = 10 and gen_seed = "\<lambda>g. (int g, g + 1)"]
  then obtain s w1 rs s' writer f b c where
    1: "new_Supervisor zlib_env (out_writable store_lib memory_file) (open_zlib store_lib) 2 0 random_specs ''logs'' [] = ret (s, w1)"
      "PlayBatch (model_api reference_lib) reference_registry zlib_env 10 (\<lambda>g. (int g, g + 1)) (portable_machine True)
        (out_writable store_lib memory_file) compact_serialise reference_batch 2 s = ret (s', bt_env reference_batch)"
      "length rs = nat 2" "list_all right_result rs"
    and 2: "sp_writer s' = Some writer" "rw_dest writer = Some f" "out_close store_lib memory_file f = ret (OK, ZlibFile b)" "zo_file b = c"
      "c = concat (map record_bytes (map ?ser rs))"
    and 3: "\<forall>src max_size. good_file c src \<and> length (concat (map record_bytes (map ?ser rs))) < 2 ^ 63 \<and>
          length (concat (map record_bytes (map ?ser rs))) + 12 \<le> max_size \<longrightarrow>
        (\<exists>st features scores. read_all (portable_machine False) max_size (ZlibInput_ReadNBytes stored_lib Input_ReadNBytes) (Suc (nat 2))
            (SequentialRecordReader (reader_stream stored_lib) src (CreateRecordReaderOptions ''ZLIB'')) = ret (map ?ser rs, st) \<and>
          IsOutOfRange st \<and> Compute compact_parse ?alloc (replicate 12 0) (map record_text (map ?ser rs)) = ret (Inr (features, scores)) \<and>
          samples_are (length (concat (map game_samples rs))) (concat (map game_samples rs)) (features, scores) \<and>
          scores = concat (map game_scores rs))"
    unfolding Let_def by (elim exE conjE) (rule that)
  have "length c \<le> 739 * 2" using compact_log_length [OF 1(4)] 1(3) 2(5) by simp
  then have "good_file c (file_of c) \<and> length c < 2 ^ 63 \<and> length c + 12 \<le> 2000" using good_file_of [of c] by simp
  with 3 [rule_format, of "file_of c" 2000] 2(5) obtain st features scores where
    "read_all (portable_machine False) 2000 (ZlibInput_ReadNBytes stored_lib Input_ReadNBytes) 3
        (SequentialRecordReader (reader_stream stored_lib) (file_of c) (CreateRecordReaderOptions ''ZLIB'')) = ret (map ?ser rs, st)"
      "Compute compact_parse ?alloc (replicate 12 0) (map record_text (map ?ser rs)) = ret (Inr (features, scores))"
      "scores = concat (map game_scores rs)" by (auto simp: numeral_3_eq_3 numeral_2_eq_2)
  then show ?thesis using 1 2(1-4) by (intro exI [of _ s] exI [of _ w1] exI [of _ rs] exI [of _ s'] exI [of _ b] exI [of _ st]
        exI [of _ features] exI [of _ scores]) (auto simp: reference_batch_def)
qed

end
